(* ===== verification/HwfPrelude.thy ===== *)
theory HwfPrelude
  imports Main "HOL-Library.Word" "HOL-Library.Monad_Syntax"
begin

text \<open>
  Shared vocabulary of the development: the C integer widths, the Linux error numbers, bounded
  array access, and the generic facts on lists, options and words that the component theories use.

  Conventions used everywhere.
  \<^item> A C function that changes the driver state is a function of the state that returns the new
    state with the C return value, inside \<open>option\<close>. \<open>None\<close> is a run that the C program does not
    complete: an access outside an array or through a NULL or freed pointer, or a spin on a lock
    word that nobody is going to clear.
  \<^item> Error codes are values: \<open>0\<close> or a negative error number, as the code returns them.
  \<^item> \<open>u16\<close>, \<open>u32\<close>, \<open>u64\<close> are words that wrap around as in C.
\<close>

unbundle bit_operations_syntax

type_synonym u16 = "16 word"
type_synonym u32 = "32 word"
type_synonym u64 = "64 word"

named_theorems hwf_eval "definitions that are unfolded to run the model on concrete states"
named_theorems hwf_frame "what an operation leaves unchanged"

subsection \<open>Error numbers\<close>

abbreviation EPERM :: int where "EPERM \<equiv> 1"
abbreviation EAGAIN :: int where "EAGAIN \<equiv> 11"
abbreviation ENOMEM :: int where "ENOMEM \<equiv> 12"
abbreviation EFAULT :: int where "EFAULT \<equiv> 14"
abbreviation EEXIST :: int where "EEXIST \<equiv> 17"
abbreviation ENODEV :: int where "ENODEV \<equiv> 19"
abbreviation EINVAL :: int where "EINVAL \<equiv> 22"
abbreviation ERANGE :: int where "ERANGE \<equiv> 34"

subsection \<open>Bounded array access\<close>

definition fetch :: "'a list \<Rightarrow> nat \<Rightarrow> 'a option" where
  "fetch xs i = (if i < length xs then Some (xs ! i) else None)"

lemma fetch_in [simp]: "i < length xs \<Longrightarrow> fetch xs i = Some (xs ! i)"
  by (simp add: fetch_def)

lemma fetch_out [simp]: "\<not> i < length xs \<Longrightarrow> fetch xs i = None"
  by (simp add: fetch_def)

lemma fetch_eq_Some: "fetch xs i = Some x \<longleftrightarrow> i < length xs \<and> xs ! i = x"
  by (auto simp: fetch_def)

lemma fetch_list_update: "i < length xs \<Longrightarrow> fetch (xs[i := x]) j = (if i = j then Some x else fetch xs j)"
  by (auto simp: fetch_def)

subsection \<open>The kernel's bit macro\<close>

text \<open>\<open>BIT(n)\<close> is \<open>1UL << n\<close>; C defines it for \<open>n < 64\<close> only, and so it is used below.\<close>

definition BIT :: "u32 \<Rightarrow> u64" where
  "BIT n = push_bit (unat n) 1"

lemma bit_BIT: "bit (BIT n) k \<longleftrightarrow> k = unat n \<and> k < 64"
  unfolding BIT_def by (subst bit_push_bit_iff) (auto simp: bit_1_iff)

lemma and_BIT_iff: "unat n < 64 \<Longrightarrow> (m AND BIT n \<noteq> 0) = bit m (unat n)"
proof -
  assume n: "unat n < 64"
  have "m AND BIT n = (if bit m (unat n) then BIT n else 0)"
    by (rule bit_eqI) (auto simp: bit_and_iff bit_BIT)
  moreover have "BIT n \<noteq> 0"
    using n bit_BIT [of n "unat n"] by auto
  ultimately show ?thesis by simp
qed

lemma clear_BIT: "m AND NOT (BIT n) AND BIT n = 0"
  by (rule bit_eqI) (simp add: bit_and_iff bit_not_iff)

lemma clear_BIT_other: "i \<noteq> j \<Longrightarrow> m AND NOT (BIT i) AND BIT j = m AND BIT j"
  by (rule bit_eqI) (auto simp: bit_and_iff bit_not_iff bit_BIT dest: word_unat_eq_iff [THEN iffD2])

lemma set_BIT: "unat n < 64 \<Longrightarrow> (m OR BIT n) AND BIT n \<noteq> 0"
  by (subst and_BIT_iff) (simp_all add: bit_or_iff bit_BIT)

subsection \<open>Counting up a word\<close>

lemma unat_Suc_below:
  fixes s y :: "'a::len word"
  assumes "s < y"
  shows "unat (s + 1) = Suc (unat s)"
proof -
  have "unat s < unat y" using assms by (simp add: word_less_nat_alt)
  moreover have "unat y < 2 ^ LENGTH('a)" by (rule unsigned_less)
  ultimately have "Suc (unat s) < 2 ^ LENGTH('a)" by linarith
  then show ?thesis
    by (subst unat_add_lem [THEN iffD1]) simp_all
qed

lemma unat_ucast_up [simp]: "unat (ucast (n :: u32) :: u64) = unat n"
proof -
  have "unat n < 2 ^ LENGTH(32)" by (rule unsigned_less)
  then show ?thesis
    by (simp add: unsigned_ucast_eq take_bit_nat_eq_self)
qed

lemma eq_of_natI: "unat x = n \<Longrightarrow> x = of_nat n"
  by auto

lemma unat_of_nat_u64: "k < unat (n :: u32) \<Longrightarrow> unat (of_nat k :: u64) = k"
proof -
  assume "k < unat n"
  moreover have "unat n < 2 ^ LENGTH(32)" by (rule unsigned_less)
  ultimately show ?thesis by (simp add: unat_of_nat)
qed

lemma of_nat_less_ucast: "k < unat (n :: u32) \<Longrightarrow> (of_nat k :: u64) < ucast n"
  by (simp add: word_less_nat_alt unat_of_nat_u64)

subsection \<open>Lists\<close>

lemma list_all_update: "list_all P xs \<Longrightarrow> P x \<Longrightarrow> list_all P (xs[i := x])"
  by (auto simp: list_all_iff dest!: set_update_subset_insert [THEN subsetD])

lemma list_all_nthD: "list_all P xs \<Longrightarrow> i < length xs \<Longrightarrow> P (xs ! i)"
  by (simp add: list_all_iff)

text \<open>Distinct images of the elements that satisfy a predicate, by index.\<close>

lemma distinct_map_filter:
  "distinct (map g (filter P xs)) \<longleftrightarrow>
    (\<forall>i<length xs. \<forall>j<length xs. P (xs ! i) \<longrightarrow> P (xs ! j) \<longrightarrow> g (xs ! i) = g (xs ! j) \<longrightarrow> i = j)"
proof (induction xs)
  case Nil
  then show ?case by simp
next
  case (Cons x xs)
  have "g x \<notin> g ` set (filter P xs) \<longleftrightarrow> (\<forall>j<length xs. P (xs ! j) \<longrightarrow> g x \<noteq> g (xs ! j))"
    by (auto simp: in_set_conv_nth image_iff)
  with Cons show ?case
    by (auto simp: All_less_Suc2)
qed


subsection \<open>Keyed tables\<close>

text \<open>
  A list whose elements that satisfy \<open>P\<close> are entries with key \<open>g\<close>: where an entry is, whether keys
  are unique, the table as a map, and how the map changes when one element is replaced.
\<close>

definition keyed_at :: "('a \<Rightarrow> bool) \<Rightarrow> ('a \<Rightarrow> 'k) \<Rightarrow> 'a list \<Rightarrow> 'k \<Rightarrow> nat \<Rightarrow> bool" where
  "keyed_at P g xs k i \<longleftrightarrow> i < length xs \<and> P (xs ! i) \<and> g (xs ! i) = k"

definition keyed_unique :: "('a \<Rightarrow> bool) \<Rightarrow> ('a \<Rightarrow> 'k) \<Rightarrow> 'a list \<Rightarrow> bool" where
  "keyed_unique P g xs \<longleftrightarrow> distinct (map g (filter P xs))"

definition keyed_map :: "('a \<Rightarrow> bool) \<Rightarrow> ('a \<Rightarrow> 'k) \<Rightarrow> 'a list \<Rightarrow> 'k \<Rightarrow> 'a option" where
  "keyed_map P g xs = map_of (map (\<lambda>x. (g x, x)) (filter P xs))"

lemma keyed_uniqueD:
  "keyed_unique P g xs \<Longrightarrow> keyed_at P g xs k i \<Longrightarrow> keyed_at P g xs k j \<Longrightarrow> i = j"
  by (auto simp: keyed_unique_def distinct_map_filter keyed_at_def)

lemma keyed_uniqueI:
  "(\<And>k i j. keyed_at P g xs k i \<Longrightarrow> keyed_at P g xs k j \<Longrightarrow> i = j) \<Longrightarrow> keyed_unique P g xs"
  unfolding keyed_unique_def distinct_map_filter keyed_at_def by metis

lemma keyed_map_iff:
  "keyed_unique P g xs \<Longrightarrow> keyed_map P g xs k = Some x \<longleftrightarrow> (\<exists>i. keyed_at P g xs k i \<and> xs ! i = x)"
  by (auto simp: keyed_map_def keyed_unique_def keyed_at_def in_set_conv_nth comp_def)

lemma keyed_map_None_iff: "keyed_map P g xs k = None \<longleftrightarrow> (\<forall>i. \<not> keyed_at P g xs k i)"
  by (auto simp: keyed_map_def keyed_at_def map_of_eq_None_iff in_set_conv_nth image_iff)

lemma keyed_map_at: "keyed_unique P g xs \<Longrightarrow> keyed_at P g xs k i \<Longrightarrow> keyed_map P g xs k = Some (xs ! i)"
  by (auto simp: keyed_map_iff)

lemma keyed_map_eqI:
  assumes "keyed_unique P g xs" and "\<And>k i. keyed_at P g xs k i \<Longrightarrow> m k = Some (xs ! i)"
    and "\<And>k. (\<And>i. \<not> keyed_at P g xs k i) \<Longrightarrow> m k = None"
  shows "keyed_map P g xs = m"
proof
  fix k
  show "keyed_map P g xs k = m k"
  proof (cases "\<exists>i. keyed_at P g xs k i")
    case True
    then obtain i where i: "keyed_at P g xs k i" by blast
    then have "keyed_map P g xs k = Some (xs ! i)"
      using assms(1) by (simp add: keyed_map_at)
    with assms(2) [OF i] show ?thesis by simp
  next
    case False
    then have "keyed_map P g xs k = None" by (simp add: keyed_map_None_iff)
    with assms(3) False show ?thesis by simp
  qed
qed

lemma keyed_at_update:
  "i < length xs \<Longrightarrow> keyed_at P g (xs[i := x]) k j \<longleftrightarrow>
    (if j = i then P x \<and> g x = k else keyed_at P g xs k j)"
  by (auto simp: keyed_at_def nth_list_update)

lemma keyed_insert:
  assumes "keyed_unique P g xs" and i: "i < length xs" and "\<not> P (xs ! i)"
    and "P x" and "keyed_map P g xs (g x) = None"
  shows "keyed_unique P g (xs[i := x])" and "keyed_map P g (xs[i := x]) = (keyed_map P g xs)(g x \<mapsto> x)"
proof -
  have no: "\<not> keyed_at P g xs (g x) j" "\<not> keyed_at P g xs k i" for j k
    using assms(5) by (simp_all add: keyed_map_None_iff) (simp add: keyed_at_def assms(3))
  have at: "keyed_at P g (xs[i := x]) k j \<longleftrightarrow> (if k = g x then j = i else j \<noteq> i \<and> keyed_at P g xs k j)" for k j
    using i assms(4) no by (auto simp: keyed_at_update)
  show uniq: "keyed_unique P g (xs[i := x])"
    by (rule keyed_uniqueI) (auto simp: at dest: keyed_uniqueD [OF assms(1)] split: if_splits)
  show "keyed_map P g (xs[i := x]) = (keyed_map P g xs)(g x \<mapsto> x)"
  proof (rule keyed_map_eqI [OF uniq])
    fix k j assume "keyed_at P g (xs[i := x]) k j"
    then show "((keyed_map P g xs)(g x \<mapsto> x)) k = Some (xs[i := x] ! j)"
      using i assms(1) by (auto simp: at keyed_map_at split: if_splits)
  next
    fix k assume none: "\<And>j. \<not> keyed_at P g (xs[i := x]) k j"
    have "k \<noteq> g x" using none [of i] at [of k i] by auto
    moreover have "\<not> keyed_at P g xs k j" for j
      using none [of j] at [of k j] no(2) [of k] \<open>k \<noteq> g x\<close> by metis
    ultimately show "((keyed_map P g xs)(g x \<mapsto> x)) k = None"
      by (simp add: keyed_map_None_iff)
  qed
qed

lemma keyed_delete:
  assumes "keyed_unique P g xs" and i: "keyed_at P g xs k i" and x: "\<not> P x"
  shows "keyed_unique P g (xs[i := x])" and "keyed_map P g (xs[i := x]) = (keyed_map P g xs)(k := None)"
proof -
  have il: "i < length xs" and ki: "g (xs ! i) = k" using i by (simp_all add: keyed_at_def)
  have at: "keyed_at P g (xs[i := x]) k' j \<longleftrightarrow> k' \<noteq> k \<and> keyed_at P g xs k' j" for k' j
  proof (cases "j = i")
    case True
    with x il ki show ?thesis by (simp add: keyed_at_update) (auto simp: keyed_at_def)
  next
    case False
    with il have "keyed_at P g (xs[i := x]) k' j = keyed_at P g xs k' j"
      by (simp add: keyed_at_update)
    with False keyed_uniqueD [OF assms(1) i, of j] show ?thesis by auto
  qed
  show uniq: "keyed_unique P g (xs[i := x])"
    by (rule keyed_uniqueI) (auto simp: at dest: keyed_uniqueD [OF assms(1)])
  show "keyed_map P g (xs[i := x]) = (keyed_map P g xs)(k := None)"
  proof (rule keyed_map_eqI [OF uniq])
    fix k' j assume "keyed_at P g (xs[i := x]) k' j"
    then have j: "k' \<noteq> k" "keyed_at P g xs k' j" by (simp_all add: at)
    then have "j \<noteq> i" using ki by (auto simp: keyed_at_def)
    with j assms(1) show "((keyed_map P g xs)(k := None)) k' = Some (xs[i := x] ! j)"
      by (simp add: keyed_map_at)
  next
    fix k' assume "\<And>j. \<not> keyed_at P g (xs[i := x]) k' j"
    then show "((keyed_map P g xs)(k := None)) k' = None"
      by (auto simp: at keyed_map_None_iff)
  qed
qed

lemma keyed_replace:
  assumes "keyed_unique P g xs" and i: "keyed_at P g xs k i" and x: "P x" "g x = k"
  shows "keyed_unique P g (xs[i := x])" and "keyed_map P g (xs[i := x]) = (keyed_map P g xs)(k \<mapsto> x)"
proof -
  have il: "i < length xs" using i by (simp add: keyed_at_def)
  have at: "keyed_at P g (xs[i := x]) k' j \<longleftrightarrow> keyed_at P g xs k' j" for k' j
    using i x il by (auto simp: keyed_at_update) (auto simp: keyed_at_def)
  have ne: "j \<noteq> i" if "keyed_at P g xs k' j" "k' \<noteq> k" for k' j
    using that i by (auto simp: keyed_at_def)
  show uniq: "keyed_unique P g (xs[i := x])"
    by (rule keyed_uniqueI) (auto simp: at dest: keyed_uniqueD [OF assms(1)])
  show "keyed_map P g (xs[i := x]) = (keyed_map P g xs)(k \<mapsto> x)"
  proof (rule keyed_map_eqI [OF uniq])
    fix k' j assume "keyed_at P g (xs[i := x]) k' j"
    then have j: "keyed_at P g xs k' j" by (simp add: at)
    show "((keyed_map P g xs)(k \<mapsto> x)) k' = Some (xs[i := x] ! j)"
    proof (cases "k' = k")
      case True
      with keyed_uniqueD [OF assms(1) i] j il show ?thesis by auto
    next
      case False
      with ne [OF j] j assms(1) show ?thesis by (simp add: keyed_map_at)
    qed
  next
    fix k' assume "\<And>j. \<not> keyed_at P g (xs[i := x]) k' j"
    then show "((keyed_map P g xs)(k \<mapsto> x)) k' = None"
      using i by (auto simp: at keyed_map_None_iff)
  qed
qed

text \<open>Replacing an element that is no entry by another one, or an entry by one with the same key.\<close>

lemma keyed_skip:
  assumes "i < length xs" and "\<not> P (xs ! i)" and "\<not> P x"
  shows "keyed_unique P g (xs[i := x]) = keyed_unique P g xs"
    and "keyed_map P g (xs[i := x]) = keyed_map P g xs"
proof -
  have "filter P (xs[i := x]) = filter P xs"
    using assms
    by (subst (2) id_take_nth_drop [OF assms(1)]) (simp add: upd_conv_take_nth_drop)
  then show "keyed_unique P g (xs[i := x]) = keyed_unique P g xs"
    and "keyed_map P g (xs[i := x]) = keyed_map P g xs"
    by (simp_all add: keyed_unique_def keyed_map_def)
qed

lemma length_filter_update:
  assumes "i < length xs"
  shows "length (filter P (xs[i := x])) + (if P (xs ! i) then 1 else 0)
    = length (filter P xs) + (if P x then 1 else 0)"
proof -
  have "length (filter P (take i xs @ y # drop (Suc i) xs))
      = length (filter P (take i xs)) + length (filter P (drop (Suc i) xs)) + (if P y then 1 else 0)" for y
    by simp
  from this [of x] this [of "xs ! i"] assms show ?thesis
    by (simp add: upd_conv_take_nth_drop id_take_nth_drop [symmetric])
qed

lemma length_filter_pos: "0 < length (filter P xs) \<longleftrightarrow> (\<exists>i<length xs. P (xs ! i))"
  by (metis filter_empty_conv in_set_conv_nth length_greater_0_conv)


subsection \<open>Repeated operations\<close>

text \<open>An operation of the driver for each element of a list, until one fails.\<close>

fun chain :: "('a \<Rightarrow> 's \<Rightarrow> 's option) \<Rightarrow> 'a list \<Rightarrow> 's \<Rightarrow> 's option" where
  "chain f [] s = Some s"
| "chain f (x # xs) s = do { s \<leftarrow> f x s; chain f xs s }"

lemma chain_append: "chain f (xs @ ys) s = do { s \<leftarrow> chain f xs s; chain f ys s }"
  by (induction xs arbitrary: s) (simp_all split: Option.bind_split)

lemma chain_inv:
  assumes "chain f xs s = Some s'" and "P s" and "\<And>x s s'. x \<in> set xs \<Longrightarrow> f x s = Some s' \<Longrightarrow> P s \<Longrightarrow> P s'"
  shows "P s'"
  using assms
  by (induction xs arbitrary: s) (auto simp: Option.bind_eq_Some_conv)


lemma chain_cong: "(\<And>x s. x \<in> set xs \<Longrightarrow> f x s = g x s) \<Longrightarrow> chain f xs s = chain g xs s"
  by (induction xs arbitrary: s) (auto cong: Option.bind_cong)

text \<open>Nested loops as one.\<close>

lemma chain_nested:
  "chain (\<lambda>i. chain (f i) (js i)) is s = chain (\<lambda>(i, j). f i j) (concat (map (\<lambda>i. map (Pair i) (js i)) is)) s"
proof (induction "is" arbitrary: s)
  case Nil
  then show ?case by simp
next
  case (Cons i "is")
  have "chain (\<lambda>(i, j). f i j) (map (Pair i) ys) t = chain (f i) ys t" for ys t
    by (induction ys arbitrary: t) (simp_all split: Option.bind_split)
  with Cons show ?case by (simp add: chain_append cong: Option.bind_cong)
qed

text \<open>
  A loop that puts an entry for each element into an array of its own cell and advances an offset.
\<close>

lemma chain_place:
  fixes off :: "'o::comm_monoid_add"
  assumes "\<And>x t off. x \<in> set xs \<Longrightarrow> length t = n \<Longrightarrow> f x (t, off) = Some (t[c x := e x off], off + m x)"
    and "distinct (map c xs)" and "\<And>x. x \<in> set xs \<Longrightarrow> c x < n" and "length t = n"
  shows "\<exists>t'. chain f xs (t, off) = Some (t', off + (\<Sum>x\<leftarrow>xs. m x)) \<and> length t' = n \<and>
    (\<forall>k<length xs. t' ! c (xs ! k) = e (xs ! k) (off + (\<Sum>x\<leftarrow>take k xs. m x))) \<and>
    (\<forall>i. i \<notin> c ` set xs \<longrightarrow> t' ! i = t ! i)"
  using assms
proof (induction xs arbitrary: t off)
  case Nil
  then show ?case by simp
next
  case (Cons x xs)
  have "\<exists>t'. chain f xs (t[c x := e x off], off + m x) = Some (t', off + m x + (\<Sum>x\<leftarrow>xs. m x)) \<and>
    length t' = n \<and>
    (\<forall>k<length xs. t' ! c (xs ! k) = e (xs ! k) (off + m x + (\<Sum>x\<leftarrow>take k xs. m x))) \<and>
    (\<forall>i. i \<notin> c ` set xs \<longrightarrow> t' ! i = t[c x := e x off] ! i)"
    using Cons.prems by (intro Cons.IH) simp_all
  then obtain t' where t': "chain f xs (t[c x := e x off], off + m x) = Some (t', off + m x + (\<Sum>x\<leftarrow>xs. m x))"
    "length t' = n" "\<forall>k<length xs. t' ! c (xs ! k) = e (xs ! k) (off + m x + (\<Sum>x\<leftarrow>take k xs. m x))"
    "\<forall>i. i \<notin> c ` set xs \<longrightarrow> t' ! i = t[c x := e x off] ! i"
    by blast
  have "c x < n" "c x \<notin> c ` set xs" using Cons.prems(2,3) by auto
  then have "t' ! c x = e x off" using t'(4) Cons.prems(4) by simp
  then have "t' ! c ((x # xs) ! k) = e ((x # xs) ! k) (off + (\<Sum>x\<leftarrow>take k (x # xs). m x))"
    if "k < length (x # xs)" for k
    using that t'(3) by (cases k) (simp_all add: add.assoc)
  moreover have "t' ! i = t ! i" if "i \<notin> c ` set (x # xs)" for i
    using that t'(4) by auto
  moreover have "chain f (x # xs) (t, off) = Some (t', off + (\<Sum>x\<leftarrow>x # xs. m x))"
    using t'(1) Cons.prems(1) [of x t off] Cons.prems(4) by (simp add: add.assoc)
  ultimately show ?case using t'(2) by blast
qed

end
