(* ===== verification/HwfTypes.thy ===== *)
theory HwfTypes
  imports HwfPrelude
begin

text \<open>
  The data of the hw-fence driver (\<open>hw_fence_drv_priv.h\<close>, \<open>hw_fence_drv_utils.h\<close>): the structures as
  records whose fields keep the C names behind a short prefix (\<open>hf_\<close> for \<open>struct msm_hw_fence\<close>,
  \<open>qp_\<close> for the queue payload, \<open>qd_\<close> for the queue descriptor, \<open>cl_\<close> for the client, \<open>df_\<close> for the
  kernel's \<open>dma_fence\<close>), and the driver state \<open>hwf\<close>.

  Constants that the driver takes from kernel headers outside the repository (the numbering of
  \<open>enum hw_fence_client_id\<close>, the size of the HFI headers, the dma-fence flag bits, the reset flags,
  the page size) are the fields of a \<open>platform\<close> record, a parameter of every definition that needs
  one of them.
\<close>

subsection \<open>Constants of the kernel headers\<close>

datatype client_name = CTRL_QUEUE | CTX0
  | CTL0 | CTL1 | CTL2 | CTL3 | CTL4 | CTL5
  | VAL0 | VAL1 | VAL2 | VAL3 | VAL4 | VAL5 | VAL6
  | IPE | VPU
  | IFE0 | IFE1 | IFE2 | IFE3 | IFE4 | IFE5 | IFE6 | IFE7
  | CLIENT_MAX

record platform =
  client_id :: "client_name \<Rightarrow> u32"
  max_signal_per_client :: u32
  sizeof_hfi_table_header :: u64
  sizeof_hfi_queue_header :: u64
  flag_enabled_bit :: nat
  flag_signaled_bit :: nat
  reset_without_error :: u32
  reset_without_destroy :: u32
  error_reset :: u32
  page_size :: u64

subsection \<open>Structures of the driver\<close>

record msm_hw_fence_queue =
  qd_va_queue :: u64
  qd_q_size_bytes :: u32
  qd_va_header :: u64
  qd_pa_queue :: u64

record msm_hw_fence_mem_addr =
  md_virtual_addr :: u64
  md_device_addr :: u64
  md_size :: u32

record msm_hw_fence_client =
  cl_client_id :: u32
  cl_client_id_ext :: u32
  cl_mem_descriptor :: msm_hw_fence_mem_addr
  cl_queues :: "msm_hw_fence_queue list"
  cl_ipc_signal_id :: int
  cl_ipc_client_vid :: int
  cl_ipc_client_pid :: int
  cl_update_rxq :: bool
  cl_send_ipc :: bool
  cl_skip_txq_wr_idx :: bool
  cl_val_signal :: int

record hw_fence_client_queue_size_desc =
  qs_queues_num :: u32
  qs_queue_entries :: u32
  qs_mem_size :: u32
  qs_start_offset :: u32
  qs_skip_txq_wr_idx :: bool

record hw_fence_client_type_desc =
  ct_init_id :: u32
  ct_max_clients_num :: u32
  ct_clients_num :: u32
  ct_queues_num :: u32
  ct_queue_entries :: u32
  ct_mem_size :: u32
  ct_skip_txq_wr_idx :: bool

record msm_hw_fence_queue_payload =
  qp_size :: u32
  qp_type :: u16
  qp_version :: u16
  qp_ctxt_id :: u64
  qp_seqno :: u64
  qp_hash :: u64
  qp_flags :: u64
  qp_client_data :: u64
  qp_error :: u32
  qp_timestamp_lo :: u32
  qp_timestamp_hi :: u32
  qp_reserve :: u32

record msm_hw_fence =
  hf_valid :: u32
  hf_error :: u32
  hf_ctx_id :: u64
  hf_seq_id :: u64
  hf_wait_client_mask :: u64
  hf_fence_allocator :: u32
  hf_fence_signal_client :: u32
  hf_lock :: u64
  hf_flags :: u64
  hf_parent_list :: "u64 list"
  hf_parents_cnt :: u32
  hf_pending_child_cnt :: u32
  hf_fence_create_time :: u64
  hf_fence_trigger_time :: u64
  hf_fence_wait_time :: u64
  hf_debug_refcount :: u64
  hf_client_data :: "u64 list"

record hw_fence_client_ipc_map =
  im_virt :: int
  im_phys :: int
  im_signal_id :: int
  im_update_rxq :: bool
  im_send_ipc :: bool

text \<open>The queue header in the memory shared with the fence controller: the fields the driver uses.\<close>

record hfi_queue_header =
  qh_start_addr :: u64
  qh_type :: u32
  qh_queue_size :: u32
  qh_pkt_size :: u32
  qh_read_index :: u32
  qh_write_index :: u32
  qh_tx_wm :: u32

record hfi_table_header =
  th_version :: u32
  th_size :: u32
  th_qhdr0_offset :: u32
  th_qhdr_size :: u32
  th_num_q :: u32
  th_num_active_q :: u32

text \<open>
  The kernel's fences as the driver sees them: a plain fence, or (\<open>to_dma_fence_array\<close> not NULL) a
  fence array with its declared count and its array of children, \<open>None\<close> if that pointer is NULL.
  Fences are addressed by number in the field \<open>dma_fences\<close> of the state.
\<close>

record dma_fence_array =
  fa_num_fences :: u32
  fa_fences :: "nat option list option"

record dma_fence =
  df_context :: u64
  df_seqno :: u64
  df_flags :: u64
  df_array :: "dma_fence_array option"

subsection \<open>The driver state\<close>

text \<open>
  \<open>struct hw_fence_driver_data\<close>, and the memory its pointers lead to:
  \<^item> \<open>hw_fences_tbl\<close> is the fence table at the address \<open>hw_fences_tbl_va\<close> (0 is NULL);
  \<^item> \<open>clients\<close> is the table of client handles, and a handle is an address in \<open>client_objs\<close>, the
    client objects that are allocated (\<open>kfree\<close> removes the object);
  \<^item> \<open>hfi_hdrs\<close> and \<open>q_words\<close> hold, for an address of the carved-out memory, the queue header or the
    32-bit words of the queue that start there;
  \<^item> \<open>io_writes\<close> is the sequence of register writes (address, value) the driver made to the IPC
    controller, the latest last; \<open>qtime\<close> is the value the timer register shows.
\<close>

record hwf =
  hw_fence_table_entries :: u32
  hw_fence_mem_fences_table_size :: u32
  hw_fence_queue_entries :: u32
  hw_fence_ctrl_queue_size :: u32
  hw_fence_mem_ctrl_queues_size :: u32
  hw_fence_client_queue_size :: "hw_fence_client_queue_size_desc list"
  hw_fence_client_types :: "hw_fence_client_type_desc list"
  rxq_clients_num :: u32
  clients_num :: u32
  hw_fences_tbl_va :: u64
  hw_fences_tbl :: "msm_hw_fence list"
  hw_fences_tbl_cnt :: u32
  client_lock_tbl :: "u64 list"
  client_lock_tbl_cnt :: u32
  ctrl_queues :: "msm_hw_fence_queue list"
  ctrl_queue_mem_desc :: msm_hw_fence_mem_addr
  io_mem_base :: u64
  res_start :: u64
  res_size :: u64
  used_mem_size :: u32
  lock_wake_cnt :: u64
  ipcc_io_mem :: u64
  protocol_id :: u32
  ipcc_client_vid :: u32
  ipcc_client_pid :: u32
  ipc_clients_table :: "hw_fence_client_ipc_map list"
  qtime :: u64
  ctl_start_ptr :: "u64 list"
  clients :: "nat option list"
  client_objs :: "nat \<Rightarrow> msm_hw_fence_client option"
  next_obj :: nat
  resources_ready :: bool
  vm_ready :: bool
  ipcc_dpu_initialized :: bool
  hfi_tables :: "u64 \<Rightarrow> hfi_table_header"
  hfi_hdrs :: "u64 \<Rightarrow> hfi_queue_header"
  q_words :: "u64 \<Rightarrow> u32 list"
  io_writes :: "(u64 \<times> u32) list"
  dma_fences :: "nat \<Rightarrow> dma_fence option"

subsection \<open>Constants of the driver\<close>

definition HW_FENCE_TX_QUEUE :: nat where "HW_FENCE_TX_QUEUE = 1"
definition HW_FENCE_RX_QUEUE :: nat where "HW_FENCE_RX_QUEUE = 2"
definition HW_FENCE_CLIENT_QUEUES :: nat where "HW_FENCE_CLIENT_QUEUES = 2"
definition HW_FENCE_CTRL_QUEUES :: nat where "HW_FENCE_CTRL_QUEUES = 2"

abbreviation TXQ :: nat where "TXQ \<equiv> HW_FENCE_TX_QUEUE - 1"
abbreviation RXQ :: nat where "RXQ \<equiv> HW_FENCE_RX_QUEUE - 1"

definition HW_FENCE_MAX_DPU_LOOPBACK_CLIENTS :: nat where "HW_FENCE_MAX_DPU_LOOPBACK_CLIENTS = 6"

definition HW_FENCE_INVALID_PARENT_FENCE :: u64 where
  "HW_FENCE_INVALID_PARENT_FENCE = - 1"

definition HW_FENCE_JOIN_FENCE_CLIENT_ID :: u32 where
  "HW_FENCE_JOIN_FENCE_CLIENT_ID = - 1"

definition MSM_HW_FENCE_FLAG_SIGNAL :: u64 where
  "MSM_HW_FENCE_FLAG_SIGNAL = BIT 0"

definition MSM_HW_FENCE_MAX_JOIN_PARENTS :: nat where
  "MSM_HW_FENCE_MAX_JOIN_PARENTS = 3"

definition HW_FENCE_MAX_CLIENTS_WITH_DATA :: nat where
  "HW_FENCE_MAX_CLIENTS_WITH_DATA = 5"

lemmas hwf_consts [simp] =
  HW_FENCE_TX_QUEUE_def HW_FENCE_RX_QUEUE_def HW_FENCE_CLIENT_QUEUES_def HW_FENCE_CTRL_QUEUES_def
  MSM_HW_FENCE_MAX_JOIN_PARENTS_def HW_FENCE_MAX_CLIENTS_WITH_DATA_def


subsection \<open>Zeroed memory\<close>

text \<open>
  The driver data as \<open>kzalloc\<close> hands it to the probe function, and the objects that the driver clears
  with \<open>memset\<close>: every field zero, every pointer NULL, no client and no fence known.
\<close>

definition zero_fence :: msm_hw_fence where
  "zero_fence = \<lparr>hf_valid = 0, hf_error = 0, hf_ctx_id = 0, hf_seq_id = 0, hf_wait_client_mask = 0,
     hf_fence_allocator = 0, hf_fence_signal_client = 0, hf_lock = 0, hf_flags = 0,
     hf_parent_list = replicate MSM_HW_FENCE_MAX_JOIN_PARENTS 0, hf_parents_cnt = 0,
     hf_pending_child_cnt = 0, hf_fence_create_time = 0, hf_fence_trigger_time = 0,
     hf_fence_wait_time = 0, hf_debug_refcount = 0,
     hf_client_data = replicate HW_FENCE_MAX_CLIENTS_WITH_DATA 0\<rparr>"

definition zero_queue :: msm_hw_fence_queue where
  "zero_queue = \<lparr>qd_va_queue = 0, qd_q_size_bytes = 0, qd_va_header = 0, qd_pa_queue = 0\<rparr>"

definition zero_mem_addr :: msm_hw_fence_mem_addr where
  "zero_mem_addr = \<lparr>md_virtual_addr = 0, md_device_addr = 0, md_size = 0\<rparr>"

definition zero_client :: msm_hw_fence_client where
  "zero_client = \<lparr>cl_client_id = 0, cl_client_id_ext = 0, cl_mem_descriptor = zero_mem_addr,
     cl_queues = replicate HW_FENCE_CLIENT_QUEUES zero_queue, cl_ipc_signal_id = 0,
     cl_ipc_client_vid = 0, cl_ipc_client_pid = 0, cl_update_rxq = False, cl_send_ipc = False,
     cl_skip_txq_wr_idx = False, cl_val_signal = 0\<rparr>"

definition zero_hfi_hdr :: hfi_queue_header where
  "zero_hfi_hdr = \<lparr>qh_start_addr = 0, qh_type = 0, qh_queue_size = 0, qh_pkt_size = 0,
     qh_read_index = 0, qh_write_index = 0, qh_tx_wm = 0\<rparr>"

definition zero_hfi_table :: hfi_table_header where
  "zero_hfi_table = \<lparr>th_version = 0, th_size = 0, th_qhdr0_offset = 0, th_qhdr_size = 0,
     th_num_q = 0, th_num_active_q = 0\<rparr>"

definition zero_hwf :: hwf where
  "zero_hwf = \<lparr>hw_fence_table_entries = 0, hw_fence_mem_fences_table_size = 0,
     hw_fence_queue_entries = 0, hw_fence_ctrl_queue_size = 0, hw_fence_mem_ctrl_queues_size = 0,
     hw_fence_client_queue_size = [], hw_fence_client_types = [], rxq_clients_num = 0,
     clients_num = 0, hw_fences_tbl_va = 0, hw_fences_tbl = [], hw_fences_tbl_cnt = 0,
     client_lock_tbl = [], client_lock_tbl_cnt = 0,
     ctrl_queues = replicate HW_FENCE_CTRL_QUEUES zero_queue, ctrl_queue_mem_desc = zero_mem_addr,
     io_mem_base = 0, res_start = 0, res_size = 0, used_mem_size = 0, lock_wake_cnt = 0,
     ipcc_io_mem = 0, protocol_id = 0, ipcc_client_vid = 0, ipcc_client_pid = 0,
     ipc_clients_table = [], qtime = 0,
     ctl_start_ptr = replicate HW_FENCE_MAX_DPU_LOOPBACK_CLIENTS 0, clients = [], client_objs = (\<lambda>_. None), next_obj = 0,
     resources_ready = False, vm_ready = False, ipcc_dpu_initialized = False,
     hfi_tables = (\<lambda>_. zero_hfi_table), hfi_hdrs = (\<lambda>_. zero_hfi_hdr), q_words = (\<lambda>_. []),
     io_writes = [], dma_fences = (\<lambda>_. None)\<rparr>"

lemmas zero_defs [hwf_eval] =
  zero_fence_def zero_queue_def zero_mem_addr_def zero_client_def zero_hfi_hdr_def
  zero_hfi_table_def zero_hwf_def


subsection \<open>A platform for concrete instances\<close>

text \<open>
  One possible value of the platform parameter, used only where a theorem is applied to concrete
  input: client ids numbered as the rows of the IPC tables are, with 64 external ids for each
  configurable type.
\<close>

fun sample_client_id :: "client_name \<Rightarrow> u32" where
  "sample_client_id CTRL_QUEUE = 0"
| "sample_client_id CTX0 = 1"
| "sample_client_id CTL0 = 2" | "sample_client_id CTL1 = 3" | "sample_client_id CTL2 = 4"
| "sample_client_id CTL3 = 5" | "sample_client_id CTL4 = 6" | "sample_client_id CTL5 = 7"
| "sample_client_id VAL0 = 8" | "sample_client_id VAL1 = 9" | "sample_client_id VAL2 = 10"
| "sample_client_id VAL3 = 11" | "sample_client_id VAL4 = 12" | "sample_client_id VAL5 = 13"
| "sample_client_id VAL6 = 14" | "sample_client_id IPE = 15" | "sample_client_id VPU = 16"
| "sample_client_id IFE0 = 17" | "sample_client_id IFE1 = 81" | "sample_client_id IFE2 = 145"
| "sample_client_id IFE3 = 209" | "sample_client_id IFE4 = 273" | "sample_client_id IFE5 = 337"
| "sample_client_id IFE6 = 401" | "sample_client_id IFE7 = 465" | "sample_client_id CLIENT_MAX = 529"

definition sample_platform :: platform where
  "sample_platform = \<lparr>client_id = sample_client_id, max_signal_per_client = 64,
     sizeof_hfi_table_header = 24, sizeof_hfi_queue_header = 56, flag_enabled_bit = 2,
     flag_signaled_bit = 0, reset_without_error = 1, reset_without_destroy = 2, error_reset = 32,
     page_size = 4096\<rparr>"

lemmas sample_platform_fields [simp] = sample_platform_def [THEN arg_cong, of client_id, simplified]
  sample_platform_def [THEN arg_cong, of max_signal_per_client, simplified]
  sample_platform_def [THEN arg_cong, of sizeof_hfi_table_header, simplified]
  sample_platform_def [THEN arg_cong, of sizeof_hfi_queue_header, simplified]
  sample_platform_def [THEN arg_cong, of flag_enabled_bit, simplified]
  sample_platform_def [THEN arg_cong, of flag_signaled_bit, simplified]
  sample_platform_def [THEN arg_cong, of reset_without_error, simplified]
  sample_platform_def [THEN arg_cong, of reset_without_destroy, simplified]
  sample_platform_def [THEN arg_cong, of error_reset, simplified]
  sample_platform_def [THEN arg_cong, of page_size, simplified]

end
