(* ===== verification/HwfIpc.thy ===== *)
theory HwfIpc
  imports HwfTypes
begin

text \<open>
  The inter-processor communication layer, \<open>hw_fence_drv_ipc.c\<close>: the tables that map a hw-fence client
  to its IPC client and signal, the accessors, the choice of the table from the hardware revision,
  and the register writes that enable and trigger signals. A register write is appended to
  \<open>io_writes\<close>; a register read and a device-tree property are arguments.
\<close>

subsection \<open>Register addresses\<close>

definition ipcc_reg :: "u64 \<Rightarrow> u64 \<Rightarrow> u32 \<Rightarrow> u32 \<Rightarrow> u64" where
  "ipcc_reg base off p c = base + off + ucast (0x40000 * p) + ucast (0x1000 * c)"

definition IPC_PROTOCOLp_CLIENTc_CONFIG :: "u64 \<Rightarrow> u32 \<Rightarrow> u32 \<Rightarrow> u64" where
  "IPC_PROTOCOLp_CLIENTc_CONFIG base p c = ipcc_reg base 0x8 p c"

definition IPC_PROTOCOLp_CLIENTc_RECV_SIGNAL_ENABLE :: "u64 \<Rightarrow> u32 \<Rightarrow> u32 \<Rightarrow> u64" where
  "IPC_PROTOCOLp_CLIENTc_RECV_SIGNAL_ENABLE base p c = ipcc_reg base 0x14 p c"

definition IPC_PROTOCOLp_CLIENTc_SEND :: "u64 \<Rightarrow> u32 \<Rightarrow> u32 \<Rightarrow> u64" where
  "IPC_PROTOCOLp_CLIENTc_SEND base p c = ipcc_reg base 0xc p c"

definition writel :: "u32 \<Rightarrow> u64 \<Rightarrow> hwf \<Rightarrow> hwf" where
  "writel val ptr d = d\<lparr>io_writes := io_writes d @ [(ptr, val)]\<rparr>"

definition hw_fence_ipcc_trigger_signal :: "hwf \<Rightarrow> u32 \<Rightarrow> u32 \<Rightarrow> u32 \<Rightarrow> hwf" where
  "hw_fence_ipcc_trigger_signal d tx_client_pid rx_client_vid signal_id =
     (let ptr = IPC_PROTOCOLp_CLIENTc_SEND (ipcc_io_mem d) (protocol_id d) tx_client_pid;
          val = push_bit 16 rx_client_vid OR signal_id
      in writel val ptr d)"

subsection \<open>Client tables\<close>

abbreviation APPS_VID :: int where "APPS_VID \<equiv> 8"
abbreviation GPU_VID :: int where "GPU_VID \<equiv> 9"
abbreviation IPE_VID :: int where "IPE_VID \<equiv> 11"
abbreviation VPU_VID :: int where "VPU_VID \<equiv> 12"
abbreviation DPU_VID :: int where "DPU_VID \<equiv> 25"
abbreviation IFE0_VID :: int where "IFE0_VID \<equiv> 128"
abbreviation APPS_PID :: int where "APPS_PID \<equiv> 3"
abbreviation GPU_PID :: int where "GPU_PID \<equiv> 4"
abbreviation IPE_PID :: int where "IPE_PID \<equiv> 5"
abbreviation VPU_PID :: int where "VPU_PID \<equiv> 8"
abbreviation DPU_PID :: int where "DPU_PID \<equiv> 9"
abbreviation IFE0_PID :: int where "IFE0_PID \<equiv> 11"

definition HW_FENCE_MAX_CLIENT_TYPE_STATIC :: nat where "HW_FENCE_MAX_CLIENT_TYPE_STATIC = 5"
definition HW_FENCE_MAX_CLIENT_TYPE_CONFIGURABLE :: nat where
  "HW_FENCE_MAX_CLIENT_TYPE_CONFIGURABLE = 8"

definition HW_FENCE_MAX_STATIC_CLIENTS_INDEX :: "platform \<Rightarrow> u32" where
  "HW_FENCE_MAX_STATIC_CLIENTS_INDEX P = client_id P IFE0"

definition HW_FENCE_IPC_MAP_MAX :: "platform \<Rightarrow> nat" where
  "HW_FENCE_IPC_MAP_MAX P =
     unat (HW_FENCE_MAX_STATIC_CLIENTS_INDEX P) + HW_FENCE_MAX_CLIENT_TYPE_CONFIGURABLE"

definition ipc_row :: "int \<Rightarrow> int \<Rightarrow> int \<Rightarrow> bool \<Rightarrow> bool \<Rightarrow> hw_fence_client_ipc_map" where
  "ipc_row v p sig u s =
     \<lparr>im_virt = v, im_phys = p, im_signal_id = sig, im_update_rxq = u, im_send_ipc = s\<rparr>"

definition ipc_row0 :: hw_fence_client_ipc_map where
  "ipc_row0 = ipc_row 0 0 0 False False"

text \<open>A C array initialiser leaves the rows it does not list zero.\<close>

definition c_array :: "platform \<Rightarrow> hw_fence_client_ipc_map list \<Rightarrow> hw_fence_client_ipc_map list" where
  "c_array P rows = rows @ replicate (HW_FENCE_IPC_MAP_MAX P - length rows) ipc_row0"

definition hw_fence_clients_ipc_map_no_dpu :: "platform \<Rightarrow> hw_fence_client_ipc_map list" where
  "hw_fence_clients_ipc_map_no_dpu P = c_array P
     [ipc_row APPS_VID APPS_VID 1 True True,
      ipc_row GPU_VID GPU_VID 0 False False,
      ipc_row APPS_VID APPS_VID 14 False True,
      ipc_row APPS_VID APPS_VID 15 False True,
      ipc_row APPS_VID APPS_VID 16 False True,
      ipc_row APPS_VID APPS_VID 17 False True,
      ipc_row APPS_VID APPS_VID 18 False True,
      ipc_row APPS_VID APPS_VID 19 False True,
      ipc_row APPS_VID APPS_VID 21 True False,
      ipc_row APPS_VID APPS_VID 22 True False,
      ipc_row APPS_VID APPS_VID 23 True False,
      ipc_row APPS_VID APPS_VID 24 True False,
      ipc_row APPS_VID APPS_VID 25 True False,
      ipc_row APPS_VID APPS_VID 26 True False,
      ipc_row APPS_VID APPS_VID 27 True False]"

definition hw_fence_clients_ipc_map :: "platform \<Rightarrow> hw_fence_client_ipc_map list" where
  "hw_fence_clients_ipc_map P = c_array P
     [ipc_row APPS_VID APPS_VID 1 True True,
      ipc_row GPU_VID GPU_VID 0 False False,
      ipc_row DPU_VID DPU_VID 0 False True,
      ipc_row DPU_VID DPU_VID 1 False True,
      ipc_row DPU_VID DPU_VID 2 False True,
      ipc_row DPU_VID DPU_VID 3 False True,
      ipc_row DPU_VID DPU_VID 4 False True,
      ipc_row DPU_VID DPU_VID 5 False True,
      ipc_row APPS_VID APPS_VID 21 True False,
      ipc_row APPS_VID APPS_VID 22 True False,
      ipc_row APPS_VID APPS_VID 23 True False,
      ipc_row APPS_VID APPS_VID 24 True False,
      ipc_row APPS_VID APPS_VID 25 True False,
      ipc_row APPS_VID APPS_VID 26 True False,
      ipc_row APPS_VID APPS_VID 27 True False,
      ipc_row IPE_VID IPE_VID 0 True True,
      ipc_row VPU_VID VPU_VID 0 True True]"

definition hw_fence_clients_ipc_map_v2 :: "platform \<Rightarrow> hw_fence_client_ipc_map list" where
  "hw_fence_clients_ipc_map_v2 P = c_array P
     ([ipc_row APPS_VID APPS_PID 1 True True,
      ipc_row GPU_VID GPU_PID 0 False False,
      ipc_row DPU_VID DPU_PID 0 False True,
      ipc_row DPU_VID DPU_PID 1 False True,
      ipc_row DPU_VID DPU_PID 2 False True,
      ipc_row DPU_VID DPU_PID 3 False True,
      ipc_row DPU_VID DPU_PID 4 False True,
      ipc_row DPU_VID DPU_PID 5 False True,
      ipc_row APPS_VID APPS_PID 21 True False,
      ipc_row APPS_VID APPS_PID 22 True False,
      ipc_row APPS_VID APPS_PID 23 True False,
      ipc_row APPS_VID APPS_PID 24 True False,
      ipc_row APPS_VID APPS_PID 25 True False,
      ipc_row APPS_VID APPS_PID 26 True False,
      ipc_row APPS_VID APPS_PID 27 True False,
      ipc_row IPE_VID IPE_PID 0 True True,
      ipc_row VPU_VID VPU_PID 0 True True,
      ipc_row IFE0_VID IFE0_PID 0 False True,
      ipc_row (IFE0_VID + 1) (IFE0_PID + 1) 0 False True,
      ipc_row (IFE0_VID + 2) (IFE0_PID + 2) 0 False True,
      ipc_row (IFE0_VID + 3) (IFE0_PID + 3) 0 False True,
      ipc_row (IFE0_VID + 4) (IFE0_PID + 4) 0 False True,
      ipc_row (IFE0_VID + 5) (IFE0_PID + 5) 0 False True,
      ipc_row (IFE0_VID + 6) (IFE0_PID + 6) 0 False True,
      ipc_row (IFE0_VID + 7) (IFE0_PID + 7) 0 False True])"

subsection \<open>Names\<close>

text \<open>The names that debug messages give to the ids of a row.\<close>

definition get_ipc_phys_client_name :: "int \<Rightarrow> string" where
  "get_ipc_phys_client_name cid =
     (if cid = APPS_PID then ''APPS_PID''
      else if cid = GPU_PID then ''GPU_PID''
      else if cid = DPU_PID then ''DPU_PID''
      else if cid = IPE_PID then ''IPE_PID''
      else if cid = VPU_PID then ''VPU_PID''
      else if cid = IFE0_PID then ''IFE0_PID''
      else if cid = IFE0_PID + 1 then ''IFE1_PID''
      else if cid = IFE0_PID + 2 then ''IFE2_PID''
      else if cid = IFE0_PID + 3 then ''IFE3_PID''
      else if cid = IFE0_PID + 4 then ''IFE4_PID''
      else if cid = IFE0_PID + 5 then ''IFE5_PID''
      else if cid = IFE0_PID + 6 then ''IFE6_PID''
      else if cid = IFE0_PID + 7 then ''IFE7_PID''
      else ''UNKNOWN_PID'')"

definition get_ipc_virt_client_name :: "int \<Rightarrow> string" where
  "get_ipc_virt_client_name cid =
     (if cid = APPS_VID then ''APPS_VID''
      else if cid = GPU_VID then ''GPU_VID''
      else if cid = DPU_VID then ''DPU_VID''
      else if cid = IPE_VID then ''IPE_VID''
      else if cid = VPU_VID then ''VPU_VID''
      else if cid = IFE0_VID then ''IFE0_VID''
      else if cid = IFE0_VID + 1 then ''IFE1_VID''
      else if cid = IFE0_VID + 2 then ''IFE2_VID''
      else if cid = IFE0_VID + 3 then ''IFE3_VID''
      else if cid = IFE0_VID + 4 then ''IFE4_VID''
      else if cid = IFE0_VID + 5 then ''IFE5_VID''
      else if cid = IFE0_VID + 6 then ''IFE6_VID''
      else if cid = IFE0_VID + 7 then ''IFE7_VID''
      else ''UNKNOWN_VID'')"

text \<open>In the table of the second generation both ids of a row name the same client; the older tables have the
  virtual id in both places.\<close>

definition same_client :: "hw_fence_client_ipc_map \<Rightarrow> bool" where
  "same_client row \<longleftrightarrow> (let v = get_ipc_virt_client_name (im_virt row); p = get_ipc_phys_client_name (im_phys row) in
     take (length v - 4) v = take (length p - 4) p \<and> v \<noteq> ''UNKNOWN_VID'')"

lemma tables_name_one_client:
  "\<exists>rows. hw_fence_clients_ipc_map_v2 P = c_array P rows \<and> length rows = 25 \<and> list_all same_client rows"
  unfolding hw_fence_clients_ipc_map_v2_def
  by (rule exI, rule conjI [OF refl])
    (simp add: same_client_def ipc_row_def get_ipc_virt_client_name_def get_ipc_phys_client_name_def)

lemma old_tables_virtual:
  "row \<in> set (hw_fence_clients_ipc_map P) \<union> set (hw_fence_clients_ipc_map_no_dpu P) \<Longrightarrow> im_phys row = im_virt row"
  by (auto simp: hw_fence_clients_ipc_map_def hw_fence_clients_ipc_map_no_dpu_def c_array_def ipc_row_def ipc_row0_def)

subsection \<open>Accessors\<close>

definition hw_fence_ipcc_get_client_virt_id :: "hwf \<Rightarrow> u32 \<Rightarrow> int option" where
  "hw_fence_ipcc_get_client_virt_id d cid =
     (if clients_num d \<le> cid then Some (- EINVAL)
      else map_option im_virt (fetch (ipc_clients_table d) (unat cid)))"

definition hw_fence_ipcc_get_client_phys_id :: "hwf \<Rightarrow> u32 \<Rightarrow> int option" where
  "hw_fence_ipcc_get_client_phys_id d cid =
     (if clients_num d \<le> cid then Some (- EINVAL)
      else map_option im_phys (fetch (ipc_clients_table d) (unat cid)))"

definition hw_fence_ipcc_get_signal_id :: "hwf \<Rightarrow> u32 \<Rightarrow> int option" where
  "hw_fence_ipcc_get_signal_id d cid =
     (if clients_num d \<le> cid then Some (- EINVAL)
      else map_option im_signal_id (fetch (ipc_clients_table d) (unat cid)))"

definition hw_fence_ipcc_needs_rxq_update :: "hwf \<Rightarrow> u32 \<Rightarrow> bool option" where
  "hw_fence_ipcc_needs_rxq_update d cid =
     (if clients_num d \<le> cid then Some False
      else map_option im_update_rxq (fetch (ipc_clients_table d) (unat cid)))"

definition hw_fence_ipcc_needs_ipc_irq :: "platform \<Rightarrow> hwf \<Rightarrow> u32 \<Rightarrow> bool option" where
  "hw_fence_ipcc_needs_ipc_irq P d cid =
     (if sint (client_id P CLIENT_MAX) \<le> sint cid then Some False
      else map_option im_send_ipc (fetch (ipc_clients_table d) (unat cid)))"


subsection \<open>The table for the hardware revision\<close>

definition c_int :: "u32 \<Rightarrow> int" where
  "c_int w = sint w"

text \<open>The inner loop of \<open>_hw_fence_ipcc_init_map_with_configurable_clients\<close>, over the sub-clients
  of one client type: \<open>map_idx\<close>, the table and the error code.\<close>

fun ipc_subclients ::
  "u32 \<Rightarrow> hw_fence_client_ipc_map \<Rightarrow> nat list \<Rightarrow> u32 \<Rightarrow> hw_fence_client_ipc_map list
    \<Rightarrow> (u32 \<times> hw_fence_client_ipc_map list \<times> int) option" where
  "ipc_subclients cnum row [] map_idx tbl = Some (map_idx, tbl, 0)"
| "ipc_subclients cnum row (j # js) map_idx tbl =
     (if cnum \<le> map_idx then Some (map_idx, tbl, - EINVAL)
      else if unat map_idx < length tbl then
        ipc_subclients cnum row js (map_idx + 1)
          (tbl[unat map_idx := row\<lparr>im_signal_id := int j\<rparr>])
      else None)"

text \<open>The outer loop, over the client types with a configurable number of sub-clients.\<close>

fun ipc_configurable ::
  "hwf \<Rightarrow> platform \<Rightarrow> hw_fence_client_ipc_map list \<Rightarrow> nat list \<Rightarrow> u32 \<Rightarrow> hw_fence_client_ipc_map list
    \<Rightarrow> (u32 \<times> hw_fence_client_ipc_map list \<times> int) option" where
  "ipc_configurable d P base_table [] map_idx tbl = Some (map_idx, tbl, 0)"
| "ipc_configurable d P base_table (i # is) map_idx tbl = do {
     desc \<leftarrow> fetch (hw_fence_client_types d) (HW_FENCE_MAX_CLIENT_TYPE_STATIC + i);
     row \<leftarrow> fetch base_table (unat (HW_FENCE_MAX_STATIC_CLIENTS_INDEX P) + i);
     (map_idx, tbl, ret) \<leftarrow> ipc_subclients (clients_num d) row [0..<nat (c_int (ct_clients_num desc))]
       map_idx tbl;
     if ret \<noteq> 0 then Some (map_idx, tbl, ret)
     else ipc_configurable d P base_table is map_idx tbl
   }"

text \<open>\<open>alloc\<close> says whether the allocation of the table succeeds.\<close>

definition hw_fence_ipcc_init_map_with_configurable_clients ::
  "platform \<Rightarrow> bool \<Rightarrow> hwf \<Rightarrow> hw_fence_client_ipc_map list \<Rightarrow> (hwf \<times> int) option" where
  "hw_fence_ipcc_init_map_with_configurable_clients P alloc d base_table =
     (if \<not> alloc then Some (d\<lparr>ipc_clients_table := []\<rparr>, - ENOMEM)
      else
        let n = unat (HW_FENCE_MAX_STATIC_CLIENTS_INDEX P);
            tbl = replicate (unat (clients_num d)) ipc_row0
        in if n \<le> length base_table \<and> n \<le> length tbl then do {
             (_, tbl, ret) \<leftarrow> ipc_configurable d P base_table [0..<HW_FENCE_MAX_CLIENT_TYPE_CONFIGURABLE]
               (HW_FENCE_MAX_STATIC_CLIENTS_INDEX P) (take n base_table @ drop n tbl);
             Some (d\<lparr>ipc_clients_table := tbl\<rparr>, ret)
           } else None)"

definition HW_FENCE_IPCC_HW_REV_100 :: u32 where "HW_FENCE_IPCC_HW_REV_100 = 0x00010000"
definition HW_FENCE_IPCC_HW_REV_110 :: u32 where "HW_FENCE_IPCC_HW_REV_110 = 0x00010100"
definition HW_FENCE_IPCC_HW_REV_170 :: u32 where "HW_FENCE_IPCC_HW_REV_170 = 0x00010700"
definition HW_FENCE_IPCC_HW_REV_203 :: u32 where "HW_FENCE_IPCC_HW_REV_203 = 0x00020003"

lemmas hw_rev_defs [hwf_eval] = HW_FENCE_IPCC_HW_REV_100_def HW_FENCE_IPCC_HW_REV_110_def
  HW_FENCE_IPCC_HW_REV_170_def HW_FENCE_IPCC_HW_REV_203_def

definition hw_fence_ipcc_hwrev_init :: "platform \<Rightarrow> bool \<Rightarrow> hwf \<Rightarrow> u32 \<Rightarrow> (hwf \<times> int) option" where
  "hw_fence_ipcc_hwrev_init P alloc d hwrev =
     (if hwrev = HW_FENCE_IPCC_HW_REV_100 then
        Some (d\<lparr>ipcc_client_vid := of_int APPS_VID, ipcc_client_pid := of_int APPS_VID,
          protocol_id := 2, ipc_clients_table := hw_fence_clients_ipc_map_no_dpu P\<rparr>, 0)
      else if hwrev = HW_FENCE_IPCC_HW_REV_110 then
        Some (d\<lparr>ipcc_client_vid := of_int APPS_VID, ipcc_client_pid := of_int APPS_VID,
          protocol_id := 1, ipc_clients_table := hw_fence_clients_ipc_map_no_dpu P\<rparr>, 0)
      else if hwrev = HW_FENCE_IPCC_HW_REV_170 then
        Some (d\<lparr>ipcc_client_vid := of_int APPS_VID, ipcc_client_pid := of_int APPS_VID,
          protocol_id := 2, ipc_clients_table := hw_fence_clients_ipc_map P\<rparr>, 0)
      else if hwrev = HW_FENCE_IPCC_HW_REV_203 then
        hw_fence_ipcc_init_map_with_configurable_clients P alloc
          (d\<lparr>ipcc_client_vid := of_int APPS_VID, ipcc_client_pid := of_int APPS_PID, protocol_id := 4\<rparr>)
          (hw_fence_clients_ipc_map_v2 P)
      else Some (d, - 1))"

text \<open>\<open>dt\<close> is the device-tree property with the version, \<open>reg\<close> what the version register reads.\<close>

definition hw_fence_ipcc_enable_signaling ::
  "platform \<Rightarrow> bool \<Rightarrow> hwf \<Rightarrow> u32 option \<Rightarrow> u32 \<Rightarrow> (hwf \<times> int) option" where
  "hw_fence_ipcc_enable_signaling P alloc d dt reg = do {
     let val = (case dt of None \<Rightarrow> reg | Some v \<Rightarrow> if v = 0 then reg else v);
     (d, ret) \<leftarrow> hw_fence_ipcc_hwrev_init P alloc d val;
     if ret \<noteq> 0 then Some (d, - EINVAL)
     else
       let d = writel 0 (IPC_PROTOCOLp_CLIENTc_CONFIG (ipcc_io_mem d) (protocol_id d) (ipcc_client_pid d)) d;
           d = writel 0x80000
             (IPC_PROTOCOLp_CLIENTc_RECV_SIGNAL_ENABLE (ipcc_io_mem d) (protocol_id d) (ipcc_client_pid d)) d
       in Some (d, 0)
   }"

text \<open>The loop of \<open>hw_fence_ipcc_enable_dpu_signaling\<close> over the rows of the table.\<close>

fun enable_dpu_rows :: "bool \<Rightarrow> hw_fence_client_ipc_map list \<Rightarrow> hwf \<Rightarrow> hwf" where
  "enable_dpu_rows protocol_enabled [] d = d"
| "enable_dpu_rows protocol_enabled (row # rows) d =
     (if im_virt row \<noteq> DPU_VID then enable_dpu_rows protocol_enabled rows d
      else
        let d = (if protocol_enabled then d
              else writel 1 (IPC_PROTOCOLp_CLIENTc_CONFIG (ipcc_io_mem d) (protocol_id d)
                (of_int (im_phys row))) d);
            val = push_bit 16 (of_int APPS_VID) OR (of_int (im_signal_id row) AND 0xFFFF);
            d = writel val (IPC_PROTOCOLp_CLIENTc_RECV_SIGNAL_ENABLE (ipcc_io_mem d) (protocol_id d)
                (of_int (im_phys row))) d
        in enable_dpu_rows True rows d)"

definition hw_fence_ipcc_enable_dpu_signaling :: "hwf \<Rightarrow> (hwf \<times> int) option" where
  "hw_fence_ipcc_enable_dpu_signaling d =
     (if protocol_id d = 0 \<or> ipc_clients_table d = [] then Some (d, - 1)
      else if unat (clients_num d) \<le> length (ipc_clients_table d) then
        Some (enable_dpu_rows False (take (unat (clients_num d)) (ipc_clients_table d)) d, 0)
      else None)"

subsection \<open>The configurable map, row by row\<close>

text \<open>The rows of the sub-clients of type \<open>i\<close>.\<close>

definition subclient_rows ::
  "hwf \<Rightarrow> platform \<Rightarrow> hw_fence_client_ipc_map list \<Rightarrow> nat \<Rightarrow> hw_fence_client_ipc_map list" where
  "subclient_rows d P base i =
     map (\<lambda>j. (base ! (unat (HW_FENCE_MAX_STATIC_CLIENTS_INDEX P) + i))\<lparr>im_signal_id := int j\<rparr>)
       [0..<nat (c_int (ct_clients_num (hw_fence_client_types d ! (HW_FENCE_MAX_CLIENT_TYPE_STATIC + i))))]"

lemma ipc_subclients_rows:
  assumes "unat m + length js \<le> unat cnum" and "length tbl = unat cnum"
  shows "ipc_subclients cnum row js m tbl =
    Some (m + of_nat (length js),
      take (unat m) tbl @ map (\<lambda>j. row\<lparr>im_signal_id := int j\<rparr>) js @ drop (unat m + length js) tbl, 0)"
  using assms
proof (induction js arbitrary: m tbl)
  case Nil
  then show ?case by simp
next
  case (Cons j js)
  from Cons.prems have lt: "unat m < unat cnum" by simp
  then have m1: "unat (m + 1) = Suc (unat m)"
    by (intro unat_Suc_below [of m cnum]) (simp add: word_less_nat_alt)
  let ?t = "tbl[unat m := row\<lparr>im_signal_id := int j\<rparr>]"
  have "ipc_subclients cnum row js (m + 1) ?t = Some (m + 1 + of_nat (length js),
      take (unat (m + 1)) ?t @ map (\<lambda>j. row\<lparr>im_signal_id := int j\<rparr>) js
        @ drop (unat (m + 1) + length js) ?t, 0)"
    using Cons.prems by (intro Cons.IH) (simp_all add: m1)
  moreover have "take (Suc (unat m)) ?t = take (unat m) tbl @ [row\<lparr>im_signal_id := int j\<rparr>]"
    using lt Cons.prems(2) by (simp add: take_Suc_conv_app_nth)
  ultimately show ?case
    using lt Cons.prems(2) by (simp add: m1 not_le word_less_nat_alt add.assoc)
qed

lemma take_patch: "n \<le> length xs \<Longrightarrow> take (n + length ys) (take n xs @ ys @ zs) = take n xs @ ys"
  by simp

lemma drop_patch: "n \<le> length xs \<Longrightarrow> drop (n + length ys + k) (take n xs @ ys @ zs) = drop k zs"
  by simp

lemma ipc_configurable_rows:
  assumes "unat m + length (concat (map (subclient_rows d P base) is)) \<le> unat (clients_num d)"
    and "length tbl = unat (clients_num d)"
    and "\<forall>i\<in>set is. HW_FENCE_MAX_CLIENT_TYPE_STATIC + i < length (hw_fence_client_types d) \<and>
      unat (HW_FENCE_MAX_STATIC_CLIENTS_INDEX P) + i < length base"
  shows "ipc_configurable d P base is m tbl =
    Some (m + of_nat (length (concat (map (subclient_rows d P base) is))),
      take (unat m) tbl @ concat (map (subclient_rows d P base) is)
        @ drop (unat m + length (concat (map (subclient_rows d P base) is))) tbl, 0)"
  using assms
proof (induction "is" arbitrary: m tbl)
  case Nil
  then show ?case by simp
next
  case (Cons i "is")
  let ?rows = "subclient_rows d P base i" and ?rest = "concat (map (subclient_rows d P base) is)"
  let ?js = "[0..<nat (c_int (ct_clients_num (hw_fence_client_types d ! (HW_FENCE_MAX_CLIENT_TYPE_STATIC + i))))]"
  have len: "length ?rows = length ?js" by (simp add: subclient_rows_def)
  have fits: "unat m + length ?rows + length ?rest \<le> unat (clients_num d)"
    using Cons.prems(1) by simp
  have um: "unat (m + of_nat (length ?rows)) = unat m + length ?rows"
  proof -
    have "unat (clients_num d) < 2 ^ LENGTH(32)" by (rule unsigned_less)
    then have "unat m + length ?rows < 2 ^ LENGTH(32)"
      using fits by linarith
    then show ?thesis by (simp add: unat_word_ariths take_bit_nat_eq_self unat_of_nat)
  qed
  let ?t = "take (unat m) tbl @ ?rows @ drop (unat m + length ?rows) tbl"
  have inner: "ipc_subclients (clients_num d)
      (base ! (unat (HW_FENCE_MAX_STATIC_CLIENTS_INDEX P) + i)) ?js m tbl
    = Some (m + of_nat (length ?rows), ?t, 0)"
    using fits len Cons.prems(2)
    by (subst ipc_subclients_rows) (simp_all add: subclient_rows_def)
  have "ipc_configurable d P base is (m + of_nat (length ?rows)) ?t =
    Some (m + of_nat (length ?rows) + of_nat (length ?rest),
      take (unat m + length ?rows) ?t @ ?rest @ drop (unat m + length ?rows + length ?rest) ?t, 0)"
    using Cons.prems(2,3) fits by (subst Cons.IH) (simp_all add: um)
  moreover have "unat m \<le> length tbl" using fits Cons.prems(2) by linarith
  ultimately show ?case
    using Cons.prems(3) inner by (simp only: take_patch drop_patch) (simp add: ac_simps)
qed

definition static_rows :: "platform \<Rightarrow> hw_fence_client_ipc_map list \<Rightarrow> hw_fence_client_ipc_map list" where
  "static_rows P base = take (unat (HW_FENCE_MAX_STATIC_CLIENTS_INDEX P)) base"

definition configurable_rows :: "hwf \<Rightarrow> platform \<Rightarrow> hw_fence_client_ipc_map list \<Rightarrow> hw_fence_client_ipc_map list" where
  "configurable_rows d P base =
     concat (map (subclient_rows d P base) [0..<HW_FENCE_MAX_CLIENT_TYPE_CONFIGURABLE])"

text \<open>The table that the loops build.\<close>

lemma configurable_table:
  assumes "length (hw_fence_client_types d) =
      HW_FENCE_MAX_CLIENT_TYPE_STATIC + HW_FENCE_MAX_CLIENT_TYPE_CONFIGURABLE"
    and "length base = HW_FENCE_IPC_MAP_MAX P"
    and "unat (clients_num d) =
      unat (HW_FENCE_MAX_STATIC_CLIENTS_INDEX P) + length (configurable_rows d P base)"
  shows "hw_fence_ipcc_init_map_with_configurable_clients P True d base =
    Some (d\<lparr>ipc_clients_table := static_rows P base @ configurable_rows d P base\<rparr>, 0)"
proof -
  let ?n = "unat (HW_FENCE_MAX_STATIC_CLIENTS_INDEX P)"
  let ?t = "take ?n base @ drop ?n (replicate (unat (clients_num d)) ipc_row0)"
  have "ipc_configurable d P base [0..<HW_FENCE_MAX_CLIENT_TYPE_CONFIGURABLE]
      (HW_FENCE_MAX_STATIC_CLIENTS_INDEX P) ?t =
    Some (HW_FENCE_MAX_STATIC_CLIENTS_INDEX P + of_nat (length (configurable_rows d P base)),
      take ?n ?t @ configurable_rows d P base @ drop (?n + length (configurable_rows d P base)) ?t, 0)"
    unfolding configurable_rows_def
    using assms by (intro ipc_configurable_rows) (auto simp: HW_FENCE_IPC_MAP_MAX_def configurable_rows_def)
  then show ?thesis
    using assms
    by (simp add: hw_fence_ipcc_init_map_with_configurable_clients_def static_rows_def
        HW_FENCE_IPC_MAP_MAX_def)
qed

section \<open>Properties\<close>

text \<open>C9. When the number of clients is the one the device tree gives (the static clients and the
  sub-clients of every configurable type), building the IPC map of a configurable target succeeds and
  gives exactly this table: the rows of the static clients as they are, then, type by type, one copy of
  the type's row for each sub-client, whose signal is the number of the sub-client.\<close>

theorem ipc_configurable_map:
  assumes "length (hw_fence_client_types d) =
      HW_FENCE_MAX_CLIENT_TYPE_STATIC + HW_FENCE_MAX_CLIENT_TYPE_CONFIGURABLE"
    and "length base = HW_FENCE_IPC_MAP_MAX P"
    and "unat (clients_num d) =
      unat (HW_FENCE_MAX_STATIC_CLIENTS_INDEX P) + length (configurable_rows d P base)"
  shows "hw_fence_ipcc_init_map_with_configurable_clients P True d base =
    Some (d\<lparr>ipc_clients_table := static_rows P base @ configurable_rows d P base\<rparr>, 0)"
  using assms by (rule configurable_table)

definition sample_types :: "u32 list \<Rightarrow> hw_fence_client_type_desc list" where
  "sample_types ns = map (\<lambda>n. \<lparr>ct_init_id = 0, ct_max_clients_num = 8, ct_clients_num = n,
     ct_queues_num = 1, ct_queue_entries = 4, ct_mem_size = 4096, ct_skip_txq_wr_idx = False\<rparr>) ns"

definition ipc_sample :: hwf where
  "ipc_sample = zero_hwf\<lparr>clients_num := 20,
     hw_fence_client_types := sample_types [1, 6, 7, 1, 1, 2, 1, 0, 0, 0, 0, 0, 0]\<rparr>"

lemma ipc_sample_rows:
  "configurable_rows ipc_sample sample_platform (hw_fence_clients_ipc_map_v2 sample_platform) =
    [ipc_row 128 11 0 False True, ipc_row 128 11 1 False True, ipc_row 129 12 0 False True]"
  by (simp add: configurable_rows_def subclient_rows_def ipc_sample_def sample_types_def c_int_def
      HW_FENCE_MAX_CLIENT_TYPE_CONFIGURABLE_def HW_FENCE_MAX_CLIENT_TYPE_STATIC_def upt_conv_Cons
      hw_fence_clients_ipc_map_v2_def c_array_def HW_FENCE_IPC_MAP_MAX_def
      HW_FENCE_MAX_STATIC_CLIENTS_INDEX_def ipc_row_def)

theorem ipc_configurable_map_witness:
  "\<exists>d'. hw_fence_ipcc_init_map_with_configurable_clients sample_platform True ipc_sample
      (hw_fence_clients_ipc_map_v2 sample_platform) = Some (d', 0) \<and>
    ipc_clients_table d' ! 18 = ipc_row 128 11 1 False True"
  using ipc_configurable_map [of ipc_sample "hw_fence_clients_ipc_map_v2 sample_platform" sample_platform]
  by (simp add: ipc_sample_rows)
   (simp add: ipc_sample_def sample_types_def static_rows_def hw_fence_clients_ipc_map_v2_def
      c_array_def HW_FENCE_IPC_MAP_MAX_def HW_FENCE_MAX_STATIC_CLIENTS_INDEX_def
      HW_FENCE_MAX_CLIENT_TYPE_CONFIGURABLE_def HW_FENCE_MAX_CLIENT_TYPE_STATIC_def)

text \<open>The base table: each configurable type has a virtual id of its own, above those of the static clients, and the
  static clients have different pairs.\<close>

lemma base_table_v2:
  assumes "HW_FENCE_MAX_STATIC_CLIENTS_INDEX P = 17"
  shows "i < 8 \<Longrightarrow> hw_fence_clients_ipc_map_v2 P ! (17 + i) = ipc_row (128 + int i) (11 + int i) 0 False True"
    and "distinct (map (\<lambda>r. (im_virt r, im_signal_id r)) (take 17 (hw_fence_clients_ipc_map_v2 P)))"
    and "\<forall>r\<in>set (take 17 (hw_fence_clients_ipc_map_v2 P)). im_virt r < 128"
    and "length (hw_fence_clients_ipc_map_v2 P) = HW_FENCE_IPC_MAP_MAX P"
proof -
  let ?b = "hw_fence_clients_ipc_map_v2 P"
  have b: "?b = take 17 ?b @ map (\<lambda>i. ipc_row (128 + int i) (11 + int i) 0 False True) [0..<8]"
    by (simp add: hw_fence_clients_ipc_map_v2_def c_array_def HW_FENCE_IPC_MAP_MAX_def assms
        HW_FENCE_MAX_CLIENT_TYPE_CONFIGURABLE_def upt_conv_Cons)
  show "?b ! (17 + i) = ipc_row (128 + int i) (11 + int i) 0 False True" if "i < 8"
    using that by (subst b, subst nth_append)
      (simp add: hw_fence_clients_ipc_map_v2_def c_array_def)
  show "distinct (map (\<lambda>r. (im_virt r, im_signal_id r)) (take 17 ?b))" "\<forall>r\<in>set (take 17 ?b). im_virt r < 128"
    by (simp_all add: hw_fence_clients_ipc_map_v2_def c_array_def ipc_row_def)
  show "length ?b = HW_FENCE_IPC_MAP_MAX P"
    by (simp add: hw_fence_clients_ipc_map_v2_def c_array_def HW_FENCE_IPC_MAP_MAX_def assms
        HW_FENCE_MAX_CLIENT_TYPE_CONFIGURABLE_def)
qed

lemma distinct_sections: "distinct (concat (map (\<lambda>i. map (\<lambda>j. (a + int i, int j)) [0..<f i]) [0..<k]))"
  by (induction k) (auto simp: distinct_map inj_on_def)

text \<open>C10. Every client of the configurable target gets a (virtual id, signal) pair of its own, so an
  interrupt tells the receiver which client it is for: when the number of clients is that of the device tree,
  building the table from \<open>hw_fence_clients_ipc_map_v2\<close> succeeds, the table has one row for each client, and
  the pairs in its rows are distinct, however many sub-clients each type has.\<close>

theorem ipc_configurable_distinct:
  assumes "HW_FENCE_MAX_STATIC_CLIENTS_INDEX P = 17"
    and "length (hw_fence_client_types d) = HW_FENCE_MAX_CLIENT_TYPE_STATIC + HW_FENCE_MAX_CLIENT_TYPE_CONFIGURABLE"
    and "unat (clients_num d) = 17 + (\<Sum>i\<leftarrow>[0..<HW_FENCE_MAX_CLIENT_TYPE_CONFIGURABLE].
      nat (sint (ct_clients_num (hw_fence_client_types d ! (HW_FENCE_MAX_CLIENT_TYPE_STATIC + i)))))"
  shows "\<exists>d'. hw_fence_ipcc_init_map_with_configurable_clients P True d (hw_fence_clients_ipc_map_v2 P) = Some (d', 0) \<and>
    length (ipc_clients_table d') = unat (clients_num d) \<and>
    distinct (map (\<lambda>r. (im_virt r, im_signal_id r)) (ipc_clients_table d'))"
proof -
  let ?b = "hw_fence_clients_ipc_map_v2 P" and ?pair = "\<lambda>r. (im_virt r, im_signal_id r)"
  let ?n = "\<lambda>i. nat (sint (ct_clients_num (hw_fence_client_types d ! (HW_FENCE_MAX_CLIENT_TYPE_STATIC + i))))"
  let ?t = "static_rows P ?b @ configurable_rows d P ?b"
  note base = base_table_v2 [OF assms(1)]
  have "map ?pair (subclient_rows d P ?b i) = map (\<lambda>j. (128 + int i, int j)) [0..<?n i]" if "i < 8" for i
    using that base(1) [OF that] by (simp add: subclient_rows_def assms(1) ipc_row_def c_int_def)
  then have pairs: "map ?pair (configurable_rows d P ?b) =
      concat (map (\<lambda>i. map (\<lambda>j. (128 + int i, int j)) [0..<?n i]) [0..<8])"
    unfolding configurable_rows_def map_concat map_map HW_FENCE_MAX_CLIENT_TYPE_CONFIGURABLE_def
    by (intro arg_cong [of _ _ concat] map_cong) simp_all
  have num: "length (configurable_rows d P ?b) = (\<Sum>i\<leftarrow>[0..<8]. ?n i)"
    using arg_cong [OF pairs, of length] by (simp add: length_concat comp_def)
  have "fst ` set (map ?pair (configurable_rows d P ?b)) \<subseteq> {128..}"
    unfolding pairs by auto
  with base(2,3) have "distinct (map ?pair ?t)"
    unfolding map_append distinct_append static_rows_def assms(1)
    using distinct_sections [of 128 ?n 8] pairs by fastforce
  moreover have "hw_fence_ipcc_init_map_with_configurable_clients P True d ?b = Some (d\<lparr>ipc_clients_table := ?t\<rparr>, 0)"
    using assms(2) base(4) by (rule configurable_table)
      (simp add: num assms(1,3) HW_FENCE_MAX_CLIENT_TYPE_CONFIGURABLE_def)
  moreover have "length ?t = unat (clients_num d)"
    using base(4) by (simp add: num assms(1,3) static_rows_def HW_FENCE_IPC_MAP_MAX_def HW_FENCE_MAX_CLIENT_TYPE_CONFIGURABLE_def)
  ultimately show ?thesis by simp
qed

theorem ipc_configurable_distinct_witness:
  "\<exists>d'. hw_fence_ipcc_init_map_with_configurable_clients sample_platform True ipc_sample
      (hw_fence_clients_ipc_map_v2 sample_platform) = Some (d', 0) \<and>
    length (ipc_clients_table d') = 20 \<and> distinct (map (\<lambda>r. (im_virt r, im_signal_id r)) (ipc_clients_table d'))"
  using ipc_configurable_distinct [of sample_platform ipc_sample]
  by (simp add: HW_FENCE_MAX_STATIC_CLIENTS_INDEX_def ipc_sample_def sample_types_def
      HW_FENCE_MAX_CLIENT_TYPE_CONFIGURABLE_def HW_FENCE_MAX_CLIENT_TYPE_STATIC_def upt_conv_Cons)

text \<open>The register writes that enable a DPU client, and the one that enables the protocol.\<close>

definition dpu_config_write :: "hwf \<Rightarrow> hw_fence_client_ipc_map \<Rightarrow> u64 \<times> u32" where
  "dpu_config_write d row =
     (IPC_PROTOCOLp_CLIENTc_CONFIG (ipcc_io_mem d) (protocol_id d) (of_int (im_phys row)), 1)"

definition dpu_signal_write :: "hwf \<Rightarrow> hw_fence_client_ipc_map \<Rightarrow> u64 \<times> u32" where
  "dpu_signal_write d row =
     (IPC_PROTOCOLp_CLIENTc_RECV_SIGNAL_ENABLE (ipcc_io_mem d) (protocol_id d) (of_int (im_phys row)),
      push_bit 16 (of_int APPS_VID) OR (of_int (im_signal_id row) AND 0xFFFF))"

definition dpu_rows :: "hw_fence_client_ipc_map list \<Rightarrow> hw_fence_client_ipc_map list" where
  "dpu_rows rows = filter (\<lambda>row. im_virt row = DPU_VID) rows"

lemma writel_writel: "d\<lparr>io_writes := ws\<rparr>\<lparr>io_writes := ws'\<rparr> = d\<lparr>io_writes := ws'\<rparr>"
  by simp

lemma enable_dpu_rows_writes:
  "enable_dpu_rows p rows (d\<lparr>io_writes := ws\<rparr>) = d\<lparr>io_writes := ws @
     (if p then [] else map (dpu_config_write d) (take 1 (dpu_rows rows))) @
     map (dpu_signal_write d) (dpu_rows rows)\<rparr>"
proof (induction rows arbitrary: p ws)
  case Nil
  then show ?case by (simp add: dpu_rows_def)
next
  case (Cons row rows)
  show ?case
  proof (cases "im_virt row = DPU_VID")
    case False
    with Cons show ?thesis by (simp add: dpu_rows_def)
  next
    case True
    have "enable_dpu_rows p (row # rows) (d\<lparr>io_writes := ws\<rparr>) =
        enable_dpu_rows True rows (d\<lparr>io_writes :=
          (ws @ (if p then [] else [dpu_config_write d row])) @ [dpu_signal_write d row]\<rparr>)"
      using True by (simp add: writel_def Let_def dpu_config_write_def dpu_signal_write_def)
    also have "\<dots> = d\<lparr>io_writes := ((ws @ (if p then [] else [dpu_config_write d row])) @
        [dpu_signal_write d row]) @ map (dpu_signal_write d) (dpu_rows rows)\<rparr>"
      by (subst Cons.IH) simp
    finally show ?thesis using True by (simp add: dpu_rows_def)
  qed
qed

text \<open>Enabling the signals of the display clients writes to the IPC controller exactly: once, for the
  first display client, the protocol configuration, then for each display client of the driver in turn
  the enable register with its signal. No other client and no other register is touched, and nothing is
  written if there is no display client.\<close>

lemma dpu_signaling_writes:
  assumes "protocol_id d \<noteq> 0" and "ipc_clients_table d \<noteq> []"
    and "unat (clients_num d) \<le> length (ipc_clients_table d)"
  shows "hw_fence_ipcc_enable_dpu_signaling d = Some (d\<lparr>io_writes := io_writes d @
    map (dpu_config_write d) (take 1 (dpu_rows (take (unat (clients_num d)) (ipc_clients_table d)))) @
    map (dpu_signal_write d) (dpu_rows (take (unat (clients_num d)) (ipc_clients_table d)))\<rparr>, 0)"
  using assms enable_dpu_rows_writes [of False "take (unat (clients_num d)) (ipc_clients_table d)" "io_writes d" d]
  by (simp add: hw_fence_ipcc_enable_dpu_signaling_def)

lemma dpu_signaling_writes_example:
  "map_option (\<lambda>(d, ret). (map snd (io_writes d), ret)) (hw_fence_ipcc_enable_dpu_signaling
      (zero_hwf\<lparr>protocol_id := 2, clients_num := 9,
        ipc_clients_table := hw_fence_clients_ipc_map sample_platform\<rparr>)) =
    Some ([1, 0x80000, 0x80001, 0x80002, 0x80003, 0x80004, 0x80005], 0)"
  using dpu_signaling_writes [of "zero_hwf\<lparr>protocol_id := 2, clients_num := 9,
        ipc_clients_table := hw_fence_clients_ipc_map sample_platform\<rparr>"]
  by (simp add: hw_fence_clients_ipc_map_def c_array_def ipc_row_def dpu_rows_def
      dpu_config_write_def dpu_signal_write_def zero_hwf_def take_Cons')

text \<open>The word that triggers a signal carries both ids: for a client id and a signal that fit 16 bits,
  as all ids of the tables do, the receiver reads them back from the upper and the lower half.\<close>

lemma trigger_signal_word:
  assumes "rx_vid < 0x10000" and "signal_id < 0x10000"
  shows "\<exists>ptr val. io_writes (hw_fence_ipcc_trigger_signal d tx_pid rx_vid signal_id) = io_writes d @ [(ptr, val)] \<and>
    drop_bit 16 val = rx_vid \<and> val AND 0xFFFF = signal_id"
proof -
  let ?v = "push_bit 16 rx_vid OR signal_id"
  have r: "take_bit 16 rx_vid = rx_vid" and s: "take_bit 16 signal_id = signal_id"
    using assms
    by (simp_all add: word_unat_eq_iff unsigned_take_bit_eq take_bit_nat_eq_self_iff word_less_nat_alt)
  have low: "n < 16" if "bit rx_vid n" for n
    using that by (metis bit_take_bit_iff r)
  have low': "n < 16" if "bit signal_id n" for n
    using that by (metis bit_take_bit_iff s)
  have mask: "(0xFFFF :: u32) = mask 16" by (simp add: mask_eq_exp_minus_1)
  have "drop_bit 16 ?v = rx_vid"
    by (rule bit_word_eqI) (auto simp: bit_drop_bit_eq bit_or_iff bit_push_bit_iff dest: low low')
  moreover have "?v AND 0xFFFF = signal_id"
    unfolding mask
    by (rule bit_word_eqI) (auto simp: bit_and_iff bit_or_iff bit_push_bit_iff bit_mask_iff dest: low')
  ultimately show ?thesis
    by (simp add: hw_fence_ipcc_trigger_signal_def writel_def Let_def)
qed

lemma trigger_signal_word_example:
  "\<exists>ptr val. io_writes (hw_fence_ipcc_trigger_signal zero_hwf 3 25 5) = [(ptr, val)] \<and>
    drop_bit 16 val = 25 \<and> val AND 0xFFFF = 5"
  using trigger_signal_word [of 25 5 zero_hwf 3] by (simp add: zero_hwf_def)

text \<open>An unknown hardware revision is refused with \<open>-EINVAL\<close> before any register is written or any
  field of the driver changes.\<close>

lemma unsupported_revision:
  assumes "val = (case dt of None \<Rightarrow> reg | Some v \<Rightarrow> if v = 0 then reg else v)"
    and "val \<notin> {HW_FENCE_IPCC_HW_REV_100, HW_FENCE_IPCC_HW_REV_110, HW_FENCE_IPCC_HW_REV_170,
      HW_FENCE_IPCC_HW_REV_203}"
  shows "hw_fence_ipcc_enable_signaling P alloc d dt reg = Some (d, - EINVAL)"
  using assms by (simp add: hw_fence_ipcc_enable_signaling_def hw_fence_ipcc_hwrev_init_def)

lemma unsupported_revision_example:
  "hw_fence_ipcc_enable_signaling sample_platform True zero_hwf (Some 0) 0x30000 = Some (zero_hwf, - EINVAL)"
  by (rule unsupported_revision [where val = "0x30000"]) (simp_all add: hw_rev_defs)

end
