(* ===== verification/HwfLock.thy ===== *)
theory HwfLock
  imports HwfIpc
begin

text \<open>
  The inter-processor lock \<open>global_atomic_store\<close> of \<open>hw_fence_drv_utils.c\<close>, for the aarch64 build.
  Bit 0 of a lock word is held by this driver (the primary VM), bit 1 by the service VM. Here it is
  one step of the driver: taking a lock that is not free never returns, so it is \<open>None\<close>. \<open>HwfSpin\<close> has the
  instruction sequences themselves, interleaved over any number of threads.
\<close>

subsection \<open>The lock as an operation of the driver\<close>

text \<open>\<open>_lock\<close>: the exclusive load and store access the low 32 bits of the word.\<close>

definition lock_word :: "u64 \<Rightarrow> u64 option" where
  "lock_word w = (if (ucast w :: u32) = 0 then Some ((w AND 0xFFFFFFFF00000000) OR 1) else None)"

text \<open>\<open>_unlock\<close>: the low word loses bit 0.\<close>

definition unlock_word :: "u64 \<Rightarrow> u64" where
  "unlock_word w = w AND 0xFFFFFFFFFFFFFFFE"

datatype lock_ref = FenceLock nat | ClientLock nat

definition lock_load :: "hwf \<Rightarrow> lock_ref \<Rightarrow> u64 option" where
  "lock_load d r = (case r of
       FenceLock i \<Rightarrow> map_option hf_lock (fetch (hw_fences_tbl d) i)
     | ClientLock i \<Rightarrow> fetch (client_lock_tbl d) i)"

definition set_fence :: "nat \<Rightarrow> msm_hw_fence \<Rightarrow> hwf \<Rightarrow> hwf" where
  "set_fence i f d = d\<lparr>hw_fences_tbl := (hw_fences_tbl d)[i := f]\<rparr>"

definition lock_store :: "hwf \<Rightarrow> lock_ref \<Rightarrow> u64 \<Rightarrow> hwf" where
  "lock_store d r w = (case r of
       FenceLock i \<Rightarrow> set_fence i ((hw_fences_tbl d ! i)\<lparr>hf_lock := w\<rparr>) d
     | ClientLock i \<Rightarrow> d\<lparr>client_lock_tbl := (client_lock_tbl d)[i := w]\<rparr>)"

text \<open>After the store, the driver wakes the service VM if it waits for the lock.\<close>

definition wake_svm :: "hwf \<Rightarrow> u64 \<Rightarrow> hwf" where
  "wake_svm d lock_val =
     (if lock_val AND 0x2 \<noteq> 0
      then hw_fence_ipcc_trigger_signal (d\<lparr>lock_wake_cnt := lock_wake_cnt d + 1\<rparr>)
             (ipcc_client_pid d) (ipcc_client_vid d) 30
      else d)"

definition global_atomic_store :: "hwf \<Rightarrow> lock_ref \<Rightarrow> bool \<Rightarrow> hwf option" where
  "global_atomic_store d r val = do {
     w \<leftarrow> lock_load d r;
     if val then do {
       w' \<leftarrow> lock_word w;
       Some (lock_store d r w')
     } else
       Some (wake_svm (lock_store d r (unlock_word w)) (unlock_word w))
   }"

text \<open>Taking a free lock and giving it back, on a table entry and on a client's lock.\<close>

lemma lock_word_0 [simp]: "lock_word 0 = Some 1"
  by (simp add: lock_word_def)

lemma unlock_word_1 [simp]: "unlock_word 1 = 0"
  by (simp add: unlock_word_def)

lemma wake_svm_0 [simp]: "wake_svm d 0 = d"
  by (simp add: wake_svm_def)

lemma set_fence_tbl [simp]: "hw_fences_tbl (set_fence i f d) = (hw_fences_tbl d)[i := f]"
  by (simp add: set_fence_def)

lemma set_fence_set_fence [simp]: "set_fence i f (set_fence i g d) = set_fence i f d"
  by (simp add: set_fence_def)

lemma set_fence_same [simp]: "set_fence i (hw_fences_tbl d ! i) d = d"
  by (simp add: set_fence_def)

lemma fence_lock:
  assumes "i < length (hw_fences_tbl d)" and "hf_lock (hw_fences_tbl d ! i) = 0"
  shows "global_atomic_store d (FenceLock i) True
    = Some (set_fence i ((hw_fences_tbl d ! i)\<lparr>hf_lock := 1\<rparr>) d)"
  using assms by (simp add: global_atomic_store_def lock_load_def lock_store_def)

lemma fence_unlock:
  assumes "i < length (hw_fences_tbl d)" and "hf_lock (hw_fences_tbl d ! i) = 1"
  shows "global_atomic_store d (FenceLock i) False
    = Some (set_fence i ((hw_fences_tbl d ! i)\<lparr>hf_lock := 0\<rparr>) d)"
  using assms by (simp add: global_atomic_store_def lock_load_def lock_store_def)

lemma client_lock:
  assumes "i < length (client_lock_tbl d)" and "client_lock_tbl d ! i = 0"
  shows "global_atomic_store d (ClientLock i) True
    = Some (d\<lparr>client_lock_tbl := (client_lock_tbl d)[i := 1]\<rparr>)"
  using assms by (simp add: global_atomic_store_def lock_load_def lock_store_def)

lemma client_unlock:
  assumes "i < length (client_lock_tbl d)" and "client_lock_tbl d ! i = 1"
  shows "global_atomic_store d (ClientLock i) False
    = Some (d\<lparr>client_lock_tbl := (client_lock_tbl d)[i := 0]\<rparr>)"
  using assms by (simp add: global_atomic_store_def lock_load_def lock_store_def)

lemma lock_store_entries [simp]:
  "hw_fence_table_entries (lock_store d r w) = hw_fence_table_entries d"
  by (simp add: lock_store_def set_fence_def split: lock_ref.split)

lemma wake_svm_entries [simp]:
  "hw_fence_table_entries (wake_svm d w) = hw_fence_table_entries d"
  by (simp add: wake_svm_def writel_def Let_def hw_fence_ipcc_trigger_signal_def)

lemma lock_keeps_entries:
  "global_atomic_store d r v = Some d' \<Longrightarrow> hw_fence_table_entries d' = hw_fence_table_entries d"
  by (auto simp: global_atomic_store_def Option.bind_eq_Some_conv split: if_splits)

end
