(* ===== verification/HwfInterfaces.thy ===== *)
theory HwfInterfaces
  imports HwfPrelude
begin

text \<open>
  The contracts that components of the driver offer to their clients, as locales: a store of objects
  with unique keys and limited room (the fence table), and a bounded queue (the queues shared with the
  fence controller). Each holds what a client can conclude from the contract alone; the
  component theories interpret them on the code's operations.
\<close>

section \<open>A keyed store with limited room\<close>

locale keyed_store =
  fixes inv :: "'s \<Rightarrow> bool"
    and contents :: "'s \<Rightarrow> 'k \<Rightarrow> 'v option"
    and room :: "'s \<Rightarrow> nat"
    and good_key :: "'k \<Rightarrow> bool"
    and put :: "'k \<Rightarrow> 's \<Rightarrow> 's option"
    and del :: "'k \<Rightarrow> 's \<Rightarrow> 's option"
  assumes put_ok: "inv s \<Longrightarrow> good_key k \<Longrightarrow> contents s k = None \<Longrightarrow> 0 < room s \<Longrightarrow>
      \<exists>s' v. put k s = Some s' \<and> inv s' \<and> contents s' = (contents s)(k \<mapsto> v) \<and> Suc (room s') = room s"
    and del_ok: "inv s \<Longrightarrow> good_key k \<Longrightarrow> contents s k = Some v \<Longrightarrow>
      \<exists>s'. del k s = Some s' \<and> inv s' \<and> contents s' = (contents s)(k := None) \<and> room s' = Suc (room s)"
begin

lemma put_all:
  "inv s \<Longrightarrow> distinct ks \<Longrightarrow> \<forall>k\<in>set ks. good_key k \<and> contents s k = None \<Longrightarrow> length ks \<le> room s \<Longrightarrow>
   \<exists>s'. chain put ks s = Some s' \<and> inv s' \<and> dom (contents s') = dom (contents s) \<union> set ks \<and>
     (\<forall>k. k \<notin> set ks \<longrightarrow> contents s' k = contents s k) \<and> room s' + length ks = room s"
proof (induction ks arbitrary: s)
  case Nil
  then show ?case by simp
next
  case (Cons k ks)
  have k: "good_key k" "contents s k = None" and room: "0 < room s"
    using Cons.prems(3,4) by auto
  obtain s1 v where s1: "put k s = Some s1" "inv s1" "contents s1 = (contents s)(k \<mapsto> v)"
      "Suc (room s1) = room s"
    using put_ok [OF Cons.prems(1) k room] by blast
  have "\<forall>k'\<in>set ks. good_key k' \<and> contents s1 k' = None"
    using Cons.prems(2,3) by (auto simp: s1(3))
  with Cons.IH [OF s1(2)] Cons.prems(2,4) s1(4) obtain s' where s':
    "chain put ks s1 = Some s'" "inv s'" "dom (contents s') = dom (contents s1) \<union> set ks"
    "\<forall>k. k \<notin> set ks \<longrightarrow> contents s' k = contents s1 k" "room s' + length ks = room s1"
    by auto
  then show ?case
    using s1 by (intro exI [of _ s']) auto
qed

lemma del_all:
  "inv s \<Longrightarrow> distinct ks \<Longrightarrow> \<forall>k\<in>set ks. good_key k \<and> k \<in> dom (contents s) \<Longrightarrow>
   \<exists>s'. chain del ks s = Some s' \<and> inv s' \<and>
     (\<forall>k. contents s' k = (if k \<in> set ks then None else contents s k)) \<and> room s' = room s + length ks"
proof (induction ks arbitrary: s)
  case Nil
  then show ?case by simp
next
  case (Cons k ks)
  then obtain v where k: "good_key k" "contents s k = Some v" by auto
  obtain s1 where s1: "del k s = Some s1" "inv s1" "contents s1 = (contents s)(k := None)"
      "room s1 = Suc (room s)"
    using del_ok [OF Cons.prems(1) k] by blast
  have "\<forall>k'\<in>set ks. good_key k' \<and> k' \<in> dom (contents s1)"
    using Cons.prems(2,3) by (auto simp: s1(3))
  with Cons.IH [OF s1(2)] Cons.prems(2) obtain s' where s':
    "chain del ks s1 = Some s'" "inv s'"
    "\<forall>k. contents s' k = (if k \<in> set ks then None else contents s1 k)" "room s' = room s1 + length ks"
    by auto
  then show ?case
    using s1 by (intro exI [of _ s']) auto
qed

text \<open>A batch of new keys goes in, and taking the same keys out in any order restores the store.\<close>

lemma batch_restore:
  assumes "inv s" and "distinct ks" and "\<forall>k\<in>set ks. good_key k \<and> contents s k = None"
    and "length ks \<le> room s" and "distinct ks'" and "set ks' = set ks"
  obtains s' s'' where "chain put ks s = Some s'" "inv s'" "dom (contents s') = dom (contents s) \<union> set ks"
    "chain del ks' s' = Some s''" "inv s''" "contents s'' = contents s" "room s'' = room s"
proof -
  obtain s' where s': "chain put ks s = Some s'" "inv s'" "dom (contents s') = dom (contents s) \<union> set ks"
      "\<forall>k. k \<notin> set ks \<longrightarrow> contents s' k = contents s k" "room s' + length ks = room s"
    using put_all [OF assms(1-4)] by blast
  have "\<forall>k\<in>set ks'. good_key k \<and> k \<in> dom (contents s')"
    using assms(3,6) s'(3) by auto
  then obtain s'' where s'': "chain del ks' s' = Some s''" "inv s''"
      "\<forall>k. contents s'' k = (if k \<in> set ks' then None else contents s' k)"
      "room s'' = room s' + length ks'"
    using del_all [OF s'(2) assms(5)] by blast
  have len: "length ks' = length ks"
    using assms(2,5,6) by (metis distinct_card)
  have "contents s'' = contents s"
    using s''(3) s'(4) assms(3,6) by (auto simp: fun_eq_iff)
  with that s' s'' len show thesis by simp
qed

end

section \<open>A registry of names\<close>

text \<open>A name is taken by the first who registers it; \<open>fit s k v\<close> says that \<open>v\<close> may register as \<open>k\<close>, and nothing
  that happens to the registry changes that.\<close>

locale registry =
  fixes inv :: "'s \<Rightarrow> bool"
    and entry :: "'s \<Rightarrow> 'k \<Rightarrow> 'v option"
    and fit :: "'s \<Rightarrow> 'k \<Rightarrow> 'v \<Rightarrow> bool"
    and add :: "'k \<Rightarrow> 'v \<Rightarrow> 's \<Rightarrow> 's option"
    and remove :: "'k \<Rightarrow> 'v \<Rightarrow> 's \<Rightarrow> 's option"
  assumes add_new: "inv s \<Longrightarrow> fit s k v \<Longrightarrow> entry s k = None \<Longrightarrow>
      \<exists>s'. add k v s = Some s' \<and> inv s' \<and> entry s' = (entry s)(k \<mapsto> v) \<and> (\<forall>k v. fit s k v \<longrightarrow> fit s' k v)"
    and add_taken: "inv s \<Longrightarrow> fit s k v \<Longrightarrow> entry s k = Some w \<Longrightarrow> add k v s = Some s"
    and remove_ok: "inv s \<Longrightarrow> entry s k = Some v \<Longrightarrow>
      \<exists>s'. remove k v s = Some s' \<and> inv s' \<and> entry s' = (entry s)(k := None) \<and> (\<forall>k v. fit s k v \<longrightarrow> fit s' k v)"
begin

text \<open>After any sequence of registrations, a name belongs to whoever had it before, or else asked first.\<close>

lemma first_come:
  "inv s \<Longrightarrow> \<forall>(k, v)\<in>set kvs. fit s k v \<Longrightarrow>
   \<exists>s'. chain (\<lambda>(k, v). add k v) kvs s = Some s' \<and> inv s' \<and> entry s' = map_of kvs ++ entry s \<and>
     (\<forall>k v. fit s k v \<longrightarrow> fit s' k v)"
proof (induction kvs arbitrary: s)
  case Nil
  then show ?case by simp
next
  case (Cons kv kvs)
  obtain k v where kv: "kv = (k, v)" by (cases kv)
  have fit: "fit s k v" using Cons.prems(2) kv by simp
  show ?case
  proof (cases "entry s k")
    case None
    obtain s1 where s1: "add k v s = Some s1" "inv s1" "entry s1 = (entry s)(k \<mapsto> v)" "\<forall>k v. fit s k v \<longrightarrow> fit s1 k v"
      using add_new [OF Cons.prems(1) fit None] by blast
    obtain s' where "chain (\<lambda>(k, v). add k v) kvs s1 = Some s'" "inv s'" "entry s' = map_of kvs ++ entry s1"
      "\<forall>k v. fit s1 k v \<longrightarrow> fit s' k v"
      using Cons.IH [OF s1(2)] Cons.prems(2) s1(4) by fastforce
    moreover have "map_of kvs ++ entry s1 = map_of ((k, v) # kvs) ++ entry s"
      using None by (auto simp: s1(3) map_add_def fun_eq_iff split: option.splits)
    moreover have "chain (\<lambda>(k, v). add k v) (kv # kvs) s = chain (\<lambda>(k, v). add k v) kvs s1" using s1(1) kv by simp
    ultimately show ?thesis using s1(4) kv by metis
  next
    case (Some w)
    obtain s' where "chain (\<lambda>(k, v). add k v) kvs s = Some s'" "inv s'" "entry s' = map_of kvs ++ entry s"
      "\<forall>k v. fit s k v \<longrightarrow> fit s' k v"
      using Cons.IH [OF Cons.prems(1)] Cons.prems(2) by fastforce
    moreover have "map_of kvs ++ entry s = map_of ((k, v) # kvs) ++ entry s"
      using Some by (auto simp: map_add_def fun_eq_iff split: option.splits)
    moreover have "chain (\<lambda>(k, v). add k v) (kv # kvs) s = chain (\<lambda>(k, v). add k v) kvs s"
      using add_taken [OF Cons.prems(1) fit Some] kv by simp
    ultimately show ?thesis using kv by metis
  qed
qed

text \<open>Once the owner of a name leaves, the next who asks gets it.\<close>

lemma takes_over:
  assumes "inv s" and "entry s k = Some v" and "fit s k w"
  obtains s' s'' where "remove k v s = Some s'" "add k w s' = Some s''" "inv s''" "entry s'' = (entry s)(k \<mapsto> w)"
proof -
  obtain s' where s': "remove k v s = Some s'" "inv s'" "entry s' = (entry s)(k := None)" "fit s' k w"
    using remove_ok [OF assms(1,2)] assms(3) by blast
  then obtain s'' where "add k w s' = Some s''" "inv s''" "entry s'' = (entry s')(k \<mapsto> w)"
    using add_new [OF s'(2,4)] by auto
  with s' that show thesis by simp
qed

end

section \<open>A bounded queue\<close>

text \<open>
  \<open>room\<close> is how many more items fit. A full queue refuses, an empty one says so, and in between the
  queue is the list of its items.
\<close>

fun drain :: "('q \<Rightarrow> ('q \<times> 'm) option) \<Rightarrow> nat \<Rightarrow> 'q \<Rightarrow> 'q \<times> 'm list" where
  "drain get 0 q = (q, [])"
| "drain get (Suc n) q = (case get q of
      None \<Rightarrow> (q, [])
    | Some (q', m) \<Rightarrow> (case drain get n q' of (q'', ms) \<Rightarrow> (q'', m # ms)))"

locale bounded_fifo =
  fixes inv :: "'q \<Rightarrow> bool"
    and items :: "'q \<Rightarrow> 'm list"
    and room :: "'q \<Rightarrow> nat"
    and put :: "'m \<Rightarrow> 'q \<Rightarrow> 'q option"
    and get :: "'q \<Rightarrow> ('q \<times> 'm) option"
  assumes put_ok: "inv q \<Longrightarrow> 0 < room q \<Longrightarrow>
      \<exists>q'. put m q = Some q' \<and> inv q' \<and> items q' = items q @ [m] \<and> Suc (room q') = room q"
    and put_full: "inv q \<Longrightarrow> room q = 0 \<Longrightarrow> put m q = None"
    and get_ok: "inv q \<Longrightarrow> items q = m # ms \<Longrightarrow>
      \<exists>q'. get q = Some (q', m) \<and> inv q' \<and> items q' = ms \<and> room q' = Suc (room q)"
    and get_empty: "inv q \<Longrightarrow> items q = [] \<Longrightarrow> get q = None"
begin

lemma put_all:
  "inv q \<Longrightarrow> length ms \<le> room q \<Longrightarrow>
   \<exists>q'. chain put ms q = Some q' \<and> inv q' \<and> items q' = items q @ ms \<and> room q' + length ms = room q"
proof (induction ms arbitrary: q)
  case Nil
  then show ?case by simp
next
  case (Cons m ms)
  then obtain q1 where q1: "put m q = Some q1" "inv q1" "items q1 = items q @ [m]" "Suc (room q1) = room q"
    using put_ok [of q m] by fastforce
  with Cons.IH [of q1] Cons.prems(2) show ?case by auto
qed

lemma put_too_many:
  "inv q \<Longrightarrow> room q < length ms \<Longrightarrow> chain put ms q = None"
proof (induction ms arbitrary: q)
  case Nil
  then show ?case by simp
next
  case (Cons m ms)
  show ?case
  proof (cases "room q = 0")
    case True
    with Cons.prems put_full show ?thesis by simp
  next
    case False
    then obtain q1 where "put m q = Some q1" "inv q1" "Suc (room q1) = room q"
      using put_ok [OF Cons.prems(1), of m] by auto
    with Cons show ?thesis by simp
  qed
qed

lemma drain_all:
  "inv q \<Longrightarrow> length (items q) \<le> n \<Longrightarrow>
   \<exists>q'. drain get n q = (q', items q) \<and> inv q' \<and> items q' = [] \<and> room q' = room q + length (items q)"
proof (induction n arbitrary: q)
  case 0
  then show ?case by simp
next
  case (Suc n)
  show ?case
  proof (cases "items q")
    case Nil
    with Suc.prems(1) get_empty show ?thesis by simp
  next
    case (Cons m ms)
    obtain q1 where q1: "get q = Some (q1, m)" "inv q1" "items q1 = ms" "room q1 = Suc (room q)"
      using get_ok [OF Suc.prems(1) Cons] by blast
    with Suc.IH [OF q1(2)] Suc.prems(2) Cons show ?thesis by auto
  qed
qed

text \<open>What is sent arrives, once and in order.\<close>

lemma send_receive:
  assumes "inv q" and "items q = []" and "length ms \<le> room q"
  obtains q' q'' where "chain put ms q = Some q'" "drain get (length ms) q' = (q'', ms)"
    "inv q''" "items q'' = []" "room q'' = room q"
  using put_all [OF assms(1,3)] drain_all assms(2)
  by (metis append_Nil order_refl)

end

end
