(* ===== verification/HwfTable.thy ===== *)
theory HwfTable
  imports HwfLock HwfInterfaces
begin

text \<open>
  The global fence table of \<open>hw_fence_drv_priv.c\<close>: an open-addressing hash table keyed by the
  context and sequence number of a dma-fence. A pointer into the table is the index of its entry.
  First the code, then the probe sequence, the table as a map from keys to fences, and the
  operations as operations of that map.
\<close>

section \<open>The code\<close>

definition HW_FENCE_HASH_A_MULT :: u64 where "HW_FENCE_HASH_A_MULT = 4969"
definition HW_FENCE_HASH_C_MULT :: u64 where "HW_FENCE_HASH_C_MULT = 907"

definition calculate_hash :: "u32 \<Rightarrow> u64 \<Rightarrow> u64 \<Rightarrow> u64 \<Rightarrow> u64 \<Rightarrow> u64 \<times> int" where
  "calculate_hash table_total_entries context seqno step hash =
     (let m_size = ucast table_total_entries :: u64 in
      if step = 0 then
        let a_multiplier = HW_FENCE_HASH_A_MULT;
            c_multiplier = HW_FENCE_HASH_C_MULT;
            b_multiplier = context + (context - 1)
        in ((a_multiplier * seqno * b_multiplier + c_multiplier * context) mod m_size, 0)
      else if m_size \<le> step then (hash, - EINVAL)
      else ((hash + 1) mod m_size, 0))"

definition get_hw_fence :: "u32 \<Rightarrow> u64 \<Rightarrow> nat option" where
  "get_hw_fence table_total_entries hash =
     (if ucast table_total_entries \<le> hash then None else Some (unat hash))"

definition is_hw_fence_free :: "msm_hw_fence \<Rightarrow> u64 \<Rightarrow> u64 \<Rightarrow> bool" where
  "is_hw_fence_free hw_fence context seqno = (if hf_valid hw_fence \<noteq> 0 then False else True)"

definition hw_fence_match :: "msm_hw_fence \<Rightarrow> u64 \<Rightarrow> u64 \<Rightarrow> bool" where
  "hw_fence_match hw_fence context seqno =
     (hf_ctx_id hw_fence = context \<and> hf_seq_id hw_fence = seqno)"

definition cleanup_hw_fence :: "msm_hw_fence \<Rightarrow> msm_hw_fence" where
  "cleanup_hw_fence f = f\<lparr>
     hf_error := 0,
     hf_ctx_id := 0,
     hf_seq_id := 0,
     hf_wait_client_mask := 0,
     hf_fence_allocator := 0,
     hf_fence_signal_client := 0,
     hf_flags := 0,
     hf_fence_create_time := 0,
     hf_fence_trigger_time := 0,
     hf_fence_wait_time := 0,
     hf_debug_refcount := 0,
     hf_parents_cnt := 0,
     hf_pending_child_cnt := 0,
     hf_parent_list := replicate MSM_HW_FENCE_MAX_JOIN_PARENTS HW_FENCE_INVALID_PARENT_FENCE,
     hf_client_data := replicate HW_FENCE_MAX_CLIENTS_WITH_DATA 0\<rparr>"

definition hw_fence_get_qtime :: "hwf \<Rightarrow> u64" where
  "hw_fence_get_qtime d = qtime d"

definition reserve_hw_fence :: "hwf \<Rightarrow> msm_hw_fence \<Rightarrow> u32 \<Rightarrow> u64 \<Rightarrow> u64 \<Rightarrow> u32 \<Rightarrow> msm_hw_fence" where
  "reserve_hw_fence d f cid context seqno pending_child_cnt =
     (let f = cleanup_hw_fence f in
      f\<lparr>hf_valid := 1,
        hf_ctx_id := context,
        hf_seq_id := seqno,
        hf_flags := 0,
        hf_fence_allocator := cid,
        hf_fence_create_time := hw_fence_get_qtime d,
        hf_debug_refcount := hf_debug_refcount f + 1\<rparr>)"

definition unreserve_hw_fence :: "hwf \<Rightarrow> msm_hw_fence \<Rightarrow> u32 \<Rightarrow> u64 \<Rightarrow> u64 \<Rightarrow> u32 \<Rightarrow> msm_hw_fence" where
  "unreserve_hw_fence d f cid context seqno pending_child_cnt =
     (cleanup_hw_fence f)\<lparr>hf_valid := 0\<rparr>"

definition reserve_join_fence :: "hwf \<Rightarrow> msm_hw_fence \<Rightarrow> u32 \<Rightarrow> u64 \<Rightarrow> u64 \<Rightarrow> u32 \<Rightarrow> msm_hw_fence" where
  "reserve_join_fence d f cid context seqno pending_child_cnt =
     (let f = cleanup_hw_fence f in
      f\<lparr>hf_valid := 1,
        hf_ctx_id := context,
        hf_seq_id := seqno,
        hf_fence_allocator := cid,
        hf_fence_create_time := hw_fence_get_qtime d,
        hf_debug_refcount := hf_debug_refcount f + 1,
        hf_pending_child_cnt := pending_child_cnt\<rparr>)"

definition fence_found :: "hwf \<Rightarrow> msm_hw_fence \<Rightarrow> u32 \<Rightarrow> u64 \<Rightarrow> u64 \<Rightarrow> u32 \<Rightarrow> msm_hw_fence" where
  "fence_found d f cid context seqno pending_child_cnt = f"

datatype hw_fence_lookup_ops = OP_CREATE | OP_DESTROY | OP_CREATE_JOIN | OP_FIND_FENCE

fun compare_fnc :: "hw_fence_lookup_ops \<Rightarrow> msm_hw_fence \<Rightarrow> u64 \<Rightarrow> u64 \<Rightarrow> bool" where
  "compare_fnc OP_CREATE = is_hw_fence_free"
| "compare_fnc OP_DESTROY = hw_fence_match"
| "compare_fnc OP_CREATE_JOIN = is_hw_fence_free"
| "compare_fnc OP_FIND_FENCE = hw_fence_match"

fun process_fnc ::
  "hw_fence_lookup_ops \<Rightarrow> hwf \<Rightarrow> msm_hw_fence \<Rightarrow> u32 \<Rightarrow> u64 \<Rightarrow> u64 \<Rightarrow> u32 \<Rightarrow> msm_hw_fence" where
  "process_fnc OP_CREATE = reserve_hw_fence"
| "process_fnc OP_DESTROY = unreserve_hw_fence"
| "process_fnc OP_CREATE_JOIN = reserve_join_fence"
| "process_fnc OP_FIND_FENCE = fence_found"

lemma step_decreases:
  fixes step :: u64 and n :: u32
  assumes "step < ucast n"
  shows "unat (ucast n :: u64) - unat (step + 1) < unat (ucast n :: u64) - unat step"
    and "unat (step + 1) = Suc (unat step)"
proof -
  from assms show eq: "unat (step + 1) = Suc (unat step)"
    by (rule unat_Suc_below)
  from assms have "unat step < unat (ucast n :: u64)"
    by (simp add: word_less_nat_alt)
  with eq show "unat (ucast n :: u64) - unat (step + 1) < unat (ucast n :: u64) - unat step"
    by simp
qed

text \<open>The loop of \<open>_hw_fence_lookup_and_process\<close>: the new state, \<open>*hash\<close>, and the fence found.\<close>

function lookup_loop ::
  "hwf \<Rightarrow> u64 \<Rightarrow> u64 \<Rightarrow> u32 \<Rightarrow> u32 \<Rightarrow> hw_fence_lookup_ops \<Rightarrow> u64 \<Rightarrow> u64
    \<Rightarrow> (hwf \<times> u64 \<times> nat option) option" where
  "lookup_loop d context seqno cid pending_child_cnt op_code step hash =
     (if step < ucast (hw_fence_table_entries d) then
        (case calculate_hash (hw_fence_table_entries d) context seqno step hash of (hash, ret) \<Rightarrow>
         if ret \<noteq> 0 then Some (d, hash, None)
         else (case get_hw_fence (hw_fence_table_entries d) hash of
           None \<Rightarrow> Some (d, hash, None)
         | Some i \<Rightarrow> do {
             d \<leftarrow> global_atomic_store d (FenceLock i) True;
             f \<leftarrow> fetch (hw_fences_tbl d) i;
             if compare_fnc op_code f context seqno then do {
               d \<leftarrow> global_atomic_store
                 (set_fence i (process_fnc op_code d f cid context seqno pending_child_cnt) d)
                 (FenceLock i) False;
               Some (d, hash, Some i)
             } else if (op_code = OP_CREATE \<or> op_code = OP_CREATE_JOIN) \<and>
                 seqno = hf_seq_id f \<and> context = hf_ctx_id f then do {
               d \<leftarrow> global_atomic_store d (FenceLock i) False;
               Some (d, hash, None)
             } else do {
               d \<leftarrow> global_atomic_store d (FenceLock i) False;
               lookup_loop d context seqno cid pending_child_cnt op_code (step + 1) hash
             }
           }))
      else Some (d, hash, None))"
  by pat_completeness auto
termination
  by (relation "measure (\<lambda>(d, _, _, _, _, _, step, _).
        unat (ucast (hw_fence_table_entries d) :: u64) - unat step)")
    (simp_all add: lock_keeps_entries set_fence_def step_decreases(1) del: unat_ucast_up)

declare lookup_loop.simps [simp del]

definition hw_fence_lookup_and_process ::
  "hwf \<Rightarrow> u64 \<Rightarrow> u64 \<Rightarrow> u32 \<Rightarrow> u32 \<Rightarrow> hw_fence_lookup_ops \<Rightarrow> u64 \<Rightarrow> (hwf \<times> u64 \<times> nat option) option"
where
  "hw_fence_lookup_and_process d context seqno cid pending_child_cnt op_code hash =
     (if hw_fences_tbl_va d = 0 then Some (d, hash, None)
      else lookup_loop d context seqno cid pending_child_cnt op_code 0 (- 1))"

definition hw_fence_create ::
  "hwf \<Rightarrow> msm_hw_fence_client \<Rightarrow> u64 \<Rightarrow> u64 \<Rightarrow> u64 \<Rightarrow> (hwf \<times> u64 \<times> int) option" where
  "hw_fence_create d c context seqno hash = do {
     (d, hash, r) \<leftarrow> hw_fence_lookup_and_process d context seqno (cl_client_id c) 0 OP_CREATE hash;
     Some (d, hash, if r = None then - EINVAL else 0)
   }"

definition hw_fence_cleanup :: "hwf \<Rightarrow> u32 \<Rightarrow> u64 \<Rightarrow> u64 \<Rightarrow> (hwf \<times> int) option" where
  "hw_fence_cleanup d cid context seqno = do {
     (d, _, r) \<leftarrow> hw_fence_lookup_and_process d context seqno cid 0 OP_DESTROY 0;
     Some (d, if r = None then - EINVAL else 0)
   }"

definition hw_fence_destroy :: "hwf \<Rightarrow> msm_hw_fence_client \<Rightarrow> u64 \<Rightarrow> u64 \<Rightarrow> (hwf \<times> int) option" where
  "hw_fence_destroy d c context seqno = do {
     (d, ret) \<leftarrow> hw_fence_cleanup d (cl_client_id c) context seqno;
     Some (d, if ret \<noteq> 0 then - EINVAL else 0)
   }"

definition hw_fence_destroy_with_hash ::
  "hwf \<Rightarrow> msm_hw_fence_client \<Rightarrow> u64 \<Rightarrow> (hwf \<times> int) option" where
  "hw_fence_destroy_with_hash d c hash =
     (case get_hw_fence (hw_fence_table_entries d) hash of
        None \<Rightarrow> Some (d, - EINVAL)
      | Some i \<Rightarrow> do {
          f \<leftarrow> fetch (hw_fences_tbl d) i;
          if hf_fence_allocator f \<noteq> cl_client_id c then Some (d, - EINVAL)
          else do {
            (d, ret) \<leftarrow> hw_fence_cleanup d (cl_client_id c) (hf_ctx_id f) (hf_seq_id f);
            Some (d, if ret \<noteq> 0 then - EINVAL else 0)
          }
        })"

definition msm_hw_fence_find ::
  "hwf \<Rightarrow> msm_hw_fence_client option \<Rightarrow> u64 \<Rightarrow> u64 \<Rightarrow> u64 \<Rightarrow> (hwf \<times> u64 \<times> nat option) option" where
  "msm_hw_fence_find d c context seqno hash =
     hw_fence_lookup_and_process d context seqno
       (case c of None \<Rightarrow> 0xff | Some c \<Rightarrow> cl_client_id c) 0 OP_FIND_FENCE hash"


section \<open>The probe sequence\<close>

definition key :: "msm_hw_fence \<Rightarrow> u64 \<times> u64" where
  "key f = (hf_ctx_id f, hf_seq_id f)"

definition table_ok :: "hwf \<Rightarrow> bool" where
  "table_ok d \<longleftrightarrow> hw_fences_tbl_va d \<noteq> 0 \<and> 0 < hw_fence_table_entries d \<and>
     length (hw_fences_tbl d) = unat (hw_fence_table_entries d) \<and>
     list_all (\<lambda>f. hf_lock f = 0) (hw_fences_tbl d)"

definition first_slot :: "hwf \<Rightarrow> u64 \<Rightarrow> u64 \<Rightarrow> nat" where
  "first_slot d context seqno =
     unat (fst (calculate_hash (hw_fence_table_entries d) context seqno 0 0))"

text \<open>The entries in the order the loop visits them: all of them, once, from the hash on.\<close>

definition probe_order :: "hwf \<Rightarrow> u64 \<Rightarrow> u64 \<Rightarrow> nat list" where
  "probe_order d context seqno = rotate (first_slot d context seqno) [0..<length (hw_fences_tbl d)]"

definition probe_stop :: "hw_fence_lookup_ops \<Rightarrow> u64 \<Rightarrow> u64 \<Rightarrow> msm_hw_fence \<Rightarrow> bool" where
  "probe_stop op_code context seqno f \<longleftrightarrow> compare_fnc op_code f context seqno \<or>
     (op_code = OP_CREATE \<or> op_code = OP_CREATE_JOIN) \<and> key f = (context, seqno)"

definition lookup_result ::
  "hwf \<Rightarrow> u64 \<Rightarrow> u64 \<Rightarrow> u32 \<Rightarrow> u32 \<Rightarrow> hw_fence_lookup_ops \<Rightarrow> nat option \<Rightarrow> hwf \<times> nat option" where
  "lookup_result d context seqno cid pend op_code r = (case r of
       None \<Rightarrow> (d, None)
     | Some i \<Rightarrow> if compare_fnc op_code (hw_fences_tbl d ! i) context seqno
         then (set_fence i (process_fnc op_code d (hw_fences_tbl d ! i) cid context seqno pend) d, Some i)
         else (d, None))"

lemma table_okD:
  assumes "table_ok d"
  shows "hw_fences_tbl_va d \<noteq> 0" "0 < length (hw_fences_tbl d)"
    "unat (hw_fence_table_entries d) = length (hw_fences_tbl d)"
    "i < length (hw_fences_tbl d) \<Longrightarrow> hf_lock (hw_fences_tbl d ! i) = 0"
  using assms by (auto simp: table_ok_def list_all_length unat_gt_0 word_less_nat_alt)

lemma set_probe_order [simp]: "set (probe_order d c s) = {..<length (hw_fences_tbl d)}"
  by (auto simp: probe_order_def)

lemma length_probe_order [simp]: "length (probe_order d c s) = length (hw_fences_tbl d)"
  by (simp add: probe_order_def)

lemma nth_probe_order:
  "k < length (hw_fences_tbl d) \<Longrightarrow>
   probe_order d c s ! k = (first_slot d c s + k) mod length (hw_fences_tbl d)"
  by (cases "length (hw_fences_tbl d)") (simp_all add: probe_order_def nth_rotate del: upt_Suc)

lemma calculate_hash_0:
  assumes "table_ok d"
  shows "calculate_hash (hw_fence_table_entries d) c s 0 h
      = (of_nat (first_slot d c s), 0)"
    and "first_slot d c s < length (hw_fences_tbl d)"
proof -
  have calc: "calculate_hash (hw_fence_table_entries d) c s 0 h
      = calculate_hash (hw_fence_table_entries d) c s 0 0"
    by (simp add: calculate_hash_def)
  show "calculate_hash (hw_fence_table_entries d) c s 0 h = (of_nat (first_slot d c s), 0)"
    by (subst calc) (simp add: first_slot_def calculate_hash_def Let_def)
  show "first_slot d c s < length (hw_fences_tbl d)"
    using table_okD(2,3) [OF assms]
    by (simp add: first_slot_def calculate_hash_def Let_def unat_mod)
qed

lemma calculate_hash_step:
  assumes ok: "table_ok d" and "step \<noteq> 0" and "step < ucast (hw_fence_table_entries d)"
    and h: "unat h < length (hw_fences_tbl d)"
  shows "calculate_hash (hw_fence_table_entries d) c s step h
      = (of_nat (Suc (unat h) mod length (hw_fences_tbl d)), 0)"
proof -
  have "h < ucast (hw_fence_table_entries d)"
    using h table_okD(3) [OF ok] by (simp add: word_less_nat_alt)
  then have "unat (h + 1) = Suc (unat h)"
    by (rule unat_Suc_below)
  then have "unat ((h + 1) mod ucast (hw_fence_table_entries d))
      = Suc (unat h) mod length (hw_fences_tbl d)"
    by (simp add: unat_mod table_okD(3) [OF ok])
  then have "(h + 1) mod ucast (hw_fence_table_entries d)
      = of_nat (Suc (unat h) mod length (hw_fences_tbl d))"
    by (rule eq_of_natI)
  with assms(2,3) show ?thesis
    by (simp add: calculate_hash_def Let_def not_le)
qed

lemma unat_slot:
  "table_ok d \<Longrightarrow> i < length (hw_fences_tbl d) \<Longrightarrow> unat (of_nat i :: u64) = i"
  using unat_of_nat_u64 [of i "hw_fence_table_entries d"] by (simp add: table_okD(3))

lemma get_hw_fence_slot:
  assumes "table_ok d" and "i < length (hw_fences_tbl d)"
  shows "get_hw_fence (hw_fence_table_entries d) (of_nat i) = Some i"
  using assms of_nat_less_ucast [of i "hw_fence_table_entries d"]
  by (simp add: get_hw_fence_def table_okD(3) unat_slot not_le)

lemma fence_relock: "hf_lock f = 0 \<Longrightarrow> f\<lparr>hf_lock := 0\<rparr> = f"
  by (cases f) simp

text \<open>Processing an entry between lock and unlock is processing it.\<close>

lemma process_locked:
  assumes "hf_lock f = 0"
  shows "(process_fnc op_code (set_fence i g d) (f\<lparr>hf_lock := 1\<rparr>) cid c s p)\<lparr>hf_lock := 0\<rparr>
    = process_fnc op_code d f cid c s p"
  using assms
  by (cases f; cases op_code)
    (simp_all add: reserve_hw_fence_def unreserve_hw_fence_def reserve_join_fence_def
      fence_found_def cleanup_hw_fence_def hw_fence_get_qtime_def set_fence_def Let_def)

lemma hf_lock_process [simp]: "hf_lock (process_fnc op_code d f cid c s p) = hf_lock f"
  by (cases op_code)
    (simp_all add: reserve_hw_fence_def unreserve_hw_fence_def reserve_join_fence_def
      fence_found_def cleanup_hw_fence_def Let_def)

lemma compare_locked [simp]:
  "compare_fnc op_code (f\<lparr>hf_lock := w\<rparr>) c s = compare_fnc op_code f c s"
  by (cases op_code) (simp_all add: is_hw_fence_free_def hw_fence_match_def)

text \<open>One iteration of the loop, on a table whose locks are free.\<close>

lemma lookup_loop_step:
  assumes ok: "table_ok d" and step: "step < ucast (hw_fence_table_entries d)"
    and i: "i < length (hw_fences_tbl d)"
    and hash: "calculate_hash (hw_fence_table_entries d) c s step h = (of_nat i, 0)"
  shows "lookup_loop d c s cid p op_code step h =
    (let f = hw_fences_tbl d ! i in
     if compare_fnc op_code f c s
     then Some (set_fence i (process_fnc op_code d f cid c s p) d, of_nat i, Some i)
     else if probe_stop op_code c s f then Some (d, of_nat i, None)
     else lookup_loop d c s cid p op_code (step + 1) (of_nat i))"
proof -
  note lock0 = table_okD(4) [OF ok i]
  have un: "global_atomic_store (set_fence i ((hw_fences_tbl d ! i)\<lparr>hf_lock := 1\<rparr>) d) (FenceLock i) False
      = Some d"
    using i lock0 by (simp add: fence_unlock fence_relock)
  have pr: "global_atomic_store (set_fence i (process_fnc op_code
        (set_fence i ((hw_fences_tbl d ! i)\<lparr>hf_lock := 1\<rparr>) d)
        ((hw_fences_tbl d ! i)\<lparr>hf_lock := 1\<rparr>) cid c s p) d) (FenceLock i) False
      = Some (set_fence i (process_fnc op_code d (hw_fences_tbl d ! i) cid c s p) d)"
    using i lock0 by (simp add: fence_unlock process_locked)
  show ?thesis
    using step i lock0
    by (subst lookup_loop.simps)
      (auto simp: hash get_hw_fence_slot ok fence_lock un pr probe_stop_def key_def Let_def)
qed

lemma lookup_loop_find:
  assumes ok: "table_ok d" and "k \<le> length (hw_fences_tbl d)"
    and "k \<noteq> 0 \<Longrightarrow> unat h = probe_order d c s ! (k - 1)"
  shows "\<exists>h'. lookup_loop d c s cid p op_code (of_nat k) h =
    (case lookup_result d c s cid p op_code
        (find (\<lambda>i. probe_stop op_code c s (hw_fences_tbl d ! i)) (drop k (probe_order d c s))) of
      (d', r) \<Rightarrow> Some (d', (case r of None \<Rightarrow> h' | Some i \<Rightarrow> of_nat i), r))"
  using assms(2,3)
proof (induction "length (hw_fences_tbl d) - k" arbitrary: k h)
  case 0
  then have "k = length (hw_fences_tbl d)" by simp
  moreover from this have "\<not> (of_nat k :: u64) < ucast (hw_fence_table_entries d)"
    by (simp add: table_okD(3) [OF ok, symmetric])
  ultimately show ?case
    by (subst lookup_loop.simps) (simp add: lookup_result_def)
next
  case (Suc n)
  let ?m = "length (hw_fences_tbl d)" and ?i = "probe_order d c s ! k"
  have k: "k < ?m" using Suc.hyps(2) by simp
  then have i: "?i < ?m"
    using nth_mem [of k "probe_order d c s"] by simp
  have step: "(of_nat k :: u64) < ucast (hw_fence_table_entries d)"
    using k by (intro of_nat_less_ucast) (simp add: table_okD(3) [OF ok])
  have uk: "unat (of_nat k :: u64) = k" using ok k by (rule unat_slot)
  have hash: "calculate_hash (hw_fence_table_entries d) c s (of_nat k) h = (of_nat ?i, 0)"
  proof (cases "k = 0")
    case True
    with calculate_hash_0 [OF ok, of c s] k show ?thesis
      by (simp add: nth_probe_order)
  next
    case False
    then have h: "unat h = (first_slot d c s + (k - 1)) mod ?m"
      using Suc.prems(2) k by (simp add: nth_probe_order)
    have "(of_nat k :: u64) \<noteq> 0" using uk False by auto
    moreover have "unat h < ?m"
      unfolding h by (rule mod_less_divisor) (use k in linarith)
    moreover have "Suc (unat h) mod ?m = ?i"
      using False k by (simp add: h nth_probe_order mod_Suc_eq)
    ultimately show ?thesis
      using calculate_hash_step [OF ok _ step] by metis
  qed
  have drop: "drop k (probe_order d c s) = ?i # drop (Suc k) (probe_order d c s)"
    using k by (simp add: Cons_nth_drop_Suc)
  have "unat (of_nat ?i :: u64) = ?i" using ok i by (rule unat_slot)
  with k have prems: "Suc k \<le> ?m"
      "unat (of_nat ?i :: u64) = probe_order d c s ! (Suc k - 1)"
    by simp_all
  have n: "n = ?m - Suc k" using Suc.hyps(2) by simp
  obtain h' where IH: "lookup_loop d c s cid p op_code (of_nat (Suc k)) (of_nat ?i) =
    (case lookup_result d c s cid p op_code
        (find (\<lambda>i. probe_stop op_code c s (hw_fences_tbl d ! i)) (drop (Suc k) (probe_order d c s))) of
      (d', r) \<Rightarrow> Some (d', (case r of None \<Rightarrow> h' | Some i \<Rightarrow> of_nat i), r))"
    using Suc.hyps(1) [OF n prems] by blast
  have next_step: "of_nat k + 1 = (of_nat (Suc k) :: u64)" by simp
  show ?case
    using IH
    by (auto simp: lookup_loop_step [OF ok step i hash] drop lookup_result_def next_step Let_def
        probe_stop_def simp del: of_nat_Suc intro: exI [of _ h'] exI [of _ "of_nat ?i"])
qed

text \<open>
  The whole lookup on a table whose locks are free: it returns, it stops at the first entry of the
  probe order that ends the search, and it changes at most that entry.
\<close>

lemma lookup_find:
  assumes "table_ok d"
  obtains h' where "hw_fence_lookup_and_process d c s cid p op_code h =
    (case lookup_result d c s cid p op_code
        (find (\<lambda>i. probe_stop op_code c s (hw_fences_tbl d ! i)) (probe_order d c s)) of
      (d', r) \<Rightarrow> Some (d', (case r of None \<Rightarrow> h' | Some i \<Rightarrow> of_nat i), r))"
  using lookup_loop_find [OF assms, of 0 "- 1" c s cid p op_code] table_okD(1) [OF assms]
  by (auto simp: hw_fence_lookup_and_process_def)

section \<open>The table as a map from keys to fences\<close>

abbreviation valid_fence :: "msm_hw_fence \<Rightarrow> bool" where
  "valid_fence f \<equiv> hf_valid f \<noteq> 0"

definition fence_map :: "hwf \<Rightarrow> u64 \<times> u64 \<Rightarrow> msm_hw_fence option" where
  "fence_map d = keyed_map valid_fence key (hw_fences_tbl d)"

definition keys_unique :: "hwf \<Rightarrow> bool" where
  "keys_unique d \<longleftrightarrow> keyed_unique valid_fence key (hw_fences_tbl d)"

definition free_clean :: "hwf \<Rightarrow> bool" where
  "free_clean d \<longleftrightarrow> list_all (\<lambda>f. hf_valid f = 0 \<longrightarrow> key f = (0, 0)) (hw_fences_tbl d)"

definition free_slots :: "hwf \<Rightarrow> nat" where
  "free_slots d = length (filter (\<lambda>f. hf_valid f = 0) (hw_fences_tbl d))"

text \<open>
  What the operations keep: the locks are free, no two fences have one key, and a free entry carries
  the key that \<open>_cleanup_hw_fence\<close> leaves.
\<close>

definition table_inv :: "hwf \<Rightarrow> bool" where
  "table_inv d \<longleftrightarrow> table_ok d \<and> keys_unique d \<and> free_clean d"

abbreviation stored_at :: "hwf \<Rightarrow> u64 \<times> u64 \<Rightarrow> nat \<Rightarrow> bool" where
  "stored_at d \<equiv> keyed_at valid_fence key (hw_fences_tbl d)"

lemma fence_mapD:
  assumes "fence_map d k = Some f" and "keys_unique d"
  obtains i where "i < length (hw_fences_tbl d)" "valid_fence (hw_fences_tbl d ! i)"
    "key (hw_fences_tbl d ! i) = k" "hw_fences_tbl d ! i = f"
  using assms by (auto simp: fence_map_def keys_unique_def keyed_map_iff keyed_at_def)

lemma free_slots_pos: "0 < free_slots d \<longleftrightarrow> (\<exists>i<length (hw_fences_tbl d). hf_valid (hw_fences_tbl d ! i) = 0)"
  unfolding free_slots_def by (rule length_filter_pos)

lemma free_slots_set_fence:
  "i < length (hw_fences_tbl d) \<Longrightarrow>
   free_slots (set_fence i f d) + (if hf_valid (hw_fences_tbl d ! i) = 0 then 1 else 0)
    = free_slots d + (if hf_valid f = 0 then 1 else 0)"
  using length_filter_update [of i "hw_fences_tbl d" "\<lambda>f. hf_valid f = 0" f]
  by (simp add: free_slots_def)

lemma set_fence_fields [simp]:
  "hw_fences_tbl_va (set_fence i f d) = hw_fences_tbl_va d"
  "hw_fence_table_entries (set_fence i f d) = hw_fence_table_entries d"
  "client_lock_tbl (set_fence i f d) = client_lock_tbl d"
  "client_lock_tbl_cnt (set_fence i f d) = client_lock_tbl_cnt d"
  "qtime (set_fence i f d) = qtime d"
  by (simp_all add: set_fence_def)

lemma table_ok_set_fence:
  "table_ok d \<Longrightarrow> hf_lock f = 0 \<Longrightarrow> table_ok (set_fence i f d)"
  by (simp add: table_ok_def list_all_update)

lemma free_clean_set_fence:
  "free_clean d \<Longrightarrow> (hf_valid f = 0 \<Longrightarrow> key f = (0, 0)) \<Longrightarrow> free_clean (set_fence i f d)"
  unfolding free_clean_def set_fence_tbl by (rule list_all_update) auto

lemma free_cleanD:
  "free_clean d \<Longrightarrow> i < length (hw_fences_tbl d) \<Longrightarrow> hf_valid (hw_fences_tbl d ! i) = 0 \<Longrightarrow>
   key (hw_fences_tbl d ! i) = (0, 0)"
  by (auto simp: free_clean_def list_all_length)

lemma table_inv_insert:
  assumes "table_inv d" and "i < length (hw_fences_tbl d)" and "hf_valid (hw_fences_tbl d ! i) = 0"
    and "valid_fence f" and "fence_map d (key f) = None" and "hf_lock f = 0"
  shows "table_inv (set_fence i f d)" and "fence_map (set_fence i f d) = (fence_map d)(key f \<mapsto> f)"
    and "Suc (free_slots (set_fence i f d)) = free_slots d"
  using assms keyed_insert [of valid_fence key "hw_fences_tbl d" i f] free_slots_set_fence [of i d f]
  by (simp_all add: table_inv_def table_ok_set_fence free_clean_set_fence keys_unique_def fence_map_def)

lemma table_inv_delete:
  assumes "table_inv d" and "stored_at d k i" and "hf_valid f = 0" and "key f = (0, 0)"
    and "hf_lock f = 0"
  shows "table_inv (set_fence i f d)" and "fence_map (set_fence i f d) = (fence_map d)(k := None)"
    and "free_slots (set_fence i f d) = Suc (free_slots d)"
proof -
  have i: "i < length (hw_fences_tbl d)" "valid_fence (hw_fences_tbl d ! i)"
    using assms(2) by (simp_all add: keyed_at_def)
  show "table_inv (set_fence i f d)" "fence_map (set_fence i f d) = (fence_map d)(k := None)"
    using assms keyed_delete [OF _ assms(2), of f]
    by (simp_all add: table_inv_def table_ok_set_fence free_clean_set_fence keys_unique_def fence_map_def)
  show "free_slots (set_fence i f d) = Suc (free_slots d)"
    using free_slots_set_fence [OF i(1), of f] i(2) assms(3) by simp
qed

lemma table_inv_replace:
  assumes "table_inv d" and "stored_at d k i" and "valid_fence f" and "key f = k" and "hf_lock f = 0"
  shows "table_inv (set_fence i f d)" and "fence_map (set_fence i f d) = (fence_map d)(k \<mapsto> f)"
    and "free_slots (set_fence i f d) = free_slots d"
proof -
  have i: "i < length (hw_fences_tbl d)" "valid_fence (hw_fences_tbl d ! i)"
    using assms(2) by (simp_all add: keyed_at_def)
  show "table_inv (set_fence i f d)" "fence_map (set_fence i f d) = (fence_map d)(k \<mapsto> f)"
    using assms keyed_replace [OF _ assms(2), of f]
    by (simp_all add: table_inv_def table_ok_set_fence free_clean_set_fence keys_unique_def fence_map_def)
  show "free_slots (set_fence i f d) = free_slots d"
    using free_slots_set_fence [OF i(1), of f] i(2) assms(3) by simp
qed

section \<open>The operations as operations of the map\<close>

text \<open>A fence as \<open>_reserve_hw_fence\<close> and \<open>_reserve_join_fence\<close> leave it.\<close>

definition new_fence :: "u64 \<Rightarrow> u32 \<Rightarrow> u64 \<times> u64 \<Rightarrow> u32 \<Rightarrow> msm_hw_fence" where
  "new_fence now cid k pending = \<lparr>
     hf_valid = 1, hf_error = 0, hf_ctx_id = fst k, hf_seq_id = snd k, hf_wait_client_mask = 0,
     hf_fence_allocator = cid, hf_fence_signal_client = 0, hf_lock = 0, hf_flags = 0,
     hf_parent_list = replicate MSM_HW_FENCE_MAX_JOIN_PARENTS HW_FENCE_INVALID_PARENT_FENCE,
     hf_parents_cnt = 0, hf_pending_child_cnt = pending, hf_fence_create_time = now,
     hf_fence_trigger_time = 0, hf_fence_wait_time = 0, hf_debug_refcount = 1,
     hf_client_data = replicate HW_FENCE_MAX_CLIENTS_WITH_DATA 0\<rparr>"

lemma reserve_new:
  assumes "hf_lock f = 0"
  shows "reserve_hw_fence d f cid c s p = new_fence (qtime d) cid (c, s) 0"
    and "reserve_join_fence d f cid c s p = new_fence (qtime d) cid (c, s) p"
  using assms
  by (cases f, simp add: reserve_hw_fence_def reserve_join_fence_def cleanup_hw_fence_def
      hw_fence_get_qtime_def new_fence_def)+

lemma new_fence_fields [simp]:
  "hf_valid (new_fence t cid k p) = 1" "key (new_fence t cid k p) = k"
  "hf_lock (new_fence t cid k p) = 0" "hf_fence_allocator (new_fence t cid k p) = cid"
  "hf_pending_child_cnt (new_fence t cid k p) = p"
  by (simp_all add: new_fence_def key_def)

lemma unreserve_fields [simp]:
  "hf_valid (unreserve_hw_fence d f cid c s p) = 0" "key (unreserve_hw_fence d f cid c s p) = (0, 0)"
  "hf_lock (unreserve_hw_fence d f cid c s p) = hf_lock f"
  by (simp_all add: unreserve_hw_fence_def cleanup_hw_fence_def key_def)

text \<open>Where the search of each kind of operation ends.\<close>

lemma probe_stop_create:
  "op = OP_CREATE \<or> op = OP_CREATE_JOIN \<Longrightarrow>
   probe_stop op c s f \<longleftrightarrow> hf_valid f = 0 \<or> key f = (c, s)"
  by (auto simp: probe_stop_def is_hw_fence_free_def split: if_splits)

lemma probe_stop_match:
  "op = OP_DESTROY \<or> op = OP_FIND_FENCE \<Longrightarrow> probe_stop op c s f \<longleftrightarrow> key f = (c, s)"
  by (auto simp: probe_stop_def hw_fence_match_def key_def)

lemma find_probe_Some:
  assumes "find P (probe_order d c s) = Some i"
  shows "i < length (hw_fences_tbl d)" and "P i"
proof -
  from assms obtain k where "k < length (probe_order d c s)" "i = probe_order d c s ! k" "P i"
    by (auto simp: find_Some_iff)
  with nth_mem [of k "probe_order d c s"] show "i < length (hw_fences_tbl d)" "P i" by simp_all
qed

lemma find_probe_None:
  "find P (probe_order d c s) = None \<Longrightarrow> i < length (hw_fences_tbl d) \<Longrightarrow> \<not> P i"
  by (auto simp: find_None_iff)

text \<open>Reserving an entry for a key that is not in the table.\<close>

lemma lookup_reserve:
  assumes inv: "table_inv d" and op: "op = OP_CREATE \<or> op = OP_CREATE_JOIN"
    and new: "fence_map d (c, s) = None" and free: "0 < free_slots d"
  obtains i where "i < length (hw_fences_tbl d)" "hf_valid (hw_fences_tbl d ! i) = 0"
    "hw_fence_lookup_and_process d c s cid p op h =
      Some (set_fence i (process_fnc op d (hw_fences_tbl d ! i) cid c s p) d, of_nat i, Some i)"
proof -
  let ?P = "\<lambda>i. probe_stop op c s (hw_fences_tbl d ! i)"
  have ok: "table_ok d" using inv by (simp add: table_inv_def)
  obtain j where "j < length (hw_fences_tbl d)" "hf_valid (hw_fences_tbl d ! j) = 0"
    using free by (auto simp: free_slots_pos)
  then obtain i where i: "find ?P (probe_order d c s) = Some i"
    using op find_probe_None [of ?P d c s j] by (auto simp: probe_stop_create)
  then have il: "i < length (hw_fences_tbl d)" and stop: "?P i"
    by (rule find_probe_Some)+
  have "\<not> stored_at d (c, s) i"
    using new by (simp add: fence_map_def keyed_map_None_iff)
  with il stop op have v: "hf_valid (hw_fences_tbl d ! i) = 0"
    by (auto simp: probe_stop_create keyed_at_def)
  then have cmp: "compare_fnc op (hw_fences_tbl d ! i) c s"
    using op by (auto simp: is_hw_fence_free_def)
  show thesis
    by (rule that [OF il v], rule lookup_find [OF ok, of c s cid p op h])
      (simp add: i cmp lookup_result_def)
qed

lemma lookup_full:
  assumes ok: "table_ok d" and op: "op = OP_CREATE \<or> op = OP_CREATE_JOIN"
    and full: "free_slots d = 0"
  obtains h' where "hw_fence_lookup_and_process d c s cid p op h = Some (d, h', None)"
proof -
  let ?P = "\<lambda>i. probe_stop op c s (hw_fences_tbl d ! i)"
  have busy: "\<not> compare_fnc op (hw_fences_tbl d ! i) c s" if "i < length (hw_fences_tbl d)" for i
    using full that op free_slots_pos [of d] by (auto simp: is_hw_fence_free_def)
  obtain h' where h': "hw_fence_lookup_and_process d c s cid p op h =
    (case lookup_result d c s cid p op (find ?P (probe_order d c s)) of
      (d', r) \<Rightarrow> Some (d', (case r of None \<Rightarrow> h' | Some i \<Rightarrow> of_nat i), r))"
    using ok by (rule lookup_find)
  show thesis
  proof (rule that [of h'], cases "find ?P (probe_order d c s)")
    case None
    with h' show "hw_fence_lookup_and_process d c s cid p op h = Some (d, h', None)"
      by (simp add: lookup_result_def)
  next
    case (Some i)
    with busy [OF find_probe_Some(1) [OF Some]] h'
    show "hw_fence_lookup_and_process d c s cid p op h = Some (d, h', None)"
      by (simp add: lookup_result_def)
  qed
qed

text \<open>Finding a key: the only entry that carries it, or none.\<close>

lemma key_stored:
  assumes "table_inv d" and "(c, s) \<noteq> (0, 0)" and "i < length (hw_fences_tbl d)"
  shows "key (hw_fences_tbl d ! i) = (c, s) \<longleftrightarrow> stored_at d (c, s) i"
  using assms free_cleanD [of d i] by (auto simp: table_inv_def keyed_at_def)

lemma lookup_match:
  assumes inv: "table_inv d" and op: "op = OP_DESTROY \<or> op = OP_FIND_FENCE"
    and k: "(c, s) \<noteq> (0, 0)" and at: "stored_at d (c, s) i"
  shows "hw_fence_lookup_and_process d c s cid p op h =
      Some (set_fence i (process_fnc op d (hw_fences_tbl d ! i) cid c s p) d, of_nat i, Some i)"
proof -
  let ?P = "\<lambda>i. probe_stop op c s (hw_fences_tbl d ! i)"
  have ok: "table_ok d" and uniq: "keys_unique d" using inv by (simp_all add: table_inv_def)
  have il: "i < length (hw_fences_tbl d)" using at by (simp add: keyed_at_def)
  have P: "?P j \<longleftrightarrow> j = i" if "j < length (hw_fences_tbl d)" for j
  proof -
    have "?P j \<longleftrightarrow> stored_at d (c, s) j"
      using key_stored [OF inv k that] op by (simp add: probe_stop_match)
    also have "\<dots> \<longleftrightarrow> j = i"
      using keyed_uniqueD [OF _ at, of j] uniq at unfolding keys_unique_def by metis
    finally show ?thesis .
  qed
  have "find ?P (probe_order d c s) = Some i"
  proof (cases "find ?P (probe_order d c s)")
    case None
    from find_probe_None [OF None il] P [OF il] show ?thesis by simp
  next
    case (Some j)
    from find_probe_Some [OF Some] P show ?thesis by (simp add: Some)
  qed
  moreover have "compare_fnc op (hw_fences_tbl d ! i) c s"
    using op at by (auto simp: hw_fence_match_def keyed_at_def key_def)
  moreover obtain h' where "hw_fence_lookup_and_process d c s cid p op h =
    (case lookup_result d c s cid p op (find ?P (probe_order d c s)) of
      (d', r) \<Rightarrow> Some (d', (case r of None \<Rightarrow> h' | Some i \<Rightarrow> of_nat i), r))"
    using ok by (rule lookup_find)
  ultimately show ?thesis by (simp add: lookup_result_def)
qed

lemma lookup_no_match:
  assumes inv: "table_inv d" and op: "op = OP_DESTROY \<or> op = OP_FIND_FENCE"
    and k: "(c, s) \<noteq> (0, 0)" and new: "fence_map d (c, s) = None"
  obtains h' where "hw_fence_lookup_and_process d c s cid p op h = Some (d, h', None)"
proof -
  let ?P = "\<lambda>i. probe_stop op c s (hw_fences_tbl d ! i)"
  have ok: "table_ok d" using inv by (simp add: table_inv_def)
  have "find ?P (probe_order d c s) = None"
    using key_stored [OF inv k] new op
    by (auto simp: find_None_iff probe_stop_match fence_map_def keyed_map_None_iff)
  moreover obtain h' where "hw_fence_lookup_and_process d c s cid p op h =
    (case lookup_result d c s cid p op (find ?P (probe_order d c s)) of
      (d', r) \<Rightarrow> Some (d', (case r of None \<Rightarrow> h' | Some i \<Rightarrow> of_nat i), r))"
    using ok by (rule lookup_find)
  ultimately show thesis by (intro that [of h']) (simp add: lookup_result_def)
qed

lemma fence_map_stored_at:
  assumes "table_inv d" and "fence_map d k = Some f"
  obtains i where "stored_at d k i" and "hw_fences_tbl d ! i = f"
  using assms by (auto simp: fence_map_def table_inv_def keys_unique_def keyed_map_iff)


text \<open>The functions of the driver on a table in good order.\<close>

lemma hw_fence_create_new:
  assumes "table_inv d" and "fence_map d (c, s) = None" and "0 < free_slots d"
  obtains i where "i < length (hw_fences_tbl d)" "hf_valid (hw_fences_tbl d ! i) = 0"
    "hw_fence_create d cl c s h =
      Some (set_fence i (new_fence (qtime d) (cl_client_id cl) (c, s) 0) d, of_nat i, 0)"
proof -
  obtain i where i: "i < length (hw_fences_tbl d)" "hf_valid (hw_fences_tbl d ! i) = 0"
    and look: "hw_fence_lookup_and_process d c s (cl_client_id cl) 0 OP_CREATE h =
      Some (set_fence i (process_fnc OP_CREATE d (hw_fences_tbl d ! i) (cl_client_id cl) c s 0) d,
        of_nat i, Some i)"
    using lookup_reserve [OF assms(1) _ assms(2,3)] by blast
  have "hf_lock (hw_fences_tbl d ! i) = 0"
    using assms(1) i(1) by (simp add: table_inv_def table_okD(4))
  with look show thesis
    by (intro that [OF i]) (simp add: hw_fence_create_def reserve_new)
qed

lemma hw_fence_cleanup_stored:
  assumes "table_inv d" and "(c, s) \<noteq> (0, 0)" and "stored_at d (c, s) i"
  shows "hw_fence_cleanup d cid c s =
    Some (set_fence i (unreserve_hw_fence d (hw_fences_tbl d ! i) cid c s 0) d, 0)"
  using lookup_match [OF assms(1) _ assms(2,3), of OP_DESTROY cid 0 0]
  by (simp add: hw_fence_cleanup_def)

lemma hw_fence_cleanup_unknown:
  assumes "table_inv d" and "(c, s) \<noteq> (0, 0)" and "fence_map d (c, s) = None"
  shows "hw_fence_cleanup d cid c s = Some (d, - EINVAL)"
  by (rule lookup_no_match [OF assms(1) _ assms(2,3), of OP_DESTROY cid 0 0])
    (simp_all add: hw_fence_cleanup_def)

lemma unreserve_deletes:
  fixes cid :: u32
  assumes "table_inv d" and "stored_at d (c, s) i"
  defines "d' \<equiv> set_fence i (unreserve_hw_fence d (hw_fences_tbl d ! i) cid c s 0) d"
  shows "table_inv d'" and "fence_map d' = (fence_map d)((c, s) := None)"
    and "free_slots d' = Suc (free_slots d)"
proof -
  have "hf_lock (hw_fences_tbl d ! i) = 0"
    using assms(1,2) by (simp add: table_inv_def keyed_at_def table_okD(4))
  then show "table_inv d'" and "fence_map d' = (fence_map d)((c, s) := None)"
    and "free_slots d' = Suc (free_slots d)"
    using table_inv_delete [OF assms(1,2), of "unreserve_hw_fence d (hw_fences_tbl d ! i) cid c s 0"]
    by (simp_all add: d'_def)
qed

lemma hw_fence_cleanup_deletes:
  assumes "table_inv d" and "(c, s) \<noteq> (0, 0)" and "fence_map d (c, s) = Some f"
  obtains d' where "hw_fence_cleanup d cid c s = Some (d', 0)" "table_inv d'"
    "fence_map d' = (fence_map d)((c, s) := None)" "free_slots d' = Suc (free_slots d)"
  using fence_map_stored_at [OF assms(1,3)] hw_fence_cleanup_stored [OF assms(1,2)]
    unreserve_deletes [OF assms(1)] by metis

section \<open>The table as a keyed store\<close>

definition fence_put :: "msm_hw_fence_client \<Rightarrow> u64 \<times> u64 \<Rightarrow> hwf \<Rightarrow> hwf option" where
  "fence_put cl k d = (case hw_fence_create d cl (fst k) (snd k) 0 of
       Some (d', _, ret) \<Rightarrow> if ret = 0 then Some d' else None
     | None \<Rightarrow> None)"

definition fence_del :: "msm_hw_fence_client \<Rightarrow> u64 \<times> u64 \<Rightarrow> hwf \<Rightarrow> hwf option" where
  "fence_del cl k d = (case hw_fence_destroy d cl (fst k) (snd k) of
       Some (d', ret) \<Rightarrow> if ret = 0 then Some d' else None
     | None \<Rightarrow> None)"

interpretation fence_table: keyed_store table_inv fence_map free_slots "\<lambda>k. k \<noteq> (0, 0)"
  "fence_put cl" "fence_del cl" for cl
proof
  fix d :: hwf and k :: "u64 \<times> u64"
  assume inv: "table_inv d" and new: "fence_map d k = None" and free: "0 < free_slots d"
  obtain c s where k: "k = (c, s)" by (cases k)
  obtain i where i: "i < length (hw_fences_tbl d)" "hf_valid (hw_fences_tbl d ! i) = 0"
    "hw_fence_create d cl c s 0 =
      Some (set_fence i (new_fence (qtime d) (cl_client_id cl) k 0) d, of_nat i, 0)"
    using hw_fence_create_new [OF inv] new free unfolding k by metis
  let ?f = "new_fence (qtime d) (cl_client_id cl) k 0"
  have "fence_put cl k d = Some (set_fence i ?f d)"
    using i(3) by (simp add: fence_put_def k)
  moreover have "table_inv (set_fence i ?f d)" "fence_map (set_fence i ?f d) = (fence_map d)(k \<mapsto> ?f)"
      "Suc (free_slots (set_fence i ?f d)) = free_slots d"
    using table_inv_insert [OF inv i(1,2), of ?f] new by simp_all
  ultimately show "\<exists>d' f. fence_put cl k d = Some d' \<and> table_inv d' \<and> fence_map d' = (fence_map d)(k \<mapsto> f) \<and>
      Suc (free_slots d') = free_slots d" by blast
next
  fix d :: hwf and k :: "u64 \<times> u64" and f
  assume inv: "table_inv d" and ok: "k \<noteq> (0, 0)" and f: "fence_map d k = Some f"
  obtain c s where k: "k = (c, s)" by (cases k)
  obtain d' where "hw_fence_cleanup d (cl_client_id cl) c s = Some (d', 0)" "table_inv d'"
    "fence_map d' = (fence_map d)(k := None)" "free_slots d' = Suc (free_slots d)"
    using hw_fence_cleanup_deletes [OF inv] ok f unfolding k by metis
  then show "\<exists>d'. fence_del cl k d = Some d' \<and> table_inv d' \<and> fence_map d' = (fence_map d)(k := None) \<and>
      free_slots d' = Suc (free_slots d)"
    by (simp add: fence_del_def hw_fence_destroy_def k)
qed


text \<open>A cleared table is empty and in order.\<close>

lemma zeroed_table:
  assumes "hw_fences_tbl d = replicate (unat (hw_fence_table_entries d)) zero_fence"
    and "hw_fences_tbl_va d \<noteq> 0" and "0 < hw_fence_table_entries d"
  shows "table_inv d" and "fence_map d = Map.empty" and "free_slots d = unat (hw_fence_table_entries d)"
  using assms
  by (simp_all add: table_inv_def table_ok_def keys_unique_def keyed_unique_def free_clean_def
      fence_map_def keyed_map_def free_slots_def zero_fence_def key_def list_all_length)

definition table_of :: "msm_hw_fence list \<Rightarrow> hwf" where
  "table_of tbl = zero_hwf\<lparr>hw_fences_tbl_va := 0x1000, hw_fences_tbl := tbl,
     hw_fence_table_entries := of_nat (length tbl)\<rparr>"

lemma table_of_empty:
  "table_inv (table_of (replicate 4 zero_fence))"
  "fence_map (table_of (replicate 4 zero_fence)) = Map.empty"
  "free_slots (table_of (replicate 4 zero_fence)) = 4"
  using zeroed_table [of "table_of (replicate 4 zero_fence)"] by (simp_all add: table_of_def)

lemma table_of_one:
  defines "d \<equiv> table_of [zero_fence, new_fence 0 7 (5, 9) 0]"
  shows "table_inv d" "fence_map d = [(5, 9) \<mapsto> new_fence 0 7 (5, 9) 0]" "free_slots d = 1"
  by (simp_all add: d_def table_of_def table_inv_def table_ok_def keys_unique_def keyed_unique_def
      free_clean_def fence_map_def keyed_map_def free_slots_def zero_fence_def key_def new_fence_def)

section \<open>Properties\<close>

text \<open>C6. Every lookup of the fence table returns, whatever it looks for and whichever operation it
  carries out: on a table whose inter-processor locks are free it never waits for a lock it holds
  itself and never leaves the table, it changes at most the one entry it reports, reports that entry's
  index as the hash, and gives back every lock, so the next lookup starts from the same condition.\<close>

theorem lookup_returns:
  assumes "table_ok d"
  shows "\<exists>d' h' r. hw_fence_lookup_and_process d c s cid pend op_code h = Some (d', h', r) \<and>
    table_ok d' \<and> length (hw_fences_tbl d') = length (hw_fences_tbl d) \<and>
    (case r of None \<Rightarrow> d' = d
     | Some i \<Rightarrow> h' = of_nat i \<and> i < length (hw_fences_tbl d) \<and>
         d' = set_fence i (process_fnc op_code d (hw_fences_tbl d ! i) cid c s pend) d)"
proof -
  let ?F = "find (\<lambda>i. probe_stop op_code c s (hw_fences_tbl d ! i)) (probe_order d c s)"
  obtain h' where h': "hw_fence_lookup_and_process d c s cid pend op_code h =
    (case lookup_result d c s cid pend op_code ?F of
      (d', r) \<Rightarrow> Some (d', (case r of None \<Rightarrow> h' | Some i \<Rightarrow> of_nat i), r))"
    using assms by (rule lookup_find)
  show ?thesis
  proof (cases "\<exists>i. ?F = Some i \<and> compare_fnc op_code (hw_fences_tbl d ! i) c s")
    case True
    then obtain i where F: "?F = Some i" and cmp: "compare_fnc op_code (hw_fences_tbl d ! i) c s"
      by blast
    have i: "i < length (hw_fences_tbl d)" using F by (rule find_probe_Some)
    then have "table_ok (set_fence i (process_fnc op_code d (hw_fences_tbl d ! i) cid c s pend) d)"
      using assms by (simp add: table_ok_set_fence table_okD(4))
    with h' F cmp i show ?thesis
      by (simp add: lookup_result_def)
  next
    case False
    then have "lookup_result d c s cid pend op_code ?F = (d, None)"
      by (simp add: lookup_result_def split: option.split)
    with h' assms show ?thesis by simp
  qed
qed

theorem lookup_returns_witness:
  "\<exists>d' h' r. hw_fence_lookup_and_process (table_of (replicate 4 zero_fence)) 5 9 7 0 OP_FIND_FENCE 0 =
     Some (d', h', r) \<and> table_ok d'"
  using lookup_returns [of "table_of (replicate 4 zero_fence)" 5 9 7 0 OP_FIND_FENCE 0]
    table_of_empty(1)
  by (auto simp: table_inv_def)

text \<open>What \<open>hw_fence_create\<close> does in every state of the table: it takes the first entry of the probe
  order that is free or already carries the key. If that entry is free, the fence is written there as
  a new fence of the calling client and its index is the hash that the client receives; if the key is
  met before a free entry, or there is neither, it reports \<open>-EINVAL\<close> and changes nothing.\<close>

lemma create_result:
  assumes "table_ok d"
  shows "\<exists>d' h' ret. hw_fence_create d cl c s h = Some (d', h', ret) \<and>
    (case find (\<lambda>i. hf_valid (hw_fences_tbl d ! i) = 0 \<or> key (hw_fences_tbl d ! i) = (c, s))
        (probe_order d c s) of
      None \<Rightarrow> ret = - EINVAL \<and> d' = d
    | Some i \<Rightarrow> if hf_valid (hw_fences_tbl d ! i) = 0
        then ret = 0 \<and> h' = of_nat i \<and>
          d' = set_fence i (new_fence (qtime d) (cl_client_id cl) (c, s) 0) d
        else ret = - EINVAL \<and> d' = d)"
proof -
  let ?F = "find (\<lambda>i. hf_valid (hw_fences_tbl d ! i) = 0 \<or> key (hw_fences_tbl d ! i) = (c, s))
        (probe_order d c s)"
  obtain h' where h': "hw_fence_lookup_and_process d c s (cl_client_id cl) 0 OP_CREATE h =
    (case lookup_result d c s (cl_client_id cl) 0 OP_CREATE ?F of
      (d', r) \<Rightarrow> Some (d', (case r of None \<Rightarrow> h' | Some i \<Rightarrow> of_nat i), r))"
    using lookup_find [OF assms, of c s "cl_client_id cl" 0 OP_CREATE h]
    by (auto simp: probe_stop_create)
  show ?thesis
  proof (cases ?F)
    case None
    with h' show ?thesis by (simp add: hw_fence_create_def lookup_result_def)
  next
    case (Some i)
    then have "hf_lock (hw_fences_tbl d ! i) = 0"
      using assms by (simp add: find_probe_Some(1) table_okD(4))
    with h' Some show ?thesis
      by (auto simp: hw_fence_create_def lookup_result_def is_hw_fence_free_def reserve_new)
  qed
qed

lemma create_result_example:
  "hf_valid (hw_fences_tbl (table_of (replicate 4 zero_fence)) ! 0) = 0 \<and>
   (\<exists>d' h'. hw_fence_create (table_of (replicate 4 zero_fence)) (zero_client\<lparr>cl_client_id := 7\<rparr>) 5 9 0
      = Some (d', h', 0))"
  using create_result [of "table_of (replicate 4 zero_fence)" "zero_client\<lparr>cl_client_id := 7\<rparr>" 5 9 0]
    table_of_empty(1)
  by (simp add: table_inv_def table_of_def probe_order_def first_slot_def calculate_hash_def
      zero_fence_def HW_FENCE_HASH_A_MULT_def HW_FENCE_HASH_C_MULT_def upt_conv_Cons rotate_def)


text \<open>C1. Creating a fence refines inserting it into a map from (context, sequence number) to fences:
  if the key is new and the table has a free entry, \<open>hw_fence_create\<close> succeeds, hands out as hash the
  index of an entry that holds exactly this fence, the map gains the new fence and nothing else
  changes in it, one free entry fewer is left, and the table stays in order.\<close>

theorem create_refines_insert:
  assumes "table_inv d" and "fence_map d (c, s) = None" and "0 < free_slots d"
  shows "\<exists>d' i. hw_fence_create d cl c s h = Some (d', of_nat i, 0) \<and> table_inv d' \<and>
    fence_map d' = (fence_map d)((c, s) \<mapsto> new_fence (qtime d) (cl_client_id cl) (c, s) 0) \<and>
    Suc (free_slots d') = free_slots d \<and>
    get_hw_fence (hw_fence_table_entries d) (of_nat i) = Some i \<and>
    fence_map d' (c, s) = Some (hw_fences_tbl d' ! i)"
proof -
  let ?f = "new_fence (qtime d) (cl_client_id cl) (c, s) 0"
  obtain i where i: "i < length (hw_fences_tbl d)" "hf_valid (hw_fences_tbl d ! i) = 0"
    and create: "hw_fence_create d cl c s h = Some (set_fence i ?f d, of_nat i, 0)"
    using assms by (rule hw_fence_create_new)
  have "table_inv (set_fence i ?f d)" "fence_map (set_fence i ?f d) = (fence_map d)((c, s) \<mapsto> ?f)"
      "Suc (free_slots (set_fence i ?f d)) = free_slots d"
    using table_inv_insert [OF assms(1) i, of ?f] assms(2) by simp_all
  with create i(1) assms(1) show ?thesis
    by (intro exI [of _ "set_fence i ?f d"] exI [of _ i]) (simp add: table_inv_def get_hw_fence_slot)
qed

theorem create_refines_insert_witness:
  "\<exists>d' i. hw_fence_create (table_of [zero_fence, new_fence 0 7 (5, 9) 0]) zero_client 5 10 0
      = Some (d', of_nat i, 0) \<and>
    fence_map d' = [(5, 9) \<mapsto> new_fence 0 7 (5, 9) 0, (5, 10) \<mapsto> new_fence 0 0 (5, 10) 0]"
  using create_refines_insert [OF table_of_one(1), of 5 10 zero_client 0]
  by (simp add: table_of_one(2,3)) (auto simp: table_of_def zero_client_def zero_hwf_def)

text \<open>When no entry is free, creating a fence is refused with \<open>-EINVAL\<close>, whatever its key, and the
  driver state does not change.\<close>

lemma create_full_refused:
  assumes "table_ok d" and "free_slots d = 0"
  shows "\<exists>h'. hw_fence_create d cl c s h = Some (d, h', - EINVAL)"
  by (rule lookup_full [OF assms(1) _ assms(2), of OP_CREATE c s "cl_client_id cl" 0 h])
    (simp_all add: hw_fence_create_def)

text \<open>Looking a fence up refines reading the map: for a key other than (0, 0),
  \<open>msm_hw_fence_find\<close> changes nothing; it returns the entry of the fence with that key, with the index
  as hash, if the map has one, and NULL if it has none.\<close>

lemma find_refines_lookup:
  assumes "table_inv d" and "(c, s) \<noteq> (0, 0)"
  shows "\<exists>h' r. msm_hw_fence_find d cl c s h = Some (d, h', r) \<and>
    fence_map d (c, s) = map_option (\<lambda>i. hw_fences_tbl d ! i) r \<and>
    (\<forall>i. r = Some i \<longrightarrow> h' = of_nat i \<and> i < length (hw_fences_tbl d))"
proof (cases "fence_map d (c, s)")
  case None
  obtain h' where "msm_hw_fence_find d cl c s h = Some (d, h', None)"
    unfolding msm_hw_fence_find_def
    by (rule lookup_no_match [OF assms(1) _ assms(2) None, of OP_FIND_FENCE _ 0 h]) simp_all
  with None show ?thesis by simp
next
  case (Some f)
  with assms(1) obtain i where at: "stored_at d (c, s) i" and f: "hw_fences_tbl d ! i = f"
    by (rule fence_map_stored_at)
  have "msm_hw_fence_find d cl c s h = Some (d, of_nat i, Some i)"
    using lookup_match [OF assms(1) _ assms(2) at, of OP_FIND_FENCE]
    by (simp add: msm_hw_fence_find_def fence_found_def)
  with at Some f show ?thesis by (simp add: keyed_at_def)
qed

lemma find_refines_lookup_example:
  "(5, 9) \<noteq> ((0, 0) :: u64 \<times> u64) \<and>
   (\<exists>h' i. msm_hw_fence_find (table_of [zero_fence, new_fence 0 7 (5, 9) 0]) None 5 9 0
      = Some (table_of [zero_fence, new_fence 0 7 (5, 9) 0], h', Some i))"
  using find_refines_lookup [OF table_of_one(1), of 5 9 None 0]
  by (auto simp: table_of_one(2) map_option_case split: option.splits)

text \<open>C2. Destroying a fence refines deleting its key from the map: for a key other than (0, 0),
  \<open>hw_fence_destroy\<close> succeeds if and only if the map has the key, it then removes this key and no
  other and one more entry is free; otherwise it reports \<open>-EINVAL\<close> and changes nothing. The table
  stays in order.\<close>

theorem destroy_refines_delete:
  assumes "table_inv d" and "(c, s) \<noteq> (0, 0)"
  shows "\<exists>d' ret. hw_fence_destroy d cl c s = Some (d', ret) \<and> table_inv d' \<and>
    fence_map d' = (fence_map d)((c, s) := None) \<and>
    (if (c, s) \<in> dom (fence_map d) then ret = 0 \<and> free_slots d' = Suc (free_slots d)
     else ret = - EINVAL \<and> d' = d)"
proof (cases "fence_map d (c, s)")
  case None
  then have "(fence_map d)((c, s) := None) = fence_map d" by (simp add: fun_upd_idem)
  with None assms(1) show ?thesis
    by (simp add: hw_fence_destroy_def hw_fence_cleanup_unknown [OF assms None] domIff)
next
  case (Some f)
  obtain d' where "hw_fence_cleanup d (cl_client_id cl) c s = Some (d', 0)" "table_inv d'"
    "fence_map d' = (fence_map d)((c, s) := None)" "free_slots d' = Suc (free_slots d)"
    using assms Some by (rule hw_fence_cleanup_deletes)
  with Some show ?thesis by (simp add: hw_fence_destroy_def domIff)
qed

theorem destroy_refines_delete_witness:
  "\<exists>d'. hw_fence_destroy (table_of [zero_fence, new_fence 0 7 (5, 9) 0]) zero_client 5 9 = Some (d', 0) \<and>
    fence_map d' = Map.empty"
  using destroy_refines_delete [OF table_of_one(1), of 5 9 zero_client]
  by (simp add: table_of_one(2)) auto

text \<open>Destroying a fence by its hash removes only fences of the calling client: if the hash is an
  entry of the table whose fence the caller allocated (and whose key is not (0, 0)), that fence and no
  other leaves the map. For every other hash, out of range or of another client's fence,
  \<open>hw_fence_destroy_with_hash\<close> reports \<open>-EINVAL\<close> and changes nothing.\<close>

lemma destroy_with_hash_own:
  assumes "table_inv d" and "hash < ucast (hw_fence_table_entries d)"
    and "valid_fence (hw_fences_tbl d ! unat hash)" and "key (hw_fences_tbl d ! unat hash) \<noteq> (0, 0)"
    and "hf_fence_allocator (hw_fences_tbl d ! unat hash) = cl_client_id cl"
  shows "\<exists>d'. hw_fence_destroy_with_hash d cl hash = Some (d', 0) \<and> table_inv d' \<and>
    fence_map d' = (fence_map d)(key (hw_fences_tbl d ! unat hash) := None)"
proof -
  let ?f = "hw_fences_tbl d ! unat hash"
  have ok: "table_ok d" using assms(1) by (simp add: table_inv_def)
  have i: "unat hash < length (hw_fences_tbl d)"
    using assms(2) table_okD(3) [OF ok] by (simp add: word_less_nat_alt)
  have at: "stored_at d (hf_ctx_id ?f, hf_seq_id ?f) (unat hash)"
    using i assms(3) by (simp add: keyed_at_def key_def)
  have k: "(hf_ctx_id ?f, hf_seq_id ?f) \<noteq> (0, 0)"
    using assms(4) by (simp add: key_def)
  have "get_hw_fence (hw_fence_table_entries d) hash = Some (unat hash)"
    using assms(2) by (simp add: get_hw_fence_def not_le)
  with i assms(5) show ?thesis
    using unreserve_deletes [OF assms(1) at]
    by (simp add: hw_fence_destroy_with_hash_def hw_fence_cleanup_stored [OF assms(1) k at] key_def)
qed

lemma destroy_with_hash_own_example:
  "\<exists>d'. hw_fence_destroy_with_hash (table_of [zero_fence, new_fence 0 7 (5, 9) 0])
      (zero_client\<lparr>cl_client_id := 7\<rparr>) 1 = Some (d', 0) \<and> fence_map d' = Map.empty"
  using destroy_with_hash_own [OF table_of_one(1), of 1 "zero_client\<lparr>cl_client_id := 7\<rparr>"] table_of_one(2)
  by (simp add: table_of_def) blast

text \<open>A client cannot destroy the fence of another client by guessing its hash.\<close>

lemma destroy_with_hash_foreign:
  assumes "table_ok d"
    and "hash < ucast (hw_fence_table_entries d) \<longrightarrow>
      hf_fence_allocator (hw_fences_tbl d ! unat hash) \<noteq> cl_client_id cl"
  shows "hw_fence_destroy_with_hash d cl hash = Some (d, - EINVAL)"
proof (cases "hash < ucast (hw_fence_table_entries d)")
  case True
  then have "unat hash < length (hw_fences_tbl d)"
    using table_okD(3) [OF assms(1)] by (simp add: word_less_nat_alt)
  with True assms(2) show ?thesis
    by (simp add: hw_fence_destroy_with_hash_def get_hw_fence_def not_le)
next
  case False
  then show ?thesis by (simp add: hw_fence_destroy_with_hash_def get_hw_fence_def not_less)
qed

lemma destroy_with_hash_foreign_example:
  "hw_fence_destroy_with_hash (table_of [zero_fence, new_fence 0 7 (5, 9) 0])
      (zero_client\<lparr>cl_client_id := 8\<rparr>) 1 =
    Some (table_of [zero_fence, new_fence 0 7 (5, 9) 0], - EINVAL)"
  using table_of_one(1)
  by (intro destroy_with_hash_foreign) (simp_all add: table_inv_def table_of_def)

text \<open>C7. Whole workloads: creating any number of distinct new fences, as many as there are free
  entries, succeeds for each of them and makes the table hold exactly the old and the new keys;
  destroying the same fences afterwards, in any order, succeeds for each and gives back the map and
  the number of free entries from before, so entries are never leaked.\<close>

theorem create_destroy_workload:
  assumes "table_inv d" and "distinct ks" and "\<forall>k\<in>set ks. k \<noteq> (0, 0) \<and> fence_map d k = None"
    and "length ks \<le> free_slots d" and "distinct ks'" and "set ks' = set ks"
  shows "\<exists>d' d''. chain (fence_put cl) ks d = Some d' \<and> dom (fence_map d') = dom (fence_map d) \<union> set ks \<and>
    chain (fence_del cl) ks' d' = Some d'' \<and> table_inv d'' \<and> fence_map d'' = fence_map d \<and>
    free_slots d'' = free_slots d"
  by (rule fence_table.batch_restore [OF assms, of cl]) blast

theorem create_destroy_workload_witness:
  "\<exists>d' d''. chain (fence_put zero_client) [(1, 1), (1, 2), (2, 1)] (table_of (replicate 4 zero_fence)) = Some d' \<and>
    dom (fence_map d') = {(1, 1), (1, 2), (2, 1)} \<and>
    chain (fence_del zero_client) [(1, 2), (2, 1), (1, 1)] d' = Some d'' \<and> fence_map d'' = Map.empty"
  using create_destroy_workload [OF table_of_empty(1), of "[(1, 1), (1, 2), (2, 1)]"
      "[(1, 2), (2, 1), (1, 1)]" zero_client]
  by (simp add: table_of_empty(2,3) insert_commute) blast

text \<open>C8. The search does not stop at a free entry only after having looked for the key on the whole
  probe order: if a free entry is met before the fence that already carries the key (which happens once
  an entry earlier in the order was destroyed), \<open>hw_fence_create\<close> succeeds and the table holds two
  fences with one context and sequence number.\<close>

theorem create_duplicates_key:
  assumes "table_ok d" and "stored_at d (c, s) j"
    and "find (\<lambda>i. hf_valid (hw_fences_tbl d ! i) = 0 \<or> key (hw_fences_tbl d ! i) = (c, s))
        (probe_order d c s) = Some i"
    and "hf_valid (hw_fences_tbl d ! i) = 0"
  shows "\<exists>d'. hw_fence_create d cl c s h = Some (d', of_nat i, 0) \<and>
    stored_at d' (c, s) i \<and> stored_at d' (c, s) j \<and> i \<noteq> j \<and> \<not> keys_unique d'"
proof -
  let ?d = "set_fence i (new_fence (qtime d) (cl_client_id cl) (c, s) 0) d"
  have i: "i < length (hw_fences_tbl d)" using assms(3) by (rule find_probe_Some)
  then have lock: "hf_lock (hw_fences_tbl d ! i) = 0" using assms(1) by (simp add: table_okD(4))
  obtain h' where "hw_fence_lookup_and_process d c s (cl_client_id cl) 0 OP_CREATE h =
    (case lookup_result d c s (cl_client_id cl) 0 OP_CREATE (Some i) of
      (d', r) \<Rightarrow> Some (d', (case r of None \<Rightarrow> h' | Some i \<Rightarrow> of_nat i), r))"
    using lookup_find [OF assms(1), of c s "cl_client_id cl" 0 OP_CREATE h] assms(3)
    by (auto simp: probe_stop_create)
  then have "hw_fence_create d cl c s h = Some (?d, of_nat i, 0)"
    using assms(4) lock
    by (simp add: hw_fence_create_def lookup_result_def is_hw_fence_free_def reserve_new)
  moreover have ne: "i \<noteq> j"
    using assms(2,4) by (auto simp: keyed_at_def)
  moreover have at: "stored_at ?d (c, s) i" "stored_at ?d (c, s) j"
    using i assms(2) ne by (simp_all add: keyed_at_update)
  moreover have "\<not> keys_unique ?d"
    using keyed_uniqueD [OF _ at] ne unfolding keys_unique_def by blast
  ultimately show ?thesis by blast
qed

theorem create_duplicates_key_witness:
  "\<exists>d'. hw_fence_create (table_of [zero_fence, new_fence 0 7 (1, 1) 0]) zero_client 1 1 0 = Some (d', 0, 0) \<and>
    \<not> keys_unique d'"
  using create_duplicates_key [of "table_of [zero_fence, new_fence 0 7 (1, 1) 0]" 1 1 1 0 zero_client 0]
  by (auto simp: table_of_def table_ok_def keyed_at_def key_def new_fence_def zero_fence_def
      probe_order_def first_slot_def calculate_hash_def HW_FENCE_HASH_A_MULT_def
      HW_FENCE_HASH_C_MULT_def upt_conv_Cons)

end
