(* ===== verification/HwfQueue.thy ===== *)
theory HwfQueue
  imports HwfTable
begin

text \<open>
  The client queues of \<open>hw_fence_drv_priv.c\<close>: rings of 64-byte payloads in memory shared with the
  fence controller, whose header holds the read and the write index, both in 32-bit words. First the
  code; then a ring as a bounded queue of messages; then the driver's functions on such rings.
\<close>

section \<open>The code\<close>

text \<open>The arguments of \<open>hw_fence_update_queue\<close> that go into a payload.\<close>

record queue_msg =
  qm_ctxt_id :: u64
  qm_seqno :: u64
  qm_hash :: u64
  qm_flags :: u64
  qm_client_data :: u64
  qm_error :: u32

definition HW_FENCE_PAYLOAD_REV :: "u16 \<Rightarrow> u16 \<Rightarrow> u16" where
  "HW_FENCE_PAYLOAD_REV major minor = (push_bit 8 major OR (minor AND 0xFF))"

definition HW_FENCE_PAYLOAD_TYPE_1 :: u16 where "HW_FENCE_PAYLOAD_TYPE_1 = 1"

definition HW_FENCE_CLIENT_QUEUE_PAYLOAD :: u32 where "HW_FENCE_CLIENT_QUEUE_PAYLOAD = 64"

text \<open>Relaxed accesses to the words of a queue; an access outside it is \<open>None\<close>.\<close>

definition put32 :: "u32 list \<Rightarrow> nat \<Rightarrow> u32 \<Rightarrow> u32 list option" where
  "put32 ws i v = (if i < length ws then Some (ws[i := v]) else None)"

definition put64 :: "u32 list \<Rightarrow> nat \<Rightarrow> u64 \<Rightarrow> u32 list option" where
  "put64 ws i v =
     (if i + 1 < length ws then Some (ws[i := ucast v, i + 1 := ucast (drop_bit 32 v)]) else None)"

definition put16_low :: "u32 list \<Rightarrow> nat \<Rightarrow> u16 \<Rightarrow> u32 list option" where
  "put16_low ws i v = do { w \<leftarrow> fetch ws i; Some (ws[i := (w AND 0xFFFF0000) OR ucast v]) }"

definition put16_high :: "u32 list \<Rightarrow> nat \<Rightarrow> u16 \<Rightarrow> u32 list option" where
  "put16_high ws i v = do { w \<leftarrow> fetch ws i; Some (ws[i := (w AND 0xFFFF) OR push_bit 16 (ucast v)]) }"

definition get64 :: "u32 list \<Rightarrow> nat \<Rightarrow> u64 option" where
  "get64 ws i = do {
     lo \<leftarrow> fetch ws i;
     hi \<leftarrow> fetch ws (i + 1);
     Some (ucast lo OR push_bit 32 (ucast hi))
   }"

text \<open>
  The write of a payload at word \<open>i\<close>. The first write, of the 32-bit field \<open>size\<close>, is 64 bits wide and
  also clears \<open>type\<close> and \<open>version\<close>, which the next two writes set.
\<close>

definition write_payload :: "u32 list \<Rightarrow> nat \<Rightarrow> u64 \<Rightarrow> queue_msg \<Rightarrow> u32 list option" where
  "write_payload ws i timestamp m = do {
     ws \<leftarrow> put64 ws i (ucast HW_FENCE_CLIENT_QUEUE_PAYLOAD);
     ws \<leftarrow> put16_low ws (i + 1) HW_FENCE_PAYLOAD_TYPE_1;
     ws \<leftarrow> put16_high ws (i + 1) (HW_FENCE_PAYLOAD_REV 1 0);
     ws \<leftarrow> put64 ws (i + 2) (qm_ctxt_id m);
     ws \<leftarrow> put64 ws (i + 4) (qm_seqno m);
     ws \<leftarrow> put64 ws (i + 6) (qm_hash m);
     ws \<leftarrow> put64 ws (i + 8) (qm_flags m);
     ws \<leftarrow> put64 ws (i + 10) (qm_client_data m);
     ws \<leftarrow> put32 ws (i + 12) (qm_error m);
     ws \<leftarrow> put32 ws (i + 13) (ucast timestamp);
     put32 ws (i + 14) (ucast (drop_bit 32 timestamp))
   }"

definition read_payload :: "u32 list \<Rightarrow> nat \<Rightarrow> msm_hw_fence_queue_payload \<Rightarrow> msm_hw_fence_queue_payload option" where
  "read_payload ws i p = do {
     ctxt_id \<leftarrow> get64 ws (i + 2);
     seqno \<leftarrow> get64 ws (i + 4);
     hash \<leftarrow> get64 ws (i + 6);
     flags \<leftarrow> get64 ws (i + 8);
     client_data \<leftarrow> get64 ws (i + 10);
     error \<leftarrow> fetch ws (i + 12);
     Some (p\<lparr>qp_ctxt_id := ctxt_id, qp_seqno := seqno, qp_hash := hash, qp_flags := flags,
       qp_client_data := client_data, qp_error := error\<rparr>)
   }"

text \<open>The payload size in words, the free words between the indices, and the index after a payload.\<close>

definition payload_size_u32 :: u32 where "payload_size_u32 = HW_FENCE_CLIENT_QUEUE_PAYLOAD div 4"

definition q_free_u32 :: "u32 \<Rightarrow> u32 \<Rightarrow> u32 \<Rightarrow> u32" where
  "q_free_u32 q_size_u32 read_idx write_idx =
     (if read_idx \<le> write_idx then q_size_u32 - (write_idx - read_idx) else read_idx - write_idx)"

definition idx_after :: "u32 \<Rightarrow> u32 \<Rightarrow> u32" where
  "idx_after q_size_u32 idx =
     (let to_idx = idx + payload_size_u32 in if q_size_u32 \<le> to_idx then 0 else to_idx)"

text \<open>
  The part of \<open>hw_fence_update_queue\<close> and \<open>hw_fence_read_queue\<close> that works on one ring: the read
  index, the write index and the words.
\<close>

type_synonym ring = "u32 \<times> u32 \<times> u32 list"

definition ring_put :: "u32 \<Rightarrow> u64 \<Rightarrow> queue_msg \<Rightarrow> ring \<Rightarrow> (ring \<times> int) option" where
  "ring_put q_size_u32 timestamp m q = (case q of (read_idx, write_idx, ws) \<Rightarrow>
     if q_free_u32 q_size_u32 read_idx write_idx \<le> payload_size_u32 then Some (q, - EINVAL)
     else do {
       ws \<leftarrow> write_payload ws (unat write_idx) timestamp m;
       Some ((read_idx, idx_after q_size_u32 write_idx, ws), 0)
     })"

definition ring_get ::
  "u32 \<Rightarrow> msm_hw_fence_queue_payload \<Rightarrow> ring \<Rightarrow> (ring \<times> msm_hw_fence_queue_payload \<times> int) option" where
  "ring_get q_size_u32 p q = (case q of (read_idx, write_idx, ws) \<Rightarrow>
     if read_idx = write_idx then Some (q, p, 0)
     else do {
       p \<leftarrow> read_payload ws (unat read_idx) p;
       let to_read_idx = idx_after q_size_u32 read_idx;
       Some ((to_read_idx, write_idx, ws), p, if to_read_idx = write_idx then 0 else 1)
     })"

text \<open>The ring of a queue; \<open>wm\<close> says that the write index is the field \<open>tx_wm\<close> of the header.\<close>

definition queue_ring :: "bool \<Rightarrow> hwf \<Rightarrow> msm_hw_fence_queue \<Rightarrow> ring" where
  "queue_ring wm d queue = (let hdr = hfi_hdrs d (qd_va_header queue) in
     (qh_read_index hdr, if wm then qh_tx_wm hdr else qh_write_index hdr, q_words d (qd_va_queue queue)))"

definition set_queue_ring :: "bool \<Rightarrow> msm_hw_fence_queue \<Rightarrow> ring \<Rightarrow> hwf \<Rightarrow> hwf" where
  "set_queue_ring wm queue q d = (case q of (rd, wr, ws) \<Rightarrow>
     let hdr = hfi_hdrs d (qd_va_header queue);
         hdr = hdr\<lparr>qh_read_index := rd\<rparr>;
         hdr = (if wm then hdr\<lparr>qh_tx_wm := wr\<rparr> else hdr\<lparr>qh_write_index := wr\<rparr>)
     in d\<lparr>hfi_hdrs := (hfi_hdrs d)(qd_va_header queue := hdr),
          q_words := (q_words d)(qd_va_queue queue := ws)\<rparr>)"

definition q_size_u32 :: "msm_hw_fence_queue \<Rightarrow> u32" where
  "q_size_u32 queue = qd_q_size_bytes queue div 4"

definition lock_client_queue :: "nat \<Rightarrow> bool" where
  "lock_client_queue queue_type = (queue_type = RXQ)"

definition hw_fence_read_queue ::
  "hwf \<Rightarrow> msm_hw_fence_client \<Rightarrow> msm_hw_fence_queue_payload \<Rightarrow> nat
    \<Rightarrow> (hwf \<times> msm_hw_fence_queue_payload \<times> int) option" where
  "hw_fence_read_queue d c p queue_type =
     (if HW_FENCE_CLIENT_QUEUES \<le> queue_type then Some (d, p, - EINVAL)
      else do {
        queue \<leftarrow> fetch (cl_queues c) queue_type;
        if qd_va_header queue = 0 then Some (d, p, - EINVAL)
        else do {
          (q, p, ret) \<leftarrow> ring_get (q_size_u32 queue) p (queue_ring False d queue);
          Some (set_queue_ring False queue q d, p, ret)
        }
      })"

definition hw_fence_update_queue ::
  "hwf \<Rightarrow> msm_hw_fence_client \<Rightarrow> queue_msg \<Rightarrow> nat \<Rightarrow> (hwf \<times> int) option" where
  "hw_fence_update_queue d c m queue_type = do {
     desc \<leftarrow> fetch (hw_fence_client_queue_size d) (unat (cl_client_id c));
     if unat (qs_queues_num desc) \<le> queue_type then Some (d, - EINVAL)
     else do {
       queue \<leftarrow> fetch (cl_queues c) queue_type;
       if qd_va_header queue = 0 then Some (d, - EINVAL)
       else
         let wm = (queue_type = TXQ \<and> cl_skip_txq_wr_idx c);
             lock_idx = cl_client_id c - 1
         in if lock_client_queue queue_type \<and> client_lock_tbl_cnt d \<le> lock_idx then Some (d, - EINVAL)
         else do {
           d \<leftarrow> (if lock_client_queue queue_type
              then global_atomic_store d (ClientLock (unat lock_idx)) True else Some d);
           (q, ret) \<leftarrow> ring_put (q_size_u32 queue) (qtime d) m (queue_ring wm d queue);
           let d = set_queue_ring wm queue q d;
           d \<leftarrow> (if lock_client_queue queue_type
              then global_atomic_store d (ClientLock (unat lock_idx)) False else Some d);
           Some (d, ret)
         }
     }
   }"


section \<open>A ring as a bounded queue\<close>

definition word64 :: "u32 \<Rightarrow> u32 \<Rightarrow> u64" where
  "word64 lo hi = ucast lo OR push_bit 32 (ucast hi)"

lemma word64_split [simp]: "word64 (ucast v) (ucast (drop_bit 32 v)) = v"
  unfolding word64_def
  by (rule bit_word_eqI)
    (auto simp: bit_or_iff bit_push_bit_iff bit_ucast_iff bit_drop_bit_eq)

text \<open>The message in slot \<open>k\<close> of the words.\<close>

definition slot_msg :: "u32 list \<Rightarrow> nat \<Rightarrow> queue_msg" where
  "slot_msg ws k = (let i = 16 * k in \<lparr>
     qm_ctxt_id = word64 (ws ! (i + 2)) (ws ! (i + 3)),
     qm_seqno = word64 (ws ! (i + 4)) (ws ! (i + 5)),
     qm_hash = word64 (ws ! (i + 6)) (ws ! (i + 7)),
     qm_flags = word64 (ws ! (i + 8)) (ws ! (i + 9)),
     qm_client_data = word64 (ws ! (i + 10)) (ws ! (i + 11)),
     qm_error = ws ! (i + 12)\<rparr>)"

definition payload_of :: "msm_hw_fence_queue_payload \<Rightarrow> queue_msg \<Rightarrow> msm_hw_fence_queue_payload" where
  "payload_of p m = p\<lparr>qp_ctxt_id := qm_ctxt_id m, qp_seqno := qm_seqno m, qp_hash := qm_hash m,
     qp_flags := qm_flags m, qp_client_data := qm_client_data m, qp_error := qm_error m\<rparr>"

lemma slot_in: "k < n \<Longrightarrow> length ws = 16 * n \<Longrightarrow> a < 16 \<Longrightarrow> 16 * k + a < length ws"
  by simp

lemma read_payload_slot:
  assumes "k < n" and "length ws = 16 * n"
  shows "read_payload ws (16 * k) p = Some (payload_of p (slot_msg ws k))"
  using assms
  by (simp add: read_payload_def get64_def payload_of_def slot_msg_def word64_def Let_def add.commute
      numeral_eq_Suc)

text \<open>The words that the driver writes for a message: the whole payload but the reserved word.\<close>

definition payload_words :: "u64 \<Rightarrow> queue_msg \<Rightarrow> u32 list" where
  "payload_words timestamp m =
     [64, 0x01000001, ucast (qm_ctxt_id m), ucast (drop_bit 32 (qm_ctxt_id m)),
      ucast (qm_seqno m), ucast (drop_bit 32 (qm_seqno m)), ucast (qm_hash m), ucast (drop_bit 32 (qm_hash m)),
      ucast (qm_flags m), ucast (drop_bit 32 (qm_flags m)),
      ucast (qm_client_data m), ucast (drop_bit 32 (qm_client_data m)),
      qm_error m, ucast timestamp, ucast (drop_bit 32 timestamp)]"

fun write_words :: "u32 list \<Rightarrow> nat \<Rightarrow> u32 list \<Rightarrow> u32 list" where
  "write_words ws i [] = ws"
| "write_words ws i (v # vs) = write_words (ws[i := v]) (Suc i) vs"

lemma length_write_words [simp]: "length (write_words ws i vs) = length ws"
  by (induction ws i vs rule: write_words.induct) simp_all

lemma nth_write_words:
  "i + length vs \<le> length ws \<Longrightarrow> j < length ws \<Longrightarrow>
   write_words ws i vs ! j = (if i \<le> j \<and> j < i + length vs then vs ! (j - i) else ws ! j)"
proof (induction ws i vs rule: write_words.induct)
  case (1 ws i)
  then show ?case by auto
next
  case (2 ws i v vs)
  show ?case
  proof (cases "j = i")
    case True
    with 2 show ?thesis by simp
  next
    case False
    have "write_words ws i (v # vs) ! j
        = (if Suc i \<le> j \<and> j < Suc i + length vs then vs ! (j - Suc i) else ws[i := v] ! j)"
      using 2 by simp
    with False show ?thesis
      by (auto simp: nth_Cons' Suc_le_eq) 
  qed
qed

lemma write_payload_words:
  assumes "i + 15 \<le> length ws"
  shows "write_payload ws i timestamp m = Some (write_words ws i (payload_words timestamp m))"
  using assms
  by (simp add: write_payload_def put64_def put32_def put16_low_def put16_high_def payload_words_def
      HW_FENCE_CLIENT_QUEUE_PAYLOAD_def HW_FENCE_PAYLOAD_TYPE_1_def HW_FENCE_PAYLOAD_REV_def)
    (simp add: numeral_eq_Suc)

lemma slot_write:
  assumes "k < n" and "k' < n" and "length ws = 16 * n"
  shows "slot_msg (write_words ws (16 * k) (payload_words timestamp m)) k'
    = (if k' = k then m else slot_msg ws k')"
proof (cases "k' = k")
  case True
  have at: "write_words ws (16 * k) (payload_words timestamp m) ! (16 * k + a) = payload_words timestamp m ! a"
    if "a < 15" for a
    using assms that by (subst nth_write_words) (auto simp: payload_words_def)
  from True show ?thesis
    by (simp add: slot_msg_def Let_def at del: add_2_eq_Suc') (simp add: payload_words_def)
next
  case False
  have at: "write_words ws (16 * k) (payload_words timestamp m) ! (16 * k' + a) = ws ! (16 * k' + a)"
    if "a < 16" for a
    using assms False that
    by (subst nth_write_words) (auto simp: payload_words_def)
  from False show ?thesis by (simp add: slot_msg_def Let_def at del: add_2_eq_Suc')
qed

text \<open>
  A ring of \<open>n\<close> slots: both indices are at the start of a slot. The bound on \<open>n\<close> is what
  \<open>q_size_bytes\<close>, a 32-bit field, allows.
\<close>

definition ring_ok :: "nat \<Rightarrow> ring \<Rightarrow> bool" where
  "ring_ok n q = (case q of (rd, wr, ws) \<Rightarrow> 0 < n \<and> n < 2 ^ 26 \<and> length ws = 16 * n \<and>
     16 dvd unat rd \<and> unat rd < 16 * n \<and> 16 dvd unat wr \<and> unat wr < 16 * n)"

fun ring_count :: "nat \<Rightarrow> ring \<Rightarrow> nat" where
  "ring_count n (rd, wr, ws) = (unat wr div 16 + n - unat rd div 16) mod n"

fun ring_items :: "nat \<Rightarrow> ring \<Rightarrow> queue_msg list" where
  "ring_items n (rd, wr, ws) =
     map (\<lambda>k. slot_msg ws ((unat rd div 16 + k) mod n)) [0..<ring_count n (rd, wr, ws)]"

declare ring_count.simps [simp del] ring_items.simps [simp del]

definition ring_room :: "nat \<Rightarrow> ring \<Rightarrow> nat" where
  "ring_room n q = n - 1 - ring_count n q"

definition ring_size :: "nat \<Rightarrow> u32" where
  "ring_size n = of_nat (16 * n)"

definition ring_push :: "nat \<Rightarrow> u64 \<Rightarrow> queue_msg \<Rightarrow> ring \<Rightarrow> ring option" where
  "ring_push n timestamp m q = (case ring_put (ring_size n) timestamp m q of
       Some (q', ret) \<Rightarrow> if ret = 0 then Some q' else None
     | None \<Rightarrow> None)"

definition payload_msg :: "msm_hw_fence_queue_payload \<Rightarrow> queue_msg" where
  "payload_msg p = \<lparr>qm_ctxt_id = qp_ctxt_id p, qm_seqno = qp_seqno p, qm_hash = qp_hash p,
     qm_flags = qp_flags p, qm_client_data = qp_client_data p, qm_error = qp_error p\<rparr>"

definition zero_payload :: msm_hw_fence_queue_payload where
  "zero_payload = \<lparr>qp_size = 0, qp_type = 0, qp_version = 0, qp_ctxt_id = 0, qp_seqno = 0, qp_hash = 0,
     qp_flags = 0, qp_client_data = 0, qp_error = 0, qp_timestamp_lo = 0, qp_timestamp_hi = 0,
     qp_reserve = 0\<rparr>"

definition ring_pop :: "nat \<Rightarrow> ring \<Rightarrow> (ring \<times> queue_msg) option" where
  "ring_pop n q = (if fst q = fst (snd q) then None
     else case ring_get (ring_size n) zero_payload q of
       Some (q', p, _) \<Rightarrow> Some (q', payload_msg p)
     | None \<Rightarrow> None)"

lemma payload_msg_of [simp]: "payload_msg (payload_of p m) = m"
  by (simp add: payload_msg_def payload_of_def)

lemma ring_okE:
  assumes "ring_ok n (rd, wr, ws)"
  obtains r w where "unat rd = 16 * r" "unat wr = 16 * w" "r < n" "w < n" "length ws = 16 * n"
    "0 < n" "n < 2 ^ 26"
proof -
  have "16 dvd unat rd" "16 dvd unat wr" using assms by (simp_all add: ring_ok_def)
  then obtain r w where "unat rd = 16 * r" "unat wr = 16 * w" by (auto elim!: dvdE)
  with assms show thesis by (intro that [of r w]) (simp_all add: ring_ok_def)
qed

lemma unat_ring_size: "n < 2 ^ 26 \<Longrightarrow> unat (ring_size n) = 16 * n"
  by (simp only: ring_size_def unat_of_nat) simp

lemma payload_size_16: "payload_size_u32 = 16"
  by (simp add: payload_size_u32_def HW_FENCE_CLIENT_QUEUE_PAYLOAD_def)

lemma count_cases:
  "r < n \<Longrightarrow> w < n \<Longrightarrow> (w + n - r) mod n = (if r \<le> w then w - r else w + n - r)" for r w n :: nat
proof (cases "r \<le> w")
  case True
  assume "r < n" "w < n"
  with True have "w + n - r = (w - r) + n" by simp
  with True \<open>w < n\<close> show ?thesis by (simp only: mod_add_self2) simp
qed simp

lemma ring_free:
  assumes "ring_ok n (rd, wr, ws)"
  shows "unat (q_free_u32 (ring_size n) rd wr) = 16 * (n - ring_count n (rd, wr, ws))"
proof -
  obtain r w where rw: "unat rd = 16 * r" "unat wr = 16 * w" "r < n" "w < n" and n: "n < 2 ^ 26"
    using assms by (rule ring_okE)
  have count: "ring_count n (rd, wr, ws) = (if r \<le> w then w - r else w + n - r)"
    using rw count_cases by (simp add: ring_count.simps)
  show ?thesis
  proof (cases "rd \<le> wr")
    case True
    then have le: "r \<le> w" using rw by (simp add: word_le_nat_alt)
    have d: "unat (wr - rd) = 16 * w - 16 * r"
      using True rw by (simp add: unat_sub)
    have "wr - rd \<le> ring_size n"
      unfolding word_le_nat_alt d unat_ring_size [OF n] using rw by simp
    then have "unat (ring_size n - (wr - rd)) = 16 * n - (16 * w - 16 * r)"
      by (simp only: unat_sub d unat_ring_size [OF n])
    with True le rw show ?thesis by (simp add: q_free_u32_def count)
  next
    case False
    then have gt: "\<not> r \<le> w" using rw by (simp add: word_le_nat_alt)
    from False have "wr \<le> rd" by simp
    then have "unat (rd - wr) = 16 * r - 16 * w" using rw by (simp add: unat_sub)
    with False gt rw show ?thesis by (simp add: q_free_u32_def count)
  qed
qed

lemma ring_full_iff:
  assumes "ring_ok n (rd, wr, ws)"
  shows "q_free_u32 (ring_size n) rd wr \<le> payload_size_u32 \<longleftrightarrow> ring_room n (rd, wr, ws) = 0"
proof -
  have "0 < n" using assms by (simp add: ring_ok_def)
  then have "ring_count n (rd, wr, ws) < n" by (simp add: ring_count.simps)
  moreover have "(16 * (n - c) \<le> 16) = (n - 1 - c = 0)" if "c < n" for c :: nat
    using that by arith
  ultimately show ?thesis
    unfolding word_le_nat_alt ring_free [OF assms] payload_size_16 ring_room_def by simp
qed

lemma idx_after_slot:
  assumes "unat i = 16 * w" and "w < n" and "n < 2 ^ 26"
  shows "unat (idx_after (ring_size n) i) = 16 * (Suc w mod n)"
proof -
  have "unat i + unat (16 :: u32) < 2 ^ LENGTH(32)" using assms by simp
  then have u: "unat (i + 16) = 16 * w + 16"
    using assms(1) by (subst unat_add_lem [THEN iffD1]) simp_all
  have le: "ring_size n \<le> i + 16 \<longleftrightarrow> Suc w = n"
    unfolding word_le_nat_alt u unat_ring_size [OF assms(3)] using assms(2) by auto
  show ?thesis
    using assms(2) u by (cases "Suc w = n") (simp_all add: idx_after_def payload_size_16 le Let_def)
qed

lemma ring_put_ok:
  assumes ok: "ring_ok n q" and room: "0 < ring_room n q"
  obtains q' where "ring_put (ring_size n) timestamp m q = Some (q', 0)" "ring_ok n q'"
    "ring_items n q' = ring_items n q @ [m]" "ring_count n q' = Suc (ring_count n q)" "fst q' = fst q"
proof -
  obtain rd wr ws where q: "q = (rd, wr, ws)" by (cases q)
  obtain r w where rw: "unat rd = 16 * r" "unat wr = 16 * w" "r < n" "w < n" "length ws = 16 * n"
    and n: "0 < n" "n < 2 ^ 26"
    using ok unfolding q by (rule ring_okE)
  let ?wr = "idx_after (ring_size n) wr" and ?ws = "write_words ws (16 * w) (payload_words timestamp m)"
  let ?c = "ring_count n q"
  have wr': "unat ?wr = 16 * (Suc w mod n)"
    using rw(2,4) n(2) by (rule idx_after_slot)
  have put: "ring_put (ring_size n) timestamp m q = Some ((rd, ?wr, ?ws), 0)"
    using room ring_full_iff [of n rd wr ws] ok rw
    by (simp add: q ring_put_def write_payload_words)
  have ok': "ring_ok n (rd, ?wr, ?ws)"
    using ok by (simp add: q ring_ok_def wr')
  have c: "?c = (if r \<le> w then w - r else w + n - r)"
    using rw count_cases by (simp add: q ring_count.simps)
  have room': "?c < n - 1" using room by (simp add: ring_room_def)
  have "Suc w mod n < n" using n by simp
  then have "ring_count n (rd, ?wr, ?ws)
      = (if r \<le> Suc w mod n then Suc w mod n - r else Suc w mod n + n - r)"
    using rw count_cases by (simp add: wr' ring_count.simps)
  also have "\<dots> = Suc ?c"
  proof (cases "Suc w = n")
    case True
    with rw(3,4) room' show ?thesis unfolding c by auto
  next
    case False
    with rw(4) have "Suc w < n" by simp
    with rw(3,4) room' show ?thesis unfolding c by auto
  qed
  finally have c': "ring_count n (rd, ?wr, ?ws) = Suc ?c" .
  have pos: "(r + k) mod n = (if r + k < n then r + k else r + k - n)" if "k < n" for k
    using that rw(3) by (simp add: mod_if [of "r + k" n])
  have last: "(r + ?c) mod n = w"
    using rw(3,4) by (auto simp: c)
  have other: "(r + k) mod n \<noteq> w" if "k < ?c" for k
    using that rw(3,4) pos [of k] by (auto simp: c split: if_splits)
  have "ring_items n (rd, ?wr, ?ws) = ring_items n q @ [m]"
    using rw n last other by (simp add: q ring_items.simps c' [unfolded q] slot_write)
  with put ok' c' show thesis by (intro that [of "(rd, ?wr, ?ws)"]) (simp_all add: q)
qed

lemma length_ring_items [simp]: "length (ring_items n q) = ring_count n q"
  by (cases q) (simp add: ring_items.simps)

lemma ring_empty_iff:
  assumes "ring_ok n q"
  shows "ring_count n q = 0 \<longleftrightarrow> fst q = fst (snd q)"
proof -
  obtain rd wr ws where q: "q = (rd, wr, ws)" by (cases q)
  obtain r w where rw: "unat rd = 16 * r" "unat wr = 16 * w" "r < n" "w < n" "length ws = 16 * n"
    and n: "0 < n" "n < 2 ^ 26"
    using assms unfolding q by (rule ring_okE)
  have "ring_count n q = 0 \<longleftrightarrow> r = w"
    using rw count_cases [of r n w] by (auto simp: q ring_count.simps)
  also have "\<dots> \<longleftrightarrow> rd = wr"
    using rw by (auto simp: word_unat_eq_iff)
  finally show ?thesis by (simp add: q)
qed

lemma ring_get_ok:
  assumes ok: "ring_ok n q" and items: "ring_items n q = m # ms"
  obtains q' where "ring_get (ring_size n) p q = Some (q', payload_of p m, if ms = [] then 0 else 1)"
    "ring_ok n q'" "ring_items n q' = ms" "Suc (ring_count n q') = ring_count n q"
    "fst (snd q') = fst (snd q)"
proof -
  obtain rd wr ws where q: "q = (rd, wr, ws)" by (cases q)
  obtain r w where rw: "unat rd = 16 * r" "unat wr = 16 * w" "r < n" "w < n" "length ws = 16 * n"
    and n: "0 < n" "n < 2 ^ 26"
    using ok unfolding q by (rule ring_okE)
  let ?rd = "idx_after (ring_size n) rd" and ?c = "ring_count n q"
  have rd': "unat ?rd = 16 * (Suc r mod n)"
    using rw(1,3) n(2) by (rule idx_after_slot)
  have len: "?c = Suc (length ms)"
    using items length_ring_items [of n q] by simp
  then have ne: "rd \<noteq> wr"
    using ring_empty_iff [OF ok] by (auto simp: q)
  have c: "?c = (if r \<le> w then w - r else w + n - r)"
    using rw count_cases by (simp add: q ring_count.simps)
  have "Suc r mod n < n" using n by simp
  then have "ring_count n (?rd, wr, ws)
      = (if Suc r mod n \<le> w then w - Suc r mod n else w + n - Suc r mod n)"
    using rw count_cases by (simp add: rd' ring_count.simps)
  also have "Suc \<dots> = ?c"
  proof (cases "Suc r = n")
    case True
    with rw(3,4) len show ?thesis unfolding c by (auto split: if_splits)
  next
    case False
    with rw(3) have "Suc r < n" by simp
    with rw(3,4) len show ?thesis unfolding c by (auto split: if_splits)
  qed
  finally have c': "Suc (ring_count n (?rd, wr, ws)) = ?c" .
  have shift: "(Suc r mod n + k) mod n = (r + Suc k) mod n" for k
    by (simp add: mod_simps)
  have "ring_items n q = slot_msg ws r # ring_items n (?rd, wr, ws)"
    using rw(1,3)
    by (simp add: q ring_items.simps c' [unfolded q, symmetric] upt_conv_Cons map_Suc_upt [symmetric] comp_def rd' shift
        del: upt_Suc)
  with items have head: "slot_msg ws r = m" and tail: "ring_items n (?rd, wr, ws) = ms"
    by simp_all
  have "?rd = wr \<longleftrightarrow> ms = []"
  proof -
    have ok': "ring_ok n (?rd, wr, ws)"
      using ok n by (simp add: q ring_ok_def rd')
    show ?thesis
      using ring_empty_iff [OF ok'] len c' by auto
  qed
  then have "ring_get (ring_size n) p q = Some ((?rd, wr, ws), payload_of p m, if ms = [] then 0 else 1)"
    using ne rw head by (simp add: q ring_get_def read_payload_slot Let_def)
  moreover have "ring_ok n (?rd, wr, ws)"
    using ok n by (simp add: q ring_ok_def rd')
  ultimately show thesis
    using tail c' by (intro that [of "(?rd, wr, ws)"]) (simp_all add: q)
qed

lemma ring_count_less: "ring_ok n q \<Longrightarrow> ring_count n q < n"
  by (cases q) (simp add: ring_ok_def ring_count.simps)

lemma ring_put_full:
  "ring_ok n q \<Longrightarrow> ring_room n q = 0 \<Longrightarrow> ring_put (ring_size n) timestamp m q = Some (q, - EINVAL)"
  by (cases q) (simp add: ring_put_def ring_full_iff)

interpretation ring_queue: bounded_fifo "ring_ok n" "ring_items n" "ring_room n" "ring_push n timestamp"
  "ring_pop n" for n timestamp
proof
  fix q :: ring and m :: queue_msg
  assume ok: "ring_ok n q" and room: "0 < ring_room n q"
  obtain q' where "ring_put (ring_size n) timestamp m q = Some (q', 0)" "ring_ok n q'"
    "ring_items n q' = ring_items n q @ [m]" "ring_count n q' = Suc (ring_count n q)"
    using ok room by (rule ring_put_ok)
  then show "\<exists>q'. ring_push n timestamp m q = Some q' \<and> ring_ok n q' \<and>
      ring_items n q' = ring_items n q @ [m] \<and> Suc (ring_room n q') = ring_room n q"
    using room by (simp add: ring_push_def ring_room_def Suc_diff_Suc)
next
  fix q :: ring and m :: queue_msg
  assume "ring_ok n q" and "ring_room n q = 0"
  then show "ring_push n timestamp m q = None"
    by (simp add: ring_push_def ring_put_full)
next
  fix q :: ring and m :: queue_msg and ms
  assume ok: "ring_ok n q" and items: "ring_items n q = m # ms"
  have len: "ring_count n q = Suc (length ms)"
    using items length_ring_items [of n q] by simp
  obtain q' where q': "ring_get (ring_size n) zero_payload q =
      Some (q', payload_of zero_payload m, if ms = [] then 0 else 1)"
    "ring_ok n q'" "ring_items n q' = ms" "Suc (ring_count n q') = ring_count n q"
    using ok items by (rule ring_get_ok)
  moreover have "fst q \<noteq> fst (snd q)"
    using ring_empty_iff [OF ok] len by simp
  moreover have "ring_room n q' = Suc (ring_room n q)"
    using q'(4) ring_count_less [OF ok] by (simp add: ring_room_def)
  ultimately show "\<exists>q'. ring_pop n q = Some (q', m) \<and> ring_ok n q' \<and> ring_items n q' = ms \<and>
      ring_room n q' = Suc (ring_room n q)"
    by (simp add: ring_pop_def)
next
  fix q :: ring
  assume "ring_ok n q" and "ring_items n q = []"
  then show "ring_pop n q = None"
    using ring_empty_iff [of n q] length_ring_items [of n q] by (simp add: ring_pop_def)
qed


section \<open>The driver's functions on such rings\<close>

lemma queue_ring_set [simp]: "queue_ring wm (set_queue_ring wm queue q d) queue = q"
  by (cases q) (simp add: queue_ring_def set_queue_ring_def Let_def)

lemma set_queue_ring_same [simp]: "set_queue_ring wm queue (queue_ring wm d queue) d = d"
  by (simp add: queue_ring_def set_queue_ring_def Let_def fun_upd_idem)

lemma set_queue_ring_fields [simp]:
  "hw_fences_tbl (set_queue_ring wm queue q d) = hw_fences_tbl d"
  "hw_fence_table_entries (set_queue_ring wm queue q d) = hw_fence_table_entries d"
  "hw_fences_tbl_va (set_queue_ring wm queue q d) = hw_fences_tbl_va d"
  "client_lock_tbl (set_queue_ring wm queue q d) = client_lock_tbl d"
  "client_lock_tbl_cnt (set_queue_ring wm queue q d) = client_lock_tbl_cnt d"
  "client_objs (set_queue_ring wm queue q d) = client_objs d"
  "clients (set_queue_ring wm queue q d) = clients d"
  "hw_fence_client_queue_size (set_queue_ring wm queue q d) = hw_fence_client_queue_size d"
  "io_writes (set_queue_ring wm queue q d) = io_writes d"
  "qtime (set_queue_ring wm queue q d) = qtime d"
  "dma_fences (set_queue_ring wm queue q d) = dma_fences d"
  by (simp_all add: set_queue_ring_def Let_def split: prod.split)

lemma set_queue_ring_locks:
  "set_queue_ring wm queue q d\<lparr>client_lock_tbl := ls\<rparr> = set_queue_ring wm queue q (d\<lparr>client_lock_tbl := ls\<rparr>)"
  by (simp add: set_queue_ring_def Let_def split: prod.split)

lemma queue_ring_locks [simp]: "queue_ring wm (d\<lparr>client_lock_tbl := ls\<rparr>) queue = queue_ring wm d queue"
  by (simp add: queue_ring_def Let_def)

text \<open>Two queues at different addresses are different memory.\<close>

lemma queue_ring_other:
  "qd_va_header queue' \<noteq> qd_va_header queue \<Longrightarrow> qd_va_queue queue' \<noteq> qd_va_queue queue \<Longrightarrow>
   queue_ring wm' (set_queue_ring wm queue q d) queue' = queue_ring wm' d queue'"
  by (simp add: queue_ring_def set_queue_ring_def Let_def split: prod.split)

definition txq_wm :: "msm_hw_fence_client \<Rightarrow> nat \<Rightarrow> bool" where
  "txq_wm c queue_type = (queue_type = TXQ \<and> cl_skip_txq_wr_idx c)"

text \<open>
  A client whose queue \<open>queue_type\<close> is set up: the descriptor counts it, its header exists and its size
  is \<open>n\<close> payloads; for the rx queue, the client's lock exists and is free.
\<close>

definition queue_ready :: "nat \<Rightarrow> hwf \<Rightarrow> msm_hw_fence_client \<Rightarrow> nat \<Rightarrow> bool" where
  "queue_ready n d c queue_type \<longleftrightarrow>
     unat (cl_client_id c) < length (hw_fence_client_queue_size d) \<and>
     queue_type < unat (qs_queues_num (hw_fence_client_queue_size d ! unat (cl_client_id c))) \<and>
     queue_type < HW_FENCE_CLIENT_QUEUES \<and> queue_type < length (cl_queues c) \<and>
     qd_va_header (cl_queues c ! queue_type) \<noteq> 0 \<and>
     q_size_u32 (cl_queues c ! queue_type) = ring_size n \<and>
     (queue_type = RXQ \<longrightarrow> cl_client_id c - 1 < client_lock_tbl_cnt d \<and>
        unat (cl_client_id c - 1) < length (client_lock_tbl d) \<and>
        client_lock_tbl d ! unat (cl_client_id c - 1) = 0)"

abbreviation client_ring :: "hwf \<Rightarrow> msm_hw_fence_client \<Rightarrow> nat \<Rightarrow> ring" where
  "client_ring d c queue_type \<equiv> queue_ring (txq_wm c queue_type) d (cl_queues c ! queue_type)"

text \<open>On a ready queue, the update is the put on the ring, with the lock taken and given back.\<close>

lemma update_queue_ring:
  assumes "queue_ready n d c queue_type"
    and "ring_put (ring_size n) (qtime d) m (client_ring d c queue_type) = Some (q, ret)"
  shows "hw_fence_update_queue d c m queue_type =
    Some (set_queue_ring (txq_wm c queue_type) (cl_queues c ! queue_type) q d, ret)"
proof (cases "queue_type = RXQ")
  case False
  with assms show ?thesis
    by (auto simp: queue_ready_def hw_fence_update_queue_def txq_wm_def lock_client_queue_def Let_def)
next
  case True
  let ?l = "unat (cl_client_id c - 1)" and ?queue = "cl_queues c ! RXQ"
  have l: "?l < length (client_lock_tbl d)" "client_lock_tbl d ! ?l = 0"
    and cnt: "\<not> client_lock_tbl_cnt d \<le> cl_client_id c - 1"
    using True assms(1) by (auto simp: queue_ready_def)
  have wm: "txq_wm c (Suc 0) = False" by (simp add: txq_wm_def)
  have put: "ring_put (q_size_u32 ?queue) (qtime d) m (queue_ring False d ?queue) = Some (q, ret)"
    using assms True by (simp add: queue_ready_def wm)
  have same: "(client_lock_tbl d)[?l := 0] = client_lock_tbl d"
    using l(2) list_update_id by metis
  have "global_atomic_store d (ClientLock ?l) True = Some (d\<lparr>client_lock_tbl := (client_lock_tbl d)[?l := 1]\<rparr>)"
    using l by (rule client_lock)
  moreover have "global_atomic_store (set_queue_ring False ?queue q (d\<lparr>client_lock_tbl := (client_lock_tbl d)[?l := 1]\<rparr>))
      (ClientLock ?l) False = Some (set_queue_ring False ?queue q d)"
    using l by (simp add: client_unlock set_queue_ring_locks same)
  ultimately show ?thesis
    using assms(1) True cnt put
    by (simp add: queue_ready_def hw_fence_update_queue_def lock_client_queue_def wm Let_def)
qed

text \<open>Reading a queue with a header is the get on the ring; an empty ring stays as it is.\<close>

lemma read_queue_ring:
  "queue_type < HW_FENCE_CLIENT_QUEUES \<Longrightarrow> queue_type < length (cl_queues c) \<Longrightarrow>
   qd_va_header (cl_queues c ! queue_type) \<noteq> 0 \<Longrightarrow> q_size_u32 (cl_queues c ! queue_type) = ring_size n \<Longrightarrow>
   ring_get (ring_size n) p (queue_ring False d (cl_queues c ! queue_type)) = Some (q, p', ret) \<Longrightarrow>
   hw_fence_read_queue d c p queue_type =
     Some (set_queue_ring False (cl_queues c ! queue_type) q d, p', ret)"
  by (simp add: hw_fence_read_queue_def)

lemma ring_get_empty:
  assumes "ring_ok n q" and "ring_items n q = []"
  shows "ring_get (ring_size n) p q = Some (q, p, 0)"
  using ring_empty_iff [OF assms(1)] length_ring_items [of n q] assms(2)
  by (auto simp: ring_get_def split: prod.split)

section \<open>Properties\<close>

text \<open>C3. A ring of \<open>n\<close> payloads is a first-in first-out queue of at most \<open>n - 1\<close> messages: as long as
  it is not overfilled, any sequence of messages written by the driver to an empty ring, wherever its
  indices stand, is read back completely, unchanged and in order, across the wrap-around of the
  indices and with all 64-bit fields split over two words, and the ring is then empty again.\<close>

theorem ring_send_receive:
  assumes "ring_ok n q" and "ring_items n q = []" and "length ms \<le> ring_room n q"
  shows "\<exists>q' q''. chain (ring_push n timestamp) ms q = Some q' \<and>
    drain (ring_pop n) (length ms) q' = (q'', ms) \<and> ring_ok n q'' \<and> ring_items n q'' = []"
  by (rule ring_queue.send_receive [OF assms, of timestamp]) blast

definition sample_msg :: "u64 \<Rightarrow> queue_msg" where
  "sample_msg k = \<lparr>qm_ctxt_id = k, qm_seqno = 0x100000000 + k, qm_hash = k, qm_flags = 0,
     qm_client_data = 0, qm_error = 0\<rparr>"

theorem ring_send_receive_witness:
  "\<exists>q' q''. chain (ring_push 4 0) [sample_msg 1, sample_msg 2, sample_msg 3] (32, 32, replicate 64 0) = Some q' \<and>
    drain (ring_pop 4) 3 q' = (q'', [sample_msg 1, sample_msg 2, sample_msg 3]) \<and> ring_items 4 q'' = []"
proof -
  let ?q = "(32, 32, replicate 64 0)" and ?ms = "[sample_msg 1, sample_msg 2, sample_msg 3]"
  have "ring_ok 4 ?q" "ring_items 4 ?q = []" "length ?ms \<le> ring_room 4 ?q"
    by (simp_all add: ring_ok_def ring_room_def ring_items.simps ring_count.simps)
  moreover have "length ?ms = 3" by simp
  ultimately show ?thesis using ring_send_receive [of 4 ?q ?ms 0] by metis
qed

text \<open>Overfilling never damages a ring: a sequence of messages longer than the room left is cut off
  by an error at the message that does not fit; in particular a full queue refuses the next message.\<close>

lemma ring_overfill_refused:
  assumes "ring_ok n q" and "ring_room n q < length ms"
  shows "chain (ring_push n timestamp) ms q = None"
  using assms by (rule ring_queue.put_too_many)

lemma ring_overfill_refused_example:
  "chain (ring_push 2 0) [sample_msg 1, sample_msg 2] (16, 16, replicate 32 0) = None"
  using ring_overfill_refused [of 2 "(16, 16, replicate 32 0)" "[sample_msg 1, sample_msg 2]" 0]
  by (simp add: ring_ok_def ring_room_def ring_count.simps)

text \<open>The exact effect of a put on a ring with room: the payload at the write index, and the next write index.\<close>

lemma write_words_splice:
  assumes "i + length vs \<le> length ws"
  shows "write_words ws i vs = take i ws @ vs @ drop (i + length vs) ws"
  using assms
  by (intro nth_equalityI) (auto simp: nth_write_words nth_append min_def)

lemma ring_put_effect:
  assumes ok: "ring_ok n (rd, wr, ws)" and room: "0 < ring_room n (rd, wr, ws)"
  obtains wr' ws' where "ring_put (ring_size n) timestamp m (rd, wr, ws) = Some ((rd, wr', ws'), 0)"
    "ring_ok n (rd, wr', ws')" "ring_items n (rd, wr', ws') = ring_items n (rd, wr, ws) @ [m]"
    "ws' = take (unat wr) ws @ payload_words timestamp m @ drop (unat wr + 15) ws"
proof -
  obtain q' where q': "ring_put (ring_size n) timestamp m (rd, wr, ws) = Some (q', 0)" "ring_ok n q'"
    "ring_items n q' = ring_items n (rd, wr, ws) @ [m]" "fst q' = fst (rd, wr, ws)"
    using ok room by (rule ring_put_ok)
  obtain r w where rw: "unat wr = 16 * w" "w < n" "length ws = 16 * n"
    using ok by (rule ring_okE)
  have fit: "unat wr + 15 \<le> length ws" using rw by simp
  have len: "length (payload_words timestamp m) = 15" by (simp add: payload_words_def)
  have q: "q' = (rd, idx_after (ring_size n) wr, write_words ws (unat wr) (payload_words timestamp m))"
    using q'(1) fit by (auto simp: ring_put_def write_payload_words split: if_splits)
  show thesis
    using q'(1-3) write_words_splice [of "unat wr" "payload_words timestamp m" ws] fit len unfolding q by (intro that) simp_all
qed

text \<open>C4. \<open>hw_fence_update_queue\<close> on a ready queue with room returns 0 and appends exactly one message, the one it is
  given, to the client's ring. Its complete effect on the driver and on the shared memory is this: the 15
  words of the payload are written at the write index (size, type and version, the message, the time in two
  halves), every other word of the queue keeps its value, and in the header of the queue one field moves to the next
  slot, \<open>tx_wm\<close> for the tx queue of a client that skips the tx write index and the write index for all others. Nothing
  else changes: no other header, queue, client, fence, register or lock; the inter-processor lock that is
  taken for the rx queue is free again.\<close>

theorem update_queue_appends:
  assumes "queue_ready n d c queue_type" and "ring_ok n (client_ring d c queue_type)"
    and "0 < ring_room n (client_ring d c queue_type)"
  defines "queue \<equiv> cl_queues c ! queue_type"
  defines "hdr \<equiv> hfi_hdrs d (qd_va_header queue)" and "words \<equiv> q_words d (qd_va_queue queue)"
  defines "wr \<equiv> (if queue_type = TXQ \<and> cl_skip_txq_wr_idx c then qh_tx_wm hdr else qh_write_index hdr)"
  shows "\<exists>d' wr' words'. hw_fence_update_queue d c m queue_type = Some (d', 0) \<and>
    d' = d\<lparr>hfi_hdrs := (hfi_hdrs d)(qd_va_header queue :=
               (if queue_type = TXQ \<and> cl_skip_txq_wr_idx c then hdr\<lparr>qh_tx_wm := wr'\<rparr> else hdr\<lparr>qh_write_index := wr'\<rparr>)),
           q_words := (q_words d)(qd_va_queue queue := words')\<rparr> \<and>
    words' = take (unat wr) words @ payload_words (qtime d) m @ drop (unat wr + 15) words \<and>
    ring_ok n (client_ring d' c queue_type) \<and>
    ring_items n (client_ring d' c queue_type) = ring_items n (client_ring d c queue_type) @ [m]"
proof -
  have wm: "txq_wm c queue_type \<longleftrightarrow> queue_type = TXQ \<and> cl_skip_txq_wr_idx c" by (simp add: txq_wm_def)
  have ring: "client_ring d c queue_type = (qh_read_index hdr, wr, words)"
    by (simp add: queue_ring_def Let_def queue_def hdr_def words_def wr_def wm)
  obtain wr' words' where put: "ring_put (ring_size n) (qtime d) m (qh_read_index hdr, wr, words) = Some ((qh_read_index hdr, wr', words'), 0)"
    "ring_ok n (qh_read_index hdr, wr', words')"
    "ring_items n (qh_read_index hdr, wr', words') = ring_items n (qh_read_index hdr, wr, words) @ [m]"
    "words' = take (unat wr) words @ payload_words (qtime d) m @ drop (unat wr + 15) words"
    using assms(2,3) unfolding ring by (rule ring_put_effect)
  let ?d = "set_queue_ring (txq_wm c queue_type) queue (qh_read_index hdr, wr', words') d"
  have upd: "hw_fence_update_queue d c m queue_type = Some (?d, 0)"
    using update_queue_ring [OF assms(1), of m "(qh_read_index hdr, wr', words')" 0] put(1) ring by (simp add: queue_def)
  have same: "hdr\<lparr>qh_read_index := qh_read_index hdr\<rparr> = hdr" by simp
  have eq: "?d = d\<lparr>hfi_hdrs := (hfi_hdrs d)(qd_va_header queue :=
             (if queue_type = TXQ \<and> cl_skip_txq_wr_idx c then hdr\<lparr>qh_tx_wm := wr'\<rparr> else hdr\<lparr>qh_write_index := wr'\<rparr>)),
         q_words := (q_words d)(qd_va_queue queue := words')\<rparr>"
    by (simp only: set_queue_ring_def prod.case Let_def hdr_def [symmetric] same wm)
  have ring': "client_ring ?d c queue_type = (qh_read_index hdr, wr', words')"
    unfolding queue_def [symmetric] by (rule queue_ring_set)
  show ?thesis
    by (intro exI conjI, rule upd, rule eq, rule put(4)) (simp_all only: ring ring' put(2,3))
qed

definition sample_queue_state :: "u32 \<Rightarrow> u32 \<Rightarrow> hwf" where
  "sample_queue_state rd wr = zero_hwf\<lparr>
     hw_fence_client_queue_size := replicate 4 \<lparr>qs_queues_num = 2, qs_queue_entries = 2, qs_mem_size = 4096,
       qs_start_offset = 0, qs_skip_txq_wr_idx = False\<rparr>,
     client_lock_tbl := [0, 0, 0], client_lock_tbl_cnt := 3,
     hfi_hdrs := (\<lambda>_. zero_hfi_hdr)(0x100 := zero_hfi_hdr\<lparr>qh_read_index := rd, qh_write_index := wr\<rparr>),
     q_words := (\<lambda>_. [])(0x200 := replicate 32 0)\<rparr>"

definition sample_client :: msm_hw_fence_client where
  "sample_client = zero_client\<lparr>cl_client_id := 2, cl_queues := [zero_queue,
     \<lparr>qd_va_queue = 0x200, qd_q_size_bytes = 128, qd_va_header = 0x100, qd_pa_queue = 0\<rparr>]\<rparr>"

lemma sample_queue_ready:
  "queue_ready 2 (sample_queue_state rd wr) sample_client RXQ"
  "client_ring (sample_queue_state rd wr) sample_client RXQ = (rd, wr, replicate 32 0)"
  by (simp_all add: queue_ready_def sample_queue_state_def sample_client_def zero_client_def
      q_size_u32_def ring_size_def queue_ring_def txq_wm_def)

theorem update_queue_appends_witness:
  "\<exists>d' wr words. hw_fence_update_queue (sample_queue_state 16 16) sample_client (sample_msg 7) RXQ = Some (d', 0) \<and>
    d' = (sample_queue_state 16 16)\<lparr>hfi_hdrs := (hfi_hdrs (sample_queue_state 16 16))(0x100 := (hfi_hdrs (sample_queue_state 16 16) 0x100)\<lparr>qh_write_index := wr\<rparr>),
      q_words := (q_words (sample_queue_state 16 16))(0x200 := words)\<rparr> \<and>
    words = replicate 16 0 @ payload_words 0 (sample_msg 7) @ [0] \<and> ring_items 2 (client_ring d' sample_client RXQ) = [sample_msg 7]"
proof -
  have "ring_items 2 (16, 16, replicate 32 0) = []" "0 < ring_room 2 (16, 16, replicate 32 0)"
    "ring_ok 2 (16, 16, replicate 32 0)"
    by (simp_all add: ring_ok_def ring_room_def ring_items.simps ring_count.simps)
  moreover have "cl_queues sample_client ! RXQ =
      \<lparr>qd_va_queue = 0x200, qd_q_size_bytes = 128, qd_va_header = 0x100, qd_pa_queue = 0\<rparr>"
    by (simp add: sample_client_def)
  moreover have "qtime (sample_queue_state 16 16) = 0" "qh_write_index (hfi_hdrs (sample_queue_state 16 16) 0x100) = 16"
    "q_words (sample_queue_state 16 16) 0x200 = replicate 32 0"
    by (simp_all add: sample_queue_state_def zero_hwf_def)
  ultimately show ?thesis
    using update_queue_appends [OF sample_queue_ready(1), of 16 16 "sample_msg 7"] unfolding sample_queue_ready(2) by auto
qed

text \<open>On a full queue \<open>hw_fence_update_queue\<close> returns \<open>-EINVAL\<close> and the driver state, shared memory
  and locks included, is the same as before.\<close>

lemma update_queue_full:
  assumes "queue_ready n d c queue_type" and "ring_ok n (client_ring d c queue_type)"
    and "ring_room n (client_ring d c queue_type) = 0"
  shows "hw_fence_update_queue d c m queue_type = Some (d, - EINVAL)"
  using update_queue_ring [OF assms(1) ring_put_full [OF assms(2,3)]] by simp

lemma update_queue_full_example:
  "hw_fence_update_queue (sample_queue_state 0 16) sample_client (sample_msg 7) RXQ =
    Some (sample_queue_state 0 16, - EINVAL)"
  by (rule update_queue_full [OF sample_queue_ready(1)])
    (simp_all only: sample_queue_ready(2) ring_ok_def ring_room_def ring_count.simps, simp_all)

text \<open>C5. \<open>hw_fence_read_queue\<close> takes the oldest message out of a client's ring: on a ring with messages
  it fills the payload with the first of them, leaves the others, in order, and returns 1 if there are
  others and 0 if that was the last; on an empty ring it returns 0 and changes nothing.\<close>

theorem read_queue_pops:
  assumes "queue_type < HW_FENCE_CLIENT_QUEUES" and "queue_type < length (cl_queues c)"
    and "qd_va_header (cl_queues c ! queue_type) \<noteq> 0"
    and "q_size_u32 (cl_queues c ! queue_type) = ring_size n"
    and "ring_ok n (queue_ring False d (cl_queues c ! queue_type))"
  shows "case ring_items n (queue_ring False d (cl_queues c ! queue_type)) of
      [] \<Rightarrow> hw_fence_read_queue d c p queue_type = Some (d, p, 0)
    | m # ms \<Rightarrow> (\<exists>d'. hw_fence_read_queue d c p queue_type =
          Some (d', payload_of p m, if ms = [] then 0 else 1) \<and>
        ring_ok n (queue_ring False d' (cl_queues c ! queue_type)) \<and>
        ring_items n (queue_ring False d' (cl_queues c ! queue_type)) = ms)"
proof (cases "ring_items n (queue_ring False d (cl_queues c ! queue_type))")
  case Nil
  with assms ring_get_empty [OF assms(5) Nil] show ?thesis by (simp add: read_queue_ring)
next
  case (Cons m ms)
  obtain q where "ring_get (ring_size n) p (queue_ring False d (cl_queues c ! queue_type))
      = Some (q, payload_of p m, if ms = [] then 0 else 1)" "ring_ok n q" "ring_items n q = ms"
    using assms(5) Cons by (rule ring_get_ok)
  with Cons assms(1-4) show ?thesis by (simp add: read_queue_ring)
qed

theorem read_queue_pops_witness:
  "hw_fence_read_queue (sample_queue_state 16 16) sample_client zero_payload RXQ =
    Some (sample_queue_state 16 16, zero_payload, 0)"
  using read_queue_pops [of RXQ sample_client 2 "sample_queue_state 16 16" zero_payload]
    sample_queue_ready [of 16 16]
  by (simp add: queue_ready_def ring_ok_def ring_items.simps ring_count.simps txq_wm_def)

end
