(* ===== verification/HwfLayout.thy ===== *)
theory HwfLayout
  imports HwfQueue
begin

text \<open>
  The carved-out memory: the sizes and offsets that \<open>hw_fence_drv_utils.c\<close> computes from the device
  tree, the internal client ids, the reservation of a region, and the setup of the queues, the locks and
  the fence table in \<open>hw_fence_drv_priv.c\<close>. Device-tree properties, the results of allocations and of
  mapping the memory are arguments. First the code, then the layout it computes.
\<close>

section \<open>The code\<close>

subsection \<open>Sizes\<close>

definition U32_MAX :: u64 where "U32_MAX = 0xFFFFFFFF"

definition PAGE_ALIGN :: "platform \<Rightarrow> u64 \<Rightarrow> u64" where
  "PAGE_ALIGN P x = (x + (page_size P - 1)) AND NOT (page_size P - 1)"

definition sizeof_msm_hw_fence :: u64 where "sizeof_msm_hw_fence = 160"
definition HW_FENCE_CTRL_QUEUE_PAYLOAD :: u64 where "HW_FENCE_CTRL_QUEUE_PAYLOAD = (1 + 1 + 1 + 2 + 1) * 4"
definition MAX_CLIENT_QUEUE_MEM_SIZE :: u32 where "MAX_CLIENT_QUEUE_MEM_SIZE = 0x100000"

definition HW_FENCE_HFI_CTRL_HEADERS_SIZE :: "platform \<Rightarrow> u64" where
  "HW_FENCE_HFI_CTRL_HEADERS_SIZE P =
     sizeof_hfi_table_header P + sizeof_hfi_queue_header P * of_nat HW_FENCE_CTRL_QUEUES"

definition HW_FENCE_HFI_CLIENT_HEADERS_SIZE :: "platform \<Rightarrow> u32 \<Rightarrow> u64" where
  "HW_FENCE_HFI_CLIENT_HEADERS_SIZE P queues_num =
     sizeof_hfi_table_header P + sizeof_hfi_queue_header P * ucast queues_num"

definition HW_FENCE_MEM_LOCKS_SIZE :: "u32 \<Rightarrow> u64" where
  "HW_FENCE_MEM_LOCKS_SIZE rxq = 8 * ucast rxq"

subsection \<open>Client types\<close>

definition HW_FENCE_MIN_RXQ_CLIENTS :: "platform \<Rightarrow> u32" where
  "HW_FENCE_MIN_RXQ_CLIENTS P = client_id P VAL6"

definition HW_FENCE_MIN_RXQ_CLIENT_TYPE :: nat where "HW_FENCE_MIN_RXQ_CLIENT_TYPE = 3"

definition HW_FENCE_MAX_CLIENT_TYPE :: nat where
  "HW_FENCE_MAX_CLIENT_TYPE = HW_FENCE_MAX_CLIENT_TYPE_STATIC + HW_FENCE_MAX_CLIENT_TYPE_CONFIGURABLE"

definition client_type :: "u32 \<Rightarrow> u32 \<Rightarrow> u32 \<Rightarrow> u32 \<Rightarrow> bool \<Rightarrow> hw_fence_client_type_desc" where
  "client_type init maxn n queues skip = \<lparr>ct_init_id = init, ct_max_clients_num = maxn, ct_clients_num = n,
     ct_queues_num = queues, ct_queue_entries = 0, ct_mem_size = 0, ct_skip_txq_wr_idx = skip\<rparr>"

text \<open>The table \<open>hw_fence_client_types\<close> as it is linked into the driver.\<close>

definition initial_client_types :: "platform \<Rightarrow> hw_fence_client_type_desc list" where
  "initial_client_types P =
     [client_type (client_id P CTX0) 1 1 2 False,
      client_type (client_id P CTL0) 6 6 2 False,
      client_type (client_id P VAL0) 7 7 2 False,
      client_type (client_id P IPE) 1 0 2 False,
      client_type (client_id P VPU) 1 0 2 False,
      client_type (client_id P IFE0) 32 0 1 True,
      client_type (client_id P IFE1) 32 0 1 True,
      client_type (client_id P IFE2) 32 0 1 True,
      client_type (client_id P IFE3) 32 0 1 True,
      client_type (client_id P IFE4) 32 0 1 True,
      client_type (client_id P IFE5) 32 0 1 True,
      client_type (client_id P IFE6) 32 0 1 True,
      client_type (client_id P IFE7) 32 0 1 True]"

definition hw_fence_utils_get_client_id_priv :: "platform \<Rightarrow> hwf \<Rightarrow> u32 \<Rightarrow> u32 option" where
  "hw_fence_utils_get_client_id_priv P d cid =
     (if cid < HW_FENCE_MAX_STATIC_CLIENTS_INDEX P then Some cid
      else
        let rel = cid - HW_FENCE_MAX_STATIC_CLIENTS_INDEX P;
            ctype = HW_FENCE_MAX_CLIENT_TYPE_STATIC + unat (rel div max_signal_per_client P);
            offset = rel mod max_signal_per_client P
        in do {
          desc \<leftarrow> fetch (hw_fence_client_types d) ctype;
          if ct_clients_num desc \<le> offset then Some (client_id P CLIENT_MAX)
          else Some (foldl (\<lambda>n i. n + ct_clients_num (hw_fence_client_types d ! i))
                 (HW_FENCE_MAX_STATIC_CLIENTS_INDEX P + offset) [HW_FENCE_MAX_CLIENT_TYPE_STATIC..<ctype])
        })"

definition hw_fence_utils_skips_txq_wr_idx :: "hwf \<Rightarrow> u32 \<Rightarrow> bool option" where
  "hw_fence_utils_skips_txq_wr_idx d cid =
     (if clients_num d \<le> cid then Some False
      else map_option qs_skip_txq_wr_idx (fetch (hw_fence_client_queue_size d) (unat cid)))"

subsection \<open>Device-tree properties\<close>

text \<open>\<open>prop\<close> is what \<open>of_property_read_u32_array\<close> reads for the type: four values, or an error.\<close>

definition parse_client_queue_dt_props_indv ::
  "platform \<Rightarrow> hwf \<Rightarrow> hw_fence_client_type_desc \<Rightarrow> (u32 \<times> u32 \<times> u32 \<times> u32) option
    \<Rightarrow> hw_fence_client_type_desc \<times> int" where
  "parse_client_queue_dt_props_indv P d desc prop =
     (let (desc, bad) = (case prop of
            None \<Rightarrow> (desc\<lparr>ct_queue_entries := hw_fence_queue_entries d\<rparr>, False)
          | Some (t0, t1, t2, t3) \<Rightarrow>
              let desc = desc\<lparr>ct_clients_num := t0, ct_queues_num := t1, ct_queue_entries := t2\<rparr> in
              if 1 < t3 then (desc, True) else (desc\<lparr>ct_skip_txq_wr_idx := (t3 \<noteq> 0)\<rparr>, False))
      in if bad then (desc, - EINVAL)
      else if ct_max_clients_num desc < ct_clients_num desc \<or> ct_queues_num desc = 0 \<or>
          of_nat HW_FENCE_CLIENT_QUEUES < ct_queues_num desc \<or> ct_queue_entries desc = 0
        then (desc, - EINVAL)
      else if U32_MAX div ucast HW_FENCE_CLIENT_QUEUE_PAYLOAD \<le> ucast (ct_queue_entries desc)
        then (desc, - EINVAL)
      else
        let queue_size = HW_FENCE_CLIENT_QUEUE_PAYLOAD * ct_queue_entries desc in
        if ((U32_MAX AND NOT (page_size P - 1)) - HW_FENCE_HFI_CLIENT_HEADERS_SIZE P (ct_queues_num desc))
            div ucast (ct_queues_num desc) \<le> ucast queue_size
        then (desc, - EINVAL)
        else
          let desc = desc\<lparr>ct_mem_size := ucast (PAGE_ALIGN P
            (HW_FENCE_HFI_CLIENT_HEADERS_SIZE P (ct_queues_num desc) + ucast (queue_size * ct_queues_num desc)))\<rparr>
          in if MAX_CLIENT_QUEUE_MEM_SIZE < ct_mem_size desc then (desc, - EINVAL) else (desc, 0))"

text \<open>The first loop of \<open>_parse_client_queue_dt_props\<close>: the type table, the two counters, the error.\<close>

fun parse_types ::
  "platform \<Rightarrow> hwf \<Rightarrow> (nat \<Rightarrow> (u32 \<times> u32 \<times> u32 \<times> u32) option) \<Rightarrow> nat list
    \<Rightarrow> hw_fence_client_type_desc list \<Rightarrow> u32 \<Rightarrow> u32
    \<Rightarrow> (hw_fence_client_type_desc list \<times> u32 \<times> u32 \<times> int) option" where
  "parse_types P d props [] types rxq conf = Some (types, rxq, conf, 0)"
| "parse_types P d props (i # is) types rxq conf = do {
     desc \<leftarrow> fetch types i;
     let (desc, ret) = parse_client_queue_dt_props_indv P d desc (props i);
     let types = types[i := desc];
     if ret \<noteq> 0 then Some (types, rxq, conf, ret)
     else
       let rxq = (if HW_FENCE_MIN_RXQ_CLIENT_TYPE \<le> i \<and> ct_queues_num desc = of_nat HW_FENCE_CLIENT_QUEUES
             then rxq + ct_clients_num desc else rxq);
           conf = (if HW_FENCE_MAX_CLIENT_TYPE_STATIC \<le> i then conf + ct_clients_num desc else conf)
       in parse_types P d props is types rxq conf
   }"

text \<open>The body of the second loop for sub-client \<open>j\<close>: its descriptor, at the next free offset.\<close>

type_synonym placing = "hw_fence_client_queue_size_desc list \<times> u32"

definition place_client :: "platform \<Rightarrow> hwf \<Rightarrow> hw_fence_client_type_desc \<Rightarrow> nat \<Rightarrow> placing \<Rightarrow> placing option" where
  "place_client P d desc j s = (case s of (sizes, start_offset) \<Rightarrow> do {
     cid \<leftarrow> hw_fence_utils_get_client_id_priv P d (ct_init_id desc + of_nat j);
     if unat cid < length sizes then
       Some (sizes[unat cid := \<lparr>qs_queues_num = ct_queues_num desc, qs_queue_entries = ct_queue_entries desc,
           qs_mem_size = ct_mem_size desc, qs_start_offset = start_offset,
           qs_skip_txq_wr_idx = ct_skip_txq_wr_idx desc\<rparr>],
         start_offset + ct_mem_size desc)
     else None
   })"

definition place_type :: "platform \<Rightarrow> hwf \<Rightarrow> nat \<Rightarrow> placing \<Rightarrow> placing option" where
  "place_type P d i s = do {
     desc \<leftarrow> fetch (hw_fence_client_types d) i;
     chain (place_client P d desc) [0..<unat (ct_clients_num desc)] s
   }"

definition zero_size_desc :: hw_fence_client_queue_size_desc where
  "zero_size_desc = \<lparr>qs_queues_num = 0, qs_queue_entries = 0, qs_mem_size = 0, qs_start_offset = 0,
     qs_skip_txq_wr_idx = False\<rparr>"

definition queues_start :: "platform \<Rightarrow> hwf \<Rightarrow> u32" where
  "queues_start P d = ucast (PAGE_ALIGN P (ucast (hw_fence_mem_ctrl_queues_size d) +
     HW_FENCE_MEM_LOCKS_SIZE (rxq_clients_num d) + ucast (hw_fence_mem_fences_table_size d)))"

text \<open>\<open>alloc\<close> says whether the allocation of the descriptors succeeds.\<close>

definition parse_client_queue_dt_props ::
  "platform \<Rightarrow> bool \<Rightarrow> (nat \<Rightarrow> (u32 \<times> u32 \<times> u32 \<times> u32) option) \<Rightarrow> hwf \<Rightarrow> (hwf \<times> int) option" where
  "parse_client_queue_dt_props P alloc props d = do {
     (types, rxq, conf, ret) \<leftarrow> parse_types P d props [0..<HW_FENCE_MAX_CLIENT_TYPE]
       (initial_client_types P) (HW_FENCE_MIN_RXQ_CLIENTS P) 0;
     let d = d\<lparr>rxq_clients_num := rxq\<rparr>;
     if ret \<noteq> 0 then Some (d, ret)
     else
       let d = d\<lparr>hw_fence_client_types := types, clients_num := HW_FENCE_MAX_STATIC_CLIENTS_INDEX P + conf\<rparr> in
       if \<not> alloc then Some (d\<lparr>hw_fence_client_queue_size := []\<rparr>, - ENOMEM)
       else do {
         (sizes, start_offset) \<leftarrow> chain (place_type P d) [0..<HW_FENCE_MAX_CLIENT_TYPE]
           (replicate (unat (clients_num d)) zero_size_desc, queues_start P d);
         Some (d\<lparr>hw_fence_client_queue_size := sizes, used_mem_size := start_offset\<rparr>, 0)
       }
   }"

text \<open>A property read by \<open>of_property_read_u32\<close>: its return value and, if that is 0, the value read.\<close>

definition hw_fence_utils_parse_dt_props ::
  "platform \<Rightarrow> bool \<Rightarrow> bool \<Rightarrow> int \<times> u32 \<Rightarrow> int \<times> u32 \<Rightarrow> (nat \<Rightarrow> (u32 \<times> u32 \<times> u32 \<times> u32) option)
    \<Rightarrow> hwf \<Rightarrow> (hwf \<times> int) option" where
  "hw_fence_utils_parse_dt_props P alloc alloc_clients table_entries queue_entries props d =
     (case table_entries of (ret, val) \<Rightarrow>
      if ret \<noteq> 0 \<or> val = 0 then Some (d, ret)
      else let d = d\<lparr>hw_fence_table_entries := val\<rparr> in
      if U32_MAX div sizeof_msm_hw_fence \<le> ucast val then Some (d, - EINVAL)
      else let d = d\<lparr>hw_fence_mem_fences_table_size := ucast (sizeof_msm_hw_fence * ucast val)\<rparr> in
      (case queue_entries of (ret, val) \<Rightarrow>
      if ret \<noteq> 0 \<or> val = 0 then Some (d, ret)
      else let d = d\<lparr>hw_fence_queue_entries := val\<rparr> in
      if U32_MAX div HW_FENCE_CTRL_QUEUE_PAYLOAD \<le> ucast val then Some (d, - EINVAL)
      else let d = d\<lparr>hw_fence_ctrl_queue_size := ucast (HW_FENCE_CTRL_QUEUE_PAYLOAD * ucast val)\<rparr> in
      if (U32_MAX - HW_FENCE_HFI_CTRL_HEADERS_SIZE P) div of_nat HW_FENCE_CTRL_QUEUES
          \<le> ucast (hw_fence_ctrl_queue_size d) then Some (d, - EINVAL)
      else let d = d\<lparr>hw_fence_mem_ctrl_queues_size := ucast (HW_FENCE_HFI_CTRL_HEADERS_SIZE P +
          ucast (of_nat HW_FENCE_CTRL_QUEUES * hw_fence_ctrl_queue_size d))\<rparr>
      in do {
        (d, ret) \<leftarrow> parse_client_queue_dt_props P alloc props d;
        if ret \<noteq> 0 then Some (d, - EINVAL)
        else if \<not> alloc_clients then Some (d\<lparr>clients := []\<rparr>, - ENOMEM)
        else Some (d\<lparr>clients := replicate (unat (clients_num d)) None\<rparr>, 0)
      }))"


subsection \<open>The carved-out memory\<close>

text \<open>
  \<open>hw_fence_utils_alloc_mem\<close>. The arguments are what the kernel hands back: the return value for the
  label (\<open>None\<close> if there is no compatible node), whether the shared-buffer node exists, the resource
  (start, size), the mapped address (0 is NULL) and the return value of registering the notifier.
  Clearing the memory clears every header and leaves no queue in it.
\<close>

definition ENXIO :: int where "ENXIO = 6"
definition EPROBE_DEFER :: int where "EPROBE_DEFER = 517"

definition hw_fence_utils_alloc_mem ::
  "int option \<Rightarrow> bool \<Rightarrow> (u64 \<times> u64) option \<Rightarrow> u64 \<Rightarrow> int \<Rightarrow> hwf \<Rightarrow> hwf \<times> int" where
  "hw_fence_utils_alloc_mem label buffer resource mapped notifier d =
     (case label of
        None \<Rightarrow> (d, - EINVAL)
      | Some ret \<Rightarrow>
        if ret \<noteq> 0 then (d, ret)
        else if \<not> buffer then (d, - ENOMEM)
        else (case resource of
          None \<Rightarrow> (d, - EINVAL)
        | Some (start, sz) \<Rightarrow>
            let d = d\<lparr>res_start := start, io_mem_base := mapped\<rparr> in
            if mapped = 0 then (d, - ENXIO)
            else let d = d\<lparr>res_size := sz\<rparr> in
            if sz < ucast (used_mem_size d) then (d, - ENOMEM)
            else let d = d\<lparr>hfi_tables := (\<lambda>_. zero_hfi_table), hfi_hdrs := (\<lambda>_. zero_hfi_hdr),
              q_words := (\<lambda>_. [])\<rparr> in
            if notifier \<noteq> 0 then (d, - EPROBE_DEFER) else (d, 0)))"

datatype hw_fence_mem_reserve = MEM_RESERVE_CTRL_QUEUE | MEM_RESERVE_LOCKS_REGION
  | MEM_RESERVE_TABLE | MEM_RESERVE_CLIENT_QUEUE

text \<open>The start offset and size of a region, and the return value up to the check of the total size.\<close>

definition region :: "hwf \<Rightarrow> hw_fence_mem_reserve \<Rightarrow> u32 \<Rightarrow> (u32 \<times> u32 \<times> int) option" where
  "region d t cid = (case t of
       MEM_RESERVE_CTRL_QUEUE \<Rightarrow> Some (0, hw_fence_mem_ctrl_queues_size d, 0)
     | MEM_RESERVE_LOCKS_REGION \<Rightarrow>
         Some (hw_fence_mem_ctrl_queues_size d, ucast (HW_FENCE_MEM_LOCKS_SIZE (rxq_clients_num d)), 0)
     | MEM_RESERVE_TABLE \<Rightarrow>
         Some (ucast (ucast (hw_fence_mem_ctrl_queues_size d) + HW_FENCE_MEM_LOCKS_SIZE (rxq_clients_num d)),
           hw_fence_mem_fences_table_size d, 0)
     | MEM_RESERVE_CLIENT_QUEUE \<Rightarrow> do {
         desc \<leftarrow> fetch (hw_fence_client_queue_size d) (unat cid);
         Some (qs_start_offset desc, qs_mem_size desc, if qs_mem_size desc = 0 then - EINVAL else 0)
       })"

text \<open>\<open>hw_fence_utils_reserve_mem\<close>: the return value, and the physical and virtual address and the size.\<close>

definition hw_fence_utils_reserve_mem ::
  "hwf \<Rightarrow> hw_fence_mem_reserve \<Rightarrow> u32 \<Rightarrow> (int \<times> u64 \<times> u64 \<times> u32) option" where
  "hw_fence_utils_reserve_mem d t cid =
     (if t = MEM_RESERVE_CLIENT_QUEUE \<and> clients_num d \<le> cid then Some (- EINVAL, 0, 0, 0)
      else do {
        (start_offset, sz, ret) \<leftarrow> region d t cid;
        if res_size d < ucast (start_offset + sz) then Some (- ENOMEM, 0, 0, sz)
        else Some (ret, res_start d + ucast start_offset, io_mem_base d + ucast start_offset, sz)
      })"

subsection \<open>Setup of the regions\<close>

text \<open>
  The words of a queue become an object of their own when the queue is set up the first time after the
  memory was cleared; setting it up again leaves them as they are.
\<close>

definition claim_words :: "u64 \<Rightarrow> u32 \<Rightarrow> hwf \<Rightarrow> hwf" where
  "claim_words a queue_size d = (if q_words d a = []
     then d\<lparr>q_words := (q_words d)(a := replicate (unat (queue_size div 4)) 0)\<rparr> else d)"

text \<open>The body of the loop of \<open>init_hw_fences_queues\<close> for queue \<open>i\<close>.\<close>

definition init_queue ::
  "platform \<Rightarrow> u64 \<Rightarrow> u64 \<Rightarrow> u32 \<Rightarrow> u32 \<Rightarrow> u32 \<Rightarrow> nat \<Rightarrow> hwf \<times> msm_hw_fence_queue list
    \<Rightarrow> (hwf \<times> msm_hw_fence_queue list) option" where
  "init_queue P phys ptr headers_size queue_size payload_size i s = (case s of (d, queues) \<Rightarrow>
     let start_queue_offset = headers_size + of_nat i * queue_size;
         qphys = phys + ucast start_queue_offset;
         qptr = ptr + ucast start_queue_offset;
         hdr = ptr + sizeof_hfi_table_header P + of_nat i * sizeof_hfi_queue_header P;
         d = d\<lparr>hfi_hdrs := (hfi_hdrs d)(hdr := (hfi_hdrs d hdr)\<lparr>
           qh_start_addr := qphys,
           qh_type := of_nat (if i = 0 then HW_FENCE_TX_QUEUE else HW_FENCE_RX_QUEUE),
           qh_queue_size := queue_size,
           qh_pkt_size := payload_size\<rparr>)\<rparr>;
         d = claim_words qptr queue_size d
     in if i < length queues then
          Some (d, queues[i := \<lparr>qd_va_queue = qptr, qd_q_size_bytes = queue_size, qd_va_header = hdr,
            qd_pa_queue = qphys\<rparr>])
        else None)"

definition init_hw_fences_queues ::
  "platform \<Rightarrow> hwf \<Rightarrow> hw_fence_mem_reserve \<Rightarrow> msm_hw_fence_mem_addr \<Rightarrow> msm_hw_fence_queue list \<Rightarrow> u32 \<Rightarrow> u32
    \<Rightarrow> (hwf \<times> msm_hw_fence_mem_addr \<times> msm_hw_fence_queue list \<times> int) option" where
  "init_hw_fences_queues P d t mem_descriptor queues queues_num cid = do {
     (headers_size, queue_size, payload_size, bad) \<leftarrow> (case t of
         MEM_RESERVE_CTRL_QUEUE \<Rightarrow> Some (ucast (HW_FENCE_HFI_CTRL_HEADERS_SIZE P) :: u32,
           hw_fence_ctrl_queue_size d, ucast HW_FENCE_CTRL_QUEUE_PAYLOAD :: u32, False)
       | MEM_RESERVE_CLIENT_QUEUE \<Rightarrow>
           if clients_num d \<le> cid then Some (0, 0, 0, True)
           else do {
             desc \<leftarrow> fetch (hw_fence_client_queue_size d) (unat cid);
             Some (ucast (HW_FENCE_HFI_CLIENT_HEADERS_SIZE P queues_num),
               HW_FENCE_CLIENT_QUEUE_PAYLOAD * qs_queue_entries desc, HW_FENCE_CLIENT_QUEUE_PAYLOAD, False)
           }
       | _ \<Rightarrow> Some (0, 0, 0, True));
     if bad then Some (d, mem_descriptor, queues, - EINVAL)
     else do {
       (ret, phys, ptr, sz) \<leftarrow> hw_fence_utils_reserve_mem d t cid;
       if ret \<noteq> 0 then Some (d, mem_descriptor, queues, - ENOMEM)
       else do {
         let mem_descriptor = \<lparr>md_virtual_addr = ptr, md_device_addr = phys, md_size = sz\<rparr>;
         let d = d\<lparr>hfi_tables := (hfi_tables d)(ptr := \<lparr>th_version = 0, th_size = sz,
           th_qhdr0_offset = ucast (sizeof_hfi_table_header P), th_qhdr_size = ucast (sizeof_hfi_queue_header P),
           th_num_q = queues_num, th_num_active_q = queues_num\<rparr>)\<rparr>;
         (d, queues) \<leftarrow> chain (init_queue P phys ptr headers_size queue_size payload_size)
           [0..<unat queues_num] (d, queues);
         Some (d, mem_descriptor, queues, 0)
       }
     }
   }"

definition init_global_locks :: "hwf \<Rightarrow> (hwf \<times> int) option" where
  "init_global_locks d = do {
     (ret, phys, ptr, sz) \<leftarrow> hw_fence_utils_reserve_mem d MEM_RESERVE_LOCKS_REGION 0;
     if ret \<noteq> 0 then Some (d, - ENOMEM)
     else
       let cnt = sz div 8
       in Some (d\<lparr>client_lock_tbl := replicate (unat cnt) 0, client_lock_tbl_cnt := cnt\<rparr>, 0)
   }"

definition init_hw_fences_table :: "hwf \<Rightarrow> (hwf \<times> int) option" where
  "init_hw_fences_table d = do {
     (ret, phys, ptr, sz) \<leftarrow> hw_fence_utils_reserve_mem d MEM_RESERVE_TABLE 0;
     if ret \<noteq> 0 then Some (d, - ENOMEM)
     else
       let cnt = sz div ucast sizeof_msm_hw_fence
       in Some (d\<lparr>hw_fences_tbl_va := ptr, hw_fences_tbl := replicate (unat cnt) zero_fence,
         hw_fences_tbl_cnt := cnt\<rparr>, 0)
   }"

definition init_ctrl_queue :: "platform \<Rightarrow> hwf \<Rightarrow> (hwf \<times> int) option" where
  "init_ctrl_queue P d = do {
     (d, mem_descriptor, queues, ret) \<leftarrow> init_hw_fences_queues P d MEM_RESERVE_CTRL_QUEUE
       (ctrl_queue_mem_desc d) (ctrl_queues d) (of_nat HW_FENCE_CTRL_QUEUES) 0;
     Some (d\<lparr>ctrl_queue_mem_desc := mem_descriptor, ctrl_queues := queues\<rparr>, ret)
   }"

text \<open>\<open>hw_fence_alloc_client_resources\<close>, with the client object and the caller's memory descriptor.\<close>

definition hw_fence_alloc_client_resources ::
  "platform \<Rightarrow> hwf \<Rightarrow> msm_hw_fence_client \<Rightarrow> msm_hw_fence_mem_addr
    \<Rightarrow> (hwf \<times> msm_hw_fence_client \<times> msm_hw_fence_mem_addr \<times> int) option" where
  "hw_fence_alloc_client_resources P d c mem_descriptor = do {
     desc \<leftarrow> fetch (hw_fence_client_queue_size d) (unat (cl_client_id c));
     (d, md, queues, ret) \<leftarrow> init_hw_fences_queues P d MEM_RESERVE_CLIENT_QUEUE (cl_mem_descriptor c)
       (cl_queues c) (qs_queues_num desc) (cl_client_id c);
     let c = c\<lparr>cl_mem_descriptor := md, cl_queues := queues\<rparr>;
     if ret \<noteq> 0 then Some (d, c, mem_descriptor, ret) else Some (d, c, md, ret)
   }"

definition is_dpu_client :: "platform \<Rightarrow> u32 \<Rightarrow> bool" where
  "is_dpu_client P cid = (cid \<in> {client_id P CTL0, client_id P CTL1, client_id P CTL2, client_id P CTL3,
     client_id P CTL4, client_id P CTL5})"

definition is_known_client :: "platform \<Rightarrow> u32 \<Rightarrow> bool" where
  "is_known_client P cid = (cid \<in> {client_id P CTX0, client_id P VAL0, client_id P VAL1, client_id P VAL2,
      client_id P VAL3, client_id P VAL4, client_id P VAL5, client_id P VAL6, client_id P IPE, client_id P VPU} \<or>
     is_dpu_client P cid \<or>
     client_id P IFE0 \<le> cid \<and> cid \<le> client_id P IFE7 + max_signal_per_client P - 1)"

definition hw_fence_init_controller_signal :: "platform \<Rightarrow> hwf \<Rightarrow> msm_hw_fence_client \<Rightarrow> (hwf \<times> int) option" where
  "hw_fence_init_controller_signal P d c =
     (if is_dpu_client P (cl_client_id c) then
        if ipcc_dpu_initialized d then Some (d, 0)
        else do {
          (d, _) \<leftarrow> hw_fence_ipcc_enable_dpu_signaling (d\<lparr>ipcc_dpu_initialized := True\<rparr>);
          Some (d, 0)
        }
      else if is_known_client P (cl_client_id c) then Some (d, 0)
      else Some (d, - EINVAL))"

definition hw_fence_init_controller_resources :: "msm_hw_fence_client \<Rightarrow> int" where
  "hw_fence_init_controller_resources c = 0"

text \<open>\<open>hw_fence_cleanup_client\<close> on the object at address \<open>h\<close>: the handle leaves the table, the object is freed.\<close>

definition hw_fence_cleanup_client :: "hwf \<Rightarrow> nat \<Rightarrow> hwf option" where
  "hw_fence_cleanup_client d h = do {
     c \<leftarrow> client_objs d h;
     if unat (cl_client_id c) < length (clients d) then
       Some (d\<lparr>clients := (clients d)[unat (cl_client_id c) := None],
         client_objs := (client_objs d)(h := None)\<rparr>)
     else None
   }"


section \<open>Internal client ids\<close>

text \<open>The number of sub-clients of the configurable type \<open>t\<close>, and the external ids in use.\<close>

definition subclients :: "hwf \<Rightarrow> nat \<Rightarrow> nat" where
  "subclients d t = unat (ct_clients_num (hw_fence_client_types d ! (HW_FENCE_MAX_CLIENT_TYPE_STATIC + t)))"

definition ext_type :: "platform \<Rightarrow> u32 \<Rightarrow> nat" where
  "ext_type P cid = unat ((cid - HW_FENCE_MAX_STATIC_CLIENTS_INDEX P) div max_signal_per_client P)"

definition ext_offset :: "platform \<Rightarrow> u32 \<Rightarrow> nat" where
  "ext_offset P cid = unat ((cid - HW_FENCE_MAX_STATIC_CLIENTS_INDEX P) mod max_signal_per_client P)"

definition ext_client :: "platform \<Rightarrow> hwf \<Rightarrow> u32 \<Rightarrow> bool" where
  "ext_client P d cid \<longleftrightarrow> cid < HW_FENCE_MAX_STATIC_CLIENTS_INDEX P \<or>
     ext_type P cid < HW_FENCE_MAX_CLIENT_TYPE_CONFIGURABLE \<and> ext_offset P cid < subclients d (ext_type P cid)"

text \<open>The state that the device-tree parser leaves: all types known, and the clients counted.\<close>

definition clients_counted :: "platform \<Rightarrow> hwf \<Rightarrow> bool" where
  "clients_counted P d \<longleftrightarrow> length (hw_fence_client_types d) = HW_FENCE_MAX_CLIENT_TYPE \<and>
     0 < max_signal_per_client P \<and>
     unat (clients_num d) = unat (HW_FENCE_MAX_STATIC_CLIENTS_INDEX P) +
       (\<Sum>t<HW_FENCE_MAX_CLIENT_TYPE_CONFIGURABLE. subclients d t)"

definition priv_index :: "platform \<Rightarrow> hwf \<Rightarrow> u32 \<Rightarrow> nat" where
  "priv_index P d cid = (if cid < HW_FENCE_MAX_STATIC_CLIENTS_INDEX P then unat cid
     else unat (HW_FENCE_MAX_STATIC_CLIENTS_INDEX P) + ext_offset P cid + (\<Sum>t<ext_type P cid. subclients d t))"

lemma sum_lessThan_add: "(\<Sum>t<n. f t) + f n \<le> (\<Sum>t<m. f t)" if "n < m" for f :: "nat \<Rightarrow> nat"
proof -
  have "(\<Sum>t<Suc n. f t) \<le> (\<Sum>t<m. f t)"
    using that by (intro sum_mono2) auto
  then show ?thesis by simp
qed

lemma priv_index_less:
  assumes "clients_counted P d" and "ext_client P d cid"
  shows "priv_index P d cid < unat (clients_num d)"
proof (cases "cid < HW_FENCE_MAX_STATIC_CLIENTS_INDEX P")
  case True
  with assms(1) show ?thesis
    by (simp add: priv_index_def clients_counted_def word_less_nat_alt)
next
  case False
  with assms(2) have "ext_type P cid < HW_FENCE_MAX_CLIENT_TYPE_CONFIGURABLE"
    and off: "ext_offset P cid < subclients d (ext_type P cid)" by (simp_all add: ext_client_def)
  from sum_lessThan_add [OF this(1), of "subclients d"] off False assms(1)
  show ?thesis by (simp add: priv_index_def clients_counted_def)
qed

lemma foldl_add_sum:
  fixes n :: "'a::len word"
  assumes "unat n + (\<Sum>t<k. unat (f t)) < 2 ^ LENGTH('a)"
  shows "unat (foldl (\<lambda>n i. n + f (i - a)) n [a..<a + k]) = unat n + (\<Sum>t<k. unat (f t))"
  using assms
proof (induction k)
  case 0
  then show ?case by simp
next
  case (Suc k)
  let ?s = "foldl (\<lambda>n i. n + f (i - a)) n [a..<a + k]"
  have IH: "unat ?s = unat n + (\<Sum>t<k. unat (f t))"
    using Suc by simp
  have "unat (?s + f k) = unat ?s + unat (f k)"
    using Suc.prems IH by (subst unat_add_lem [THEN iffD1]) simp_all
  with IH show ?case by simp
qed

lemma get_client_id_priv:
  assumes "clients_counted P d" and "ext_client P d cid"
  obtains p where "hw_fence_utils_get_client_id_priv P d cid = Some p" "unat p = priv_index P d cid"
proof (cases "cid < HW_FENCE_MAX_STATIC_CLIENTS_INDEX P")
  case True
  then show thesis
    by (intro that [of cid]) (simp_all add: hw_fence_utils_get_client_id_priv_def priv_index_def)
next
  case False
  let ?s = "HW_FENCE_MAX_STATIC_CLIENTS_INDEX P" and ?a = HW_FENCE_MAX_CLIENT_TYPE_STATIC
  let ?off = "(cid - ?s) mod max_signal_per_client P"
  let ?n = "\<lambda>t. ct_clients_num (hw_fence_client_types d ! (?a + t))"
  have t: "ext_type P cid < HW_FENCE_MAX_CLIENT_TYPE_CONFIGURABLE"
    and off: "ext_offset P cid < subclients d (ext_type P cid)"
    using False assms(2) by (simp_all add: ext_client_def)
  have less: "priv_index P d cid < 2 ^ LENGTH(32)"
  proof -
    have "unat (clients_num d) < 2 ^ LENGTH(32)" by (rule unsigned_less)
    with priv_index_less [OF assms] show ?thesis by linarith
  qed
  have su: "unat (?s + ?off) = unat ?s + ext_offset P cid"
    using less False by (subst unat_add_lem [THEN iffD1]) (simp_all add: priv_index_def ext_offset_def)
  have "unat (?s + ?off) + (\<Sum>t<ext_type P cid. unat (?n t)) < 2 ^ LENGTH(32)"
    using less False by (simp add: su priv_index_def subclients_def)
  from foldl_add_sum [OF this, of ?a] have f: "unat (foldl (\<lambda>n i. n + ct_clients_num (hw_fence_client_types d ! i))
      (?s + ?off) [?a..<?a + ext_type P cid]) = priv_index P d cid"
    using False
    by (subst foldl_cong [OF refl refl, where g = "\<lambda>n i. n + ?n (i - ?a)"])
      (auto simp: su priv_index_def subclients_def)
  have "\<not> ?n (ext_type P cid) \<le> ?off"
    using off by (simp add: ext_offset_def subclients_def word_le_nat_alt)
  moreover have "?a + ext_type P cid < length (hw_fence_client_types d)"
    using t assms(1) by (simp add: clients_counted_def HW_FENCE_MAX_CLIENT_TYPE_def)
  ultimately show thesis
    using False f
    by (intro that) (simp_all add: hw_fence_utils_get_client_id_priv_def Let_def ext_type_def)
qed


lemma get_client_id_beyond:
  assumes c: "clients_counted P d" and no: "\<not> ext_client P d x" and t: "ext_type P x < HW_FENCE_MAX_CLIENT_TYPE_CONFIGURABLE"
  shows "hw_fence_utils_get_client_id_priv P d x = Some (client_id P CLIENT_MAX)"
proof -
  have s: "\<not> x < HW_FENCE_MAX_STATIC_CLIENTS_INDEX P" using no by (simp add: ext_client_def)
  have off: "\<not> ext_offset P x < subclients d (ext_type P x)" using no t by (simp add: ext_client_def)
  have len: "HW_FENCE_MAX_CLIENT_TYPE_STATIC + ext_type P x < length (hw_fence_client_types d)"
    using t c by (simp add: clients_counted_def HW_FENCE_MAX_CLIENT_TYPE_def)
  have "ct_clients_num (hw_fence_client_types d ! (HW_FENCE_MAX_CLIENT_TYPE_STATIC + ext_type P x)) \<le>
      (x - HW_FENCE_MAX_STATIC_CLIENTS_INDEX P) mod max_signal_per_client P"
    using off by (simp add: subclients_def ext_offset_def word_le_nat_alt not_less)
  with s len show ?thesis
    by (simp add: hw_fence_utils_get_client_id_priv_def Let_def ext_type_def)
qed

lemma priv_index_inject:
  assumes "clients_counted P d" and "ext_client P d x" and "ext_client P d y"
    and eq: "priv_index P d x = priv_index P d y"
  shows "x = y"
proof -
  let ?s = "HW_FENCE_MAX_STATIC_CLIENTS_INDEX P"
  have below: "priv_index P d z < unat ?s \<longleftrightarrow> z < ?s" for z
    by (auto simp: priv_index_def word_less_nat_alt)
  show ?thesis
  proof (cases "x < ?s")
    case True
    moreover have "y < ?s" using True eq below by metis
    ultimately show ?thesis using eq by (simp add: priv_index_def word_unat_eq_iff)
  next
    case False
    have ny: "\<not> y < ?s" using False eq below by metis
    have off: "ext_offset P z < subclients d (ext_type P z)" if "ext_client P d z" "\<not> z < ?s" for z
      using that by (simp add: ext_client_def)
    have sum: "ext_offset P x + (\<Sum>t<ext_type P x. subclients d t) = ext_offset P y + (\<Sum>t<ext_type P y. subclients d t)"
      using eq False ny by (simp add: priv_index_def)
    have "ext_type P x = ext_type P y"
    proof (rule linorder_cases [of "ext_type P x" "ext_type P y"])
      assume "ext_type P x < ext_type P y"
      from sum_lessThan_add [OF this, of "subclients d"] off [OF assms(2) False] sum
      show ?thesis by linarith
    next
      assume "ext_type P y < ext_type P x"
      from sum_lessThan_add [OF this, of "subclients d"] off [OF assms(3) ny] sum
      show ?thesis by linarith
    qed
    moreover from this sum have "ext_offset P x = ext_offset P y" by simp
    ultimately have "(x - ?s) div max_signal_per_client P = (y - ?s) div max_signal_per_client P"
        "(x - ?s) mod max_signal_per_client P = (y - ?s) mod max_signal_per_client P"
      by (simp_all add: ext_type_def ext_offset_def word_unat_eq_iff)
    then have "x - ?s = y - ?s" by (metis div_mult_mod_eq)
    then show ?thesis by simp
  qed
qed

section \<open>The layout\<close>

text \<open>
  What the driver relies on in the client ids of the kernel header: the static types come in the order
  of the type table and do not overlap, and the ids of each configurable type are a block of the same
  size, all after the static ones.
\<close>

definition platform_ok :: "platform \<Rightarrow> bool" where
  "platform_ok P \<longleftrightarrow>
     32 \<le> unat (max_signal_per_client P) \<and>
     unat (client_id P CTX0) + 1 \<le> unat (client_id P CTL0) \<and>
     unat (client_id P CTL0) + 6 \<le> unat (client_id P VAL0) \<and>
     unat (client_id P VAL0) + 7 \<le> unat (client_id P IPE) \<and>
     unat (client_id P IPE) + 1 \<le> unat (client_id P VPU) \<and>
     unat (client_id P VPU) + 1 \<le> unat (client_id P IFE0) \<and>
     unat (client_id P IFE0) + 8 * unat (max_signal_per_client P) < 2 ^ 32 \<and>
     (\<forall>t<8. unat (client_id P ([IFE0, IFE1, IFE2, IFE3, IFE4, IFE5, IFE6, IFE7] ! t)) =
        unat (client_id P IFE0) + t * unat (max_signal_per_client P))"

definition type_init :: "platform \<Rightarrow> nat \<Rightarrow> nat" where
  "type_init P i = unat (ct_init_id (initial_client_types P ! i))"

definition type_max :: "platform \<Rightarrow> nat \<Rightarrow> nat" where
  "type_max P i = unat (ct_max_clients_num (initial_client_types P ! i))"

text \<open>A type table that the parser may leave.\<close>

definition types_ok :: "platform \<Rightarrow> hw_fence_client_type_desc list \<Rightarrow> bool" where
  "types_ok P types \<longleftrightarrow> length types = HW_FENCE_MAX_CLIENT_TYPE \<and>
     (\<forall>i<HW_FENCE_MAX_CLIENT_TYPE. ct_init_id (types ! i) = ct_init_id (initial_client_types P ! i) \<and>
        unat (ct_clients_num (types ! i)) \<le> type_max P i)"

lemma type_count [simp]: "HW_FENCE_MAX_CLIENT_TYPE = 13" "HW_FENCE_MAX_CLIENT_TYPE_STATIC = 5"
    "HW_FENCE_MAX_CLIENT_TYPE_CONFIGURABLE = 8"
  by (simp_all add: HW_FENCE_MAX_CLIENT_TYPE_def HW_FENCE_MAX_CLIENT_TYPE_STATIC_def
      HW_FENCE_MAX_CLIENT_TYPE_CONFIGURABLE_def)

lemma length_initial_types [simp]: "length (initial_client_types P) = 13"
  by (simp add: initial_client_types_def)

lemma indv_keeps:
  assumes "parse_client_queue_dt_props_indv P d desc prop = (desc', ret)"
  shows "ct_init_id desc' = ct_init_id desc" and "ct_max_clients_num desc' = ct_max_clients_num desc"
    and "ret = 0 \<Longrightarrow> ct_clients_num desc' \<le> ct_max_clients_num desc'"
  using assms
  by (auto simp: parse_client_queue_dt_props_indv_def Let_def not_less split: option.splits prod.splits if_splits)

lemma parse_types_result:
  assumes "parse_types P d props is types rxq conf = Some (types', rxq', conf', 0)" and "distinct is"
  shows "length types' = length types \<and>
    (\<forall>i. ct_init_id (types' ! i) = ct_init_id (types ! i) \<and>
       ct_max_clients_num (types' ! i) = ct_max_clients_num (types ! i)) \<and>
    (\<forall>i\<in>set is. i < length types \<and> ct_clients_num (types' ! i) \<le> ct_max_clients_num (types ! i)) \<and>
    (\<forall>i. i \<notin> set is \<longrightarrow> types' ! i = types ! i) \<and>
    conf' = conf + (\<Sum>i\<leftarrow>filter (\<lambda>i. HW_FENCE_MAX_CLIENT_TYPE_STATIC \<le> i) is. ct_clients_num (types' ! i))"
  using assms
proof (induction "is" arbitrary: types rxq conf)
  case Nil
  then show ?case by simp
next
  case (Cons i "is")
  obtain desc ret where indv: "parse_client_queue_dt_props_indv P d (types ! i) (props i) = (desc, ret)"
    by (cases "parse_client_queue_dt_props_indv P d (types ! i) (props i)")
  from Cons.prems(1) have i: "i < length types"
    by (cases "i < length types") simp_all
  from Cons.prems(1) indv i have ret: "ret = 0"
    by (auto simp: Let_def split: if_splits)
  obtain rxq1 conf1 where rest: "parse_types P d props is (types[i := desc]) rxq1 conf1
      = Some (types', rxq', conf', 0)"
    and conf1: "conf1 = (if HW_FENCE_MAX_CLIENT_TYPE_STATIC \<le> i then conf + ct_clients_num desc else conf)"
    using Cons.prems(1) indv i ret by (simp add: Let_def)
  have IH: "length types' = length types \<and>
    (\<forall>k. ct_init_id (types' ! k) = ct_init_id (types[i := desc] ! k) \<and>
       ct_max_clients_num (types' ! k) = ct_max_clients_num (types[i := desc] ! k)) \<and>
    (\<forall>k\<in>set is. k < length types \<and> ct_clients_num (types' ! k) \<le> ct_max_clients_num (types[i := desc] ! k)) \<and>
    (\<forall>k. k \<notin> set is \<longrightarrow> types' ! k = types[i := desc] ! k) \<and>
    conf' = conf1 + (\<Sum>k\<leftarrow>filter (\<lambda>i. HW_FENCE_MAX_CLIENT_TYPE_STATIC \<le> i) is. ct_clients_num (types' ! k))"
    using Cons.IH [OF rest] Cons.prems(2) by (simp only: length_list_update distinct.simps) blast
  have keep: "ct_init_id (types[i := desc] ! k) = ct_init_id (types ! k)"
      "ct_max_clients_num (types[i := desc] ! k) = ct_max_clients_num (types ! k)" for k
    using indv_keeps(1,2) [OF indv] i by (simp_all add: nth_list_update)
  have "types' ! i = desc"
    using IH Cons.prems(2) i by simp
  moreover have "ct_clients_num desc \<le> ct_max_clients_num (types ! i)"
    using indv_keeps(2,3) [OF indv] ret by simp
  ultimately show ?case
    using IH i keep conf1 by (simp add: add.assoc)
qed

text \<open>Each type of the loop was read and accepted.\<close>

lemma parse_types_each:
  assumes "parse_types P d props is types rxq conf = Some (types', rxq', conf', 0)" and "distinct is" and "i \<in> set is"
  shows "\<exists>desc. parse_client_queue_dt_props_indv P d desc (props i) = (types' ! i, 0)"
  using assms
proof (induction "is" arbitrary: types rxq conf)
  case Nil
  then show ?case by simp
next
  case (Cons k "is")
  obtain desc ret where indv: "parse_client_queue_dt_props_indv P d (types ! k) (props k) = (desc, ret)"
    by (cases "parse_client_queue_dt_props_indv P d (types ! k) (props k)")
  from Cons.prems(1) have k: "k < length types"
    by (cases "k < length types") simp_all
  from Cons.prems(1) indv k have ret: "ret = 0"
    by (auto simp: Let_def split: if_splits)
  obtain rxq1 conf1 where rest: "parse_types P d props is (types[k := desc]) rxq1 conf1 = Some (types', rxq', conf', 0)"
    using Cons.prems(1) indv k ret by (simp add: Let_def)
  have "types' ! k = desc"
    using parse_types_result [OF rest] Cons.prems(2) k by simp
  then show ?case
    using Cons.IH [OF rest] Cons.prems(2,3) indv ret by auto
qed

lemma parse_types_ok:
  assumes "parse_types P d props [0..<HW_FENCE_MAX_CLIENT_TYPE] (initial_client_types P) rxq 0
      = Some (types, rxq', conf, 0)"
  shows "types_ok P types"
    and "conf = (\<Sum>t\<leftarrow>[0..<HW_FENCE_MAX_CLIENT_TYPE_CONFIGURABLE]. ct_clients_num (types ! (HW_FENCE_MAX_CLIENT_TYPE_STATIC + t)))"
proof -
  note r = parse_types_result [OF assms distinct_upt]
  then have "ct_clients_num (types ! i) \<le> ct_max_clients_num (initial_client_types P ! i)"
      if "i < HW_FENCE_MAX_CLIENT_TYPE" for i
    using that by auto
  then show "types_ok P types"
    using r by (simp add: types_ok_def type_max_def word_le_nat_alt)
  have "filter (\<lambda>i. HW_FENCE_MAX_CLIENT_TYPE_STATIC \<le> i) [0..<HW_FENCE_MAX_CLIENT_TYPE]
      = map ((+) HW_FENCE_MAX_CLIENT_TYPE_STATIC) [0..<HW_FENCE_MAX_CLIENT_TYPE_CONFIGURABLE]"
    by (simp add: upt_conv_Cons)
  with r show "conf = (\<Sum>t\<leftarrow>[0..<HW_FENCE_MAX_CLIENT_TYPE_CONFIGURABLE]. ct_clients_num (types ! (HW_FENCE_MAX_CLIENT_TYPE_STATIC + t)))"
    by (simp add: comp_def)
qed

lemma below_8: "(t :: nat) < 8 \<Longrightarrow> t \<in> {0, 1, 2, 3, 4, 5, 6, 7}"
  by auto

lemma type_max_table:
  "type_max P 0 = 1" "type_max P (Suc 0) = 6" "type_max P 2 = 7" "type_max P 3 = 1" "type_max P 4 = 1"
  by (simp_all add: type_max_def initial_client_types_def client_type_def)

lemma type_max_ife: "t < 8 \<Longrightarrow> type_max P (5 + t) = 32"
  by (drule below_8) (auto simp: type_max_def initial_client_types_def client_type_def)

lemma sum_below:
  fixes f :: "nat \<Rightarrow> 'a::len word"
  assumes "(\<Sum>t<k. unat (f t)) < 2 ^ LENGTH('a)"
  shows "unat (\<Sum>t\<leftarrow>[0..<k]. f t) = (\<Sum>t<k. unat (f t))"
  using assms
proof (induction k)
  case 0
  then show ?case by simp
next
  case (Suc k)
  then have "unat (\<Sum>t\<leftarrow>[0..<k]. f t) = (\<Sum>t<k. unat (f t))" by simp
  with Suc.prems show ?case
    by (simp, subst unat_add_lem [THEN iffD1]) simp_all
qed

text \<open>After the first loop, the clients are counted.\<close>

lemma counted:
  assumes "platform_ok P" and "types_ok P types"
    and "hw_fence_client_types d = types"
    and "clients_num d = HW_FENCE_MAX_STATIC_CLIENTS_INDEX P +
      (\<Sum>t\<leftarrow>[0..<HW_FENCE_MAX_CLIENT_TYPE_CONFIGURABLE]. ct_clients_num (types ! (HW_FENCE_MAX_CLIENT_TYPE_STATIC + t)))"
  shows "clients_counted P d"
proof -
  let ?n = "\<lambda>t. ct_clients_num (types ! (HW_FENCE_MAX_CLIENT_TYPE_STATIC + t))"
  have le: "unat (?n t) \<le> 32" if "t < 8" for t
  proof -
    from that have "5 + t < 13" by simp
    with assms(2) have "unat (ct_clients_num (types ! (5 + t))) \<le> type_max P (5 + t)"
      unfolding types_ok_def type_count by blast
    with type_max_ife [OF that] show ?thesis by simp
  qed
  have "(\<Sum>t<8. unat (?n t)) \<le> (\<Sum>t<(8::nat). 32)"
    using le by (intro sum_mono) simp
  then have b: "(\<Sum>t<8. unat (?n t)) \<le> 256" by simp
  then have s: "unat (\<Sum>t\<leftarrow>[0..<8]. ?n t) = (\<Sum>t<8. unat (?n t))"
    by (intro sum_below) simp
  have "unat (client_id P IFE0) + 256 < 2 ^ LENGTH(32)"
    using assms(1) by (simp add: platform_ok_def)
  with b s have "unat (clients_num d) = unat (HW_FENCE_MAX_STATIC_CLIENTS_INDEX P) + (\<Sum>t<8. unat (?n t))"
    unfolding assms(4) HW_FENCE_MAX_STATIC_CLIENTS_INDEX_def type_count
    by (subst unat_add_lem [THEN iffD1]) simp_all
  then show ?thesis
    using assms(1-3) by (simp add: clients_counted_def types_ok_def platform_ok_def subclients_def word_less_nat_alt)
qed

lemma type_init_static:
  "type_init P 0 = unat (client_id P CTX0)" "type_init P (Suc 0) = unat (client_id P CTL0)"
  "type_init P 2 = unat (client_id P VAL0)" "type_init P 3 = unat (client_id P IPE)"
  "type_init P (Suc (Suc 0)) = unat (client_id P VAL0)"
  "type_init P 4 = unat (client_id P VPU)" "type_init P 5 = unat (client_id P IFE0)"
  by (simp_all add: type_init_def initial_client_types_def client_type_def)

lemma type_init_ife:
  assumes "platform_ok P" and "t < 8"
  shows "type_init P (5 + t) = unat (client_id P IFE0) + t * unat (max_signal_per_client P)"
proof -
  have "type_init P (5 + t) = unat (client_id P ([IFE0, IFE1, IFE2, IFE3, IFE4, IFE5, IFE6, IFE7] ! t))"
    using below_8 [OF assms(2)] by (auto simp: type_init_def initial_client_types_def client_type_def)
  with assms show ?thesis by (simp add: platform_ok_def)
qed

lemma type_init_step:
  assumes P: "platform_ok P" and i: "i < 12"
  shows "type_init P i + type_max P i \<le> type_init P (Suc i)"
proof (cases "i < 5")
  case True
  then have "i \<in> {0, 1, 2, 3, 4}" by auto
  with P show ?thesis
    by (auto simp: platform_ok_def type_init_static type_max_table)
next
  case False
  then obtain t where t: "i = 5 + t" by (metis le_iff_add not_less)
  with i have "t < 8" "Suc t < 8" by simp_all
  then have "type_init P (5 + t) = unat (client_id P IFE0) + t * unat (max_signal_per_client P)"
    "type_init P (5 + Suc t) = unat (client_id P IFE0) + Suc t * unat (max_signal_per_client P)"
    "type_max P (5 + t) = 32"
    using type_init_ife [OF P] type_max_ife by metis+
  with P t show ?thesis by (simp add: platform_ok_def)
qed

lemma type_init_mono:
  assumes P: "platform_ok P" and "i < i'" and "i' < 13"
  shows "type_init P i + type_max P i \<le> type_init P i'"
  using assms(2,3)
proof (induction i' rule: less_Suc_induct)
  case (1 i)
  then show ?case by (intro type_init_step [OF P]) simp
next
  case (2 i j k)
  then show ?case by simp
qed

lemma type_top:
  assumes P: "platform_ok P" and "i < 13"
  shows "type_init P i + type_max P i < 2 ^ 32"
proof -
  have "type_init P i + type_max P i \<le> type_init P 12 + type_max P 12"
    using type_init_mono [OF P, of i 12] assms(2) by (cases "i = 12") simp_all
  also have "type_init P (5 + 7) = unat (client_id P IFE0) + 7 * unat (max_signal_per_client P)"
    by (rule type_init_ife [OF P]) simp
  then have "type_init P 12 + type_max P 12 \<le> unat (client_id P IFE0) + 8 * unat (max_signal_per_client P)"
    using type_max_ife [of 7 P] P by (simp add: platform_ok_def)
  also have "\<dots> < 2 ^ 32" using P by (simp add: platform_ok_def)
  finally show ?thesis .
qed

text \<open>The sub-clients in the order of the loops, and their external ids.\<close>

definition steps :: "hw_fence_client_type_desc list \<Rightarrow> (nat \<times> nat) list" where
  "steps types = concat (map (\<lambda>i. map (Pair i) [0..<unat (ct_clients_num (types ! i))]) [0..<HW_FENCE_MAX_CLIENT_TYPE])"

fun ext_id :: "platform \<Rightarrow> nat \<times> nat \<Rightarrow> u32" where
  "ext_id P (i, j) = ct_init_id (initial_client_types P ! i) + of_nat j"

declare ext_id.simps [simp del]

lemma set_steps: "(i, j) \<in> set (steps types) \<longleftrightarrow> i < HW_FENCE_MAX_CLIENT_TYPE \<and> j < unat (ct_clients_num (types ! i))"
  by (auto simp: steps_def image_iff)

lemma distinct_pairs:
  "distinct is \<Longrightarrow> distinct (concat (map (\<lambda>i. map (Pair i) [0..<f i]) is))"
  by (induction "is") (auto simp: distinct_map inj_on_def)

lemma distinct_steps: "distinct (steps types)"
  unfolding steps_def by (rule distinct_pairs) simp

lemma unat_ext_id:
  assumes "platform_ok P" and "i < 13" and "j < type_max P i"
  shows "unat (ext_id P (i, j)) = type_init P i + j"
proof -
  have less: "type_init P i + j < 2 ^ LENGTH(32)"
    using type_top [OF assms(1,2)] assms(3) by simp
  then have "unat (of_nat j :: u32) = j" by (simp add: unat_of_nat)
  with less show ?thesis
    by (simp add: type_init_def ext_id.simps, subst unat_add_lem [THEN iffD1]) simp_all
qed

lemma ext_id_inject:
  assumes "platform_ok P" and x: "i < 13" "j < type_max P i" and y: "i' < 13" "j' < type_max P i'"
    and eq: "ext_id P (i, j) = ext_id P (i', j')"
  shows "i = i' \<and> j = j'"
proof -
  have "type_init P i + j = type_init P i' + j'"
    using unat_ext_id [OF assms(1)] x y eq by metis
  with type_init_mono [OF assms(1), of i i'] type_init_mono [OF assms(1), of i' i] x y
  show ?thesis by (cases i i' rule: linorder_cases) auto
qed

lemma ext_id_parts:
  assumes P: "platform_ok P" and t: "t < 8" and j: "j < 32"
  shows "ext_type P (ext_id P (5 + t, j)) = t" and "ext_offset P (ext_id P (5 + t, j)) = j"
    and "\<not> ext_id P (5 + t, j) < HW_FENCE_MAX_STATIC_CLIENTS_INDEX P"
proof -
  let ?s = "HW_FENCE_MAX_STATIC_CLIENTS_INDEX P" and ?M = "max_signal_per_client P" and ?x = "ext_id P (5 + t, j)"
  have "unat ?x = type_init P (5 + t) + j"
    using t j type_max_ife [OF t] by (intro unat_ext_id [OF P]) simp_all
  moreover have s: "unat ?s = type_init P 5" by (simp add: HW_FENCE_MAX_STATIC_CLIENTS_INDEX_def type_init_static)
  ultimately have e: "unat ?x = unat ?s + t * unat ?M + j"
    using type_init_ife [OF P t] by (simp add: type_init_static)
  have jM: "j < unat ?M" using P j by (simp add: platform_ok_def)
  have le: "?s \<le> ?x" using e by (simp add: word_le_nat_alt)
  then have r: "unat (?x - ?s) = t * unat ?M + j"
    by (simp add: unat_sub e)
  show "ext_type P ?x = t" "ext_offset P ?x = j"
    using jM unfolding ext_type_def ext_offset_def unat_div unat_mod r by simp_all
  show "\<not> ?x < ?s" using le by simp
qed

lemma ext_id_client:
  assumes P: "platform_ok P" and types: "types_ok P types" and d: "hw_fence_client_types d = types"
    and x: "(i, j) \<in> set (steps types)"
  shows "ext_client P d (ext_id P (i, j))"
proof -
  have i: "i < 13" and j: "j < unat (ct_clients_num (types ! i))"
    using x by (simp_all add: set_steps)
  then have max: "j < type_max P i" using types by (fastforce simp: types_ok_def)
  have u: "unat (ext_id P (i, j)) = type_init P i + j" by (rule unat_ext_id [OF P i max])
  have s: "unat (HW_FENCE_MAX_STATIC_CLIENTS_INDEX P) = type_init P 5"
    by (simp add: HW_FENCE_MAX_STATIC_CLIENTS_INDEX_def type_init_static)
  show ?thesis
  proof (cases "i < 5")
    case True
    with type_init_mono [OF P, of i 5] u s max show ?thesis
      by (simp add: ext_client_def word_less_nat_alt)
  next
    case False
    then obtain t where t: "i = 5 + t" by (metis le_iff_add not_less)
    with i have t8: "t < 8" by simp
    with max t type_max_ife have "j < 32" by metis
    then show ?thesis using ext_id_parts [OF P t8] t8 j d t by (simp add: ext_client_def subclients_def)
  qed
qed

lemma types_only:
  assumes "hw_fence_client_types d' = hw_fence_client_types d" and "clients_num d' = clients_num d"
  shows "clients_counted P d' = clients_counted P d" and "ext_client P d' x = ext_client P d x"
    and "priv_index P d' x = priv_index P d x" and "subclients d' = subclients d"
proof -
  show *: "subclients d' = subclients d" by (simp add: fun_eq_iff subclients_def assms(1))
  show "clients_counted P d' = clients_counted P d" and "ext_client P d' x = ext_client P d x"
    and "priv_index P d' x = priv_index P d x"
    by (simp_all add: clients_counted_def ext_client_def priv_index_def * assms)
qed

definition size_entry :: "hw_fence_client_type_desc list \<Rightarrow> nat \<times> nat \<Rightarrow> u32 \<Rightarrow> hw_fence_client_queue_size_desc" where
  "size_entry types x off = (let desc = types ! fst x in
     \<lparr>qs_queues_num = ct_queues_num desc, qs_queue_entries = ct_queue_entries desc,
      qs_mem_size = ct_mem_size desc, qs_start_offset = off,
      qs_skip_txq_wr_idx = ct_skip_txq_wr_idx desc\<rparr>)"

definition step_size :: "hw_fence_client_type_desc list \<Rightarrow> nat \<times> nat \<Rightarrow> u32" where
  "step_size types x = ct_mem_size (types ! fst x)"

definition step_index :: "platform \<Rightarrow> hwf \<Rightarrow> nat \<times> nat \<Rightarrow> nat" where
  "step_index P d x = priv_index P d (ext_id P x)"

text \<open>What the parser leaves: the counted clients, and one region after the other, in the order of the loops.\<close>

definition laid_out :: "platform \<Rightarrow> hwf \<Rightarrow> bool" where
  "laid_out P d \<longleftrightarrow> (let types = hw_fence_client_types d in
     types_ok P types \<and> clients_counted P d \<and>
     length (hw_fence_client_queue_size d) = unat (clients_num d) \<and>
     used_mem_size d = queues_start P d + (\<Sum>x\<leftarrow>steps types. step_size types x) \<and>
     (\<forall>k<length (steps types). hw_fence_client_queue_size d ! step_index P d (steps types ! k) =
        size_entry types (steps types ! k) (queues_start P d + (\<Sum>x\<leftarrow>take k (steps types). step_size types x))) \<and>
     (\<forall>n<unat (clients_num d). n \<notin> step_index P d ` set (steps types) \<longrightarrow>
        hw_fence_client_queue_size d ! n = zero_size_desc))"

lemma step_in_types:
  assumes "platform_ok P" and "types_ok P (hw_fence_client_types d)" and "x \<in> set (steps (hw_fence_client_types d))"
  shows "ext_client P d (ext_id P x)"
  using assms ext_id_client [OF assms(1,2) refl, of "fst x" "snd x"] by simp

lemma step_index_inject:
  assumes P: "platform_ok P" and types: "types_ok P (hw_fence_client_types d)" and c: "clients_counted P d"
  shows "inj_on (step_index P d) (set (steps (hw_fence_client_types d)))"
proof (rule inj_onI)
  fix x y
  assume x: "x \<in> set (steps (hw_fence_client_types d))" and y: "y \<in> set (steps (hw_fence_client_types d))"
    and "step_index P d x = step_index P d y"
  then have eq: "ext_id P x = ext_id P y"
    unfolding step_index_def
    by (intro priv_index_inject [OF c] step_in_types [OF P types])
  have max: "fst z < 13 \<and> snd z < type_max P (fst z)" if "z \<in> set (steps (hw_fence_client_types d))" for z
    using that types set_steps [of "fst z" "snd z"] by (fastforce simp: types_ok_def)
  show "x = y"
    using ext_id_inject [OF P, of "fst x" "snd x" "fst y" "snd y"] max [OF x] max [OF y] eq
    by (simp add: prod_eq_iff)
qed

lemma place_step:
  assumes P: "platform_ok P" and types: "types_ok P (hw_fence_client_types d)" and c: "clients_counted P d"
    and x: "x \<in> set (steps (hw_fence_client_types d))" and t: "length t = unat (clients_num d)"
  shows "(case x of (i, j) \<Rightarrow> place_client P d (hw_fence_client_types d ! i) j) (t, off) =
    Some (t[step_index P d x := size_entry (hw_fence_client_types d) x off],
      off + step_size (hw_fence_client_types d) x)"
proof -
  obtain i j where ij: "x = (i, j)" by (cases x)
  obtain p where p: "hw_fence_utils_get_client_id_priv P d (ext_id P x) = Some p"
      "unat p = priv_index P d (ext_id P x)"
    using c step_in_types [OF P types x] by (rule get_client_id_priv)
  have "priv_index P d (ext_id P x) < unat (clients_num d)"
    using c step_in_types [OF P types x] by (rule priv_index_less)
  moreover have "ct_init_id (hw_fence_client_types d ! i) + of_nat j = ext_id P x"
    using types x by (simp add: ij ext_id.simps types_ok_def set_steps)
  ultimately show ?thesis
    using p t by (simp add: ij place_client_def step_index_def size_entry_def step_size_def Let_def)
qed

lemma place_all:
  assumes P: "platform_ok P" and types: "types_ok P (hw_fence_client_types d)" and c: "clients_counted P d"
  obtains t off where "chain (place_type P d) [0..<HW_FENCE_MAX_CLIENT_TYPE]
      (replicate (unat (clients_num d)) zero_size_desc, queues_start P d) = Some (t, off)"
    "laid_out P (d\<lparr>hw_fence_client_queue_size := t, used_mem_size := off\<rparr>)"
proof -
  let ?types = "hw_fence_client_types d"
  let ?s = "(replicate (unat (clients_num d)) zero_size_desc, queues_start P d)"
  have len: "length ?types = HW_FENCE_MAX_CLIENT_TYPE" using types by (simp add: types_ok_def)
  have "chain (place_type P d) [0..<HW_FENCE_MAX_CLIENT_TYPE] ?s
      = chain (\<lambda>i. chain (place_client P d (?types ! i)) [0..<unat (ct_clients_num (?types ! i))]) [0..<HW_FENCE_MAX_CLIENT_TYPE] ?s"
    by (rule chain_cong) (simp add: place_type_def len)
  also have "\<dots> = chain (\<lambda>(i, j). place_client P d (?types ! i) j) (steps ?types) ?s"
    unfolding steps_def by (rule chain_nested)
  finally have eq: "chain (place_type P d) [0..<HW_FENCE_MAX_CLIENT_TYPE] ?s
      = chain (\<lambda>(i, j). place_client P d (?types ! i) j) (steps ?types) ?s" .
  have idx: "step_index P d x < unat (clients_num d)" if "x \<in> set (steps ?types)" for x
    unfolding step_index_def using c step_in_types [OF P types that] by (rule priv_index_less)
  have dist: "distinct (map (step_index P d) (steps ?types))"
    using step_index_inject [OF P types c] by (simp add: distinct_map distinct_steps)
  have "\<exists>t'. chain (\<lambda>(i, j). place_client P d (?types ! i) j) (steps ?types) ?s =
        Some (t', queues_start P d + (\<Sum>x\<leftarrow>steps ?types. step_size ?types x)) \<and>
      length t' = unat (clients_num d) \<and>
      (\<forall>k<length (steps ?types). t' ! step_index P d (steps ?types ! k) = size_entry ?types (steps ?types ! k)
         (queues_start P d + (\<Sum>x\<leftarrow>take k (steps ?types). step_size ?types x))) \<and>
      (\<forall>i. i \<notin> step_index P d ` set (steps ?types) \<longrightarrow> t' ! i = replicate (unat (clients_num d)) zero_size_desc ! i)"
    by (rule chain_place [OF _ dist]) (simp_all add: place_step [OF P types c] idx)
  then obtain t off where used: "chain (place_type P d) [0..<HW_FENCE_MAX_CLIENT_TYPE] ?s = Some (t, off)"
    and r: "off = queues_start P d + (\<Sum>x\<leftarrow>steps ?types. step_size ?types x)" "length t = unat (clients_num d)"
      "\<forall>k<length (steps ?types). t ! step_index P d (steps ?types ! k) = size_entry ?types (steps ?types ! k)
         (queues_start P d + (\<Sum>x\<leftarrow>take k (steps ?types). step_size ?types x))"
      "\<forall>i. i \<notin> step_index P d ` set (steps ?types) \<longrightarrow> t ! i = replicate (unat (clients_num d)) zero_size_desc ! i"
    unfolding eq by blast
  let ?e = "\<lambda>t' o'. d\<lparr>hw_fence_client_queue_size := t', used_mem_size := o'\<rparr>"
  have q: "queues_start P (?e t' o') = queues_start P d" for t' o' by (simp add: queues_start_def)
  have cc: "clients_counted P (?e t' o') = clients_counted P d" for t' o' by (rule types_only(1)) simp_all
  have "step_index P (?e t' o') x = step_index P d x" for x t' o'
    unfolding step_index_def by (rule types_only(3)) simp_all
  then have si': "step_index P (?e t' o') = step_index P d" for t' o' by (simp add: fun_eq_iff)
  have "laid_out P (?e t off)"
    unfolding laid_out_def Let_def
    using types c r by (simp add: q cc si')
  with used show thesis by (rule that)
qed

lemma parse_types_total:
  "\<forall>i\<in>set is. i < length types \<Longrightarrow> parse_types P d props is types rxq conf \<noteq> None"
proof (induction "is" arbitrary: types rxq conf)
  case Nil
  then show ?case by simp
next
  case (Cons i "is")
  then show ?case by (simp add: Let_def split: prod.split)
qed

lemma parse_client_queues:
  assumes P: "platform_ok P"
  obtains d' ret where "parse_client_queue_dt_props P alloc props d = Some (d', ret)"
    "ret = 0 \<Longrightarrow> laid_out P d'"
proof -
  let ?parse = "parse_types P d props [0..<HW_FENCE_MAX_CLIENT_TYPE] (initial_client_types P)
      (HW_FENCE_MIN_RXQ_CLIENTS P) 0"
  have "?parse \<noteq> None"
    by (rule parse_types_total) simp
  then obtain types rxq conf ret where parse: "?parse = Some (types, rxq, conf, ret)" by auto
  show thesis
  proof (cases "ret = 0 \<and> alloc")
    case False
    with parse show thesis
      by (cases "ret = 0") (simp_all add: parse_client_queue_dt_props_def that)
  next
    case True
    let ?d = "d\<lparr>rxq_clients_num := rxq, hw_fence_client_types := types,
        clients_num := HW_FENCE_MAX_STATIC_CLIENTS_INDEX P + conf\<rparr>"
    have ok: "types_ok P types" and conf: "conf = (\<Sum>t\<leftarrow>[0..<HW_FENCE_MAX_CLIENT_TYPE_CONFIGURABLE].
        ct_clients_num (types ! (HW_FENCE_MAX_CLIENT_TYPE_STATIC + t)))"
      using parse_types_ok [of P d props] parse True by blast+
    have counted: "clients_counted P ?d"
      by (rule counted [OF P ok]) (simp_all only: conf, simp_all)
    obtain t off where "chain (place_type P ?d) [0..<HW_FENCE_MAX_CLIENT_TYPE]
        (replicate (unat (clients_num ?d)) zero_size_desc, queues_start P ?d) = Some (t, off)"
      "laid_out P (?d\<lparr>hw_fence_client_queue_size := t, used_mem_size := off\<rparr>)"
      using P _ counted by (rule place_all) (simp add: ok)
    with parse True show thesis
      by (intro that [of "?d\<lparr>hw_fence_client_queue_size := t, used_mem_size := off\<rparr>" 0])
        (simp_all add: parse_client_queue_dt_props_def Let_def)
  qed
qed


section \<open>Disjoint regions\<close>

lemma align_above:
  fixes x m :: "'a::len word"
  assumes "unat x + unat m < 2 ^ LENGTH('a)"
  shows "unat x \<le> unat ((x + m) AND NOT m)"
proof -
  have y: "unat (x + m) = unat x + unat m"
    using assms by (simp add: unat_add_lem [THEN iffD1])
  have le: "unat ((x + m) AND m) \<le> unat m"
    using word_and_le1 by (simp add: word_le_nat_alt [symmetric])
  let ?y = "x + m"
  have "(?y AND m) AND (?y AND NOT m) = 0"
    by (rule bit_word_eqI) (simp add: bit_and_iff bit_not_iff)
  moreover have "(?y AND m) OR (?y AND NOT m) = ?y"
    by (rule bit_word_eqI) (simp add: bit_and_iff bit_or_iff bit_not_iff, blast)
  ultimately have "(?y AND m) + (?y AND NOT m) = ?y"
    by (simp only: disjunctive_add_eq_or)
  then have e: "(x + m) AND NOT m = (x + m) - ((x + m) AND m)" by (simp add: algebra_simps)
  have "(x + m) AND m \<le> x + m"
    using word_and_le2 by blast
  then have "unat ((x + m) AND NOT m) = unat (x + m) - unat ((x + m) AND m)"
    unfolding e by (rule unat_sub)
  with y le show ?thesis by simp
qed

lemma unat_sum_list:
  fixes f :: "'b \<Rightarrow> 'a::len word"
  assumes "unat a + (\<Sum>x\<leftarrow>xs. unat (f x)) < 2 ^ LENGTH('a)"
  shows "unat (a + (\<Sum>x\<leftarrow>xs. f x)) = unat a + (\<Sum>x\<leftarrow>xs. unat (f x))"
  using assms
proof (induction xs arbitrary: a)
  case Nil
  then show ?case by simp
next
  case (Cons x xs)
  then have u: "unat (a + f x) = unat a + unat (f x)"
    by (simp add: unat_add_lem [THEN iffD1])
  have "unat (a + f x + (\<Sum>x\<leftarrow>xs. f x)) = unat (a + f x) + (\<Sum>x\<leftarrow>xs. unat (f x))"
    using Cons.prems u by (intro Cons.IH) simp
  with u show ?case by (simp add: add.assoc)
qed

lemma sum_take_Suc:
  fixes f :: "'b \<Rightarrow> nat"
  assumes "k < l" and "l \<le> length xs"
  shows "(\<Sum>x\<leftarrow>take k xs. f x) + f (xs ! k) \<le> (\<Sum>x\<leftarrow>take l xs. f x)"
proof -
  obtain j where l: "l = Suc k + j"
    using assms(1) less_iff_Suc_add by auto
  have k: "k < length xs" using assms by simp
  have "take l xs = take (Suc k) xs @ take j (drop (Suc k) xs)"
    unfolding l by (rule take_add)
  then have e: "take l xs = (take k xs @ [xs ! k]) @ take j (drop (Suc k) xs)"
    using take_Suc_conv_app_nth [OF k] by simp
  show ?thesis unfolding e by simp
qed

text \<open>The bytes that the layout needs fit the 32-bit offsets of the driver.\<close>

definition fits :: "platform \<Rightarrow> hwf \<Rightarrow> bool" where
  "fits P d \<longleftrightarrow> 0 < page_size P \<and>
     unat (hw_fence_mem_ctrl_queues_size d) + 8 * unat (rxq_clients_num d) +
       unat (hw_fence_mem_fences_table_size d) + unat (page_size P) < 2 ^ 32 \<and>
     unat (queues_start P d) + (\<Sum>x\<leftarrow>steps (hw_fence_client_types d). unat (step_size (hw_fence_client_types d) x)) < 2 ^ 32"

definition span :: "hwf \<Rightarrow> hw_fence_mem_reserve \<Rightarrow> u32 \<Rightarrow> nat set" where
  "span d t cid = (case region d t cid of
       Some (start, sz, ret) \<Rightarrow> {unat start ..< unat start + unat sz}
     | None \<Rightarrow> {})"

lemma locks_size:
  "unat (HW_FENCE_MEM_LOCKS_SIZE n) = 8 * unat n"
proof -
  have "unat n < 2 ^ LENGTH(32)" by (rule unsigned_less)
  then have "unat (8 :: u64) * unat (ucast n :: u64) < 2 ^ LENGTH(64)" by simp
  then show ?thesis
    unfolding HW_FENCE_MEM_LOCKS_SIZE_def by (subst unat_mult_lem [THEN iffD1]) simp_all
qed

lemma unat_ucast_down: "unat (w :: u64) < 2 ^ 32 \<Longrightarrow> unat (ucast w :: u32) = unat w"
  by (simp add: unsigned_ucast_eq take_bit_nat_eq_self)

text \<open>The bytes of the control queues, the locks and the fence table.\<close>

definition fixed_bytes :: "hwf \<Rightarrow> nat" where
  "fixed_bytes d = unat (hw_fence_mem_ctrl_queues_size d) + 8 * unat (rxq_clients_num d) +
     unat (hw_fence_mem_fences_table_size d)"

lemma queues_start_range:
  assumes p: "0 < page_size P" and fit: "fixed_bytes d + unat (page_size P) < 2 ^ 32"
  shows "fixed_bytes d \<le> unat (queues_start P d)" and "unat (queues_start P d) < fixed_bytes d + unat (page_size P)"
proof -
  let ?c = "ucast (hw_fence_mem_ctrl_queues_size d) :: u64" and ?l = "HW_FENCE_MEM_LOCKS_SIZE (rxq_clients_num d)"
    and ?t = "ucast (hw_fence_mem_fences_table_size d) :: u64" and ?m = "page_size P - 1"
  have n: "fixed_bytes d = unat (hw_fence_mem_ctrl_queues_size d) + 8 * unat (rxq_clients_num d) +
      unat (hw_fence_mem_fences_table_size d)" by (rule fixed_bytes_def)
  have "unat (?c + ?l) = unat ?c + unat ?l"
    using fit n by (subst unat_add_lem [THEN iffD1]) (simp_all add: locks_size)
  then have s: "unat (?c + ?l + ?t) = fixed_bytes d"
    using fit n by (subst unat_add_lem [THEN iffD1]) (simp_all add: locks_size)
  have m: "unat ?m = unat (page_size P) - 1"
    using p by (simp add: unat_minus_one word_neq_0_conv)
  have above: "fixed_bytes d \<le> unat (PAGE_ALIGN P (?c + ?l + ?t))"
    unfolding PAGE_ALIGN_def s [symmetric] using fit m by (intro align_above) (simp add: s)
  have "unat (?c + ?l + ?t + ?m) = fixed_bytes d + (unat (page_size P) - 1)"
    using fit m s by (subst unat_add_lem [THEN iffD1]) simp_all
  moreover have "PAGE_ALIGN P (?c + ?l + ?t) \<le> ?c + ?l + ?t + ?m"
    unfolding PAGE_ALIGN_def by (rule word_and_le2)
  moreover have "0 < unat (page_size P)" using p by (simp add: unat_gt_0 word_neq_0_conv)
  ultimately have below: "unat (PAGE_ALIGN P (?c + ?l + ?t)) < fixed_bytes d + unat (page_size P)"
    by (simp add: word_le_nat_alt)
  then have "unat (queues_start P d) = unat (PAGE_ALIGN P (?c + ?l + ?t))"
    unfolding queues_start_def using fit by (intro unat_ucast_down) simp
  with above below show "fixed_bytes d \<le> unat (queues_start P d)" "unat (queues_start P d) < fixed_bytes d + unat (page_size P)"
    by simp_all
qed

lemma queues_start_above:
  assumes "fits P d"
  shows "unat (hw_fence_mem_ctrl_queues_size d) + 8 * unat (rxq_clients_num d) +
    unat (hw_fence_mem_fences_table_size d) \<le> unat (queues_start P d)"
  using queues_start_range(1) [of P d] assms by (simp add: fits_def fixed_bytes_def)

text \<open>With pages of \<open>2 ^ k\<close> bytes, aligned sizes are multiples of them, also after a conversion to 32 bits.\<close>

lemma low_bits_dvd:
  fixes w :: "'a::len word"
  assumes "\<forall>n<k. \<not> bit w n"
  shows "2 ^ k dvd unat w"
proof -
  have "take_bit k w = 0" using assms by (intro bit_word_eqI) (simp add: bit_take_bit_iff)
  then have "take_bit k (unat w) = 0" by (simp flip: unsigned_take_bit_eq)
  then show ?thesis by (simp add: take_bit_eq_0_iff)
qed

lemma page_align_dvd:
  assumes "page_size P = 2 ^ k"
  shows "2 ^ k dvd unat (ucast (PAGE_ALIGN P x) :: u32)"
proof -
  have "PAGE_ALIGN P x = (x + mask k) AND NOT (mask k)" by (simp add: PAGE_ALIGN_def assms mask_eq_exp_minus_1)
  then show ?thesis by (intro low_bits_dvd) (simp add: bit_ucast_iff bit_and_iff bit_not_iff bit_mask_iff)
qed

lemma dvd_sum_list: "\<forall>x\<in>set xs. c dvd f x \<Longrightarrow> c dvd (\<Sum>x\<leftarrow>xs. f x)" for c :: nat
  by (induction xs) simp_all

lemma indv_aligned:
  assumes "page_size P = 2 ^ k" and "parse_client_queue_dt_props_indv P d desc prop = (desc', 0)"
  shows "2 ^ k dvd unat (ct_mem_size desc')"
proof -
  have "\<exists>x. ct_mem_size desc' = ucast (PAGE_ALIGN P x)"
    using assms(2) by (auto simp: parse_client_queue_dt_props_indv_def Let_def split: option.splits prod.splits if_splits)
  with page_align_dvd [OF assms(1)] show ?thesis by auto
qed

lemma span_fixed:
  assumes "fits P d"
  shows "span d MEM_RESERVE_CTRL_QUEUE cid = {0 ..< unat (hw_fence_mem_ctrl_queues_size d)}"
    and "span d MEM_RESERVE_LOCKS_REGION cid = {unat (hw_fence_mem_ctrl_queues_size d) ..<
      unat (hw_fence_mem_ctrl_queues_size d) + 8 * unat (rxq_clients_num d)}"
    and "span d MEM_RESERVE_TABLE cid = {unat (hw_fence_mem_ctrl_queues_size d) + 8 * unat (rxq_clients_num d) ..<
      unat (hw_fence_mem_ctrl_queues_size d) + 8 * unat (rxq_clients_num d) +
      unat (hw_fence_mem_fences_table_size d)}"
proof -
  have fit: "unat (hw_fence_mem_ctrl_queues_size d) + 8 * unat (rxq_clients_num d) < 2 ^ 32"
    using assms by (simp add: fits_def)
  have l: "unat (ucast (HW_FENCE_MEM_LOCKS_SIZE (rxq_clients_num d)) :: u32) = 8 * unat (rxq_clients_num d)"
    using fit by (subst unat_ucast_down) (simp_all add: locks_size)
  have "unat (ucast (hw_fence_mem_ctrl_queues_size d) + HW_FENCE_MEM_LOCKS_SIZE (rxq_clients_num d))
      = unat (hw_fence_mem_ctrl_queues_size d) + 8 * unat (rxq_clients_num d)"
    using fit by (subst unat_add_lem [THEN iffD1]) (simp_all add: locks_size)
  then have t: "unat (ucast (ucast (hw_fence_mem_ctrl_queues_size d) + HW_FENCE_MEM_LOCKS_SIZE (rxq_clients_num d)) :: u32)
      = unat (hw_fence_mem_ctrl_queues_size d) + 8 * unat (rxq_clients_num d)"
    using fit by (subst unat_ucast_down) simp_all
  show "span d MEM_RESERVE_CTRL_QUEUE cid = {0 ..< unat (hw_fence_mem_ctrl_queues_size d)}"
    and "span d MEM_RESERVE_LOCKS_REGION cid = {unat (hw_fence_mem_ctrl_queues_size d) ..<
      unat (hw_fence_mem_ctrl_queues_size d) + 8 * unat (rxq_clients_num d)}"
    and "span d MEM_RESERVE_TABLE cid = {unat (hw_fence_mem_ctrl_queues_size d) + 8 * unat (rxq_clients_num d) ..<
      unat (hw_fence_mem_ctrl_queues_size d) + 8 * unat (rxq_clients_num d) +
      unat (hw_fence_mem_fences_table_size d)}"
    by (simp_all add: span_def region_def l t)
qed

text \<open>Where the region of step \<open>k\<close> starts.\<close>

definition step_start :: "platform \<Rightarrow> hwf \<Rightarrow> nat \<Rightarrow> nat" where
  "step_start P d k = unat (queues_start P d) +
     (\<Sum>x\<leftarrow>take k (steps (hw_fence_client_types d)). unat (step_size (hw_fence_client_types d) x))"

abbreviation step_bytes :: "hwf \<Rightarrow> nat \<Rightarrow> nat" where
  "step_bytes d k \<equiv> unat (step_size (hw_fence_client_types d) (steps (hw_fence_client_types d) ! k))"

lemma step_start_mono:
  "k < l \<Longrightarrow> l \<le> length (steps (hw_fence_client_types d)) \<Longrightarrow> step_start P d k + step_bytes d k \<le> step_start P d l"
  using sum_take_Suc [of k l "steps (hw_fence_client_types d)"
      "\<lambda>x. unat (step_size (hw_fence_client_types d) x)"]
  by (simp add: step_start_def)

lemma step_start_less:
  assumes "fits P d" and "k \<le> length (steps (hw_fence_client_types d))"
  shows "step_start P d k < 2 ^ LENGTH(32)"
    and "unat (queues_start P d + (\<Sum>x\<leftarrow>take k (steps (hw_fence_client_types d)). step_size (hw_fence_client_types d) x))
      = step_start P d k"
proof -
  let ?xs = "steps (hw_fence_client_types d)"
  have "(\<Sum>x\<leftarrow>?xs. unat (step_size (hw_fence_client_types d) x)) =
      (\<Sum>x\<leftarrow>take k ?xs. unat (step_size (hw_fence_client_types d) x)) +
      (\<Sum>x\<leftarrow>drop k ?xs. unat (step_size (hw_fence_client_types d) x))"
    by (metis append_take_drop_id map_append sum_list_append)
  then have "(\<Sum>x\<leftarrow>take k ?xs. unat (step_size (hw_fence_client_types d) x)) \<le>
      (\<Sum>x\<leftarrow>?xs. unat (step_size (hw_fence_client_types d) x))"
    by simp
  then show less: "step_start P d k < 2 ^ LENGTH(32)"
    using assms(1) by (simp add: fits_def step_start_def)
  then show "unat (queues_start P d + (\<Sum>x\<leftarrow>take k ?xs. step_size (hw_fence_client_types d) x)) = step_start P d k"
    unfolding step_start_def by (rule unat_sum_list)
qed

lemma span_client:
  assumes "laid_out P d" and "fits P d" and "unat cid < unat (clients_num d)"
  shows "span d MEM_RESERVE_CLIENT_QUEUE cid = {} \<or>
    (\<exists>k<length (steps (hw_fence_client_types d)). unat cid = step_index P d (steps (hw_fence_client_types d) ! k) \<and>
       span d MEM_RESERVE_CLIENT_QUEUE cid = {step_start P d k ..< step_start P d k + step_bytes d k})"
proof -
  let ?xs = "steps (hw_fence_client_types d)"
  have len: "length (hw_fence_client_queue_size d) = unat (clients_num d)"
    and used: "\<And>k. k < length ?xs \<Longrightarrow> hw_fence_client_queue_size d ! step_index P d (?xs ! k) =
        size_entry (hw_fence_client_types d) (?xs ! k)
          (queues_start P d + (\<Sum>x\<leftarrow>take k ?xs. step_size (hw_fence_client_types d) x))"
    and unused: "\<And>n. n < unat (clients_num d) \<Longrightarrow> n \<notin> step_index P d ` set ?xs \<Longrightarrow>
        hw_fence_client_queue_size d ! n = zero_size_desc"
    using assms(1) by (simp_all add: laid_out_def Let_def)
  show ?thesis
  proof (cases "unat cid \<in> step_index P d ` set ?xs")
    case False
    with assms(3) unused [of "unat cid"] len show ?thesis
      by (simp add: span_def region_def zero_size_desc_def)
  next
    case True
    then obtain k where k: "k < length ?xs" "unat cid = step_index P d (?xs ! k)"
      by (auto simp: in_set_conv_nth)
    have "span d MEM_RESERVE_CLIENT_QUEUE cid = {step_start P d k ..< step_start P d k + step_bytes d k}"
      using assms(3) len used [OF k(1)] k step_start_less(2) [OF assms(2), of k]
      by (simp add: span_def region_def size_entry_def step_size_def Let_def)
    with k show ?thesis by blast
  qed
qed

lemma step_start_0: "step_start P d 0 = unat (queues_start P d)"
  by (simp add: step_start_def)

lemma used_mem: "laid_out P d \<Longrightarrow> fits P d \<Longrightarrow> unat (used_mem_size d) = step_start P d (length (steps (hw_fence_client_types d)))"
  using step_start_less(2) [of P d "length (steps (hw_fence_client_types d))"]
  by (simp add: laid_out_def Let_def)

lemma span_client_bounds:
  assumes "laid_out P d" and "fits P d" and "unat cid < unat (clients_num d)"
  shows "span d MEM_RESERVE_CLIENT_QUEUE cid \<subseteq> {unat (queues_start P d) ..< unat (used_mem_size d)}"
proof (cases "span d MEM_RESERVE_CLIENT_QUEUE cid = {}")
  case False
  with span_client [OF assms] obtain k where k: "k < length (steps (hw_fence_client_types d))"
      "span d MEM_RESERVE_CLIENT_QUEUE cid = {step_start P d k ..< step_start P d k + step_bytes d k}"
    by blast
  have "step_start P d 0 \<le> step_start P d k"
    by (simp add: step_start_def)
  then have "unat (queues_start P d) \<le> step_start P d k"
    by (simp add: step_start_0)
  moreover have "step_start P d k + step_bytes d k \<le> unat (used_mem_size d)"
    using step_start_mono [OF k(1) order_refl, of P] used_mem [OF assms(1,2)] by simp
  ultimately show ?thesis unfolding k(2) by auto
qed simp

lemma span_clients_disjoint:
  assumes "laid_out P d" and "fits P d" and "unat x < unat (clients_num d)" and "unat y < unat (clients_num d)"
    and "x \<noteq> y"
  shows "span d MEM_RESERVE_CLIENT_QUEUE x \<inter> span d MEM_RESERVE_CLIENT_QUEUE y = {}"
proof (cases "span d MEM_RESERVE_CLIENT_QUEUE x = {} \<or> span d MEM_RESERVE_CLIENT_QUEUE y = {}")
  case False
  with span_client [OF assms(1,2)] assms(3,4) obtain k l where
    k: "k < length (steps (hw_fence_client_types d))" "unat x = step_index P d (steps (hw_fence_client_types d) ! k)"
      "span d MEM_RESERVE_CLIENT_QUEUE x = {step_start P d k ..< step_start P d k + step_bytes d k}"
    and l: "l < length (steps (hw_fence_client_types d))" "unat y = step_index P d (steps (hw_fence_client_types d) ! l)"
      "span d MEM_RESERVE_CLIENT_QUEUE y = {step_start P d l ..< step_start P d l + step_bytes d l}"
    by (metis (no_types, lifting))
  have "k \<noteq> l" using assms(5) k(2) l(2) by (auto simp: word_unat_eq_iff)
  then consider "k < l" | "l < k" by linarith
  then show ?thesis
  proof cases
    case 1
    from step_start_mono [OF 1, of d P] l(1) show ?thesis unfolding k(3) l(3) by auto
  next
    case 2
    from step_start_mono [OF 2, of d P] k(1) show ?thesis unfolding k(3) l(3) by auto
  qed
qed auto

section \<open>Properties\<close>

text \<open>C12. The regions of the carved-out memory do not overlap: if the total fits 32-bit offsets, the
  control queues, the locks, the fence table and the queues of every internal client are pairwise
  disjoint byte ranges, so no client can write the queues, locks or fences of another through its own
  region; and every region ends at or below \<open>used_mem_size\<close>, which the driver compares with the size of
  the memory.\<close>

theorem regions_disjoint:
  assumes "laid_out P d" and "fits P d"
    and "unat x < unat (clients_num d)" and "unat y < unat (clients_num d)"
    and "t \<noteq> t' \<or> t = MEM_RESERVE_CLIENT_QUEUE \<and> x \<noteq> y"
  shows "span d t x \<inter> span d t' y = {} \<and> span d t x \<subseteq> {..< unat (used_mem_size d)}"
proof
  have start: "unat (hw_fence_mem_ctrl_queues_size d) + 8 * unat (rxq_clients_num d) +
      unat (hw_fence_mem_fences_table_size d) \<le> unat (queues_start P d)"
    using assms(2) by (rule queues_start_above)
  have used: "unat (queues_start P d) \<le> unat (used_mem_size d)"
    unfolding used_mem [OF assms(1,2)] by (simp add: step_start_def)
  note clients = span_client_bounds [OF assms(1,2)]
  show "span d t x \<inter> span d t' y = {}"
    using assms(5) start clients [OF assms(3)] clients [OF assms(4)]
      span_clients_disjoint [OF assms(1,2,3,4)]
    by (cases t; cases t') (auto simp: span_fixed [OF assms(2)])
  show "span d t x \<subseteq> {..< unat (used_mem_size d)}"
    using start used clients [OF assms(3)]
    by (cases t) (auto simp: span_fixed [OF assms(2)])
qed


text \<open>A device tree with default client types and small tables.\<close>

definition layout_sample :: hwf where
  "layout_sample = zero_hwf\<lparr>hw_fence_queue_entries := 4, hw_fence_mem_ctrl_queues_size := 328,
     hw_fence_mem_fences_table_size := 640\<rparr>"

lemma layout_sample_parse:
  "map_option (\<lambda>(d, ret). (ret, clients_num d, queues_start sample_platform d,
       hw_fence_mem_ctrl_queues_size d, rxq_clients_num d, hw_fence_mem_fences_table_size d,
       map (step_size (hw_fence_client_types d)) (steps (hw_fence_client_types d))))
     (parse_client_queue_dt_props sample_platform True (\<lambda>_. None) layout_sample) =
   Some (0, 17, 4096, 328, 14, 640, replicate 14 4096)"
  by code_simp

lemma sample_ife:
  "t < 8 \<Longrightarrow> unat (sample_client_id ([IFE0, IFE1, IFE2, IFE3, IFE4, IFE5, IFE6, IFE7] ! t)) = 17 + t * 64"
  by (drule below_8) (elim insertE emptyE; simp)

lemma sample_platform_ok: "platform_ok sample_platform"
  unfolding platform_ok_def
  using sample_ife by simp

lemma layout_sample_state:
  obtains d where "parse_client_queue_dt_props sample_platform True (\<lambda>_. None) layout_sample = Some (d, 0)"
    "laid_out sample_platform d" "fits sample_platform d" "clients_num d = 17"
proof -
  obtain d ret where e: "parse_client_queue_dt_props sample_platform True (\<lambda>_. None) layout_sample = Some (d, ret)"
    and l: "ret = 0 \<Longrightarrow> laid_out sample_platform d"
    using parse_client_queues [OF sample_platform_ok, of True "\<lambda>_. None" layout_sample] by blast
  have v: "ret = 0" "clients_num d = 17" "queues_start sample_platform d = 4096"
      "hw_fence_mem_ctrl_queues_size d = 328" "rxq_clients_num d = 14" "hw_fence_mem_fences_table_size d = 640"
    and m: "map (step_size (hw_fence_client_types d)) (steps (hw_fence_client_types d)) = replicate 14 4096"
    using layout_sample_parse unfolding e by simp_all
  have "map (\<lambda>x. unat (step_size (hw_fence_client_types d) x)) (steps (hw_fence_client_types d))
      = map unat (map (step_size (hw_fence_client_types d)) (steps (hw_fence_client_types d)))"
    by simp
  then have "fits sample_platform d"
    unfolding m by (simp add: fits_def v sum_list_replicate)
  with e l v show thesis by (intro that) simp_all
qed

theorem regions_disjoint_witness:
  "\<exists>d. parse_client_queue_dt_props sample_platform True (\<lambda>_. None) layout_sample = Some (d, 0) \<and>
    span d MEM_RESERVE_CLIENT_QUEUE 3 \<inter> span d MEM_RESERVE_CLIENT_QUEUE 4 = {} \<and>
    span d MEM_RESERVE_CLIENT_QUEUE 3 \<inter> span d MEM_RESERVE_TABLE 0 = {}"
proof -
  obtain d where d: "parse_client_queue_dt_props sample_platform True (\<lambda>_. None) layout_sample = Some (d, 0)"
    "laid_out sample_platform d" "fits sample_platform d" "clients_num d = 17"
    by (rule layout_sample_state)
  from regions_disjoint [OF d(2,3), of 3 4 MEM_RESERVE_CLIENT_QUEUE MEM_RESERVE_CLIENT_QUEUE]
    regions_disjoint [OF d(2,3), of 3 0 MEM_RESERVE_CLIENT_QUEUE MEM_RESERVE_TABLE] d(1,4)
  show ?thesis by simp
qed

lemma find_section: "m < (\<Sum>t<n. f t) \<Longrightarrow> \<exists>t<n. (\<Sum>s<t. f s) \<le> m \<and> m < (\<Sum>s<t. f s) + f t" for f :: "nat \<Rightarrow> nat"
proof (induction n)
  case (Suc n)
  show ?case
  proof (cases "m < (\<Sum>t<n. f t)")
    case True
    with Suc.IH show ?thesis by (meson less_SucI)
  next
    case False
    with Suc.prems show ?thesis by (intro exI [of _ n]) simp
  qed
qed simp

text \<open>Every internal id is the one of a client in use.\<close>

lemma priv_index_onto:
  assumes P: "platform_ok P" and types: "types_ok P (hw_fence_client_types d)" and c: "clients_counted P d"
    and n: "n < unat (clients_num d)"
  obtains x where "ext_client P d x" "priv_index P d x = n"
proof (cases "n < unat (HW_FENCE_MAX_STATIC_CLIENTS_INDEX P)")
  case True
  have "unat (clients_num d) < 2 ^ LENGTH(32)" by (rule unsigned_less)
  with n have "unat (of_nat n :: u32) = n" by (simp add: unat_of_nat)
  with True show thesis by (intro that [of "of_nat n"]) (simp_all add: ext_client_def priv_index_def word_less_nat_alt)
next
  case False
  let ?s = "unat (HW_FENCE_MAX_STATIC_CLIENTS_INDEX P)"
  have "n - ?s < (\<Sum>t<8. subclients d t)" using False n c by (simp add: clients_counted_def)
  from find_section [OF this] obtain t where t: "t < 8" "(\<Sum>s<t. subclients d s) \<le> n - ?s"
    "n - ?s < (\<Sum>s<t. subclients d s) + subclients d t" by blast
  let ?j = "n - ?s - (\<Sum>s<t. subclients d s)"
  have j: "?j < subclients d t" using t(2,3) by simp
  have "5 + t < 13" using t(1) by simp
  with types have "subclients d t \<le> type_max P (5 + t)" by (simp add: types_ok_def subclients_def)
  with j type_max_ife [OF t(1)] have "?j < 32" by simp
  note x = ext_id_parts [OF P t(1) this]
  show thesis
    using x t(1,2) j False by (intro that [of "ext_id P (5 + t, ?j)"]) (simp_all add: ext_client_def priv_index_def)
qed

text \<open>C20. The internal client ids are the numbers below \<open>clients_num\<close>, each of one client: once the device tree was
  read, \<open>hw_fence_utils_get_client_id_priv\<close> is a bijection from the external ids in use (the static ids, and
  for each configurable type as many of its ids as the device tree gives it sub-clients) to the indices of the
  client tables; and an id of a configurable type beyond its number of sub-clients becomes \<open>HW_FENCE_CLIENT_MAX\<close>,
  which every caller refuses.\<close>

theorem client_ids_bijective:
  assumes P: "platform_ok P" and parse: "parse_client_queue_dt_props P alloc props d = Some (d', 0)"
  shows "bij_betw (\<lambda>x. the (hw_fence_utils_get_client_id_priv P d' x)) {x. ext_client P d' x} {p. p < clients_num d'} \<and>
    (\<forall>x. ext_client P d' x \<longrightarrow> hw_fence_utils_get_client_id_priv P d' x \<noteq> None) \<and>
    (\<forall>x. \<not> ext_client P d' x \<longrightarrow> ext_type P x < HW_FENCE_MAX_CLIENT_TYPE_CONFIGURABLE \<longrightarrow>
       hw_fence_utils_get_client_id_priv P d' x = Some (client_id P CLIENT_MAX))"
proof -
  let ?get = "hw_fence_utils_get_client_id_priv P d'"
  have lay: "laid_out P d'"
    by (rule parse_client_queues [OF P, of alloc props d]) (use parse in auto)
  then have types: "types_ok P (hw_fence_client_types d')" and c: "clients_counted P d'"
    by (simp_all add: laid_out_def Let_def)
  have get: "\<exists>p. ?get x = Some p \<and> unat p = priv_index P d' x \<and> p < clients_num d'" if "ext_client P d' x" for x
  proof -
    obtain p where "?get x = Some p" "unat p = priv_index P d' x" using c \<open>ext_client P d' x\<close> by (rule get_client_id_priv)
    with priv_index_less [OF c that] show ?thesis by (simp add: word_less_nat_alt)
  qed
  have "inj_on (\<lambda>x. the (?get x)) {x. ext_client P d' x}"
  proof (rule inj_onI)
    fix x y assume xy: "x \<in> {x. ext_client P d' x}" "y \<in> {x. ext_client P d' x}" "the (?get x) = the (?get y)"
    then have "priv_index P d' x = priv_index P d' y" using get [of x] get [of y] by auto
    with xy(1,2) show "x = y" using priv_index_inject [OF c] by blast
  qed
  moreover have "(\<lambda>x. the (?get x)) ` {x. ext_client P d' x} = {p. p < clients_num d'}"
  proof (intro equalityI subsetI)
    fix p assume "p \<in> (\<lambda>x. the (?get x)) ` {x. ext_client P d' x}"
    then show "p \<in> {p. p < clients_num d'}" using get by force
  next
    fix p assume "p \<in> {p. p < clients_num d'}"
    then have "unat p < unat (clients_num d')" by (simp add: word_less_nat_alt)
    then obtain x where x: "ext_client P d' x" "priv_index P d' x = unat p" by (rule priv_index_onto [OF P types c])
    with get [OF x(1)] have "the (?get x) = p" by (auto simp: word_unat_eq_iff)
    with x(1) show "p \<in> (\<lambda>x. the (?get x)) ` {x. ext_client P d' x}" by blast
  qed
  moreover have "?get x = Some (client_id P CLIENT_MAX)"
    if "\<not> ext_client P d' x" "ext_type P x < HW_FENCE_MAX_CLIENT_TYPE_CONFIGURABLE" for x
    using c that by (rule get_client_id_beyond)
  ultimately show ?thesis using get unfolding bij_betw_def by blast
qed

theorem client_ids_bijective_witness:
  "\<exists>d. parse_client_queue_dt_props sample_platform True (\<lambda>_. None) layout_sample = Some (d, 0) \<and>
    (\<exists>x. ext_client sample_platform d x \<and> the (hw_fence_utils_get_client_id_priv sample_platform d x) = 16) \<and>
    hw_fence_utils_get_client_id_priv sample_platform d 17 = Some 529"
proof -
  obtain d where d: "parse_client_queue_dt_props sample_platform True (\<lambda>_. None) layout_sample = Some (d, 0)"
    "clients_num d = 17" "laid_out sample_platform d"
    by (rule layout_sample_state)
  note ids = client_ids_bijective [OF sample_platform_ok d(1)]
  have "(16 :: u32) \<in> {p. p < clients_num d}" by (simp add: d(2))
  with ids obtain x where x: "ext_client sample_platform d x" "the (hw_fence_utils_get_client_id_priv sample_platform d x) = 16"
    by (metis (no_types, lifting) bij_betw_imp_surj_on imageE mem_Collect_eq)
  have t: "ext_type sample_platform 17 = 0"
    by (simp add: ext_type_def HW_FENCE_MAX_STATIC_CLIENTS_INDEX_def)
  have "unat (clients_num d) = 17 + (\<Sum>t<8. subclients d t)"
    using d(3) by (simp add: laid_out_def Let_def clients_counted_def HW_FENCE_MAX_STATIC_CLIENTS_INDEX_def)
  then have "subclients d 0 = 0" by (simp add: d(2))
  then have "\<not> ext_client sample_platform d 17" using t by (simp add: ext_client_def HW_FENCE_MAX_STATIC_CLIENTS_INDEX_def)
  with ids t have "hw_fence_utils_get_client_id_priv sample_platform d 17 = Some 529" by simp
  with d(1) x show ?thesis by blast
qed

text \<open>Setting up the fence table gives a table in order: after \<open>init_hw_fences_table\<close> succeeded for the
  size that the device-tree parser computed, the table is not NULL, has exactly the configured number of
  entries, all of them free and unlocked, and holds no fence.\<close>

lemma fence_table_ready:
  assumes "init_hw_fences_table d = Some (d', 0)" and "0 < hw_fence_table_entries d"
    and "ucast (hw_fence_table_entries d) < U32_MAX div sizeof_msm_hw_fence"
    and "hw_fence_mem_fences_table_size d = ucast (sizeof_msm_hw_fence * ucast (hw_fence_table_entries d))"
    and "hw_fences_tbl_va d' \<noteq> 0"
  shows "table_inv d' \<and> fence_map d' = Map.empty \<and> free_slots d' = unat (hw_fence_table_entries d) \<and>
    hw_fences_tbl_cnt d' = hw_fence_table_entries d"
proof -
  let ?n = "hw_fence_table_entries d"
  obtain phys ptr sz where res: "hw_fence_utils_reserve_mem d MEM_RESERVE_TABLE 0 = Some (0, phys, ptr, sz)"
    using assms(1) by (auto simp: init_hw_fences_table_def Option.bind_eq_Some_conv split: if_splits)
  then have sz: "sz = hw_fence_mem_fences_table_size d"
    by (auto simp: hw_fence_utils_reserve_mem_def region_def split: if_splits)
  have "unat ?n < 26843545"
    using assms(3) by (simp add: U32_MAX_def sizeof_msm_hw_fence_def word_less_nat_alt)
  then have "unat (sizeof_msm_hw_fence * ucast ?n) = 160 * unat ?n"
    unfolding sizeof_msm_hw_fence_def by (subst unat_mult_lem [THEN iffD1]) simp_all
  with \<open>unat ?n < 26843545\<close> have "unat sz = 160 * unat ?n"
    unfolding sz assms(4) by (subst unat_ucast_down) simp_all
  then have "unat (sz div ucast sizeof_msm_hw_fence) = unat ?n"
    by (simp add: unat_div sizeof_msm_hw_fence_def)
  then have cnt: "sz div ucast sizeof_msm_hw_fence = ?n" by (simp add: word_unat_eq_iff)
  have d': "d' = d\<lparr>hw_fences_tbl_va := ptr, hw_fences_tbl := replicate (unat ?n) zero_fence, hw_fences_tbl_cnt := ?n\<rparr>"
    using assms(1) by (simp add: init_hw_fences_table_def res cnt Let_def)
  show ?thesis
    using zeroed_table [of d'] assms(2,5) by (simp add: d')
qed

lemma fence_table_ready_example:
  "\<exists>d'. init_hw_fences_table (layout_sample\<lparr>hw_fence_table_entries := 4, io_mem_base := 0x10000, res_size := 0x10000\<rparr>)
      = Some (d', 0) \<and> table_inv d' \<and> free_slots d' = 4"
proof -
  let ?d = "layout_sample\<lparr>hw_fence_table_entries := 4, io_mem_base := 0x10000, res_size := 0x10000\<rparr>"
  obtain d' where d': "init_hw_fences_table ?d = Some (d', 0)" "hw_fences_tbl_va d' \<noteq> 0"
    by (simp add: init_hw_fences_table_def hw_fence_utils_reserve_mem_def region_def layout_sample_def
        zero_hwf_def HW_FENCE_MEM_LOCKS_SIZE_def Let_def)
  from fence_table_ready [OF d'(1) _ _ _ d'(2)] d'(1) show ?thesis
    by (simp add: layout_sample_def U32_MAX_def sizeof_msm_hw_fence_def)
qed


section \<open>Client queues after setup\<close>

lemma queue_words:
  assumes "unat e < 2 ^ 26"
  shows "HW_FENCE_CLIENT_QUEUE_PAYLOAD * e div 4 = ring_size (unat e)"
    and "unat (HW_FENCE_CLIENT_QUEUE_PAYLOAD * e) = 64 * unat e"
proof -
  show u: "unat (HW_FENCE_CLIENT_QUEUE_PAYLOAD * e) = 64 * unat e"
    unfolding HW_FENCE_CLIENT_QUEUE_PAYLOAD_def using assms by (subst unat_mult_lem [THEN iffD1]) simp_all
  show "HW_FENCE_CLIENT_QUEUE_PAYLOAD * e div 4 = ring_size (unat e)"
    by (simp add: word_unat_eq_iff unat_div u unat_ring_size [OF assms])
qed

lemma empty_ring:
  assumes "0 < n" and "n < 2 ^ 26"
  shows "ring_ok n (0, 0, replicate (16 * n) 0)" and "ring_items n (0, 0, replicate (16 * n) 0) = []"
  using assms by (simp_all add: ring_ok_def ring_items.simps ring_count.simps)

lemma nth_two: "i < 2 \<Longrightarrow> i = 0 \<or> i = Suc 0"
  by auto

text \<open>The header of queue \<open>i\<close> and its words, for a region at \<open>ptr\<close>.\<close>

definition header_at :: "platform \<Rightarrow> u64 \<Rightarrow> nat \<Rightarrow> u64" where
  "header_at P ptr i = ptr + sizeof_hfi_table_header P + of_nat i * sizeof_hfi_queue_header P"

definition words_at :: "platform \<Rightarrow> u64 \<Rightarrow> u32 \<Rightarrow> u32 \<Rightarrow> nat \<Rightarrow> u64" where
  "words_at P ptr queues_num entries i = ptr + ucast ((ucast (HW_FENCE_HFI_CLIENT_HEADERS_SIZE P queues_num) :: u32) +
     of_nat i * (HW_FENCE_CLIENT_QUEUE_PAYLOAD * entries))"

lemma words_at_distinct:
  assumes "0 < unat e" and "unat e < 2 ^ 26"
  shows "words_at P ptr qn e 0 \<noteq> words_at P ptr qn e (Suc 0)"
proof
  assume "words_at P ptr qn e 0 = words_at P ptr qn e (Suc 0)"
  then have "(ucast (ucast (HW_FENCE_HFI_CLIENT_HEADERS_SIZE P qn) :: u32) :: u64) =
      ucast ((ucast (HW_FENCE_HFI_CLIENT_HEADERS_SIZE P qn) :: u32) + HW_FENCE_CLIENT_QUEUE_PAYLOAD * e)"
    by (simp add: words_at_def)
  then have "unat (ucast (ucast (HW_FENCE_HFI_CLIENT_HEADERS_SIZE P qn) :: u32) :: u64) =
      unat (ucast ((ucast (HW_FENCE_HFI_CLIENT_HEADERS_SIZE P qn) :: u32) + HW_FENCE_CLIENT_QUEUE_PAYLOAD * e) :: u64)"
    by simp
  then have "HW_FENCE_CLIENT_QUEUE_PAYLOAD * e = 0"
    unfolding unat_ucast_up by (simp add: word_unat_eq_iff [symmetric])
  then have "64 * unat e = 0" using queue_words(2) [OF assms(2)] by simp
  with assms(1) show False by simp
qed

text \<open>
  The ring that setting up a queue of \<open>n\<close> payloads finds at a header and a place for the words: the
  indices as the header has them, and the words, zero if the place was not used since it was cleared.
\<close>

definition found_ring :: "bool \<Rightarrow> hwf \<Rightarrow> u64 \<Rightarrow> u64 \<Rightarrow> nat \<Rightarrow> ring" where
  "found_ring wm d hdr words n = (qh_read_index (hfi_hdrs d hdr),
     if wm then qh_tx_wm (hfi_hdrs d hdr) else qh_write_index (hfi_hdrs d hdr),
     if q_words d words = [] then replicate (16 * n) 0 else q_words d words)"

text \<open>Nothing changes but headers at addresses in \<open>H\<close> and words at addresses in \<open>W\<close>.\<close>

definition outside :: "u64 set \<Rightarrow> u64 set \<Rightarrow> hwf \<Rightarrow> hwf \<Rightarrow> bool" where
  "outside H W d d' \<longleftrightarrow> (\<forall>a. a \<notin> H \<longrightarrow> hfi_hdrs d' a = hfi_hdrs d a) \<and> (\<forall>a. a \<notin> W \<longrightarrow> q_words d' a = q_words d a) \<and>
     d' = d\<lparr>hfi_hdrs := hfi_hdrs d', q_words := q_words d'\<rparr>"

lemma outside_refl [simp]: "outside H W d d"
  by (simp add: outside_def)

lemma outside_trans:
  assumes "outside H W d d'" and "outside H' W' d' d''"
  shows "outside (H \<union> H') (W \<union> W') d d''"
proof -
  obtain h w where d': "d' = d\<lparr>hfi_hdrs := h, q_words := w\<rparr>" using assms(1) by (auto simp: outside_def)
  obtain h' w' where d'': "d'' = d'\<lparr>hfi_hdrs := h', q_words := w'\<rparr>" using assms(2) by (auto simp: outside_def)
  show ?thesis using assms by (simp add: outside_def d' d'')
qed

lemma found_ring_outside:
  "outside H W d d' \<Longrightarrow> hdr \<notin> H \<Longrightarrow> words \<notin> W \<Longrightarrow> found_ring wm d' hdr words n = found_ring wm d hdr words n"
  by (simp add: outside_def found_ring_def)

lemma queue_ring_outside:
  "outside H W d d' \<Longrightarrow> qd_va_header queue \<notin> H \<Longrightarrow> qd_va_queue queue \<notin> W \<Longrightarrow> queue_ring wm d' queue = queue_ring wm d queue"
  by (simp add: outside_def queue_ring_def)

text \<open>One pass of the loop.\<close>

lemma init_queue_ring:
  assumes "0 < unat e" and "unat e < 2 ^ 26" and "i < length qs"
  obtains d' qs' where "init_queue P phys ptr (ucast (HW_FENCE_HFI_CLIENT_HEADERS_SIZE P qn))
       (HW_FENCE_CLIENT_QUEUE_PAYLOAD * e) HW_FENCE_CLIENT_QUEUE_PAYLOAD i (d, qs) = Some (d', qs')"
    "length qs' = length qs" "\<forall>j. j \<noteq> i \<longrightarrow> qs' ! j = qs ! j"
    "qd_va_header (qs' ! i) = header_at P ptr i" "qd_va_queue (qs' ! i) = words_at P ptr qn e i"
    "q_size_u32 (qs' ! i) = ring_size (unat e)"
    "\<forall>wm. queue_ring wm d' (qs' ! i) = found_ring wm d (header_at P ptr i) (words_at P ptr qn e i) (unat e)"
    "outside {header_at P ptr i} {words_at P ptr qn e i} d d'"
proof -
  note w = queue_words [OF assms(2)]
  let ?f = "init_queue P phys ptr (ucast (HW_FENCE_HFI_CLIENT_HEADERS_SIZE P qn))
       (HW_FENCE_CLIENT_QUEUE_PAYLOAD * e) HW_FENCE_CLIENT_QUEUE_PAYLOAD"
  let ?a = "words_at P ptr qn e i"
  obtain d' qs' where f: "?f i (d, qs) = Some (d', qs')"
    using assms(3) by (simp add: init_queue_def Let_def)
  show thesis
  proof (rule that [OF f])
    show "length qs' = length qs" "\<forall>j. j \<noteq> i \<longrightarrow> qs' ! j = qs ! j"
      "qd_va_header (qs' ! i) = header_at P ptr i" "qd_va_queue (qs' ! i) = ?a"
      "q_size_u32 (qs' ! i) = ring_size (unat e)"
      using f assms(3) by (auto simp: init_queue_def Let_def header_at_def words_at_def q_size_u32_def w(1))
    show "\<forall>wm. queue_ring wm d' (qs' ! i) = found_ring wm d (header_at P ptr i) ?a (unat e)"
      using f assms(3)
      by (auto simp: init_queue_def claim_words_def Let_def header_at_def words_at_def queue_ring_def found_ring_def
          w(1) unat_ring_size [OF assms(2)])
    show "outside {header_at P ptr i} {?a} d d'"
      using f assms(3)
      by (auto simp: init_queue_def claim_words_def Let_def header_at_def words_at_def outside_def split: if_splits)
  qed
qed

text \<open>The loop for one and for two queues: each queue gets the ring that was found, and nothing outside
  their headers and words changes.\<close>

lemma init_queues_rings:
  assumes "unat qn \<in> {1, 2}" and "length queues = 2" and "0 < unat e" and "unat e < 2 ^ 26"
    and "sizeof_hfi_queue_header P \<noteq> 0"
  shows "\<exists>d' queues'. chain (init_queue P phys ptr (ucast (HW_FENCE_HFI_CLIENT_HEADERS_SIZE P qn))
       (HW_FENCE_CLIENT_QUEUE_PAYLOAD * e) HW_FENCE_CLIENT_QUEUE_PAYLOAD) [0..<unat qn] (d, queues) = Some (d', queues') \<and>
    length queues' = 2 \<and>
    (\<forall>i<unat qn. qd_va_header (queues' ! i) = header_at P ptr i \<and> qd_va_queue (queues' ! i) = words_at P ptr qn e i \<and>
       q_size_u32 (queues' ! i) = ring_size (unat e) \<and>
       (\<forall>wm. queue_ring wm d' (queues' ! i) = found_ring wm d (header_at P ptr i) (words_at P ptr qn e i) (unat e))) \<and>
    outside (header_at P ptr ` {..<unat qn}) (words_at P ptr qn e ` {..<unat qn}) d d'"
proof -
  let ?f = "init_queue P phys ptr (ucast (HW_FENCE_HFI_CLIENT_HEADERS_SIZE P qn))
       (HW_FENCE_CLIENT_QUEUE_PAYLOAD * e) HW_FENCE_CLIENT_QUEUE_PAYLOAD"
  let ?h = "header_at P ptr" and ?a = "words_at P ptr qn e"
  have dist: "?h i \<noteq> ?h j" "?a i \<noteq> ?a j" if "i < unat qn" "j < unat qn" "i \<noteq> j" for i j
  proof -
    have "?h 0 \<noteq> ?h (Suc 0)" using assms(5) by (simp add: header_at_def)
    moreover have "?a 0 \<noteq> ?a (Suc 0)" using assms(3,4) by (rule words_at_distinct)
    ultimately show "?h i \<noteq> ?h j" "?a i \<noteq> ?a j" using that assms(1) by (auto dest!: nth_two)
  qed
  have "\<exists>d' qs'. chain ?f [0..<k] (d, queues) = Some (d', qs') \<and> length qs' = 2 \<and>
      (\<forall>i<k. qd_va_header (qs' ! i) = ?h i \<and> qd_va_queue (qs' ! i) = ?a i \<and> q_size_u32 (qs' ! i) = ring_size (unat e) \<and>
        (\<forall>wm. queue_ring wm d' (qs' ! i) = found_ring wm d (?h i) (?a i) (unat e))) \<and>
      outside (?h ` {..<k}) (?a ` {..<k}) d d'" if "k \<le> unat qn" for k
    using that
  proof (induction k)
    case 0
    with assms(2) show ?case by simp
  next
    case (Suc k)
    then have k: "k < unat qn" by simp
    from Suc obtain d1 qs1 where IH: "chain ?f [0..<k] (d, queues) = Some (d1, qs1)" "length qs1 = 2"
      and qs1: "\<And>i. i < k \<Longrightarrow> qd_va_header (qs1 ! i) = ?h i \<and> qd_va_queue (qs1 ! i) = ?a i \<and>
        q_size_u32 (qs1 ! i) = ring_size (unat e) \<and> (\<forall>wm. queue_ring wm d1 (qs1 ! i) = found_ring wm d (?h i) (?a i) (unat e))"
      and out: "outside (?h ` {..<k}) (?a ` {..<k}) d d1"
      by auto
    have len: "k < length qs1" using k assms(1) IH(2) by auto
    obtain d2 qs2 where st: "?f k (d1, qs1) = Some (d2, qs2)" "length qs2 = length qs1"
      "\<forall>j. j \<noteq> k \<longrightarrow> qs2 ! j = qs1 ! j" "qd_va_header (qs2 ! k) = ?h k" "qd_va_queue (qs2 ! k) = ?a k"
      "q_size_u32 (qs2 ! k) = ring_size (unat e)"
      "\<forall>wm. queue_ring wm d2 (qs2 ! k) = found_ring wm d1 (?h k) (?a k) (unat e)"
      and out1: "outside {?h k} {?a k} d1 d2"
      by (rule init_queue_ring [OF assms(3,4) len, of P phys ptr qn d1])
    have "?h i \<noteq> ?h k" "?a i \<noteq> ?a k" if "i < k" for i using dist [of i k] that k by auto
    then have "?h k \<notin> ?h ` {..<k}" "?a k \<notin> ?a ` {..<k}" by (metis imageE lessThan_iff)+
    then have fr: "found_ring wm d1 (?h k) (?a k) (unat e) = found_ring wm d (?h k) (?a k) (unat e)" for wm
      using found_ring_outside [OF out] by blast
    have old: "queue_ring wm d2 (qs2 ! i) = queue_ring wm d1 (qs1 ! i)" if "i < k" for i wm
      using queue_ring_outside [OF out1, of "qs1 ! i"] qs1 [OF that] st(3) dist [of i k] that k by auto
    have "outside (?h ` {..<Suc k}) (?a ` {..<Suc k}) d d2"
      using outside_trans [OF out out1] by (simp add: lessThan_Suc Un_commute)
    moreover have "chain ?f [0..<Suc k] (d, queues) = Some (d2, qs2)"
      using IH(1) st(1) by (simp add: chain_append)
    moreover have "qd_va_header (qs2 ! i) = ?h i \<and> qd_va_queue (qs2 ! i) = ?a i \<and> q_size_u32 (qs2 ! i) = ring_size (unat e) \<and>
        (\<forall>wm. queue_ring wm d2 (qs2 ! i) = found_ring wm d (?h i) (?a i) (unat e))" if "i < Suc k" for i
      using that st(3) st(4-7) fr old qs1 [of i] by (cases "i = k") auto
    ultimately show ?case using st(2) IH(2) by auto
  qed
  from this [of "unat qn"] show ?thesis by auto
qed

text \<open>The memory of a client's region as clearing the carve-out leaves it, at addresses the driver can use.\<close>

definition region_fresh :: "platform \<Rightarrow> hwf \<Rightarrow> u64 \<Rightarrow> hw_fence_client_queue_size_desc \<Rightarrow> bool" where
  "region_fresh P d ptr desc \<longleftrightarrow> (\<forall>i<unat (qs_queues_num desc).
     header_at P ptr i \<noteq> 0 \<and> hfi_hdrs d (header_at P ptr i) = zero_hfi_hdr \<and>
     q_words d (words_at P ptr (qs_queues_num desc) (qs_queue_entries desc) i) = [])"

text \<open>Setting up a client's queues in fresh memory makes them ready for use: when the region of the
  client can be reserved, \<open>hw_fence_alloc_client_resources\<close> succeeds, and each of its one or two queues
  is a well-formed empty ring with as many slots as the device tree asks for, on which the functions
  that write and read messages work; the descriptor handed to the caller is the reserved region.\<close>

lemma client_queues_ready:
  assumes "cl_client_id c < clients_num d" and "unat (cl_client_id c) < length (hw_fence_client_queue_size d)"
    and "desc = hw_fence_client_queue_size d ! unat (cl_client_id c)"
    and "hw_fence_utils_reserve_mem d MEM_RESERVE_CLIENT_QUEUE (cl_client_id c) = Some (0, phys, ptr, sz)"
    and "unat (qs_queues_num desc) \<in> {1, 2}" and "0 < qs_queue_entries desc"
    and "unat (qs_queue_entries desc) < 2 ^ 26"
    and "length (cl_queues c) = HW_FENCE_CLIENT_QUEUES" and "sizeof_hfi_queue_header P \<noteq> 0"
    and "region_fresh P d ptr desc"
    and "cl_client_id c - 1 < client_lock_tbl_cnt d" and "unat (cl_client_id c - 1) < length (client_lock_tbl d)"
    and "client_lock_tbl d ! unat (cl_client_id c - 1) = 0"
  shows "\<exists>d' c'. hw_fence_alloc_client_resources P d c md =
      Some (d', c', \<lparr>md_virtual_addr = ptr, md_device_addr = phys, md_size = sz\<rparr>, 0) \<and>
    (\<forall>t<unat (qs_queues_num desc). queue_ready (unat (qs_queue_entries desc)) d' c' t \<and>
       ring_ok (unat (qs_queue_entries desc)) (client_ring d' c' t) \<and>
       ring_items (unat (qs_queue_entries desc)) (client_ring d' c' t) = [])"
proof -
  let ?e = "qs_queue_entries desc" and ?qn = "qs_queues_num desc"
  let ?d = "d\<lparr>hfi_tables := (hfi_tables d)(ptr := \<lparr>th_version = 0, th_size = sz,
           th_qhdr0_offset = ucast (sizeof_hfi_table_header P), th_qhdr_size = ucast (sizeof_hfi_queue_header P),
           th_num_q = ?qn, th_num_active_q = ?qn\<rparr>)\<rparr>"
  have e: "0 < unat ?e" using assms(6) by (simp add: unat_gt_0 word_neq_0_conv)
  from init_queues_rings [OF assms(5) _ e assms(7,9), of "cl_queues c" phys ptr ?d] assms(8)
  obtain d' queues' where
    init: "chain (init_queue P phys ptr (ucast (HW_FENCE_HFI_CLIENT_HEADERS_SIZE P ?qn))
       (HW_FENCE_CLIENT_QUEUE_PAYLOAD * ?e) HW_FENCE_CLIENT_QUEUE_PAYLOAD) [0..<unat ?qn] (?d, cl_queues c) = Some (d', queues')"
    and len: "length queues' = 2"
    and rings: "\<forall>i<unat ?qn. qd_va_header (queues' ! i) = header_at P ptr i \<and>
       qd_va_queue (queues' ! i) = words_at P ptr ?qn ?e i \<and> q_size_u32 (queues' ! i) = ring_size (unat ?e) \<and>
       (\<forall>wm. queue_ring wm d' (queues' ! i) = found_ring wm ?d (header_at P ptr i) (words_at P ptr ?qn ?e i) (unat ?e))"
    and out: "outside (header_at P ptr ` {..<unat ?qn}) (words_at P ptr ?qn ?e ` {..<unat ?qn}) ?d d'"
    by auto
  have same: "hw_fence_client_queue_size d' = hw_fence_client_queue_size d" "client_lock_tbl d' = client_lock_tbl d"
    "client_lock_tbl_cnt d' = client_lock_tbl_cnt d"
  proof -
    obtain h w where "d' = ?d\<lparr>hfi_hdrs := h, q_words := w\<rparr>" using out unfolding outside_def by blast
    then show "hw_fence_client_queue_size d' = hw_fence_client_queue_size d" "client_lock_tbl d' = client_lock_tbl d"
      "client_lock_tbl_cnt d' = client_lock_tbl_cnt d" by simp_all
  qed
  let ?c = "c\<lparr>cl_mem_descriptor := \<lparr>md_virtual_addr = ptr, md_device_addr = phys, md_size = sz\<rparr>, cl_queues := queues'\<rparr>"
  have alloc: "hw_fence_alloc_client_resources P d c md =
      Some (d', ?c, \<lparr>md_virtual_addr = ptr, md_device_addr = phys, md_size = sz\<rparr>, 0)"
    using assms(1,2,4) init
    by (simp add: hw_fence_alloc_client_resources_def init_hw_fences_queues_def assms(3) [symmetric]
        not_le [symmetric])
  have "queue_ready (unat ?e) d' ?c t \<and> ring_ok (unat ?e) (client_ring d' ?c t) \<and>
      ring_items (unat ?e) (client_ring d' ?c t) = []" if t: "t < unat ?qn" for t
  proof -
    have "client_ring d' ?c t = (0, 0, replicate (16 * unat ?e) 0)"
      using rings t assms(10) by (simp add: found_ring_def region_fresh_def zero_hfi_hdr_def)
    moreover have "queue_ready (unat ?e) d' ?c t"
      using t rings len same assms(2,3,5,10-13) by (auto simp: queue_ready_def region_fresh_def)
    ultimately show ?thesis using empty_ring [OF e assms(7)] by simp
  qed
  with alloc show ?thesis by blast
qed

definition setup_sample :: hwf where
  "setup_sample = zero_hwf\<lparr>clients_num := 4, hw_fence_client_queue_size := replicate 4
     \<lparr>qs_queues_num = 2, qs_queue_entries = 4, qs_mem_size = 4096, qs_start_offset = 4096, qs_skip_txq_wr_idx = False\<rparr>,
     client_lock_tbl := [0, 0, 0], client_lock_tbl_cnt := 3, io_mem_base := 0x100000, res_start := 0x80000,
     res_size := 0x10000\<rparr>"

lemma client_queues_ready_example:
  "\<exists>d' c' md. hw_fence_alloc_client_resources sample_platform setup_sample (zero_client\<lparr>cl_client_id := 2\<rparr>) zero_mem_addr
      = Some (d', c', md, 0) \<and> md_size md = 4096 \<and>
    queue_ready 4 d' c' RXQ \<and> ring_items 4 (client_ring d' c' RXQ) = []"
proof -
  let ?c = "zero_client\<lparr>cl_client_id := 2\<rparr>" and ?desc = "hw_fence_client_queue_size setup_sample ! 2"
  have res: "hw_fence_utils_reserve_mem setup_sample MEM_RESERVE_CLIENT_QUEUE 2 = Some (0, 0x81000, 0x101000, 4096)"
    by (simp add: hw_fence_utils_reserve_mem_def region_def setup_sample_def zero_hwf_def)
  have qn: "unat (qs_queues_num ?desc) = 2" "unat (qs_queue_entries ?desc) = 4"
    by (simp_all add: setup_sample_def)
  have hdrs: "hfi_hdrs setup_sample = (\<lambda>_. zero_hfi_hdr)" "q_words setup_sample = (\<lambda>_. [])"
    by (simp_all add: setup_sample_def zero_hwf_def)
  have "region_fresh sample_platform setup_sample 0x101000 ?desc"
    unfolding region_fresh_def qn hdrs by (auto dest!: nth_two simp: header_at_def)
  from client_queues_ready [where c = ?c and d = setup_sample and desc = ?desc and P = sample_platform and md = zero_mem_addr] this res qn
  have "\<exists>d' c'. hw_fence_alloc_client_resources sample_platform setup_sample ?c zero_mem_addr =
      Some (d', c', \<lparr>md_virtual_addr = 0x101000, md_device_addr = 0x81000, md_size = 4096\<rparr>, 0) \<and>
    (\<forall>t<2. queue_ready 4 d' c' t \<and> ring_ok 4 (client_ring d' c' t) \<and> ring_items 4 (client_ring d' c' t) = [])"
    by (simp add: setup_sample_def zero_client_def)
  then show ?thesis by fastforce
qed

end
