(* ===== verification/HwfSignal.thy ===== *)
theory HwfSignal
  imports HwfLayout
begin

text \<open>
  Waiting and signaling, \<open>hw_fence_drv_priv.c\<close>: a client registers to wait for a fence or for an array of
  fences (through a join fence), a signaled fence is delivered to a client's rx queue and interrupt,
  and a fence is cleaned up when a client is reset. A pointer to a fence of the table is its index;
  the client that calls is the value of its object.
\<close>

section \<open>The code\<close>

text \<open>\<open>BIT(client_id)\<close> is defined for the 64 bits of the mask only.\<close>

definition client_bit :: "u32 \<Rightarrow> u64 option" where
  "client_bit cid = (if cid < 64 then Some (BIT cid) else None)"

definition hw_fence_get_client_data_id :: "platform \<Rightarrow> u32 \<Rightarrow> nat" where
  "hw_fence_get_client_data_id P cid =
     (if cid = client_id P CTX0 then 0
      else if cid = client_id P VAL0 then 3
      else if cid = client_id P VAL1 then 4
      else if cid = client_id P IPE then 1
      else if cid = client_id P VPU then 2
      else HW_FENCE_MAX_CLIENTS_WITH_DATA)"

definition set_client :: "nat \<Rightarrow> msm_hw_fence_client \<Rightarrow> hwf \<Rightarrow> hwf" where
  "set_client h c d = d\<lparr>client_objs := (client_objs d)(h := Some c)\<rparr>"

text \<open>\<open>hw_fence_drv_debug.c\<close>: the flag on which a validation client waits.\<close>

definition process_validation_client_loopback :: "platform \<Rightarrow> hwf \<Rightarrow> u32 \<Rightarrow> (hwf \<times> int) option" where
  "process_validation_client_loopback P d cid =
     (if cid < client_id P VAL0 \<or> client_id P VAL0 + 6 < cid then Some (d, - EINVAL)
      else do {
        h \<leftarrow> fetch (clients d) (unat cid);
        case h of None \<Rightarrow> Some (d, - EINVAL)
        | Some h \<Rightarrow> do { c \<leftarrow> client_objs d h; Some (set_client h (c\<lparr>cl_val_signal := 1\<rparr>) d, 0) }
      })"

definition fence_ctl_signal ::
  "platform \<Rightarrow> hwf \<Rightarrow> msm_hw_fence_client \<Rightarrow> nat \<Rightarrow> u64 \<Rightarrow> u64 \<Rightarrow> u64 \<Rightarrow> u32 \<Rightarrow> hwf option" where
  "fence_ctl_signal P d c i hash flags client_data error = do {
     f \<leftarrow> fetch (hw_fences_tbl d) i;
     (d, _) \<leftarrow> (if cl_update_rxq c
        then hw_fence_update_queue d c \<lparr>qm_ctxt_id = hf_ctx_id f, qm_seqno = hf_seq_id f, qm_hash = hash,
          qm_flags = flags, qm_client_data = client_data, qm_error = error\<rparr> RXQ
        else Some (d, 0));
     let d = (if cl_send_ipc c
        then hw_fence_ipcc_trigger_signal d (ipcc_client_pid d) (of_int (cl_ipc_client_vid c))
          (of_int (cl_ipc_signal_id c))
        else d);
     if client_id P VAL0 \<le> cl_client_id c \<and> cl_client_id c \<le> client_id P VAL6
     then map_option fst (process_validation_client_loopback P d (cl_client_id c))
     else Some d
   }"

definition set_fence_bit :: "nat \<Rightarrow> nat \<Rightarrow> hwf \<Rightarrow> hwf option" where
  "set_fence_bit fid n d = do {
     f \<leftarrow> dma_fences d fid;
     Some (d\<lparr>dma_fences := (dma_fences d)(fid \<mapsto> f\<lparr>df_flags := set_bit n (df_flags f)\<rparr>)\<rparr>)
   }"

text \<open>The check of a non-zero \<open>client_data\<close> at the start of the two functions that register a client.\<close>

definition client_data_refused :: "platform \<Rightarrow> msm_hw_fence_client \<Rightarrow> u64 \<Rightarrow> bool" where
  "client_data_refused P c client_data =
     (client_data \<noteq> 0 \<and> HW_FENCE_MAX_CLIENTS_WITH_DATA \<le> hw_fence_get_client_data_id P (cl_client_id c))"

definition put_client_data :: "platform \<Rightarrow> msm_hw_fence_client \<Rightarrow> u64 \<Rightarrow> msm_hw_fence \<Rightarrow> msm_hw_fence" where
  "put_client_data P c client_data f = (if client_data \<noteq> 0
     then f\<lparr>hf_client_data := (hf_client_data f)[hw_fence_get_client_data_id P (cl_client_id c) := client_data]\<rparr>
     else f)"

definition hw_fence_register_wait_client ::
  "platform \<Rightarrow> hwf \<Rightarrow> nat option \<Rightarrow> msm_hw_fence_client \<Rightarrow> u64 \<Rightarrow> u64 \<Rightarrow> u64 \<Rightarrow> u64
    \<Rightarrow> (hwf \<times> u64 \<times> int) option" where
  "hw_fence_register_wait_client P d fence c context seqno hash client_data =
     (if client_data_refused P c client_data then Some (d, hash, - EINVAL)
      else do {
        (d, hash, r) \<leftarrow> msm_hw_fence_find d (Some c) context seqno hash;
        case r of None \<Rightarrow> Some (d, hash, - EINVAL)
        | Some i \<Rightarrow> do {
            d \<leftarrow> global_atomic_store d (FenceLock i) True;
            f \<leftarrow> fetch (hw_fences_tbl d) i;
            b \<leftarrow> client_bit (cl_client_id c);
            let d = set_fence i (put_client_data P c client_data
              (f\<lparr>hf_wait_client_mask := hf_wait_client_mask f OR b,
                 hf_fence_wait_time := hw_fence_get_qtime d,
                 hf_debug_refcount := hf_debug_refcount f + 1\<rparr>)) d;
            d \<leftarrow> global_atomic_store d (FenceLock i) False;
            f \<leftarrow> fetch (hw_fences_tbl d) i;
            if hf_flags f AND MSM_HW_FENCE_FLAG_SIGNAL \<noteq> 0 then do {
              d \<leftarrow> (case fence of None \<Rightarrow> Some d | Some fid \<Rightarrow> set_fence_bit fid (flag_signaled_bit P) d);
              d \<leftarrow> fence_ctl_signal P d c i hash 0 client_data 0;
              Some (d, hash, 0)
            } else Some (d, hash, 0)
          }
      })"

definition hw_fence_process_fence ::
  "platform \<Rightarrow> hwf \<Rightarrow> msm_hw_fence_client \<Rightarrow> nat \<Rightarrow> u64 \<Rightarrow> u64 \<Rightarrow> (hwf \<times> u64 \<times> int) option" where
  "hw_fence_process_fence P d c fence hash client_data = do {
     f \<leftarrow> dma_fences d fence;
     if \<not> bit (df_flags f) (flag_enabled_bit P) then Some (d, hash, - EINVAL)
     else hw_fence_register_wait_client P d (Some fence) c (df_context f) (df_seqno f) hash client_data
   }"

subsection \<open>Join fences\<close>

text \<open>\<open>_hw_fence_process_join_fence\<close> for \<open>create\<close> and for destroy.\<close>

definition create_join_fence :: "hwf \<Rightarrow> dma_fence \<Rightarrow> dma_fence_array \<Rightarrow> u64 \<Rightarrow> (hwf \<times> u64 \<times> nat option) option" where
  "create_join_fence d base arr hash =
     hw_fence_lookup_and_process d (df_context base) (df_seqno base) HW_FENCE_JOIN_FENCE_CLIENT_ID
       (fa_num_fences arr) OP_CREATE_JOIN hash"

definition destroy_join_fence :: "hwf \<Rightarrow> dma_fence \<Rightarrow> hwf option" where
  "destroy_join_fence d base =
     map_option fst (hw_fence_cleanup d HW_FENCE_JOIN_FENCE_CLIENT_ID (df_context base) (df_seqno base))"

text \<open>The loop over a child's parents, from parent \<open>j\<close> down.\<close>

fun drop_parent :: "u64 \<Rightarrow> nat \<Rightarrow> msm_hw_fence \<Rightarrow> msm_hw_fence" where
  "drop_parent hash 0 f = f"
| "drop_parent hash (Suc j) f = drop_parent hash j
     (if hf_parent_list f ! j = hash
      then f\<lparr>hf_parent_list := (hf_parent_list f)[j := HW_FENCE_INVALID_PARENT_FENCE],
             hf_parents_cnt := (if hf_parents_cnt f \<noteq> 0 then hf_parents_cnt f - 1 else hf_parents_cnt f)\<rparr>
      else f)"

definition parents_to_check :: "msm_hw_fence \<Rightarrow> nat" where
  "parents_to_check f = min (nat (c_int (hf_parents_cnt f))) MSM_HW_FENCE_MAX_JOIN_PARENTS"

definition cleanup_child ::
  "msm_hw_fence_client \<Rightarrow> dma_fence_array \<Rightarrow> u64 \<Rightarrow> nat \<Rightarrow> hwf \<Rightarrow> hwf option" where
  "cleanup_child c arr hash_join_fence idx d = do {
     fences \<leftarrow> fa_fences arr;
     child \<leftarrow> fetch fences idx;
     case child of None \<Rightarrow> Some d
     | Some fid \<Rightarrow> do {
         f \<leftarrow> dma_fences d fid;
         (d, _, r) \<leftarrow> msm_hw_fence_find d (Some c) (df_context f) (df_seqno f) 0;
         case r of None \<Rightarrow> Some d
         | Some k \<Rightarrow> do {
             d \<leftarrow> global_atomic_store d (FenceLock k) True;
             g \<leftarrow> fetch (hw_fences_tbl d) k;
             global_atomic_store (set_fence k (drop_parent hash_join_fence (parents_to_check g) g) d)
               (FenceLock k) False
           }
       }
   }"

definition cleanup_join_and_child_fences ::
  "hwf \<Rightarrow> msm_hw_fence_client \<Rightarrow> nat \<Rightarrow> dma_fence \<Rightarrow> dma_fence_array \<Rightarrow> u64 \<Rightarrow> hwf option" where
  "cleanup_join_and_child_fences d c iteration base arr hash_join_fence = do {
     d \<leftarrow> (case fa_fences arr of None \<Rightarrow> Some d
        | Some _ \<Rightarrow> chain (cleanup_child c arr hash_join_fence) (rev [0..<Suc iteration]) d);
     destroy_join_fence d base
   }"

text \<open>
  The loop of \<open>hw_fence_process_fence_array\<close> over the children: \<open>Inl i\<close> if child \<open>i\<close> is in error, and
  otherwise whether the join fence must be signaled. First its body, for one child.
\<close>

definition process_array_child ::
  "platform \<Rightarrow> msm_hw_fence_client \<Rightarrow> dma_fence_array \<Rightarrow> nat \<Rightarrow> u64 \<Rightarrow> nat \<Rightarrow> bool \<Rightarrow> hwf \<Rightarrow> (hwf \<times> (nat + bool)) option"
where
  "process_array_child P c arr jf hash i signal_join_fence d = do {
     fences \<leftarrow> fa_fences arr;
     child \<leftarrow> fetch fences i;
     fid \<leftarrow> child;
     f \<leftarrow> dma_fences d fid;
     if df_array f \<noteq> None then Some (d, Inl i)
     else if \<not> bit (df_flags f) (flag_enabled_bit P) then Some (d, Inl i)
     else do {
       (d, _, r) \<leftarrow> msm_hw_fence_find d (Some c) (df_context f) (df_seqno f) 0;
       case r of None \<Rightarrow> Some (d, Inl i)
       | Some k \<Rightarrow> do {
           d \<leftarrow> global_atomic_store d (FenceLock k) True;
           g \<leftarrow> fetch (hw_fences_tbl d) k;
           if hf_flags g AND MSM_HW_FENCE_FLAG_SIGNAL \<noteq> 0 then do {
             d \<leftarrow> global_atomic_store d (FenceLock jf) True;
             j \<leftarrow> fetch (hw_fences_tbl d) jf;
             let pending = hf_pending_child_cnt j - 1;
             d \<leftarrow> global_atomic_store (set_fence jf (j\<lparr>hf_pending_child_cnt := pending\<rparr>) d) (FenceLock jf) False;
             d \<leftarrow> global_atomic_store d (FenceLock k) False;
             Some (d, Inr (signal_join_fence \<or> pending = 0))
           } else
             let cnt = hf_parents_cnt g + 1 in
             if of_nat MSM_HW_FENCE_MAX_JOIN_PARENTS \<le> cnt \<or> cnt < 1 then do {
               d \<leftarrow> global_atomic_store d (FenceLock k) False;
               Some (d, Inl i)
             } else do {
               d \<leftarrow> global_atomic_store (set_fence k (g\<lparr>hf_parents_cnt := cnt,
                 hf_parent_list := (hf_parent_list g)[unat (cnt - 1) := hash]\<rparr>) d) (FenceLock k) False;
               Some (d, Inr signal_join_fence)
             }
         }
     }
   }"

fun process_children ::
  "platform \<Rightarrow> msm_hw_fence_client \<Rightarrow> dma_fence_array \<Rightarrow> nat \<Rightarrow> u64 \<Rightarrow> nat list \<Rightarrow> bool \<Rightarrow> hwf
    \<Rightarrow> (hwf \<times> (nat + bool)) option" where
  "process_children P c arr jf hash [] signal_join_fence d = Some (d, Inr signal_join_fence)"
| "process_children P c arr jf hash (i # is) signal_join_fence d = do {
     (d, res) \<leftarrow> process_array_child P c arr jf hash i signal_join_fence d;
     case res of Inl i \<Rightarrow> Some (d, Inl i)
     | Inr signal_join_fence \<Rightarrow> process_children P c arr jf hash is signal_join_fence d
   }"

text \<open>What the function does after the loop, with \<open>res\<close> the outcome of the loop.\<close>

definition finish_fence_array ::
  "platform \<Rightarrow> msm_hw_fence_client \<Rightarrow> nat \<Rightarrow> dma_fence \<Rightarrow> dma_fence_array \<Rightarrow> u64 \<Rightarrow> u64 \<Rightarrow> nat \<Rightarrow> hwf \<Rightarrow> nat + bool
    \<Rightarrow> (hwf \<times> u64 \<times> int) option" where
  "finish_fence_array P c fence base arr hash client_data jf d res = (case res of
       Inl i \<Rightarrow> do {
         d \<leftarrow> cleanup_join_and_child_fences d c i base arr hash;
         Some (d, hash, - EINVAL)
       }
     | Inr signal_join_fence \<Rightarrow> do {
         j \<leftarrow> fetch (hw_fences_tbl d) jf;
         let d = set_fence jf (put_client_data P c client_data j) d;
         if signal_join_fence then do {
           d \<leftarrow> fence_ctl_signal P d c jf hash 0 0 (ucast client_data);
           d \<leftarrow> set_fence_bit fence (flag_signaled_bit P) d;
           d \<leftarrow> destroy_join_fence d base;
           Some (d, hash, 0)
         } else if fa_num_fences arr = 0 then do {
           d \<leftarrow> cleanup_join_and_child_fences d c 0 base arr hash;
           Some (d, hash, - EINVAL)
         } else Some (d, hash, 0)
       })"

definition hw_fence_process_fence_array ::
  "platform \<Rightarrow> hwf \<Rightarrow> msm_hw_fence_client \<Rightarrow> nat \<Rightarrow> u64 \<Rightarrow> u64 \<Rightarrow> (hwf \<times> u64 \<times> int) option" where
  "hw_fence_process_fence_array P d c fence hash client_data = do {
     base \<leftarrow> dma_fences d fence;
     arr \<leftarrow> df_array base;
     if client_data_refused P c client_data then Some (d, hash, - EINVAL)
     else do {
       (d, hash, r) \<leftarrow> create_join_fence d base arr hash;
       case r of None \<Rightarrow> Some (d, hash, - EINVAL)
       | Some jf \<Rightarrow> do {
           d \<leftarrow> global_atomic_store d (FenceLock jf) True;
           j \<leftarrow> fetch (hw_fences_tbl d) jf;
           b \<leftarrow> client_bit (cl_client_id c);
           d \<leftarrow> global_atomic_store (set_fence jf (j\<lparr>hf_wait_client_mask := hf_wait_client_mask j OR b\<rparr>) d)
             (FenceLock jf) False;
           (d, res) \<leftarrow> process_children P c arr jf hash [0..<unat (fa_num_fences arr)] False d;
           finish_fence_array P c fence base arr hash client_data jf d res
         }
     }
   }"

subsection \<open>Cleaning up\<close>

text \<open>The loop of \<open>_signal_all_wait_clients\<close>, with its variable \<open>client_data\<close>.\<close>

fun signal_wait_clients ::
  "platform \<Rightarrow> nat \<Rightarrow> u64 \<Rightarrow> u32 \<Rightarrow> u32 list \<Rightarrow> u64 \<Rightarrow> hwf \<Rightarrow> hwf option" where
  "signal_wait_clients P i hash error [] client_data d = Some d"
| "signal_wait_clients P i hash error (cid # cids) client_data d = do {
     f \<leftarrow> fetch (hw_fences_tbl d) i;
     b \<leftarrow> client_bit cid;
     if hf_wait_client_mask f AND b \<noteq> 0 then do {
       h \<leftarrow> fetch (clients d) (unat cid);
       let data_id = hw_fence_get_client_data_id P cid;
       let client_data = (if data_id < HW_FENCE_MAX_CLIENTS_WITH_DATA then hf_client_data f ! data_id else client_data);
       case h of None \<Rightarrow> signal_wait_clients P i hash error cids client_data d
       | Some h \<Rightarrow> do {
           c \<leftarrow> client_objs d h;
           d \<leftarrow> fence_ctl_signal P d c i hash 0 client_data error;
           signal_wait_clients P i hash error cids client_data d
         }
     } else signal_wait_clients P i hash error cids client_data d
   }"

definition signal_all_wait_clients :: "platform \<Rightarrow> hwf \<Rightarrow> nat \<Rightarrow> u64 \<Rightarrow> u32 \<Rightarrow> hwf option" where
  "signal_all_wait_clients P d i hash error =
     signal_wait_clients P i hash error (map of_nat [0..<Suc (unat (rxq_clients_num d))]) 0 d"

definition hw_fence_utils_cleanup_fence ::
  "platform \<Rightarrow> hwf \<Rightarrow> msm_hw_fence_client \<Rightarrow> nat \<Rightarrow> u64 \<Rightarrow> u32 \<Rightarrow> (hwf \<times> int) option" where
  "hw_fence_utils_cleanup_fence P d c i hash reset_flags = do {
     let error = (if reset_flags AND reset_without_error P \<noteq> 0 then 0 else error_reset P);
     d \<leftarrow> global_atomic_store d (FenceLock i) True;
     f \<leftarrow> fetch (hw_fences_tbl d) i;
     b \<leftarrow> client_bit (cl_client_id c);
     let d = (if hf_wait_client_mask f AND b \<noteq> 0
       then set_fence i (f\<lparr>hf_wait_client_mask := hf_wait_client_mask f AND NOT b\<rparr>) d else d);
     d \<leftarrow> global_atomic_store d (FenceLock i) False;
     f \<leftarrow> fetch (hw_fences_tbl d) i;
     if hf_fence_allocator f = cl_client_id c then do {
       d \<leftarrow> (if hf_flags f AND MSM_HW_FENCE_FLAG_SIGNAL = 0
          then signal_all_wait_clients P d i hash error else Some d);
       if reset_flags AND reset_without_destroy P \<noteq> 0 then Some (d, 0)
       else do {
         f \<leftarrow> fetch (hw_fences_tbl d) i;
         hw_fence_destroy d c (hf_ctx_id f) (hf_seq_id f)
       }
     } else Some (d, 0)
   }"

definition hw_fence_utils_reset_queues :: "hwf \<Rightarrow> msm_hw_fence_client \<Rightarrow> hwf option" where
  "hw_fence_utils_reset_queues d c = do {
     txq \<leftarrow> fetch (cl_queues c) TXQ;
     if qd_va_header txq = 0 then None
     else do {
       let (rd, wr, ws) = queue_ring False d txq;
       let d = set_queue_ring False txq (wr, wr, ws) d;
       if cl_update_rxq c then
         let lock_idx = cl_client_id c - 1 in
         if client_lock_tbl_cnt d \<le> lock_idx then Some d
         else do {
           d \<leftarrow> global_atomic_store d (ClientLock (unat lock_idx)) True;
           rxq \<leftarrow> fetch (cl_queues c) RXQ;
           if qd_va_header rxq = 0 then None
           else do {
             let (rd, wr, ws) = queue_ring False d rxq;
             let d = set_queue_ring False rxq (rd, rd, ws) d;
             global_atomic_store d (ClientLock (unat lock_idx)) False
           }
         }
       else Some d
     }
   }"


section \<open>Fences and locks\<close>

lemma set_fence_more [simp]:
  "hfi_hdrs (set_fence i f d) = hfi_hdrs d" "q_words (set_fence i f d) = q_words d"
  "hw_fence_client_queue_size (set_fence i f d) = hw_fence_client_queue_size d"
  "clients (set_fence i f d) = clients d" "client_objs (set_fence i f d) = client_objs d"
  "io_writes (set_fence i f d) = io_writes d" "dma_fences (set_fence i f d) = dma_fences d"
  "rxq_clients_num (set_fence i f d) = rxq_clients_num d" "ipcc_client_pid (set_fence i f d) = ipcc_client_pid d"
  "ipcc_io_mem (set_fence i f d) = ipcc_io_mem d" "protocol_id (set_fence i f d) = protocol_id d"
  "clients_num (set_fence i f d) = clients_num d" "hw_fences_tbl_cnt (set_fence i f d) = hw_fences_tbl_cnt d"
  by (simp_all add: set_fence_def)

lemma queue_ring_set_fence [simp]: "queue_ring wm (set_fence i f d) queue = queue_ring wm d queue"
  by (simp add: queue_ring_def)

lemma queue_ready_set_fence [simp]: "queue_ready n (set_fence i f d) c t = queue_ready n d c t"
  by (simp add: queue_ready_def)

text \<open>A fence that nobody holds: locking it, and unlocking it after a change.\<close>

lemma free_fence:
  assumes "table_inv d" and "stored_at d k i"
  shows "i < length (hw_fences_tbl d)" and "hf_lock (hw_fences_tbl d ! i) = 0"
  using assms by (simp_all add: keyed_at_def table_inv_def table_okD(4))

lemma relock:
  assumes "i < length (hw_fences_tbl d)" and "hf_lock g = 1"
  shows "global_atomic_store (set_fence i g d) (FenceLock i) False = Some (set_fence i (g\<lparr>hf_lock := 0\<rparr>) d)"
  using assms by (simp add: fence_unlock)

lemma find_stored:
  assumes "table_inv d" and "(c, s) \<noteq> (0, 0)" and "stored_at d (c, s) i"
  shows "msm_hw_fence_find d cl c s h = Some (d, of_nat i, Some i)"
  using lookup_match [OF assms(1) _ assms(2,3), of OP_FIND_FENCE]
  by (simp add: msm_hw_fence_find_def fence_found_def)

lemma find_unknown:
  assumes "table_inv d" and "(c, s) \<noteq> (0, 0)" and "fence_map d (c, s) = None"
  obtains h' where "msm_hw_fence_find d cl c s h = Some (d, h', None)"
proof -
  obtain h' where "hw_fence_lookup_and_process d c s (case cl of None \<Rightarrow> 0xff | Some c \<Rightarrow> cl_client_id c) 0
      OP_FIND_FENCE h = Some (d, h', None)"
    by (rule lookup_no_match [OF assms(1) _ assms(2,3), of OP_FIND_FENCE _ 0 h]) simp_all
  then show thesis by (intro that) (simp add: msm_hw_fence_find_def)
qed

lemma stored_fence_map: "table_inv d \<Longrightarrow> stored_at d k i \<Longrightarrow> fence_map d k = Some (hw_fences_tbl d ! i)"
  by (simp add: fence_map_def table_inv_def keys_unique_def keyed_map_at)

section \<open>Delivering a signal\<close>

text \<open>The message that tells a client that fence \<open>f\<close> with index \<open>i\<close> is signaled.\<close>

definition signal_msg :: "msm_hw_fence \<Rightarrow> nat \<Rightarrow> u64 \<Rightarrow> u32 \<Rightarrow> queue_msg" where
  "signal_msg f i client_data error = \<lparr>qm_ctxt_id = hf_ctx_id f, qm_seqno = hf_seq_id f,
     qm_hash = of_nat i, qm_flags = 0, qm_client_data = client_data, qm_error = error\<rparr>"

text \<open>A client of hardware: no validation client.\<close>

definition hw_client :: "platform \<Rightarrow> msm_hw_fence_client \<Rightarrow> bool" where
  "hw_client P c \<longleftrightarrow> \<not> (client_id P VAL0 \<le> cl_client_id c \<and> cl_client_id c \<le> client_id P VAL6)"

definition signal_write :: "hwf \<Rightarrow> msm_hw_fence_client \<Rightarrow> u64 \<times> u32" where
  "signal_write d c = (IPC_PROTOCOLp_CLIENTc_SEND (ipcc_io_mem d) (protocol_id d) (ipcc_client_pid d),
     push_bit 16 (of_int (cl_ipc_client_vid c)) OR of_int (cl_ipc_signal_id c))"

lemma writel_fields [simp]:
  "hw_fences_tbl (writel v a d) = hw_fences_tbl d" "hfi_hdrs (writel v a d) = hfi_hdrs d"
  "q_words (writel v a d) = q_words d" "client_lock_tbl (writel v a d) = client_lock_tbl d"
  "client_lock_tbl_cnt (writel v a d) = client_lock_tbl_cnt d"
  "hw_fence_client_queue_size (writel v a d) = hw_fence_client_queue_size d"
  "clients (writel v a d) = clients d" "client_objs (writel v a d) = client_objs d"
  "dma_fences (writel v a d) = dma_fences d" "io_writes (writel v a d) = io_writes d @ [(a, v)]"
  "hw_fences_tbl_va (writel v a d) = hw_fences_tbl_va d" "qtime (writel v a d) = qtime d"
  "hw_fence_table_entries (writel v a d) = hw_fence_table_entries d"
  "rxq_clients_num (writel v a d) = rxq_clients_num d" "protocol_id (writel v a d) = protocol_id d"
  "ipcc_client_pid (writel v a d) = ipcc_client_pid d" "ipcc_io_mem (writel v a d) = ipcc_io_mem d"
  "clients_num (writel v a d) = clients_num d" "hw_fences_tbl_cnt (writel v a d) = hw_fences_tbl_cnt d"
  by (simp_all add: writel_def)

lemma set_queue_ring_more [simp]:
  "rxq_clients_num (set_queue_ring wm queue q d) = rxq_clients_num d"
  "protocol_id (set_queue_ring wm queue q d) = protocol_id d"
  "ipcc_client_pid (set_queue_ring wm queue q d) = ipcc_client_pid d"
  "ipcc_io_mem (set_queue_ring wm queue q d) = ipcc_io_mem d"
  "clients_num (set_queue_ring wm queue q d) = clients_num d"
  "hw_fences_tbl_cnt (set_queue_ring wm queue q d) = hw_fences_tbl_cnt d"
  by (simp_all add: set_queue_ring_def Let_def split: prod.split)

lemma queue_ring_writel [simp]: "queue_ring wm (writel v a d) queue = queue_ring wm d queue"
  by (simp add: queue_ring_def)

text \<open>What a signal does: the rx queue is left with the ring \<open>q\<close> if the driver writes it, and the interrupt is raised if
  the client has one.\<close>

definition sent :: "hwf \<Rightarrow> msm_hw_fence_client \<Rightarrow> ring \<Rightarrow> hwf" where
  "sent d c q = (let d1 = (if cl_update_rxq c then set_queue_ring False (cl_queues c ! RXQ) q d else d) in
     if cl_send_ipc c then writel (snd (signal_write d c)) (fst (signal_write d c)) d1 else d1)"

lemma sent_fields [simp]:
  "hw_fences_tbl (sent d c q) = hw_fences_tbl d" "hw_fences_tbl_va (sent d c q) = hw_fences_tbl_va d"
  "hw_fence_table_entries (sent d c q) = hw_fence_table_entries d" "dma_fences (sent d c q) = dma_fences d"
  "io_writes (sent d c q) = io_writes d @ (if cl_send_ipc c then [signal_write d c] else [])"
  by (simp_all add: sent_def Let_def)

lemma sent_ring:
  "client_ring (sent d c q) c RXQ = (if cl_update_rxq c then q else client_ring d c RXQ)"
  by (simp add: sent_def Let_def txq_wm_def)

text \<open>Delivery to a client whose rx queue, if the driver writes it, has room.\<close>

definition rx_room :: "nat \<Rightarrow> hwf \<Rightarrow> msm_hw_fence_client \<Rightarrow> bool" where
  "rx_room n d c \<longleftrightarrow> (cl_update_rxq c \<longrightarrow>
     queue_ready n d c RXQ \<and> ring_ok n (client_ring d c RXQ) \<and> 0 < ring_room n (client_ring d c RXQ))"

lemma fence_ctl_signal_delivers:
  assumes "hw_client P c" and "i < length (hw_fences_tbl d)" and "rx_room n d c"
  obtains q where "fence_ctl_signal P d c i (of_nat i) 0 client_data error = Some (sent d c q)"
    "cl_update_rxq c \<longrightarrow> ring_items n q = ring_items n (client_ring d c RXQ) @ [signal_msg (hw_fences_tbl d ! i) i client_data error]"
proof (cases "cl_update_rxq c")
  case False
  then have "fence_ctl_signal P d c i (of_nat i) 0 client_data error = Some (sent d c q)" for q
    using assms(1,2) by (auto simp: fence_ctl_signal_def hw_client_def signal_write_def sent_def
        hw_fence_ipcc_trigger_signal_def Let_def)
  with False that show thesis by blast
next
  case True
  then have rx: "queue_ready n d c RXQ" "ring_ok n (client_ring d c RXQ)" "0 < ring_room n (client_ring d c RXQ)"
    using assms(3) by (simp_all add: rx_room_def)
  have wm: "txq_wm c RXQ = False" by (simp add: txq_wm_def)
  obtain q where q: "ring_put (ring_size n) (qtime d) (signal_msg (hw_fences_tbl d ! i) i client_data error)
      (client_ring d c RXQ) = Some (q, 0)" "ring_ok n q"
    "ring_items n q = ring_items n (client_ring d c RXQ) @ [signal_msg (hw_fences_tbl d ! i) i client_data error]"
    using rx(2,3) by (rule ring_put_ok)
  have "hw_fence_update_queue d c (signal_msg (hw_fences_tbl d ! i) i client_data error) RXQ
      = Some (set_queue_ring False (cl_queues c ! RXQ) q d, 0)"
    using update_queue_ring [OF rx(1) q(1)] unfolding wm .
  then have "fence_ctl_signal P d c i (of_nat i) 0 client_data error = Some (sent d c q)"
    using assms(1,2) True
    by (auto simp: fence_ctl_signal_def hw_client_def signal_msg_def signal_write_def sent_def
        hw_fence_ipcc_trigger_signal_def Let_def)
  with q(3) that show thesis by blast
qed

section \<open>Registering to wait\<close>

definition waiting_fence :: "platform \<Rightarrow> u64 \<Rightarrow> msm_hw_fence_client \<Rightarrow> u64 \<Rightarrow> msm_hw_fence \<Rightarrow> msm_hw_fence" where
  "waiting_fence P now c client_data f = put_client_data P c client_data
     (f\<lparr>hf_wait_client_mask := hf_wait_client_mask f OR BIT (cl_client_id c), hf_fence_wait_time := now,
        hf_debug_refcount := hf_debug_refcount f + 1\<rparr>)"

lemma waiting_fence_fields [simp]:
  "hf_valid (waiting_fence P now c cd f) = hf_valid f" "key (waiting_fence P now c cd f) = key f"
  "hf_lock (waiting_fence P now c cd f) = hf_lock f" "hf_flags (waiting_fence P now c cd f) = hf_flags f"
  "hf_ctx_id (waiting_fence P now c cd f) = hf_ctx_id f" "hf_seq_id (waiting_fence P now c cd f) = hf_seq_id f"
  "hf_wait_client_mask (waiting_fence P now c cd f) = hf_wait_client_mask f OR BIT (cl_client_id c)"
  by (simp_all add: waiting_fence_def put_client_data_def key_def)

lemma register_wait_stored:
  assumes inv: "table_inv d" and k: "(context, seqno) \<noteq> (0, 0)" and at: "stored_at d (context, seqno) i"
    and data: "\<not> client_data_refused P c client_data" and cid: "cl_client_id c < 64"
  shows "hw_fence_register_wait_client P d fence c context seqno hash client_data =
    (let d1 = set_fence i (waiting_fence P (qtime d) c client_data (hw_fences_tbl d ! i)) d in
     if hf_flags (hw_fences_tbl d ! i) AND MSM_HW_FENCE_FLAG_SIGNAL \<noteq> 0 then do {
       d \<leftarrow> (case fence of None \<Rightarrow> Some d1 | Some fid \<Rightarrow> set_fence_bit fid (flag_signaled_bit P) d1);
       d \<leftarrow> fence_ctl_signal P d c i (of_nat i) 0 client_data 0;
       Some (d, of_nat i, 0)
     } else Some (d1, of_nat i, 0))"
proof -
  note ff = free_fence [OF inv at]
  have wl: "(waiting_fence P t c client_data (f\<lparr>hf_lock := 1\<rparr>))\<lparr>hf_lock := 0\<rparr> = waiting_fence P t c client_data f"
    if "hf_lock f = 0" for f t
    using that by (cases f) (simp add: waiting_fence_def put_client_data_def)
  have un: "global_atomic_store (set_fence i (waiting_fence P t c client_data ((hw_fences_tbl d ! i)\<lparr>hf_lock := 1\<rparr>)) d)
      (FenceLock i) False = Some (set_fence i (waiting_fence P t c client_data (hw_fences_tbl d ! i)) d)" for t
    using ff by (subst relock) (simp_all add: wl)
  show ?thesis
    using data cid ff
    by (simp add: hw_fence_register_wait_client_def find_stored [OF inv k at] fence_lock client_bit_def
        hw_fence_get_qtime_def un Let_def waiting_fence_def [symmetric] cong: option.case_cong)
qed

lemma new_fence_more [simp]:
  "hf_flags (new_fence t cid k p) = 0" "hf_wait_client_mask (new_fence t cid k p) = 0"
  "hf_parents_cnt (new_fence t cid k p) = 0"
  "hf_parent_list (new_fence t cid k p) = replicate 3 HW_FENCE_INVALID_PARENT_FENCE"
  by (simp_all add: new_fence_def)

section \<open>Properties of waiting\<close>

text \<open>What registering does to the map, for a fence that is in the table.\<close>

lemma waiting_fence_stored:
  fixes P c t cd
  assumes "table_inv d" and "stored_at d k i"
  defines "d' \<equiv> set_fence i (waiting_fence P t c cd (hw_fences_tbl d ! i)) d"
  shows "table_inv d'" and "fence_map d' = (fence_map d)(k \<mapsto> waiting_fence P t c cd (hw_fences_tbl d ! i))"
    and "hw_fences_tbl d' ! i = waiting_fence P t c cd (hw_fences_tbl d ! i)"
proof -
  have i: "i < length (hw_fences_tbl d)" "valid_fence (hw_fences_tbl d ! i)" "key (hw_fences_tbl d ! i) = k"
    using assms(2) by (simp_all add: keyed_at_def)
  have "hf_lock (hw_fences_tbl d ! i) = 0" using assms(1,2) by (rule free_fence(2))
  then show "table_inv d'" and "fence_map d' = (fence_map d)(k \<mapsto> waiting_fence P t c cd (hw_fences_tbl d ! i))"
    and "hw_fences_tbl d' ! i = waiting_fence P t c cd (hw_fences_tbl d ! i)"
    using table_inv_replace [OF assms(1,2), of "waiting_fence P t c cd (hw_fences_tbl d ! i)"] i
    by (simp_all add: d'_def)
qed

text \<open>Registering to wait for a fence that is not signaled yet records the client in the fence and does
  nothing else: the bit of the client joins the wait mask, the wait time, the reference count and the
  client's data are updated in the entry of this key, every other fence is as before, the hash is the
  index of the entry, and no message, interrupt or other change of the driver state is made.\<close>

lemma register_wait_pending:
  assumes "table_inv d" and "(context, seqno) \<noteq> (0, 0)" and "fence_map d (context, seqno) = Some f"
    and "hf_flags f AND MSM_HW_FENCE_FLAG_SIGNAL = 0" and "\<not> client_data_refused P c client_data"
    and "cl_client_id c < 64"
  shows "\<exists>d' i. hw_fence_register_wait_client P d fence c context seqno hash client_data = Some (d', of_nat i, 0) \<and>
    table_inv d' \<and> d' = d\<lparr>hw_fences_tbl := hw_fences_tbl d'\<rparr> \<and>
    fence_map d' = (fence_map d)((context, seqno) \<mapsto> waiting_fence P (qtime d) c client_data f) \<and>
    hw_fences_tbl d' ! i = waiting_fence P (qtime d) c client_data f"
proof -
  obtain i where at: "stored_at d (context, seqno) i" and f: "hw_fences_tbl d ! i = f"
    using assms(1,3) by (rule fence_map_stored_at)
  show ?thesis
    using register_wait_stored [OF assms(1,2) at assms(5,6), of fence hash] assms(4)
      waiting_fence_stored [OF assms(1) at, of P "qtime d" c client_data]
    by (intro exI [of _ "set_fence i (waiting_fence P (qtime d) c client_data f) d"] exI [of _ i])
      (simp add: f Let_def set_fence_def)
qed

lemma register_wait_pending_example:
  "\<exists>d' i. hw_fence_register_wait_client sample_platform (table_of [zero_fence, new_fence 0 7 (5, 9) 0]) None
      (zero_client\<lparr>cl_client_id := 2\<rparr>) 5 9 0 0 = Some (d', of_nat i, 0) \<and>
    hf_wait_client_mask (hw_fences_tbl d' ! i) = 4"
proof -
  let ?d = "table_of [zero_fence, new_fence 0 7 (5, 9) 0]" and ?c = "zero_client\<lparr>cl_client_id := 2\<rparr>"
  have "\<exists>d' i. hw_fence_register_wait_client sample_platform ?d None ?c 5 9 0 0 = Some (d', of_nat i, 0) \<and>
    table_inv d' \<and> d' = ?d\<lparr>hw_fences_tbl := hw_fences_tbl d'\<rparr> \<and>
    fence_map d' = (fence_map ?d)((5, 9) \<mapsto> waiting_fence sample_platform (qtime ?d) ?c 0 (new_fence 0 7 (5, 9) 0)) \<and>
    hw_fences_tbl d' ! i = waiting_fence sample_platform (qtime ?d) ?c 0 (new_fence 0 7 (5, 9) 0)"
    by (rule register_wait_pending [OF table_of_one(1)])
      (simp_all add: table_of_one(2) client_data_refused_def zero_client_def)
  then obtain d' i where r: "hw_fence_register_wait_client sample_platform ?d None ?c 5 9 0 0 = Some (d', of_nat i, 0)"
    and w: "hw_fences_tbl d' ! i = waiting_fence sample_platform (qtime ?d) ?c 0 (new_fence 0 7 (5, 9) 0)"
    by blast
  have "hf_wait_client_mask (hw_fences_tbl d' ! i) = 4"
    by (simp add: w BIT_def)
  with r show ?thesis by blast
qed

text \<open>Registering to wait for a fence that is already signaled also delivers the signal, exactly once:
  after the client was recorded in the fence, one message with the fence's context, sequence number,
  index and the given client data is appended to the client's rx queue, and one trigger word is written
  to the IPC controller, with the client's virtual id and signal. The fence's bit in the dma-fence, when
  it has one, is set as well.\<close>

lemma register_wait_signaled:
  assumes "table_inv d" and "(context, seqno) \<noteq> (0, 0)" and "fence_map d (context, seqno) = Some f"
    and "hf_flags f AND MSM_HW_FENCE_FLAG_SIGNAL \<noteq> 0" and "\<not> client_data_refused P c client_data"
    and "cl_client_id c < 64" and "hw_client P c" and "rx_room n d c"
    and "dma_fences d fid = Some df"
  shows "\<exists>d' i. hw_fence_register_wait_client P d (Some fid) c context seqno hash client_data = Some (d', of_nat i, 0) \<and>
    fence_map d' = (fence_map d)((context, seqno) \<mapsto> waiting_fence P (qtime d) c client_data f) \<and>
    dma_fences d' = (dma_fences d)(fid \<mapsto> df\<lparr>df_flags := set_bit (flag_signaled_bit P) (df_flags df)\<rparr>) \<and>
    io_writes d' = io_writes d @ (if cl_send_ipc c then [signal_write d c] else []) \<and>
    (cl_update_rxq c \<longrightarrow>
       ring_items n (client_ring d' c RXQ) = ring_items n (client_ring d c RXQ) @ [signal_msg f i client_data 0])"
proof -
  obtain i where at: "stored_at d (context, seqno) i" and f: "hw_fences_tbl d ! i = f"
    using assms(1,3) by (rule fence_map_stored_at)
  let ?d1 = "set_fence i (waiting_fence P (qtime d) c client_data f) d"
  let ?d2 = "?d1\<lparr>dma_fences := (dma_fences d)(fid \<mapsto> df\<lparr>df_flags := set_bit (flag_signaled_bit P) (df_flags df)\<rparr>)\<rparr>"
  have i: "i < length (hw_fences_tbl d)" using at by (simp add: keyed_at_def)
  have ring: "client_ring ?d2 c RXQ = client_ring d c RXQ" by (simp add: queue_ring_def)
  have msg: "signal_msg (hw_fences_tbl ?d2 ! i) i client_data 0 = signal_msg f i client_data 0"
    using i by (simp add: signal_msg_def)
  have w: "signal_write ?d2 c = signal_write d c" by (simp add: signal_write_def)
  have i2: "i < length (hw_fences_tbl ?d2)" using i by simp
  have "queue_ready n ?d2 c RXQ = queue_ready n d c RXQ" by (simp add: queue_ready_def)
  then have room: "rx_room n ?d2 c" using assms(8) unfolding rx_room_def ring by blast
  obtain q where del: "fence_ctl_signal P ?d2 c i (of_nat i) 0 client_data 0 = Some (sent ?d2 c q)"
    and q: "cl_update_rxq c \<longrightarrow> ring_items n q = ring_items n (client_ring d c RXQ) @ [signal_msg f i client_data 0]"
    by (rule fence_ctl_signal_delivers [OF assms(7) i2 room, where client_data = client_data and error = 0, unfolded ring msg])
  have "hw_fence_register_wait_client P d (Some fid) c context seqno hash client_data = Some (sent ?d2 c q, of_nat i, 0)"
    using register_wait_stored [OF assms(1,2) at assms(5,6), of "Some fid" hash] assms(4,9) del
    by (simp add: f Let_def set_fence_bit_def)
  moreover have "fence_map ?d1 = (fence_map d)((context, seqno) \<mapsto> waiting_fence P (qtime d) c client_data f)"
    using waiting_fence_stored(2) [OF assms(1) at, of P "qtime d" c client_data] by (simp add: f)
  moreover have "cl_update_rxq c \<longrightarrow>
      ring_items n (client_ring (sent ?d2 c q) c RXQ) = ring_items n (client_ring d c RXQ) @ [signal_msg f i client_data 0]"
    using q unfolding sent_ring by simp
  ultimately show ?thesis
    by (intro exI [of _ "sent ?d2 c q"] exI [of _ i]) (simp add: w fence_map_def)
qed

text \<open>A client with an rx queue of two payloads, on a table with one fence.\<close>

definition sample_wait_state :: "msm_hw_fence list \<Rightarrow> hwf" where
  "sample_wait_state tbl = (sample_queue_state 16 16)\<lparr>hw_fences_tbl_va := 0x1000, hw_fences_tbl := tbl,
     hw_fence_table_entries := of_nat (length tbl), rxq_clients_num := 3, clients := [None, None, Some 0, None],
     client_objs := [0 \<mapsto> sample_client\<lparr>cl_update_rxq := True, cl_send_ipc := True,
       cl_ipc_client_vid := 8, cl_ipc_signal_id := 14\<rparr>],
     dma_fences := [0 \<mapsto> \<lparr>df_context = 5, df_seqno = 9, df_flags = 4, df_array = None\<rparr>,
       1 \<mapsto> \<lparr>df_context = 5, df_seqno = 10, df_flags = 4, df_array = None\<rparr>,
       2 \<mapsto> \<lparr>df_context = 6, df_seqno = 1, df_flags = 4,
         df_array = Some \<lparr>fa_num_fences = 2, fa_fences = Some [Some 0, Some 1]\<rparr>\<rparr>,
       3 \<mapsto> \<lparr>df_context = 6, df_seqno = 2, df_flags = 4,
         df_array = Some \<lparr>fa_num_fences = 2, fa_fences = Some [Some 0, Some 2]\<rparr>\<rparr>]\<rparr>"

abbreviation sample_waiter :: msm_hw_fence_client where
  "sample_waiter \<equiv> sample_client\<lparr>cl_update_rxq := True, cl_send_ipc := True,
     cl_ipc_client_vid := 8, cl_ipc_signal_id := 14\<rparr>"

lemma sample_wait_ready:
  "queue_ready 2 (sample_wait_state tbl) sample_waiter RXQ"
  "client_ring (sample_wait_state tbl) sample_waiter RXQ = (16, 16, replicate 32 0)"
  "ring_ok 2 (16, 16, replicate 32 0)" "0 < ring_room 2 (16, 16, replicate 32 0)"
  "ring_items 2 (16, 16, replicate 32 0) = []"
  "hw_client sample_platform sample_waiter"
  by (simp_all add: queue_ready_def sample_wait_state_def sample_queue_state_def sample_client_def zero_client_def
      q_size_u32_def ring_size_def queue_ring_def txq_wm_def ring_ok_def ring_room_def ring_items.simps
      ring_count.simps hw_client_def)

lemma sample_wait_room: "rx_room 2 (sample_wait_state tbl) sample_waiter"
  using sample_wait_ready by (simp add: rx_room_def)

lemma sample_wait_table:
  "table_inv (sample_wait_state tbl) = table_inv (table_of tbl)"
  "fence_map (sample_wait_state tbl) = fence_map (table_of tbl)"
  "free_slots (sample_wait_state tbl) = free_slots (table_of tbl)"
  by (simp_all add: sample_wait_state_def table_of_def table_inv_def table_ok_def keys_unique_def free_clean_def
      fence_map_def free_slots_def)

lemma table_of_signaled:
  defines "d \<equiv> table_of [zero_fence, (new_fence 0 7 (5, 9) 0)\<lparr>hf_flags := 1\<rparr>]"
  shows "table_inv d" "fence_map d = [(5, 9) \<mapsto> (new_fence 0 7 (5, 9) 0)\<lparr>hf_flags := 1\<rparr>]"
  by (simp_all add: d_def table_of_def table_inv_def table_ok_def keys_unique_def keyed_unique_def
      free_clean_def fence_map_def keyed_map_def free_slots_def zero_fence_def key_def new_fence_def)

lemma register_wait_signaled_example:
  "\<exists>d' i. hw_fence_register_wait_client sample_platform
      (sample_wait_state [zero_fence, (new_fence 0 7 (5, 9) 0)\<lparr>hf_flags := 1\<rparr>]) (Some 0) sample_waiter 5 9 0 0 =
      Some (d', of_nat i, 0) \<and>
    ring_items 2 (client_ring d' sample_waiter RXQ) =
      [signal_msg ((new_fence 0 7 (5, 9) 0)\<lparr>hf_flags := 1\<rparr>) i 0 0]"
proof -
  let ?f = "(new_fence 0 7 (5, 9) 0)\<lparr>hf_flags := 1\<rparr>"
  let ?d = "sample_wait_state [zero_fence, ?f]"
  have "\<exists>d' i. hw_fence_register_wait_client sample_platform ?d (Some 0) sample_waiter 5 9 0 0 = Some (d', of_nat i, 0) \<and>
    fence_map d' = (fence_map ?d)((5, 9) \<mapsto> waiting_fence sample_platform (qtime ?d) sample_waiter 0 ?f) \<and>
    dma_fences d' = (dma_fences ?d)(0 \<mapsto> \<lparr>df_context = 5, df_seqno = 9, df_flags = 4, df_array = None\<rparr>
      \<lparr>df_flags := set_bit (flag_signaled_bit sample_platform)
        (df_flags \<lparr>df_context = 5, df_seqno = 9, df_flags = 4, df_array = None\<rparr>)\<rparr>) \<and>
    io_writes d' = io_writes ?d @ (if cl_send_ipc sample_waiter then [signal_write ?d sample_waiter] else []) \<and>
    (cl_update_rxq sample_waiter \<longrightarrow> ring_items 2 (client_ring d' sample_waiter RXQ) =
      ring_items 2 (client_ring ?d sample_waiter RXQ) @ [signal_msg ?f i 0 0])"
    by (rule register_wait_signaled)
      (simp_all only: sample_wait_ready sample_wait_room sample_wait_table table_of_signaled,
        simp_all add: client_data_refused_def sample_client_def zero_client_def MSM_HW_FENCE_FLAG_SIGNAL_def
          BIT_def sample_wait_state_def)
  then show ?thesis
    unfolding sample_wait_ready by auto
qed

text \<open>Registering to wait is refused with \<open>-EINVAL\<close>, and nothing at all changes, if the client passes
  client data without having a place for it or if no fence with the key is in the table.\<close>

lemma register_wait_refused:
  assumes "table_inv d" and "(context, seqno) \<noteq> (0, 0)"
    and "client_data_refused P c client_data \<or> (context, seqno) \<notin> dom (fence_map d)"
  shows "\<exists>hash'. hw_fence_register_wait_client P d fence c context seqno hash client_data =
    Some (d, hash', - EINVAL)"
proof (cases "client_data_refused P c client_data")
  case True
  then show ?thesis by (simp add: hw_fence_register_wait_client_def)
next
  case False
  with assms(3) have "fence_map d (context, seqno) = None" by (simp add: domIff)
  then obtain h' where "msm_hw_fence_find d (Some c) context seqno hash = Some (d, h', None)"
    by (rule find_unknown [OF assms(1,2)])
  with False show ?thesis by (simp add: hw_fence_register_wait_client_def)
qed

lemma register_wait_refused_example:
  "\<exists>hash'. hw_fence_register_wait_client sample_platform (table_of [zero_fence, new_fence 0 7 (5, 9) 0]) None
     sample_client 5 10 0 0 = Some (table_of [zero_fence, new_fence 0 7 (5, 9) 0], hash', - EINVAL)"
  by (rule register_wait_refused [OF table_of_one(1)]) (simp_all add: table_of_one(2))


section \<open>Waiting for an array of fences\<close>

abbreviation signaled :: "msm_hw_fence \<Rightarrow> bool" where
  "signaled f \<equiv> hf_flags f AND MSM_HW_FENCE_FLAG_SIGNAL \<noteq> 0"

definition child_key :: "dma_fence \<Rightarrow> u64 \<times> u64" where
  "child_key f = (df_context f, df_seqno f)"

text \<open>The children of an array, when its list of fences is complete.\<close>

definition array_of :: "hwf \<Rightarrow> dma_fence_array \<Rightarrow> dma_fence list \<Rightarrow> bool" where
  "array_of d arr fs \<longleftrightarrow> length fs = unat (fa_num_fences arr) \<and>
     (\<exists>cs. fa_fences arr = Some cs \<and> list_all2 (\<lambda>c f. \<exists>fid. c = Some fid \<and> dma_fences d fid = Some f) cs fs)"

text \<open>A child that the loop takes: a plain, enabled fence of the table, signaled or with fewer than two parents.\<close>

definition child_accepted :: "platform \<Rightarrow> hwf \<Rightarrow> dma_fence \<Rightarrow> bool" where
  "child_accepted P d f \<longleftrightarrow> df_array f = None \<and> bit (df_flags f) (flag_enabled_bit P) \<and>
     (case fence_map d (child_key f) of None \<Rightarrow> False | Some g \<Rightarrow> signaled g \<or> hf_parents_cnt g < 2)"

definition child_linked :: "u64 \<Rightarrow> msm_hw_fence \<Rightarrow> msm_hw_fence" where
  "child_linked hash g = (if signaled g then g
     else g\<lparr>hf_parents_cnt := hf_parents_cnt g + 1,
            hf_parent_list := (hf_parent_list g)[unat (hf_parents_cnt g) := hash]\<rparr>)"

definition child_done :: "hwf \<Rightarrow> dma_fence \<Rightarrow> bool" where
  "child_done d f \<longleftrightarrow> (case fence_map d (child_key f) of None \<Rightarrow> False | Some g \<Rightarrow> signaled g)"

text \<open>The map after the loop took children with the keys \<open>ks\<close>, \<open>n\<close> of them signaled.\<close>

definition children_linked ::
  "u64 \<Rightarrow> u64 \<times> u64 \<Rightarrow> (u64 \<times> u64) list \<Rightarrow> nat \<Rightarrow> (u64 \<times> u64 \<Rightarrow> msm_hw_fence option) \<Rightarrow> u64 \<times> u64 \<Rightarrow> msm_hw_fence option"
where
  "children_linked hash jk ks n m = (\<lambda>k.
     if k = jk then map_option (\<lambda>j. j\<lparr>hf_pending_child_cnt := hf_pending_child_cnt j - of_nat n\<rparr>) (m k)
     else if k \<in> set ks then map_option (child_linked hash) (m k) else m k)"

lemma child_linked_fields [simp]:
  "hf_valid (child_linked h g) = hf_valid g" "key (child_linked h g) = key g"
  "hf_lock (child_linked h g) = hf_lock g" "hf_flags (child_linked h g) = hf_flags g"
  by (simp_all add: child_linked_def key_def)

lemma array_child:
  assumes "array_of d arr fs" and "i < length fs"
  obtains cs fid where "fa_fences arr = Some cs" "fetch cs i = Some (Some fid)" "dma_fences d fid = Some (fs ! i)"
proof -
  obtain cs where cs: "fa_fences arr = Some cs"
    "list_all2 (\<lambda>c f. \<exists>fid. c = Some fid \<and> dma_fences d fid = Some f) cs fs"
    using assms(1) by (auto simp: array_of_def)
  then have "length cs = length fs" "\<exists>fid. cs ! i = Some fid \<and> dma_fences d fid = Some (fs ! i)"
    using assms(2) by (simp_all add: list_all2_conv_all_nth)
  with cs(1) assms(2) show thesis
    by (auto simp: fetch_eq_Some dest: that)
qed

lemma stored_at_replace:
  assumes "stored_at d k i" and "valid_fence f" and "key f = k"
  shows "stored_at (set_fence i f d) k' j = stored_at d k' j"
  using assms by (auto simp: keyed_at_def nth_list_update)

lemma relocked:
  "hf_lock f = 0 \<Longrightarrow> f\<lparr>hf_lock := 1, hf_lock := 0\<rparr> = f"
  by (cases f) simp

lemma lock_unlock:
  assumes "i < length (hw_fences_tbl d)" and "hf_lock (hw_fences_tbl d ! i) = 0"
  shows "global_atomic_store (set_fence i ((hw_fences_tbl d ! i)\<lparr>hf_lock := 1\<rparr>) d) (FenceLock i) False = Some d"
  using assms by (simp add: relock fence_relock)

lemma below_2: "(n :: u32) < 2 \<Longrightarrow> n = 0 \<or> n = 1"
proof -
  assume "n < 2"
  then have "unat n = 0 \<or> unat n = 1" by (auto simp: word_less_nat_alt)
  then show ?thesis by (auto simp: word_unat_eq_iff)
qed

text \<open>Step for a child that is not signaled.\<close>

lemma process_child_pending:
  assumes inv: "table_inv d" and arr: "array_of d arr fs" and i: "i < length fs"
    and ok: "child_accepted P d (fs ! i)" and nz: "child_key (fs ! i) \<noteq> (0, 0)"
    and at: "stored_at d (child_key (fs ! i)) k" and un: "\<not> signaled (hw_fences_tbl d ! k)"
  shows "process_children P c arr jf hash (i # is) sig d =
    process_children P c arr jf hash is sig (set_fence k (child_linked hash (hw_fences_tbl d ! k)) d)"
proof -
  obtain cs fid where ch: "fa_fences arr = Some cs" "fetch cs i = Some (Some fid)" "dma_fences d fid = Some (fs ! i)"
    using arr i by (rule array_child)
  note ff = free_fence [OF inv at]
  have find: "msm_hw_fence_find d (Some c) (df_context (fs ! i)) (df_seqno (fs ! i)) 0 = Some (d, of_nat k, Some k)"
    using find_stored [OF inv _ at [unfolded child_key_def]] nz by (simp add: child_key_def)
  have few: "hf_parents_cnt (hw_fences_tbl d ! k) < 2"
    using ok un by (simp add: child_accepted_def stored_fence_map [OF inv at])
  have bounds: "\<not> 3 \<le> hf_parents_cnt (hw_fences_tbl d ! k) + 1" "\<not> hf_parents_cnt (hw_fences_tbl d ! k) + 1 < 1"
    using below_2 [OF few] by (auto simp: word_le_nat_alt)
  have g: "((hw_fences_tbl d ! k)\<lparr>hf_lock := 1, hf_parents_cnt := n, hf_parent_list := l\<rparr>)\<lparr>hf_lock := 0\<rparr> =
      (hw_fences_tbl d ! k)\<lparr>hf_parents_cnt := n, hf_parent_list := l\<rparr>" for n l
    using ff(2) by (cases "hw_fences_tbl d ! k") simp
  have un': "global_atomic_store (set_fence k ((hw_fences_tbl d ! k)\<lparr>hf_lock := 1,
        hf_parents_cnt := n, hf_parent_list := l\<rparr>) d) (FenceLock k) False =
      Some (set_fence k ((hw_fences_tbl d ! k)\<lparr>hf_parents_cnt := n, hf_parent_list := l\<rparr>) d)" for n l
    using ff by (subst relock) (simp_all only: g, simp_all)
  have acc: "df_array (fs ! i) = None" "bit (df_flags (fs ! i)) (flag_enabled_bit P)"
    using ok by (simp_all add: child_accepted_def)
  show ?thesis
    using ff un bounds
    by (simp add: process_array_child_def ch find acc fence_lock un' child_linked_def Let_def)
qed

text \<open>Step for a signaled child: the join fence has one child fewer to wait for.\<close>

lemma process_child_signaled:
  assumes inv: "table_inv d" and arr: "array_of d arr fs" and i: "i < length fs"
    and ok: "child_accepted P d (fs ! i)" and nz: "child_key (fs ! i) \<noteq> (0, 0)"
    and at: "stored_at d (child_key (fs ! i)) k" and sg: "signaled (hw_fences_tbl d ! k)"
    and jat: "stored_at d jk jf" and ne: "child_key (fs ! i) \<noteq> jk"
  defines "j' \<equiv> (hw_fences_tbl d ! jf)\<lparr>hf_pending_child_cnt := hf_pending_child_cnt (hw_fences_tbl d ! jf) - 1\<rparr>"
  shows "process_children P c arr jf hash (i # is) sig d =
    process_children P c arr jf hash is (sig \<or> hf_pending_child_cnt j' = 0) (set_fence jf j' d)"
proof -
  obtain cs fid where ch: "fa_fences arr = Some cs" "fetch cs i = Some (Some fid)" "dma_fences d fid = Some (fs ! i)"
    using arr i by (rule array_child)
  note ff = free_fence [OF inv at] and jff = free_fence [OF inv jat]
  have find: "msm_hw_fence_find d (Some c) (df_context (fs ! i)) (df_seqno (fs ! i)) 0 = Some (d, of_nat k, Some k)"
    using find_stored [OF inv _ at [unfolded child_key_def]] nz by (simp add: child_key_def)
  have kj: "k \<noteq> jf" using at jat ne by (auto simp: keyed_at_def)
  let ?dl = "set_fence k ((hw_fences_tbl d ! k)\<lparr>hf_lock := 1\<rparr>) d"
  have jl: "global_atomic_store ?dl (FenceLock jf) True =
      Some (set_fence jf ((hw_fences_tbl d ! jf)\<lparr>hf_lock := 1\<rparr>) ?dl)"
    using fence_lock [of jf ?dl] kj jff by simp
  have ju: "global_atomic_store (set_fence jf ((hw_fences_tbl d ! jf)\<lparr>hf_lock := 1, hf_pending_child_cnt := n\<rparr>) ?dl)
      (FenceLock jf) False = Some (set_fence jf ((hw_fences_tbl d ! jf)\<lparr>hf_pending_child_cnt := n\<rparr>) ?dl)" for n
  proof -
    have "((hw_fences_tbl d ! jf)\<lparr>hf_lock := 1, hf_pending_child_cnt := n\<rparr>)\<lparr>hf_lock := 0\<rparr>
        = (hw_fences_tbl d ! jf)\<lparr>hf_pending_child_cnt := n\<rparr>"
      using jff(2) by (cases "hw_fences_tbl d ! jf") simp
    with jff(1) show ?thesis by (subst relock) (simp_all only: set_fence_tbl length_list_update, simp_all)
  qed
  have swap: "set_fence jf x ?dl = set_fence k ((hw_fences_tbl d ! k)\<lparr>hf_lock := 1\<rparr>) (set_fence jf x d)" for x
    using kj by (simp add: set_fence_def list_update_swap)
  have ku: "global_atomic_store (set_fence jf x ?dl) (FenceLock k) False = Some (set_fence jf x d)" for x
    using lock_unlock [of k "set_fence jf x d"] ff kj by (simp add: swap)
  have acc: "df_array (fs ! i) = None" "bit (df_flags (fs ! i)) (flag_enabled_bit P)"
    using ok by (simp_all add: child_accepted_def)
  show ?thesis
    using ff jff(1) sg kj
    by (simp add: process_array_child_def ch find acc fence_lock jl ju ku j'_def Let_def)
qed

text \<open>The fields that the loop leaves alone: it only changes the table.\<close>

lemma array_of_tbl [simp]: "array_of (d\<lparr>hw_fences_tbl := t\<rparr>) arr fs = array_of d arr fs"
  by (simp add: array_of_def)

lemma children_linked_Nil: "jk \<notin> set ks \<Longrightarrow> children_linked hash jk [] 0 m = m"
  by (auto simp: children_linked_def fun_eq_iff map_option_case split: option.split)

text \<open>One child, in terms of the map.\<close>

lemma process_child:
  assumes inv: "table_inv d" and arr: "array_of d arr fs" and i: "i < length fs"
    and ok: "child_accepted P d (fs ! i)" and nz: "child_key (fs ! i) \<noteq> (0, 0)"
    and jat: "stored_at d jk jf" and ne: "child_key (fs ! i) \<noteq> jk"
  defines "n \<equiv> if child_done d (fs ! i) then 1 else 0 :: nat"
  shows "\<exists>t. process_children P c arr jf hash (i # is) sig d =
      process_children P c arr jf hash is
        (sig \<or> n = 1 \<and> hf_pending_child_cnt (hw_fences_tbl d ! jf) = 1) (d\<lparr>hw_fences_tbl := t\<rparr>) \<and>
    table_inv (d\<lparr>hw_fences_tbl := t\<rparr>) \<and> stored_at (d\<lparr>hw_fences_tbl := t\<rparr>) jk jf \<and>
    hf_pending_child_cnt (t ! jf) = hf_pending_child_cnt (hw_fences_tbl d ! jf) - of_nat n \<and>
    fence_map (d\<lparr>hw_fences_tbl := t\<rparr>) = children_linked hash jk [child_key (fs ! i)] n (fence_map d)"
proof -
  obtain g where "fence_map d (child_key (fs ! i)) = Some g"
    using ok by (auto simp: child_accepted_def split: option.splits)
  then obtain k where at: "stored_at d (child_key (fs ! i)) k" and g: "hw_fences_tbl d ! k = g"
    using inv by (metis fence_map_stored_at)
  have m: "fence_map d (child_key (fs ! i)) = Some g" "fence_map d jk = Some (hw_fences_tbl d ! jf)"
    using stored_fence_map [OF inv at] stored_fence_map [OF inv jat] g by simp_all
  have kv: "valid_fence g" "key g = child_key (fs ! i)" "hf_lock g = 0"
    using at g free_fence(2) [OF inv at] by (simp_all add: keyed_at_def)
  have jv: "jf < length (hw_fences_tbl d)" "valid_fence (hw_fences_tbl d ! jf)" "key (hw_fences_tbl d ! jf) = jk"
    "hf_lock (hw_fences_tbl d ! jf) = 0"
    using jat free_fence(2) [OF inv jat] by (simp_all add: keyed_at_def)
  have kj: "k \<noteq> jf" using at jat ne by (auto simp: keyed_at_def)
  have dn: "child_done d (fs ! i) = signaled g" by (simp add: child_done_def m)
  show ?thesis
  proof (cases "signaled g")
    case True
    let ?j = "(hw_fences_tbl d ! jf)\<lparr>hf_pending_child_cnt := hf_pending_child_cnt (hw_fences_tbl d ! jf) - 1\<rparr>"
    have j: "valid_fence ?j" "key ?j = jk" "hf_lock ?j = 0" using jv by (simp_all add: key_def)
    have "(hf_pending_child_cnt (hw_fences_tbl d ! jf) - 1 = 0) = (hf_pending_child_cnt (hw_fences_tbl d ! jf) = 1)"
      by auto
    moreover have "(fence_map d)(jk \<mapsto> ?j) = children_linked hash jk [child_key (fs ! i)] 1 (fence_map d)"
      using True ne by (auto simp: children_linked_def m child_linked_def fun_eq_iff)
    moreover have "process_children P c arr jf hash (i # is) sig d = process_children P c arr jf hash is
        (sig \<or> hf_pending_child_cnt ?j = 0) (set_fence jf ?j d)"
      by (rule process_child_signaled [OF inv arr i ok nz at _ jat ne]) (simp add: g True)
    ultimately show ?thesis
      using table_inv_replace [OF inv jat j] stored_at_replace [OF jat j(1,2), of jk jf] jat jv(1) True
      by (intro exI [of _ "(hw_fences_tbl d)[jf := ?j]"]) (simp add: dn n_def set_fence_def)
  next
    case False
    let ?g = "child_linked hash g"
    have g': "valid_fence ?g" "key ?g = child_key (fs ! i)" "hf_lock ?g = 0" using kv by simp_all
    have "(fence_map d)(child_key (fs ! i) \<mapsto> ?g) = children_linked hash jk [child_key (fs ! i)] 0 (fence_map d)"
      using ne by (auto simp: children_linked_def m fun_eq_iff)
    moreover have "process_children P c arr jf hash (i # is) sig d =
        process_children P c arr jf hash is sig (set_fence k ?g d)"
      using process_child_pending [OF inv arr i ok nz at, of c jf hash "is" sig] False by (simp add: g)
    ultimately show ?thesis
      using table_inv_replace [OF inv at g'] stored_at_replace [OF at g'(1,2), of jk jf] jat kj False
      by (intro exI [of _ "(hw_fences_tbl d)[k := ?g]"]) (simp add: dn n_def set_fence_def)
  qed
qed

text \<open>How acceptance of the other children looks after one child was taken.\<close>

lemma accepted_after:
  assumes "fence_map d' = children_linked hash jk [child_key f] n (fence_map d)"
    and "child_key f' \<noteq> child_key f" and "child_key f' \<noteq> jk"
  shows "child_accepted P d' f' = child_accepted P d f'" and "child_done d' f' = child_done d f'"
  using assms by (simp_all add: child_accepted_def child_done_def children_linked_def)

lemma children_linked_Cons:
  assumes "k \<notin> set ks"
  shows "children_linked hash jk ks n (children_linked hash jk [k] n' m) = children_linked hash jk (k # ks) (n + n') m"
  using assms
  by (auto simp: children_linked_def fun_eq_iff option.map_comp comp_def algebra_simps
      intro!: option.map_cong)

abbreviation done_count :: "hwf \<Rightarrow> dma_fence list \<Rightarrow> nat list \<Rightarrow> nat" where
  "done_count d fs is \<equiv> length (filter (\<lambda>i. child_done d (fs ! i)) is)"

text \<open>The loop over children that are all taken.\<close>

lemma process_children_accepted:
  assumes "table_inv d" and "array_of d arr fs" and "stored_at d jk jf"
    and "distinct (map (\<lambda>i. child_key (fs ! i)) is)"
    and "\<forall>i\<in>set is. i < length fs \<and> child_accepted P d (fs ! i) \<and> child_key (fs ! i) \<noteq> (0, 0) \<and> child_key (fs ! i) \<noteq> jk"
    and "hf_pending_child_cnt (hw_fences_tbl d ! jf) = of_nat p" and "length is \<le> p" and "p < 2 ^ 32"
  shows "\<exists>t. process_children P c arr jf hash is sig d =
      Some (d\<lparr>hw_fences_tbl := t\<rparr>, Inr (sig \<or> 0 < p \<and> done_count d fs is = p)) \<and>
    table_inv (d\<lparr>hw_fences_tbl := t\<rparr>) \<and> stored_at (d\<lparr>hw_fences_tbl := t\<rparr>) jk jf \<and>
    fence_map (d\<lparr>hw_fences_tbl := t\<rparr>) =
      children_linked hash jk (map (\<lambda>i. child_key (fs ! i)) is) (done_count d fs is) (fence_map d)"
  using assms
proof (induction "is" arbitrary: d sig p)
  case Nil
  then show ?case
    by (intro exI [of _ "hw_fences_tbl d"]) (auto simp: children_linked_Nil [of _ "[]"])
next
  case (Cons i "is")
  let ?n = "if child_done d (fs ! i) then 1 else 0 :: nat"
  obtain t where step: "process_children P c arr jf hash (i # is) sig d =
      process_children P c arr jf hash is
        (sig \<or> ?n = 1 \<and> hf_pending_child_cnt (hw_fences_tbl d ! jf) = 1) (d\<lparr>hw_fences_tbl := t\<rparr>)"
    and inv: "table_inv (d\<lparr>hw_fences_tbl := t\<rparr>)" and jat: "stored_at (d\<lparr>hw_fences_tbl := t\<rparr>) jk jf"
    and pend: "hf_pending_child_cnt (t ! jf) = hf_pending_child_cnt (hw_fences_tbl d ! jf) - of_nat ?n"
    and map: "fence_map (d\<lparr>hw_fences_tbl := t\<rparr>) = children_linked hash jk [child_key (fs ! i)] ?n (fence_map d)"
    using process_child [OF Cons.prems(1,2) _ _ _ Cons.prems(3), of i P c hash "is" sig] Cons.prems(5) by auto
  let ?d = "d\<lparr>hw_fences_tbl := t\<rparr>"
  have other: "child_accepted P ?d (fs ! i') = child_accepted P d (fs ! i')"
    "child_done ?d (fs ! i') = child_done d (fs ! i')" if "i' \<in> set is" for i'
  proof -
    have "child_key (fs ! i') \<noteq> child_key (fs ! i)"
      using that Cons.prems(4) by (metis (no_types, lifting) distinct.simps(2) image_eqI list.set_map list.simps(9))
    moreover have "child_key (fs ! i') \<noteq> jk" using that Cons.prems(5) by simp
    ultimately show "child_accepted P ?d (fs ! i') = child_accepted P d (fs ! i')"
      "child_done ?d (fs ! i') = child_done d (fs ! i')"
      using accepted_after [OF map, of "fs ! i'"] by simp_all
  qed
  have cnt: "done_count ?d fs is = done_count d fs is"
    by (intro arg_cong [where f = length] filter_cong) (simp_all add: other(2))
  have np: "?n \<le> p" "1 \<le> p" using Cons.prems(7) by auto
  have "\<exists>t'. process_children P c arr jf hash is
        (sig \<or> ?n = 1 \<and> hf_pending_child_cnt (hw_fences_tbl d ! jf) = 1) ?d =
      Some (?d\<lparr>hw_fences_tbl := t'\<rparr>, Inr ((sig \<or> ?n = 1 \<and> hf_pending_child_cnt (hw_fences_tbl d ! jf) = 1) \<or>
        0 < p - ?n \<and> done_count ?d fs is = p - ?n)) \<and>
    table_inv (?d\<lparr>hw_fences_tbl := t'\<rparr>) \<and> stored_at (?d\<lparr>hw_fences_tbl := t'\<rparr>) jk jf \<and>
    fence_map (?d\<lparr>hw_fences_tbl := t'\<rparr>) =
      children_linked hash jk (map (\<lambda>i. child_key (fs ! i)) is) (done_count ?d fs is) (fence_map ?d)"
  proof (rule Cons.IH [OF inv _ jat])
    show "array_of ?d arr fs" using Cons.prems(2) by simp
    show "distinct (map (\<lambda>i. child_key (fs ! i)) is)" using Cons.prems(4) by simp
    show "\<forall>i\<in>set is. i < length fs \<and> child_accepted P ?d (fs ! i) \<and> child_key (fs ! i) \<noteq> (0, 0) \<and> child_key (fs ! i) \<noteq> jk"
      using Cons.prems(5) other(1) by auto
    show "hf_pending_child_cnt (hw_fences_tbl ?d ! jf) = of_nat (p - ?n)"
      using pend Cons.prems(6) np(1) by (simp add: of_nat_diff)
    show "length is \<le> p - ?n" using Cons.prems(7) by auto
    show "p - ?n < 2 ^ 32" using Cons.prems(8) by simp
  qed
  then obtain t' where t': "process_children P c arr jf hash is
        (sig \<or> ?n = 1 \<and> hf_pending_child_cnt (hw_fences_tbl d ! jf) = 1) ?d =
      Some (?d\<lparr>hw_fences_tbl := t'\<rparr>, Inr ((sig \<or> ?n = 1 \<and> hf_pending_child_cnt (hw_fences_tbl d ! jf) = 1) \<or>
        0 < p - ?n \<and> done_count ?d fs is = p - ?n))"
    "table_inv (?d\<lparr>hw_fences_tbl := t'\<rparr>)" "stored_at (?d\<lparr>hw_fences_tbl := t'\<rparr>) jk jf"
    "fence_map (?d\<lparr>hw_fences_tbl := t'\<rparr>) =
      children_linked hash jk (map (\<lambda>i. child_key (fs ! i)) is) (done_count ?d fs is) (fence_map ?d)"
    by blast
  have one: "(hf_pending_child_cnt (hw_fences_tbl d ! jf) = 1) = (p = 1)"
  proof -
    have "(of_nat p = (1 :: u32)) = (p = 1)"
      using Cons.prems(8) of_nat_inverse [of p "1 :: u32"] by (auto simp: unat_of_nat)
    then show ?thesis by (simp add: Cons.prems(6))
  qed
  have cntl: "done_count d fs is \<le> length is" by (rule length_filter_le)
  have flag: "((sig \<or> ?n = 1 \<and> hf_pending_child_cnt (hw_fences_tbl d ! jf) = 1) \<or>
        0 < p - ?n \<and> done_count ?d fs is = p - ?n) = (sig \<or> 0 < p \<and> done_count d fs (i # is) = p)"
    using np Cons.prems(7) cntl by (auto simp: one cnt)
  have "child_key (fs ! i) \<notin> set (map (\<lambda>i. child_key (fs ! i)) is)" using Cons.prems(4) by auto
  from children_linked_Cons [OF this, of hash jk "done_count d fs is" ?n "fence_map d"]
  have "fence_map (?d\<lparr>hw_fences_tbl := t'\<rparr>) = children_linked hash jk (map (\<lambda>i. child_key (fs ! i)) (i # is))
      (done_count d fs (i # is)) (fence_map d)"
    using t'(4) by (simp add: map cnt split: if_splits)
  with t'(1-3) show ?case unfolding step flag
    by (intro exI [of _ t']) simp
qed


text \<open>Taking a parent out of a child again.\<close>

definition parent_dropped :: "u64 \<Rightarrow> msm_hw_fence \<Rightarrow> msm_hw_fence" where
  "parent_dropped hash g = drop_parent hash (parents_to_check g) g"

lemma drop_parent_fields [simp]:
  "hf_valid (drop_parent h n g) = hf_valid g" "key (drop_parent h n g) = key g"
  "hf_lock (drop_parent h n g) = hf_lock g" "hf_flags (drop_parent h n g) = hf_flags g"
  by (induction n arbitrary: g) (simp_all add: key_def)

lemma drop_parent_absent: "\<forall>j<n. hf_parent_list g ! j \<noteq> hash \<Longrightarrow> drop_parent hash n g = g"
  by (induction n) simp_all

lemma drop_parent_locked: "drop_parent h n (g\<lparr>hf_lock := l\<rparr>) = (drop_parent h n g)\<lparr>hf_lock := l\<rparr>"
proof (induction n arbitrary: g)
  case 0
  then show ?case by simp
next
  case (Suc n)
  have "g\<lparr>hf_lock := l, hf_parent_list := p, hf_parents_cnt := m\<rparr> = g\<lparr>hf_parent_list := p, hf_parents_cnt := m\<rparr>\<lparr>hf_lock := l\<rparr>"
    for p m by simp
  then show ?case by (simp only: drop_parent.simps if_distrib [of "drop_parent h n"]) (simp add: Suc)
qed

text \<open>
  The parents of every fence: the first \<open>parents_cnt\<close> entries of its list are fences of the table, the
  others are the invalid value.
\<close>

definition parents_ok :: "hwf \<Rightarrow> bool" where
  "parents_ok d \<longleftrightarrow> list_all (\<lambda>f. valid_fence f \<longrightarrow>
     length (hf_parent_list f) = 3 \<and> (\<forall>j<3. if j < unat (hf_parents_cnt f)
       then \<exists>i<length (hw_fences_tbl d). valid_fence (hw_fences_tbl d ! i) \<and> hf_parent_list f ! j = of_nat i
       else hf_parent_list f ! j = HW_FENCE_INVALID_PARENT_FENCE)) (hw_fences_tbl d)"

lemma parents_okD:
  assumes inv: "table_inv d" and ok: "parents_ok d" and f: "fence_map d k = Some f"
    and jf: "jf < length (hw_fences_tbl d)" "\<not> valid_fence (hw_fences_tbl d ! jf)"
  shows "length (hf_parent_list f) = 3" and "\<forall>j<3. hf_parent_list f ! j \<noteq> of_nat jf"
    and "unat (hf_parents_cnt f) \<le> j \<Longrightarrow> j < 3 \<Longrightarrow> hf_parent_list f ! j = HW_FENCE_INVALID_PARENT_FENCE"
proof -
  obtain i where "stored_at d k i" "hw_fences_tbl d ! i = f" using inv f by (rule fence_map_stored_at)
  then have all: "length (hf_parent_list f) = 3" "\<forall>j<3. if j < unat (hf_parents_cnt f)
       then \<exists>i<length (hw_fences_tbl d). valid_fence (hw_fences_tbl d ! i) \<and> hf_parent_list f ! j = of_nat i
       else hf_parent_list f ! j = HW_FENCE_INVALID_PARENT_FENCE"
    using ok by (auto simp: parents_ok_def keyed_at_def list_all_length)
  then show "length (hf_parent_list f) = 3"
    and "unat (hf_parents_cnt f) \<le> j \<Longrightarrow> j < 3 \<Longrightarrow> hf_parent_list f ! j = HW_FENCE_INVALID_PARENT_FENCE"
    by (simp, metis not_le)
  have tok: "table_ok d" using inv by (simp add: table_inv_def)
  have "(of_nat i :: u64) \<noteq> of_nat jf" if "i < length (hw_fences_tbl d)" "valid_fence (hw_fences_tbl d ! i)" for i
    using that jf unat_slot [OF tok that(1)] unat_slot [OF tok jf(1)] by metis
  moreover have "(of_nat jf :: u64) \<noteq> HW_FENCE_INVALID_PARENT_FENCE"
  proof
    assume "(of_nat jf :: u64) = HW_FENCE_INVALID_PARENT_FENCE"
    then have "jf = unat (- 1 :: u64)"
      using unat_slot [OF tok jf(1)] by (simp add: HW_FENCE_INVALID_PARENT_FENCE_def)
    moreover have "jf < 2 ^ LENGTH(32)"
      using jf(1) table_okD(3) [OF tok] unsigned_less [of "hw_fence_table_entries d"]
      by (metis less_trans)
    ultimately show False by (simp add: unsigned_minus_1_eq_mask mask_eq_exp_minus_1)
  qed
  ultimately show "\<forall>j<3. hf_parent_list f ! j \<noteq> of_nat jf"
    using all(2) by metis
qed

lemma parent_dropped_absent: "\<forall>j<3. hf_parent_list g ! j \<noteq> hash \<Longrightarrow> parent_dropped hash g = g"
  unfolding parent_dropped_def by (rule drop_parent_absent) (simp add: parents_to_check_def)

lemma parent_dropped_linked:
  assumes absent: "\<forall>j<3. hf_parent_list g ! j \<noteq> hash" and len: "length (hf_parent_list g) = 3"
    and few: "signaled g \<or> hf_parents_cnt g < 2"
    and free: "\<And>j. unat (hf_parents_cnt g) \<le> j \<Longrightarrow> j < 3 \<Longrightarrow> hf_parent_list g ! j = HW_FENCE_INVALID_PARENT_FENCE"
  shows "parent_dropped hash (child_linked hash g) = g"
proof (cases "signaled g")
  case True
  with absent show ?thesis by (simp add: child_linked_def parent_dropped_absent)
next
  case False
  let ?n = "unat (hf_parents_cnt g)"
  have n: "hf_parents_cnt g = 0 \<or> hf_parents_cnt g = 1" using few False below_2 by blast
  then have n3: "?n < 3" by auto
  have check: "parents_to_check (child_linked hash g) = Suc ?n" and nz: "hf_parents_cnt g + 1 \<noteq> 0"
    using n False by (auto simp: parents_to_check_def child_linked_def c_int_def)
  have inv: "HW_FENCE_INVALID_PARENT_FENCE = hf_parent_list g ! ?n" using free [of ?n] n3 by simp
  have "parent_dropped hash (child_linked hash g) = drop_parent hash ?n g"
    using False n3 len nz
    by (simp add: parent_dropped_def check) (simp add: child_linked_def inv)
  also have "\<dots> = g" using absent n3 by (intro drop_parent_absent) auto
  finally show ?thesis .
qed

text \<open>The removal loop, in terms of the map: it never fails on children that are there.\<close>

lemma cleanup_child_map:
  assumes inv: "table_inv d" and arr: "array_of d arr fs" and i: "i < length fs"
    and nz: "child_key (fs ! i) \<noteq> (0, 0)"
  shows "\<exists>t. cleanup_child c arr hash i d = Some (d\<lparr>hw_fences_tbl := t\<rparr>) \<and> table_inv (d\<lparr>hw_fences_tbl := t\<rparr>) \<and>
    fence_map (d\<lparr>hw_fences_tbl := t\<rparr>) = (\<lambda>k. if k = child_key (fs ! i)
      then map_option (parent_dropped hash) (fence_map d k) else fence_map d k)"
proof -
  obtain cs fid where ch: "fa_fences arr = Some cs" "fetch cs i = Some (Some fid)" "dma_fences d fid = Some (fs ! i)"
    using arr i by (rule array_child)
  have nz': "(df_context (fs ! i), df_seqno (fs ! i)) \<noteq> (0, 0)" using nz by (simp add: child_key_def)
  show ?thesis
  proof (cases "fence_map d (child_key (fs ! i))")
    case None
    then obtain h' where "msm_hw_fence_find d (Some c) (df_context (fs ! i)) (df_seqno (fs ! i)) 0 = Some (d, h', None)"
      using find_unknown [OF inv nz', of "Some c" 0] unfolding child_key_def by blast
    with None inv ch show ?thesis
      by (intro exI [of _ "hw_fences_tbl d"]) (auto simp: cleanup_child_def fun_eq_iff)
  next
    case (Some g)
    with inv obtain k where at: "stored_at d (child_key (fs ! i)) k" and g: "hw_fences_tbl d ! k = g"
      by (rule fence_map_stored_at)
    note ff = free_fence [OF inv at]
    have find: "msm_hw_fence_find d (Some c) (df_context (fs ! i)) (df_seqno (fs ! i)) 0 = Some (d, of_nat k, Some k)"
      using find_stored [OF inv nz' at [unfolded child_key_def]] .
    have pc: "parents_to_check (g\<lparr>hf_lock := 1\<rparr>) = parents_to_check g" by (simp add: parents_to_check_def)
    have l0: "(drop_parent hash (parents_to_check g) g)\<lparr>hf_lock := 1, hf_lock := 0\<rparr> = parent_dropped hash g"
      using ff(2) g relocked [of "parent_dropped hash g"] by (simp add: parent_dropped_def)
    have un: "global_atomic_store (set_fence k ((drop_parent hash (parents_to_check g) g)\<lparr>hf_lock := 1\<rparr>) d)
        (FenceLock k) False = Some (set_fence k (parent_dropped hash g) d)"
      using ff(1) by (subst relock) (simp_all only: l0, simp_all)
    have step: "cleanup_child c arr hash i d = Some (set_fence k (parent_dropped hash g) d)"
      using ff g by (simp add: cleanup_child_def ch find fence_lock pc drop_parent_locked un)
    have p: "valid_fence (parent_dropped hash g)" "key (parent_dropped hash g) = child_key (fs ! i)"
      "hf_lock (parent_dropped hash g) = 0"
      using at g ff(2) by (simp_all add: parent_dropped_def keyed_at_def)
    show ?thesis
      using table_inv_replace [OF inv at p] Some step
      by (intro exI [of _ "(hw_fences_tbl d)[k := parent_dropped hash g]"])
        (auto simp: set_fence_def fun_eq_iff)
  qed
qed

lemma cleanup_children_map:
  assumes "table_inv d" and "array_of d arr fs" and "distinct (map (\<lambda>i. child_key (fs ! i)) is)"
    and "\<forall>i\<in>set is. i < length fs \<and> child_key (fs ! i) \<noteq> (0, 0)"
  shows "\<exists>t. chain (cleanup_child c arr hash) is d = Some (d\<lparr>hw_fences_tbl := t\<rparr>) \<and> table_inv (d\<lparr>hw_fences_tbl := t\<rparr>) \<and>
    fence_map (d\<lparr>hw_fences_tbl := t\<rparr>) = (\<lambda>k. if k \<in> set (map (\<lambda>i. child_key (fs ! i)) is)
      then map_option (parent_dropped hash) (fence_map d k) else fence_map d k)"
  using assms
proof (induction "is" arbitrary: d)
  case Nil
  then show ?case by (intro exI [of _ "hw_fences_tbl d"]) simp
next
  case (Cons i "is")
  obtain t where t: "cleanup_child c arr hash i d = Some (d\<lparr>hw_fences_tbl := t\<rparr>)" "table_inv (d\<lparr>hw_fences_tbl := t\<rparr>)"
    "fence_map (d\<lparr>hw_fences_tbl := t\<rparr>) = (\<lambda>k. if k = child_key (fs ! i)
      then map_option (parent_dropped hash) (fence_map d k) else fence_map d k)"
    using cleanup_child_map [OF Cons.prems(1,2), of i c hash] Cons.prems(4) by auto
  have "\<exists>t'. chain (cleanup_child c arr hash) is (d\<lparr>hw_fences_tbl := t\<rparr>) =
      Some (d\<lparr>hw_fences_tbl := t\<rparr>\<lparr>hw_fences_tbl := t'\<rparr>) \<and> table_inv (d\<lparr>hw_fences_tbl := t\<rparr>\<lparr>hw_fences_tbl := t'\<rparr>) \<and>
    fence_map (d\<lparr>hw_fences_tbl := t\<rparr>\<lparr>hw_fences_tbl := t'\<rparr>) = (\<lambda>k. if k \<in> set (map (\<lambda>i. child_key (fs ! i)) is)
      then map_option (parent_dropped hash) (fence_map (d\<lparr>hw_fences_tbl := t\<rparr>) k)
      else fence_map (d\<lparr>hw_fences_tbl := t\<rparr>) k)"
    by (rule Cons.IH [OF t(2)]) (use Cons.prems in auto)
  then obtain t' where t': "chain (cleanup_child c arr hash) is (d\<lparr>hw_fences_tbl := t\<rparr>) = Some (d\<lparr>hw_fences_tbl := t'\<rparr>)"
    "table_inv (d\<lparr>hw_fences_tbl := t'\<rparr>)"
    "fence_map (d\<lparr>hw_fences_tbl := t'\<rparr>) = (\<lambda>k. if k \<in> set (map (\<lambda>i. child_key (fs ! i)) is)
      then map_option (parent_dropped hash) (fence_map (d\<lparr>hw_fences_tbl := t\<rparr>) k)
      else fence_map (d\<lparr>hw_fences_tbl := t\<rparr>) k)"
    by auto
  have "fence_map (d\<lparr>hw_fences_tbl := t'\<rparr>) = (\<lambda>k. if k \<in> set (map (\<lambda>i. child_key (fs ! i)) (i # is))
      then map_option (parent_dropped hash) (fence_map d k) else fence_map d k)"
    unfolding t'(3) t(3) using Cons.prems(3) by (auto simp: fun_eq_iff)
  with t(1) t'(1,2) show ?case by (intro exI [of _ t']) simp
qed


text \<open>The join fence is in the table, waits for all children, and has the client in its wait mask.\<close>

definition join_fence :: "u64 \<Rightarrow> u32 \<Rightarrow> u64 \<times> u64 \<Rightarrow> u32 \<Rightarrow> msm_hw_fence" where
  "join_fence now cid jk n =
     (new_fence now HW_FENCE_JOIN_FENCE_CLIENT_ID jk n)\<lparr>hf_wait_client_mask := BIT cid\<rparr>"

lemma join_fence_fields [simp]:
  "hf_valid (join_fence t cid jk n) = 1" "key (join_fence t cid jk n) = jk" "hf_lock (join_fence t cid jk n) = 0"
  "hf_pending_child_cnt (join_fence t cid jk n) = n"
  by (simp_all add: join_fence_def new_fence_def key_def)

definition array_start :: "platform \<Rightarrow> hwf \<Rightarrow> msm_hw_fence_client \<Rightarrow> dma_fence \<Rightarrow> dma_fence_array \<Rightarrow> nat \<Rightarrow> hwf" where
  "array_start P d c base arr jf =
     set_fence jf (join_fence (qtime d) (cl_client_id c) (child_key base) (fa_num_fences arr)) d"

lemma process_array_start:
  assumes inv: "table_inv d" and base: "dma_fences d fence = Some base" "df_array base = Some arr"
    and data: "\<not> client_data_refused P c client_data" and cid: "cl_client_id c < 64"
    and new: "fence_map d (child_key base) = None" and free: "0 < free_slots d"
  obtains jf where "jf < length (hw_fences_tbl d)" "\<not> valid_fence (hw_fences_tbl d ! jf)"
    "table_inv (array_start P d c base arr jf)" "stored_at (array_start P d c base arr jf) (child_key base) jf"
    "fence_map (array_start P d c base arr jf) = (fence_map d)(child_key base \<mapsto>
       join_fence (qtime d) (cl_client_id c) (child_key base) (fa_num_fences arr))"
    "hw_fence_process_fence_array P d c fence hash client_data = do {
       (d, res) \<leftarrow> process_children P c arr jf (of_nat jf) [0..<unat (fa_num_fences arr)] False
         (array_start P d c base arr jf);
       finish_fence_array P c fence base arr (of_nat jf) client_data jf d res
     }"
proof -
  let ?n = "new_fence (qtime d) HW_FENCE_JOIN_FENCE_CLIENT_ID (child_key base) (fa_num_fences arr)"
  let ?j = "join_fence (qtime d) (cl_client_id c) (child_key base) (fa_num_fences arr)"
  obtain jf where jf: "jf < length (hw_fences_tbl d)" "hf_valid (hw_fences_tbl d ! jf) = 0"
    and look: "hw_fence_lookup_and_process d (df_context base) (df_seqno base) HW_FENCE_JOIN_FENCE_CLIENT_ID
      (fa_num_fences arr) OP_CREATE_JOIN hash = Some (set_fence jf (process_fnc OP_CREATE_JOIN d
        (hw_fences_tbl d ! jf) HW_FENCE_JOIN_FENCE_CLIENT_ID (df_context base) (df_seqno base) (fa_num_fences arr)) d,
        of_nat jf, Some jf)"
    using lookup_reserve [OF inv _ new [unfolded child_key_def] free, of OP_CREATE_JOIN]
    by blast
  have l0: "hf_lock (hw_fences_tbl d ! jf) = 0"
    using inv jf(1) by (simp add: table_inv_def table_okD(4))
  have create: "create_join_fence d base arr hash = Some (set_fence jf ?n d, of_nat jf, Some jf)"
    by (simp add: create_join_fence_def look reserve_new(2) [OF l0] child_key_def)
  have lk: "global_atomic_store (set_fence jf ?n d) (FenceLock jf) True = Some (set_fence jf (?n\<lparr>hf_lock := 1\<rparr>) d)"
    using jf(1) by (simp add: fence_lock)
  have "(?n\<lparr>hf_lock := 1, hf_wait_client_mask := BIT (cl_client_id c)\<rparr>)\<lparr>hf_lock := 0\<rparr> = ?j"
    by (simp add: join_fence_def new_fence_def)
  then have ul: "global_atomic_store (set_fence jf (?n\<lparr>hf_lock := 1, hf_wait_client_mask := BIT (cl_client_id c)\<rparr>) d)
      (FenceLock jf) False = Some (array_start P d c base arr jf)"
    using jf(1) by (subst relock) (simp_all only: array_start_def, simp_all)
  show thesis
  proof (rule that [of jf])
    show "table_inv (array_start P d c base arr jf)"
      "fence_map (array_start P d c base arr jf) = (fence_map d)(child_key base \<mapsto> ?j)"
      using table_inv_insert [OF inv jf, of ?j] new by (simp_all add: array_start_def)
    show "stored_at (array_start P d c base arr jf) (child_key base) jf"
      using jf(1) by (simp add: array_start_def keyed_at_def)
    show "hw_fence_process_fence_array P d c fence hash client_data = do {
       (d, res) \<leftarrow> process_children P c arr jf (of_nat jf) [0..<unat (fa_num_fences arr)] False
         (array_start P d c base arr jf);
       finish_fence_array P c fence base arr (of_nat jf) client_data jf d res
     }"
      unfolding hw_fence_process_fence_array_def
      using jf(1) by (simp add: base data create lk client_bit_def cid ul)
  qed (use jf in simp_all)
qed

text \<open>A client may wait for an array: the precondition that the theorems on arrays share.\<close>

definition array_ready ::
  "platform \<Rightarrow> hwf \<Rightarrow> msm_hw_fence_client \<Rightarrow> u64 \<Rightarrow> dma_fence \<Rightarrow> dma_fence_array \<Rightarrow> dma_fence list \<Rightarrow> bool" where
  "array_ready P d c client_data base arr fs \<longleftrightarrow> table_inv d \<and> df_array base = Some arr \<and> array_of d arr fs \<and>
     \<not> client_data_refused P c client_data \<and> cl_client_id c < 64 \<and>
     child_key base \<noteq> (0, 0) \<and> fence_map d (child_key base) = None \<and> 0 < free_slots d \<and>
     distinct (map child_key fs) \<and> (\<forall>f\<in>set fs. child_key f \<noteq> (0, 0) \<and> child_key f \<noteq> child_key base)"

lemma array_start_fields [simp]:
  "dma_fences (array_start P d c base arr jf) = dma_fences d"
  "array_of (array_start P d c base arr jf) = array_of d"
  by (auto simp: array_start_def array_of_def fun_eq_iff)

lemma distinct_child_keys: "distinct (map child_key fs) \<Longrightarrow> n \<le> length fs \<Longrightarrow>
    distinct (map (\<lambda>i. child_key (fs ! i)) [0..<n])"
proof -
  assume "distinct (map child_key fs)" and n: "n \<le> length fs"
  moreover have "map (\<lambda>i. child_key (fs ! i)) [0..<n] = take n (map child_key fs)"
    using n by (intro nth_equalityI) simp_all
  ultimately show ?thesis by (simp only: distinct_take)
qed

lemma child_keys: "map (\<lambda>i. child_key (fs ! i)) [0..<length fs] = map child_key fs"
  by (rule nth_equalityI) simp_all

text \<open>Children as the map of the start state sees them, and the map at the end.\<close>

lemma start_children:
  assumes "fence_map d1 = (fence_map d)(jk \<mapsto> j)" and "child_key f \<noteq> jk"
  shows "child_accepted P d1 f = child_accepted P d f" and "child_done d1 f = child_done d f"
  using assms by (simp_all add: child_accepted_def child_done_def)

lemma children_linked_join:
  assumes "n \<le> m"
  shows "children_linked hash jk ks n (mp(jk \<mapsto> join_fence now cid jk (of_nat m))) = (\<lambda>k.
    if k = jk then Some (join_fence now cid jk (of_nat (m - n)))
    else if k \<in> set ks then map_option (child_linked hash) (mp k) else mp k)"
proof -
  have "(join_fence now cid jk p)\<lparr>hf_pending_child_cnt := q\<rparr> = join_fence now cid jk q" for p q
    by (simp add: join_fence_def new_fence_def)
  then show ?thesis
    using assms by (simp add: children_linked_def fun_eq_iff of_nat_diff)
qed

lemma start_prefix:
  assumes ready: "array_ready P d c client_data base arr fs" and n: "n \<le> length fs"
    and acc: "\<forall>i<n. child_accepted P d (fs ! i)"
    and inv: "table_inv (array_start P d c base arr jf)"
    and at: "stored_at (array_start P d c base arr jf) (child_key base) jf"
    and map: "fence_map (array_start P d c base arr jf) = (fence_map d)(child_key base \<mapsto>
       join_fence (qtime d) (cl_client_id c) (child_key base) (fa_num_fences arr))"
  shows "\<exists>t. process_children P c arr jf hash [0..<n] False (array_start P d c base arr jf) =
      Some (d\<lparr>hw_fences_tbl := t\<rparr>, Inr (0 < length fs \<and> done_count d fs [0..<n] = length fs)) \<and>
    table_inv (d\<lparr>hw_fences_tbl := t\<rparr>) \<and> stored_at (d\<lparr>hw_fences_tbl := t\<rparr>) (child_key base) jf \<and>
    fence_map (d\<lparr>hw_fences_tbl := t\<rparr>) = (\<lambda>k. if k = child_key base
      then Some (join_fence (qtime d) (cl_client_id c) (child_key base)
        (of_nat (length fs - done_count d fs [0..<n])))
      else if k \<in> set (map (\<lambda>i. child_key (fs ! i)) [0..<n]) then map_option (child_linked hash) (fence_map d k)
      else fence_map d k)"
proof -
  let ?d1 = "array_start P d c base arr jf"
  have len: "length fs = unat (fa_num_fences arr)" using ready by (simp add: array_ready_def array_of_def)
  have ne: "child_key (fs ! i) \<noteq> child_key base" "child_key (fs ! i) \<noteq> (0, 0)" if "i < n" for i
    using ready that n by (simp_all add: array_ready_def)
  have same: "child_accepted P ?d1 (fs ! i) = child_accepted P d (fs ! i)"
    "child_done ?d1 (fs ! i) = child_done d (fs ! i)" if "i < n" for i
    using start_children [OF map ne(1) [OF that]] by simp_all
  have cnt: "done_count ?d1 fs [0..<n] = done_count d fs [0..<n]"
    by (intro arg_cong [where f = length] filter_cong) (simp_all add: same(2))
  have le: "done_count d fs [0..<n] \<le> length fs"
    using length_filter_le [of "\<lambda>i. child_done d (fs ! i)" "[0..<n]"] n by simp
  have tbl: "?d1\<lparr>hw_fences_tbl := t\<rparr> = d\<lparr>hw_fences_tbl := t\<rparr>" for t
    by (simp add: array_start_def set_fence_def)
  have num: "fa_num_fences arr = of_nat (length fs)" by (simp add: len)
  have "\<exists>t. process_children P c arr jf hash [0..<n] False ?d1 =
      Some (?d1\<lparr>hw_fences_tbl := t\<rparr>, Inr (False \<or> 0 < length fs \<and> done_count ?d1 fs [0..<n] = length fs)) \<and>
    table_inv (?d1\<lparr>hw_fences_tbl := t\<rparr>) \<and> stored_at (?d1\<lparr>hw_fences_tbl := t\<rparr>) (child_key base) jf \<and>
    fence_map (?d1\<lparr>hw_fences_tbl := t\<rparr>) = children_linked hash (child_key base)
      (map (\<lambda>i. child_key (fs ! i)) [0..<n]) (done_count ?d1 fs [0..<n]) (fence_map ?d1)"
  proof (rule process_children_accepted [OF inv _ at])
    show "array_of ?d1 arr fs" using ready by (simp add: array_ready_def)
    show "distinct (map (\<lambda>i. child_key (fs ! i)) [0..<n])"
      using ready n by (intro distinct_child_keys) (simp_all add: array_ready_def)
    show "\<forall>i\<in>set [0..<n]. i < length fs \<and> child_accepted P ?d1 (fs ! i) \<and> child_key (fs ! i) \<noteq> (0, 0) \<and>
        child_key (fs ! i) \<noteq> child_key base"
      using acc ne same n by simp
    show "hf_pending_child_cnt (hw_fences_tbl ?d1 ! jf) = of_nat (length fs)"
    proof -
      have "hw_fences_tbl ?d1 ! jf = join_fence (qtime d) (cl_client_id c) (child_key base) (fa_num_fences arr)"
        using stored_fence_map [OF inv at] by (simp add: map)
      then show ?thesis by (simp add: len)
    qed
    show "length [0..<n] \<le> length fs" using n by simp
    show "length fs < 2 ^ 32" using unsigned_less [of "fa_num_fences arr"] by (simp add: len)
  qed
  then show ?thesis
    unfolding tbl cnt map num children_linked_join [OF le] by simp
qed


lemma process_children_append:
  "process_children P c arr jf hash xs sig d = Some (d', Inr sig') \<Longrightarrow>
   process_children P c arr jf hash (xs @ ys) sig d = process_children P c arr jf hash ys sig' d'"
proof (induction xs arbitrary: sig d)
  case Nil
  then show ?case by simp
next
  case (Cons x xs)
  then obtain d1 res where x: "process_array_child P c arr jf hash x sig d = Some (d1, res)"
    by (cases "process_array_child P c arr jf hash x sig d") auto
  with Cons show ?case by (cases res) simp_all
qed

lemma process_child_refused:
  assumes inv: "table_inv d" and arr: "array_of d arr fs" and i: "i < length fs"
    and no: "\<not> child_accepted P d (fs ! i)" and nz: "child_key (fs ! i) \<noteq> (0, 0)"
  shows "process_children P c arr jf hash (i # is) sig d = Some (d, Inl i)"
proof -
  obtain cs fid where ch: "fa_fences arr = Some cs" "fetch cs i = Some (Some fid)" "dma_fences d fid = Some (fs ! i)"
    using arr i by (rule array_child)
  have nz': "(df_context (fs ! i), df_seqno (fs ! i)) \<noteq> (0, 0)" using nz by (simp add: child_key_def)
  show ?thesis
  proof (cases "df_array (fs ! i) \<noteq> None \<or> \<not> bit (df_flags (fs ! i)) (flag_enabled_bit P)")
    case True
    with ch show ?thesis by (auto simp: process_array_child_def)
  next
    case False
    then have acc: "df_array (fs ! i) = None" "bit (df_flags (fs ! i)) (flag_enabled_bit P)" by auto
    show ?thesis
    proof (cases "fence_map d (child_key (fs ! i))")
      case None
      then obtain h' where "msm_hw_fence_find d (Some c) (df_context (fs ! i)) (df_seqno (fs ! i)) 0 = Some (d, h', None)"
        using find_unknown [OF inv nz', of "Some c" 0] unfolding child_key_def by blast
      with ch acc show ?thesis by (simp add: process_array_child_def)
    next
      case (Some g)
      with inv obtain k where at: "stored_at d (child_key (fs ! i)) k" and g: "hw_fences_tbl d ! k = g"
        by (rule fence_map_stored_at)
      note ff = free_fence [OF inv at]
      have find: "msm_hw_fence_find d (Some c) (df_context (fs ! i)) (df_seqno (fs ! i)) 0 = Some (d, of_nat k, Some k)"
        using find_stored [OF inv nz' at [unfolded child_key_def]] .
      have un: "\<not> signaled g" and many: "\<not> hf_parents_cnt g < 2"
        using no acc Some by (auto simp: child_accepted_def)
      have bound: "3 \<le> hf_parents_cnt g + 1 \<or> hf_parents_cnt g + 1 < 1"
      proof (cases "hf_parents_cnt g = - 1")
        case True
        then show ?thesis by simp
      next
        case False
        have "unat (hf_parents_cnt g + 1) = Suc (unat (hf_parents_cnt g))"
          using False by (intro unat_Suc_below [of _ "- 1"]) (simp add: word_order.not_eq_extremum)
        with many show ?thesis by (simp add: word_le_nat_alt word_less_nat_alt)
      qed
      show ?thesis
        using ff un bound lock_unlock [OF ff]
        by (simp add: process_array_child_def ch find acc fence_lock g Let_def)
    qed
  qed
qed

text \<open>Linking and dropping again, and the removal of the join fence.\<close>

lemma linked_then_dropped:
  assumes "table_inv d" and "parents_ok d" and "jf < length (hw_fences_tbl d)" "\<not> valid_fence (hw_fences_tbl d ! jf)"
    and "K \<subseteq> K'" and few: "\<And>g. k \<in> K \<Longrightarrow> fence_map d k = Some g \<Longrightarrow> signaled g \<or> hf_parents_cnt g < 2"
    and m: "m = (if k \<in> K then map_option (child_linked (of_nat jf)) (fence_map d k) else fence_map d k)"
  shows "(if k \<in> K' then map_option (parent_dropped (of_nat jf)) m else m) = fence_map d k"
proof (cases "fence_map d k")
  case None
  with m show ?thesis by simp
next
  case (Some g)
  note pk = parents_okD [OF assms(1,2) Some assms(3,4)]
  show ?thesis
  proof (cases "k \<in> K")
    case True
    with assms(5) pk few [OF True Some] show ?thesis by (auto simp: m Some intro!: parent_dropped_linked)
  next
    case False
    with pk(2) show ?thesis by (simp add: m Some parent_dropped_absent)
  qed
qed

lemma destroy_join:
  assumes "table_inv d" and "child_key base \<noteq> (0, 0)" and "fence_map d (child_key base) \<noteq> None"
  obtains t where "destroy_join_fence d base = Some (d\<lparr>hw_fences_tbl := t\<rparr>)" "table_inv (d\<lparr>hw_fences_tbl := t\<rparr>)"
    "fence_map (d\<lparr>hw_fences_tbl := t\<rparr>) = (fence_map d)(child_key base := None)"
proof -
  obtain k where at: "stored_at d (df_context base, df_seqno base) k"
    using assms(3) fence_map_stored_at [OF assms(1)] unfolding child_key_def by blast
  have "(df_context base, df_seqno base) \<noteq> (0, 0)" using assms(2) by (simp add: child_key_def)
  from hw_fence_cleanup_stored [OF assms(1) this at, of HW_FENCE_JOIN_FENCE_CLIENT_ID]
    unreserve_deletes [OF assms(1) at, of HW_FENCE_JOIN_FENCE_CLIENT_ID]
  show thesis
    by (intro that [of "(hw_fences_tbl d)[k := unreserve_hw_fence d (hw_fences_tbl d ! k)
        HW_FENCE_JOIN_FENCE_CLIENT_ID (df_context base) (df_seqno base) 0]"])
      (simp_all add: destroy_join_fence_def child_key_def set_fence_def)
qed

lemma cleanup_join_rolls_back:
  assumes ready: "array_ready P d c client_data base arr fs" and "parents_ok d"
    and jf: "jf < length (hw_fences_tbl d)" "\<not> valid_fence (hw_fences_tbl d ! jf)"
    and "i < length fs" and acc: "\<forall>i'<i. child_accepted P d (fs ! i')"
    and inv: "table_inv (d\<lparr>hw_fences_tbl := t\<rparr>)"
    and tm: "fence_map (d\<lparr>hw_fences_tbl := t\<rparr>) = (\<lambda>k. if k = child_key base then Some j
      else if k \<in> set (map (\<lambda>i. child_key (fs ! i)) [0..<i]) then map_option (child_linked (of_nat jf)) (fence_map d k)
      else fence_map d k)"
  obtains t' where "cleanup_join_and_child_fences (d\<lparr>hw_fences_tbl := t\<rparr>) c i base arr (of_nat jf) =
      Some (d\<lparr>hw_fences_tbl := t'\<rparr>)" "table_inv (d\<lparr>hw_fences_tbl := t'\<rparr>)" "fence_map (d\<lparr>hw_fences_tbl := t'\<rparr>) = fence_map d"
proof -
  let ?jk = "child_key base" and ?key = "\<lambda>i. child_key (fs ! i)"
  let ?K = "set (map ?key [0..<i])" and ?K' = "set (map ?key (rev [0..<Suc i]))"
  have rd: "table_inv d" "fence_map d ?jk = None" "array_of d arr fs" "?jk \<noteq> (0, 0)" "distinct (map child_key fs)"
    "\<forall>f\<in>set fs. child_key f \<noteq> (0, 0) \<and> child_key f \<noteq> ?jk"
    using ready by (simp_all add: array_ready_def)
  have dist: "distinct (map ?key (rev [0..<Suc i]))"
    using distinct_child_keys [OF rd(5), of "Suc i"] assms(5) by (simp only: rev_map [symmetric] distinct_rev Suc_le_eq)
  have each: "\<forall>i'\<in>set (rev [0..<Suc i]). i' < length fs \<and> ?key i' \<noteq> (0, 0)"
    using rd(6) assms(5) by auto
  obtain u where u: "chain (cleanup_child c arr (of_nat jf)) (rev [0..<Suc i]) (d\<lparr>hw_fences_tbl := t\<rparr>) =
      Some (d\<lparr>hw_fences_tbl := u\<rparr>)" "table_inv (d\<lparr>hw_fences_tbl := u\<rparr>)"
    and um: "fence_map (d\<lparr>hw_fences_tbl := u\<rparr>) = (\<lambda>k. if k \<in> ?K'
      then map_option (parent_dropped (of_nat jf)) (fence_map (d\<lparr>hw_fences_tbl := t\<rparr>) k)
      else fence_map (d\<lparr>hw_fences_tbl := t\<rparr>) k)"
    using cleanup_children_map [OF inv _ dist each, of arr c "of_nat jf"] rd(3) by fastforce
  have jk: "?jk \<notin> ?K'" using rd(6) assms(5) by fastforce
  have few: "signaled g \<or> hf_parents_cnt g < 2" if "k \<in> ?K" "fence_map d k = Some g" for k g
    using that acc by (auto simp: child_accepted_def)
  have sub: "?K \<subseteq> ?K'" by auto
  have um': "fence_map (d\<lparr>hw_fences_tbl := u\<rparr>) k = fence_map d k" if "k \<noteq> ?jk" for k
    unfolding um using that
    by (intro linked_then_dropped [OF rd(1) assms(2) jf sub few]) (simp_all only: tm if_False)
  have "fence_map (d\<lparr>hw_fences_tbl := u\<rparr>) ?jk \<noteq> None"
    using jk by (simp only: um tm if_False if_True refl) simp
  then obtain t' where t': "destroy_join_fence (d\<lparr>hw_fences_tbl := u\<rparr>) base = Some (d\<lparr>hw_fences_tbl := t'\<rparr>)"
    "table_inv (d\<lparr>hw_fences_tbl := t'\<rparr>)"
    "fence_map (d\<lparr>hw_fences_tbl := t'\<rparr>) = (fence_map (d\<lparr>hw_fences_tbl := u\<rparr>))(?jk := None)"
    using destroy_join [OF u(2) rd(4)] by auto
  obtain cs where "fa_fences arr = Some cs" using rd(3) by (auto simp: array_of_def)
  with u(1) t' um' rd(2) show thesis
    by (intro that [of t']) (auto simp: cleanup_join_and_child_fences_def fun_eq_iff simp del: upt_Suc)
qed

text \<open>The state of an array after a prefix of accepted children, and the rest of the function.\<close>

lemma process_array_prefix:
  assumes ready: "array_ready P d c client_data base arr fs" and base: "dma_fences d fence = Some base"
    and n: "n \<le> length fs" and acc: "\<forall>i<n. child_accepted P d (fs ! i)"
  obtains jf t where "jf < length (hw_fences_tbl d)" "\<not> valid_fence (hw_fences_tbl d ! jf)"
    "hw_fence_process_fence_array P d c fence hash client_data = do {
       (d, res) \<leftarrow> process_children P c arr jf (of_nat jf) [n..<length fs]
         (0 < length fs \<and> done_count d fs [0..<n] = length fs) (d\<lparr>hw_fences_tbl := t\<rparr>);
       finish_fence_array P c fence base arr (of_nat jf) client_data jf d res
     }"
    "table_inv (d\<lparr>hw_fences_tbl := t\<rparr>)" "stored_at (d\<lparr>hw_fences_tbl := t\<rparr>) (child_key base) jf"
    "fence_map (d\<lparr>hw_fences_tbl := t\<rparr>) = (\<lambda>k. if k = child_key base
      then Some (join_fence (qtime d) (cl_client_id c) (child_key base) (of_nat (length fs - done_count d fs [0..<n])))
      else if k \<in> set (map (\<lambda>i. child_key (fs ! i)) [0..<n]) then map_option (child_linked (of_nat jf)) (fence_map d k)
      else fence_map d k)"
proof -
  have rd: "table_inv d" "df_array base = Some arr" "\<not> client_data_refused P c client_data" "cl_client_id c < 64"
    "fence_map d (child_key base) = None" "0 < free_slots d" "unat (fa_num_fences arr) = length fs"
    using ready by (simp_all add: array_ready_def array_of_def)
  have split: "[0..<length fs] = [0..<n] @ [n..<length fs]"
    using n by (metis le0 le_add_diff_inverse upt_add_eq_append)
  obtain jf where jf: "jf < length (hw_fences_tbl d)" "\<not> valid_fence (hw_fences_tbl d ! jf)"
    and st: "table_inv (array_start P d c base arr jf)" "stored_at (array_start P d c base arr jf) (child_key base) jf"
      "fence_map (array_start P d c base arr jf) = (fence_map d)(child_key base \<mapsto>
        join_fence (qtime d) (cl_client_id c) (child_key base) (fa_num_fences arr))"
    and run: "hw_fence_process_fence_array P d c fence hash client_data = do {
       (d, res) \<leftarrow> process_children P c arr jf (of_nat jf) [0..<unat (fa_num_fences arr)] False
         (array_start P d c base arr jf);
       finish_fence_array P c fence base arr (of_nat jf) client_data jf d res
     }"
    by (rule process_array_start [OF rd(1) base rd(2-6)])
  obtain t where t: "process_children P c arr jf (of_nat jf) [0..<n] False (array_start P d c base arr jf) =
      Some (d\<lparr>hw_fences_tbl := t\<rparr>, Inr (0 < length fs \<and> done_count d fs [0..<n] = length fs))"
    and tt: "table_inv (d\<lparr>hw_fences_tbl := t\<rparr>)" "stored_at (d\<lparr>hw_fences_tbl := t\<rparr>) (child_key base) jf"
    "fence_map (d\<lparr>hw_fences_tbl := t\<rparr>) = (\<lambda>k. if k = child_key base
      then Some (join_fence (qtime d) (cl_client_id c) (child_key base) (of_nat (length fs - done_count d fs [0..<n])))
      else if k \<in> set (map (\<lambda>i. child_key (fs ! i)) [0..<n]) then map_option (child_linked (of_nat jf)) (fence_map d k)
      else fence_map d k)"
    using start_prefix [OF ready n acc st, of "of_nat jf"] by blast
  show thesis
    by (rule that [OF jf _ tt])
      (simp only: run rd(7) split process_children_append [OF t])
qed

text \<open>C13. Waiting for an array is all or nothing: when some child of the array can not be waited for (it is
  itself an array, not enabled for hardware, not in the table, or has two parents already), then however
  many children before it were already linked to the join fence or counted as signaled, the function
  reports \<open>-EINVAL\<close> and the fences of the table are exactly those from before, with the parents that they
  had; the join fence is gone, and nothing but the table was touched.\<close>

theorem wait_array_rollback:
  assumes "array_ready P d c client_data base arr fs" and "dma_fences d fence = Some base" and "parents_ok d"
    and "i < length fs" and "\<forall>i'<i. child_accepted P d (fs ! i')" and "\<not> child_accepted P d (fs ! i)"
  shows "\<exists>d' h'. hw_fence_process_fence_array P d c fence hash client_data = Some (d', h', - EINVAL) \<and>
    table_inv d' \<and> fence_map d' = fence_map d \<and> d' = d\<lparr>hw_fences_tbl := hw_fences_tbl d'\<rparr>"
proof -
  let ?n = "length fs"
  have rd: "array_of d arr fs" "distinct (map child_key fs)" "\<forall>f\<in>set fs. child_key f \<noteq> (0, 0) \<and> child_key f \<noteq> child_key base"
    using assms(1) by (simp_all add: array_ready_def)
  obtain jf t where jf: "jf < length (hw_fences_tbl d)" "\<not> valid_fence (hw_fences_tbl d ! jf)"
    and run: "hw_fence_process_fence_array P d c fence hash client_data = do {
       (d, res) \<leftarrow> process_children P c arr jf (of_nat jf) [i..<?n]
         (0 < ?n \<and> done_count d fs [0..<i] = ?n) (d\<lparr>hw_fences_tbl := t\<rparr>);
       finish_fence_array P c fence base arr (of_nat jf) client_data jf d res
     }"
    and t: "table_inv (d\<lparr>hw_fences_tbl := t\<rparr>)" "stored_at (d\<lparr>hw_fences_tbl := t\<rparr>) (child_key base) jf"
    "fence_map (d\<lparr>hw_fences_tbl := t\<rparr>) = (\<lambda>k. if k = child_key base
      then Some (join_fence (qtime d) (cl_client_id c) (child_key base) (of_nat (?n - done_count d fs [0..<i])))
      else if k \<in> set (map (\<lambda>i. child_key (fs ! i)) [0..<i]) then map_option (child_linked (of_nat jf)) (fence_map d k)
      else fence_map d k)"
    by (rule process_array_prefix [OF assms(1,2) less_imp_le [OF assms(4)] assms(5)])
  have keys: "child_key (fs ! i) \<notin> set (map (\<lambda>i. child_key (fs ! i)) [0..<i])" "child_key (fs ! i) \<noteq> child_key base"
    "child_key (fs ! i) \<noteq> (0, 0)"
    using distinct_child_keys [OF rd(2), of "Suc i"] assms(4) rd(3) by auto
  have "\<not> child_accepted P (d\<lparr>hw_fences_tbl := t\<rparr>) (fs ! i)"
    using assms(6) keys by (simp add: child_accepted_def t(3))
  then have fail: "process_children P c arr jf (of_nat jf) [i..<?n] sig (d\<lparr>hw_fences_tbl := t\<rparr>) =
      Some (d\<lparr>hw_fences_tbl := t\<rparr>, Inl i)" for sig
    using process_child_refused [OF t(1) _ assms(4) _ keys(3)] rd(1) assms(4) by (simp add: upt_conv_Cons)
  obtain t' where "cleanup_join_and_child_fences (d\<lparr>hw_fences_tbl := t\<rparr>) c i base arr (of_nat jf) =
      Some (d\<lparr>hw_fences_tbl := t'\<rparr>)" "table_inv (d\<lparr>hw_fences_tbl := t'\<rparr>)" "fence_map (d\<lparr>hw_fences_tbl := t'\<rparr>) = fence_map d"
    by (rule cleanup_join_rolls_back [OF assms(1,3) jf assms(4,5) t(1,3)])
  then show ?thesis by (simp add: run fail finish_fence_array_def)
qed


text \<open>Two fences on a concrete table, waited for as an array.\<close>

abbreviation sample_array :: dma_fence_array where
  "sample_array \<equiv> \<lparr>fa_num_fences = 2, fa_fences = Some [Some 0, Some 1]\<rparr>"

abbreviation sample_base :: dma_fence where
  "sample_base \<equiv> \<lparr>df_context = 6, df_seqno = 1, df_flags = 4, df_array = Some sample_array\<rparr>"

abbreviation sample_children :: "dma_fence list" where
  "sample_children \<equiv> [\<lparr>df_context = 5, df_seqno = 9, df_flags = 4, df_array = None\<rparr>,
     \<lparr>df_context = 5, df_seqno = 10, df_flags = 4, df_array = None\<rparr>]"

lemma sample_wait_fences:
  "dma_fences (sample_wait_state tbl) 0 = Some (sample_children ! 0)"
  "dma_fences (sample_wait_state tbl) (Suc 0) = Some (sample_children ! 1)"
  "dma_fences (sample_wait_state tbl) 2 = Some sample_base"
  "cl_client_id sample_client = 2"
  by (simp_all add: sample_wait_state_def sample_client_def)

lemma sample_array_ready:
  assumes "table_inv (table_of tbl)" and "fence_map (table_of tbl) (6, 1) = None" and "0 < free_slots (table_of tbl)"
  shows "array_ready sample_platform (sample_wait_state tbl) sample_waiter 0 sample_base sample_array sample_children"
    and "dma_fences (sample_wait_state tbl) 2 = Some sample_base"
  using assms
  by (simp_all add: array_ready_def sample_wait_table array_of_def sample_wait_fences child_key_def
      client_data_refused_def)

lemma table_of_two:
  fixes fl :: u64
  defines "d \<equiv> table_of [zero_fence, (new_fence 0 7 (5, 9) 0)\<lparr>hf_flags := fl\<rparr>, (new_fence 0 7 (5, 10) 0)\<lparr>hf_flags := fl\<rparr>]"
  shows "table_inv d" "free_slots d = 1" "fence_map d = [(5, 9) \<mapsto> (new_fence 0 7 (5, 9) 0)\<lparr>hf_flags := fl\<rparr>,
    (5, 10) \<mapsto> (new_fence 0 7 (5, 10) 0)\<lparr>hf_flags := fl\<rparr>]"
  by (simp_all add: d_def table_of_def table_inv_def table_ok_def keys_unique_def keyed_unique_def
      free_clean_def fence_map_def keyed_map_def free_slots_def zero_fence_def key_def new_fence_def fun_eq_iff)

lemma sample_child_accepted:
  assumes "fence_map (table_of tbl) (child_key f) = Some g" and "hf_parents_cnt g = 0"
    and "df_array f = None" and "df_flags f = 4"
  shows "child_accepted sample_platform (sample_wait_state tbl) f"
  using assms by (simp add: child_accepted_def sample_wait_table)

theorem wait_array_rollback_witness:
  "\<exists>d' h'. hw_fence_process_fence_array sample_platform (sample_wait_state [zero_fence, new_fence 0 7 (5, 9) 0])
      sample_waiter 2 0 0 = Some (d', h', - EINVAL) \<and>
    fence_map d' = [(5, 9) \<mapsto> new_fence 0 7 (5, 9) 0]"
proof -
  let ?tbl = "[zero_fence, new_fence 0 7 (5, 9) 0]"
  let ?d = "sample_wait_state ?tbl"
  have ready: "array_ready sample_platform ?d sample_waiter 0 sample_base sample_array sample_children"
    "dma_fences ?d 2 = Some sample_base"
    by (rule sample_array_ready; simp add: table_of_one)+
  have par: "parents_ok ?d"
    by (simp add: parents_ok_def sample_wait_state_def zero_fence_def new_fence_more)
  have "child_accepted sample_platform ?d (sample_children ! 0)"
    by (rule sample_child_accepted [of _ _ "new_fence 0 7 (5, 9) 0"]) (simp_all add: table_of_one child_key_def)
  then have acc: "\<forall>i'<1. child_accepted sample_platform ?d (sample_children ! i')" by simp
  have no: "\<not> child_accepted sample_platform ?d (sample_children ! 1)"
    by (simp add: child_accepted_def sample_wait_table table_of_one child_key_def)
  have "\<exists>d' h'. hw_fence_process_fence_array sample_platform ?d sample_waiter 2 0 0 = Some (d', h', - EINVAL) \<and>
    table_inv d' \<and> fence_map d' = fence_map ?d \<and> d' = ?d\<lparr>hw_fences_tbl := hw_fences_tbl d'\<rparr>"
    by (rule wait_array_rollback [OF ready par _ acc no]) simp
  then show ?thesis by (auto simp: sample_wait_table table_of_one(3) table_of_one(2))
qed

subsection \<open>When all children are taken\<close>

lemma table_inv_cong:
  assumes "hw_fences_tbl d = hw_fences_tbl d'" and "hw_fences_tbl_va d = hw_fences_tbl_va d'"
    and "hw_fence_table_entries d = hw_fence_table_entries d'"
  shows "table_inv d = table_inv d'" and "fence_map d = fence_map d'"
  using assms by (simp_all add: table_inv_def table_ok_def keys_unique_def free_clean_def fence_map_def)

lemma done_count_all: "done_count d fs [0..<length fs] = length (filter (child_done d) fs)"
proof -
  have "filter (child_done d) fs = map (\<lambda>i. fs ! i) (filter (\<lambda>i. child_done d (fs ! i)) [0..<length fs])"
    by (subst (1) map_nth [symmetric]) (simp add: filter_map comp_def)
  then show ?thesis by simp
qed

lemma not_done_count: "length fs - done_count d fs [0..<length fs] = length (filter (\<lambda>f. \<not> child_done d f) fs)"
  using sum_length_filter_compl [of "child_done d" fs] by (simp add: done_count_all)

lemma all_done_iff: "done_count d fs [0..<length fs] = length fs \<longleftrightarrow> (\<forall>f\<in>set fs. child_done d f)"
  unfolding done_count_all using filter_id_conv [of "child_done d" fs] length_filter_less [of _ fs "child_done d"]
  by (metis less_irrefl)

lemma put_client_data_fields [simp]:
  "hf_valid (put_client_data P c cd f) = hf_valid f" "key (put_client_data P c cd f) = key f"
  "hf_lock (put_client_data P c cd f) = hf_lock f" "hf_flags (put_client_data P c cd f) = hf_flags f"
  "hf_ctx_id (put_client_data P c cd f) = hf_ctx_id f" "hf_seq_id (put_client_data P c cd f) = hf_seq_id f"
  by (simp_all add: put_client_data_def key_def)

text \<open>C14. Waiting for an array of fences that can all be waited for, not all of them signaled yet, creates a
  join fence and wires it up completely: the join fence is stored under the array's own key with exactly
  this client in its wait mask, the client's data, and as pending count the number of children that are
  not signaled; each of those children, and no other fence, has the join fence's index as a new parent;
  the hash is that index. Nothing is delivered, only the table changes.\<close>

theorem wait_array_pending:
  assumes "array_ready P d c client_data base arr fs" and "dma_fences d fence = Some base"
    and "\<forall>f\<in>set fs. child_accepted P d f" and "\<not> (\<forall>f\<in>set fs. child_done d f)"
  shows "\<exists>d' jf. hw_fence_process_fence_array P d c fence hash client_data = Some (d', of_nat jf, 0) \<and>
    table_inv d' \<and> d' = d\<lparr>hw_fences_tbl := hw_fences_tbl d'\<rparr> \<and>
    fence_map d' (child_key base) = Some (hw_fences_tbl d' ! jf) \<and>
    fence_map d' = (\<lambda>k. if k = child_key base
      then Some (put_client_data P c client_data (join_fence (qtime d) (cl_client_id c) (child_key base)
        (of_nat (length (filter (\<lambda>f. \<not> child_done d f) fs)))))
      else if k \<in> child_key ` set fs then map_option (child_linked (of_nat jf)) (fence_map d k)
      else fence_map d k)"
proof -
  let ?j = "join_fence (qtime d) (cl_client_id c) (child_key base) (of_nat (length (filter (\<lambda>f. \<not> child_done d f) fs)))"
  let ?j' = "put_client_data P c client_data ?j"
  have acc: "\<forall>i<length fs. child_accepted P d (fs ! i)" using assms(3) by simp
  obtain jf t where run: "hw_fence_process_fence_array P d c fence hash client_data = do {
       (d, res) \<leftarrow> process_children P c arr jf (of_nat jf) [length fs..<length fs]
         (0 < length fs \<and> done_count d fs [0..<length fs] = length fs) (d\<lparr>hw_fences_tbl := t\<rparr>);
       finish_fence_array P c fence base arr (of_nat jf) client_data jf d res
     }"
    and t: "table_inv (d\<lparr>hw_fences_tbl := t\<rparr>)" "stored_at (d\<lparr>hw_fences_tbl := t\<rparr>) (child_key base) jf"
    "fence_map (d\<lparr>hw_fences_tbl := t\<rparr>) = (\<lambda>k. if k = child_key base
      then Some (join_fence (qtime d) (cl_client_id c) (child_key base) (of_nat (length fs - done_count d fs [0..<length fs])))
      else if k \<in> set (map (\<lambda>i. child_key (fs ! i)) [0..<length fs])
      then map_option (child_linked (of_nat jf)) (fence_map d k) else fence_map d k)"
    by (rule process_array_prefix [OF assms(1,2) le_refl acc])
  have tj: "jf < length t" "t ! jf = ?j"
    using t(2) stored_fence_map [OF t(1,2)] unfolding t(3) not_done_count by (simp_all add: keyed_at_def)
  have nd: "(0 < length fs \<and> done_count d fs [0..<length fs] = length fs) = False"
    using assms(4) all_done_iff by blast
  have "fs \<noteq> []" using assms(4) by auto
  then have nz: "fa_num_fences arr \<noteq> 0" using assms(1) by (auto simp: array_ready_def array_of_def)
  have "hw_fence_process_fence_array P d c fence hash client_data = Some (d\<lparr>hw_fences_tbl := t[jf := ?j']\<rparr>, of_nat jf, 0)"
    unfolding run nd using nz tj by (simp add: finish_fence_array_def set_fence_def Let_def)
  moreover have inv': "table_inv (d\<lparr>hw_fences_tbl := t[jf := ?j']\<rparr>)"
    and "fence_map (d\<lparr>hw_fences_tbl := t[jf := ?j']\<rparr>) = (fence_map (d\<lparr>hw_fences_tbl := t\<rparr>))(child_key base \<mapsto> ?j')"
    using table_inv_replace [OF t(1,2), of ?j'] by (simp_all add: set_fence_def)
  moreover from this(2) have "fence_map (d\<lparr>hw_fences_tbl := t[jf := ?j']\<rparr>) = (\<lambda>k. if k = child_key base then Some ?j'
      else if k \<in> child_key ` set fs then map_option (child_linked (of_nat jf)) (fence_map d k) else fence_map d k)"
    unfolding t(3) child_keys set_map by (intro ext) simp
  ultimately show ?thesis
    using tj by (intro exI [of _ "d\<lparr>hw_fences_tbl := t[jf := ?j']\<rparr>"] exI [of _ jf] conjI) simp_all
qed

text \<open>C15. Waiting for an array whose children are all signaled delivers at once: one message for the array's
  key goes to the client's rx queue, if the driver writes it, and one trigger to its interrupt, if it has one, the array
  is marked signaled, and the fence table is left exactly as it was, with no join fence. (The message carries the client data in
  the error field and no client data.)\<close>

theorem wait_array_signaled:
  assumes "array_ready P d c client_data base arr fs" and "dma_fences d fence = Some base"
    and "fs \<noteq> []" and "\<forall>f\<in>set fs. child_accepted P d f \<and> child_done d f"
    and "hw_client P c" and "rx_room n d c"
  shows "\<exists>d' jf. hw_fence_process_fence_array P d c fence hash client_data = Some (d', of_nat jf, 0) \<and>
    table_inv d' \<and> fence_map d' = fence_map d \<and>
    dma_fences d' = (dma_fences d)(fence \<mapsto> base\<lparr>df_flags := set_bit (flag_signaled_bit P) (df_flags base)\<rparr>) \<and>
    io_writes d' = io_writes d @ (if cl_send_ipc c then [signal_write d c] else []) \<and>
    (cl_update_rxq c \<longrightarrow> ring_items n (client_ring d' c RXQ) = ring_items n (client_ring d c RXQ) @
      [\<lparr>qm_ctxt_id = df_context base, qm_seqno = df_seqno base, qm_hash = of_nat jf, qm_flags = 0,
        qm_client_data = 0, qm_error = ucast client_data\<rparr>])"
proof -
  have acc: "\<forall>i<length fs. child_accepted P d (fs ! i)" using assms(4) by simp
  obtain jf t where run: "hw_fence_process_fence_array P d c fence hash client_data = do {
       (d, res) \<leftarrow> process_children P c arr jf (of_nat jf) [length fs..<length fs]
         (0 < length fs \<and> done_count d fs [0..<length fs] = length fs) (d\<lparr>hw_fences_tbl := t\<rparr>);
       finish_fence_array P c fence base arr (of_nat jf) client_data jf d res
     }"
    and t: "table_inv (d\<lparr>hw_fences_tbl := t\<rparr>)" "stored_at (d\<lparr>hw_fences_tbl := t\<rparr>) (child_key base) jf"
    "fence_map (d\<lparr>hw_fences_tbl := t\<rparr>) = (\<lambda>k. if k = child_key base
      then Some (join_fence (qtime d) (cl_client_id c) (child_key base) (of_nat (length fs - done_count d fs [0..<length fs])))
      else if k \<in> set (map (\<lambda>i. child_key (fs ! i)) [0..<length fs])
      then map_option (child_linked (of_nat jf)) (fence_map d k) else fence_map d k)"
    by (rule process_array_prefix [OF assms(1,2) le_refl acc])
  let ?j = "put_client_data P c client_data (t ! jf)"
  let ?d1 = "set_fence jf ?j (d\<lparr>hw_fences_tbl := t\<rparr>)"
  let ?msg = "\<lparr>qm_ctxt_id = df_context base, qm_seqno = df_seqno base, qm_hash = of_nat jf, qm_flags = 0,
        qm_client_data = 0, qm_error = ucast client_data\<rparr>"
  have rd: "child_key base \<noteq> (0, 0)" "fence_map d (child_key base) = None"
    using assms(1) by (simp_all add: array_ready_def)
  have tj: "jf < length t" "valid_fence (t ! jf)" "key (t ! jf) = child_key base" "hf_lock (t ! jf) = 0"
    using t(2) free_fence(2) [OF t(1,2)] by (simp_all add: keyed_at_def)
  have d1: "table_inv ?d1" "fence_map ?d1 = (fence_map (d\<lparr>hw_fences_tbl := t\<rparr>))(child_key base \<mapsto> ?j)"
    using table_inv_replace [OF t(1,2), of ?j] tj by simp_all
  have ring: "client_ring ?d1 c RXQ = client_ring d c RXQ" by (simp add: queue_ring_def)
  have msg: "signal_msg (hw_fences_tbl ?d1 ! jf) jf 0 (ucast client_data) = ?msg"
    using tj by (simp add: signal_msg_def key_def child_key_def)
  have w: "signal_write ?d1 c = signal_write d c" by (simp add: signal_write_def)
  have "queue_ready n ?d1 c RXQ = queue_ready n d c RXQ" by (simp add: queue_ready_def)
  then have room: "rx_room n ?d1 c" using assms(6) unfolding rx_room_def ring by blast
  have i1: "jf < length (hw_fences_tbl ?d1)" using tj by simp
  obtain q where del: "fence_ctl_signal P ?d1 c jf (of_nat jf) 0 0 (ucast client_data) = Some (sent ?d1 c q)"
    and q: "cl_update_rxq c \<longrightarrow> ring_items n q = ring_items n (client_ring d c RXQ) @ [?msg]"
    by (rule fence_ctl_signal_delivers [OF assms(5) i1 room, where client_data = 0 and error = "ucast client_data", unfolded ring msg])
  obtain d2 where d2: "d2 = sent ?d1 c q" by blast
  obtain d3 where d3def: "d3 = d2\<lparr>dma_fences := (dma_fences d)(fence \<mapsto>
      base\<lparr>df_flags := set_bit (flag_signaled_bit P) (df_flags base)\<rparr>)\<rparr>" by blast
  have del': "fence_ctl_signal P ?d1 c jf (of_nat jf) 0 0 (ucast client_data) = Some d2"
    using del by (simp only: d2)
  have d2fences: "dma_fences d2 = dma_fences d" by (simp add: d2)
  have tbl: "hw_fences_tbl d3 = hw_fences_tbl ?d1" "hw_fences_tbl_va d3 = hw_fences_tbl_va ?d1"
    "hw_fence_table_entries d3 = hw_fence_table_entries ?d1"
    by (simp_all add: d3def d2)
  have d3: "table_inv d3" "fence_map d3 = fence_map ?d1"
    using d1(1) table_inv_cong [OF tbl] by simp_all
  have "fence_map d3 (child_key base) \<noteq> None" by (simp add: d3(2) d1(2))
  then obtain u where u: "destroy_join_fence d3 base = Some (d3\<lparr>hw_fences_tbl := u\<rparr>)" "table_inv (d3\<lparr>hw_fences_tbl := u\<rparr>)"
    "fence_map (d3\<lparr>hw_fences_tbl := u\<rparr>) = (fence_map d3)(child_key base := None)"
    using destroy_join [OF d3(1) rd(1)] by blast
  have ad: "(0 < length fs \<and> done_count d fs [0..<length fs] = length fs) = True"
    using assms(3,4) all_done_iff [of d fs] by simp
  have "map_option (child_linked (of_nat jf)) (fence_map d k) = fence_map d k" if "k \<in> child_key ` set fs" for k
    using that assms(4) by (auto simp: child_done_def child_linked_def split: option.splits)
  then have "fence_map (d3\<lparr>hw_fences_tbl := u\<rparr>) = fence_map d"
    using rd(2) by (simp only: u(3) d3(2) d1(2) t(3) child_keys) (simp add: fun_eq_iff)
  moreover have "hw_fence_process_fence_array P d c fence hash client_data = Some (d3\<lparr>hw_fences_tbl := u\<rparr>, of_nat jf, 0)"
    unfolding run ad using assms(2) tj(1) u(1)
    by (simp add: finish_fence_array_def del' Let_def set_fence_bit_def d2fences d3def [symmetric])
  moreover have "ring_items n (client_ring (d3\<lparr>hw_fences_tbl := u\<rparr>) c RXQ) = ring_items n (client_ring d c RXQ) @ [?msg]"
    if "cl_update_rxq c"
  proof -
    have "queue_ring wm (d3\<lparr>hw_fences_tbl := u\<rparr>) queue = queue_ring wm d2 queue" for wm queue
      by (simp add: queue_ring_def d3def)
    with q sent_ring [where d = ?d1 and c = c and q = q] that show ?thesis by (simp add: d2)
  qed
  moreover have "io_writes d3 = io_writes d @ (if cl_send_ipc c then [signal_write d c] else [])" by (simp add: d3def d2 w)
  ultimately show ?thesis
    using u(2) by (intro exI [of _ "d3\<lparr>hw_fences_tbl := u\<rparr>"] exI [of _ jf]) (simp add: d3def)
qed


theorem wait_array_pending_witness:
  "\<exists>d' jf. hw_fence_process_fence_array sample_platform
      (sample_wait_state [zero_fence, (new_fence 0 7 (5, 9) 0)\<lparr>hf_flags := 0\<rparr>, (new_fence 0 7 (5, 10) 0)\<lparr>hf_flags := 0\<rparr>])
      sample_waiter 2 0 0 = Some (d', of_nat jf, 0) \<and> hf_pending_child_cnt (hw_fences_tbl d' ! jf) = 2"
proof -
  let ?f = "\<lambda>s. (new_fence 0 7 (5, s) 0)\<lparr>hf_flags := 0\<rparr>"
  let ?d = "sample_wait_state [zero_fence, ?f 9, ?f 10]"
  have ready: "array_ready sample_platform ?d sample_waiter 0 sample_base sample_array sample_children"
    "dma_fences ?d 2 = Some sample_base"
    by (rule sample_array_ready; simp only: table_of_two; simp)+
  have acc: "\<forall>f\<in>set sample_children. child_accepted sample_platform ?d f"
    by (auto simp: child_accepted_def sample_wait_table table_of_two child_key_def)
  have pending: "\<not> child_done ?d f" if "f \<in> set sample_children" for f
    using that by (auto simp: child_done_def sample_wait_table table_of_two child_key_def)
  have "\<exists>d' jf. hw_fence_process_fence_array sample_platform ?d sample_waiter 2 0 0 = Some (d', of_nat jf, 0) \<and>
    table_inv d' \<and> d' = ?d\<lparr>hw_fences_tbl := hw_fences_tbl d'\<rparr> \<and>
    fence_map d' (child_key sample_base) = Some (hw_fences_tbl d' ! jf) \<and>
    fence_map d' = (\<lambda>k. if k = child_key sample_base
      then Some (put_client_data sample_platform sample_waiter 0 (join_fence (qtime ?d) (cl_client_id sample_waiter)
        (child_key sample_base) (of_nat (length (filter (\<lambda>f. \<not> child_done ?d f) sample_children)))))
      else if k \<in> child_key ` set sample_children then map_option (child_linked (of_nat jf)) (fence_map ?d k)
      else fence_map ?d k)"
    by (rule wait_array_pending [OF ready acc]) (use pending in auto)
  then obtain d' jf where r: "hw_fence_process_fence_array sample_platform ?d sample_waiter 2 0 0 = Some (d', of_nat jf, 0)"
    and m: "fence_map d' (child_key sample_base) = Some (hw_fences_tbl d' ! jf)"
    "fence_map d' (child_key sample_base) = Some (put_client_data sample_platform sample_waiter 0
      (join_fence (qtime ?d) (cl_client_id sample_waiter) (child_key sample_base)
      (of_nat (length (filter (\<lambda>f. \<not> child_done ?d f) sample_children)))))"
    by auto
  have "length (filter (\<lambda>f. \<not> child_done ?d f) sample_children) = 2"
    using pending by (subst filter_True) simp_all
  with m have "hf_pending_child_cnt (hw_fences_tbl d' ! jf) = 2"
    by (simp add: put_client_data_def)
  with r show ?thesis by blast
qed

theorem wait_array_signaled_witness:
  "\<exists>d' jf. hw_fence_process_fence_array sample_platform
      (sample_wait_state [zero_fence, (new_fence 0 7 (5, 9) 0)\<lparr>hf_flags := 1\<rparr>, (new_fence 0 7 (5, 10) 0)\<lparr>hf_flags := 1\<rparr>])
      sample_waiter 2 0 0 = Some (d', of_nat jf, 0) \<and> length (ring_items 2 (client_ring d' sample_waiter RXQ)) = 1"
proof -
  let ?f = "\<lambda>s. (new_fence 0 7 (5, s) 0)\<lparr>hf_flags := 1\<rparr>"
  let ?d = "sample_wait_state [zero_fence, ?f 9, ?f 10]"
  have ready: "array_ready sample_platform ?d sample_waiter 0 sample_base sample_array sample_children"
    "dma_fences ?d 2 = Some sample_base"
    by (rule sample_array_ready; simp only: table_of_two; simp)+
  have acc: "\<forall>f\<in>set sample_children. child_accepted sample_platform ?d f \<and> child_done ?d f"
    by (auto simp: child_accepted_def child_done_def sample_wait_table table_of_two child_key_def
        MSM_HW_FENCE_FLAG_SIGNAL_def BIT_def)
  have "\<exists>d' jf. hw_fence_process_fence_array sample_platform ?d sample_waiter 2 0 0 = Some (d', of_nat jf, 0) \<and>
    table_inv d' \<and> fence_map d' = fence_map ?d \<and>
    dma_fences d' = (dma_fences ?d)(2 \<mapsto> sample_base\<lparr>df_flags := set_bit (flag_signaled_bit sample_platform) (df_flags sample_base)\<rparr>) \<and>
    io_writes d' = io_writes ?d @ (if cl_send_ipc sample_waiter then [signal_write ?d sample_waiter] else []) \<and>
    (cl_update_rxq sample_waiter \<longrightarrow> ring_items 2 (client_ring d' sample_waiter RXQ) =
      ring_items 2 (client_ring ?d sample_waiter RXQ) @
      [\<lparr>qm_ctxt_id = df_context sample_base, qm_seqno = df_seqno sample_base, qm_hash = of_nat jf, qm_flags = 0,
        qm_client_data = 0, qm_error = ucast (0 :: u64)\<rparr>])"
    by (rule wait_array_signaled [OF ready _ acc])
      (simp_all only: sample_wait_ready sample_wait_room, simp_all)
  then obtain d' jf where r: "hw_fence_process_fence_array sample_platform ?d sample_waiter 2 0 0 = Some (d', of_nat jf, 0)"
    and q: "ring_items 2 (client_ring d' sample_waiter RXQ) = ring_items 2 (client_ring ?d sample_waiter RXQ) @
      [\<lparr>qm_ctxt_id = df_context sample_base, qm_seqno = df_seqno sample_base, qm_hash = of_nat jf, qm_flags = 0,
        qm_client_data = 0, qm_error = ucast (0 :: u64)\<rparr>]"
    by auto
  have "length (ring_items 2 (client_ring d' sample_waiter RXQ)) = 1"
    by (simp only: q sample_wait_ready) simp
  with r show ?thesis by blast
qed

section \<open>Signaling every waiting client\<close>

definition rx_slots :: "msm_hw_fence_client \<Rightarrow> nat" where
  "rx_slots c = unat (q_size_u32 (cl_queues c ! RXQ)) div 16"

definition rx_ready :: "hwf \<Rightarrow> msm_hw_fence_client \<Rightarrow> bool" where
  "rx_ready d c \<longleftrightarrow> (cl_update_rxq c \<longrightarrow>
     queue_ready (rx_slots c) d c RXQ \<and> ring_ok (rx_slots c) (client_ring d c RXQ))"

definition rx_apart :: "msm_hw_fence_client \<Rightarrow> msm_hw_fence_client \<Rightarrow> bool" where
  "rx_apart c c' \<longleftrightarrow> qd_va_header (cl_queues c ! RXQ) \<noteq> qd_va_header (cl_queues c' ! RXQ) \<and>
     qd_va_queue (cl_queues c ! RXQ) \<noteq> qd_va_queue (cl_queues c' ! RXQ)"

text \<open>The client with id \<open>n\<close>, apart from the flag on which a validation client waits.\<close>

definition no_val :: "msm_hw_fence_client \<Rightarrow> msm_hw_fence_client" where
  "no_val c = c\<lparr>cl_val_signal := 0\<rparr>"

definition client_of :: "hwf \<Rightarrow> nat \<Rightarrow> msm_hw_fence_client option" where
  "client_of d n = (if n < length (clients d)
     then map_option no_val (Option.bind (clients d ! n) (client_objs d)) else None)"

text \<open>
  The registered clients: each handle of the table leads to an object with that client id, whose rx queue
  is in order and shares no memory with another client's.
\<close>

definition clients_ready :: "hwf \<Rightarrow> bool" where
  "clients_ready d \<longleftrightarrow>
     (\<forall>n<length (clients d). clients d ! n \<noteq> None \<longrightarrow> client_of d n \<noteq> None) \<and>
     (\<forall>n c. client_of d n = Some c \<longrightarrow> unat (cl_client_id c) = n \<and> rx_ready d c) \<and>
     (\<forall>n m c c'. client_of d n = Some c \<longrightarrow> client_of d m = Some c' \<longrightarrow> n \<noteq> m \<longrightarrow>
        cl_update_rxq c \<longrightarrow> cl_update_rxq c' \<longrightarrow> rx_apart c c')"

lemma clients_readyD:
  assumes "clients_ready d" and "client_of d n = Some c"
  shows "unat (cl_client_id c) = n" and "rx_ready d c"
    and "client_of d m = Some c' \<Longrightarrow> n \<noteq> m \<Longrightarrow> cl_update_rxq c \<Longrightarrow> cl_update_rxq c' \<Longrightarrow> rx_apart c c'"
  using assms by (auto simp: clients_ready_def)

lemma no_val_fields [simp]:
  "cl_client_id (no_val c) = cl_client_id c" "cl_queues (no_val c) = cl_queues c"
  "cl_update_rxq (no_val c) = cl_update_rxq c" "cl_send_ipc (no_val c) = cl_send_ipc c"
  "no_val (c\<lparr>cl_val_signal := v\<rparr>) = no_val c"
  by (simp_all add: no_val_def)

lemma no_val_ready [simp]:
  "rx_slots (no_val c) = rx_slots c" "queue_ready n d (no_val c) t = queue_ready n d c t"
  "txq_wm (no_val c) t = txq_wm c t" "rx_ready d (no_val c) = rx_ready d c"
  by (simp_all add: rx_slots_def queue_ready_def txq_wm_def no_val_def rx_ready_def)

lemma client_of_obj:
  assumes "clients_ready d" and "n < length (clients d)" and "clients d ! n = Some h"
  obtains c where "client_objs d h = Some c" "client_of d n = Some (no_val c)"
  using assms by (auto simp: clients_ready_def client_of_def)

text \<open>Clearing the validation flag changes no client, seen this way.\<close>

lemma client_of_set_val:
  "client_objs d h = Some c \<Longrightarrow> client_of (set_client h (c\<lparr>cl_val_signal := v\<rparr>) d) = client_of d"
  by (rule ext) (auto simp: client_of_def set_client_def Option.bind_map_option split: Option.bind_split)

lemma set_client_fields [simp]:
  "hw_fences_tbl (set_client h c d) = hw_fences_tbl d" "hfi_hdrs (set_client h c d) = hfi_hdrs d"
  "q_words (set_client h c d) = q_words d" "client_lock_tbl (set_client h c d) = client_lock_tbl d"
  "client_lock_tbl_cnt (set_client h c d) = client_lock_tbl_cnt d"
  "hw_fence_client_queue_size (set_client h c d) = hw_fence_client_queue_size d"
  "clients (set_client h c d) = clients d" "hw_fences_tbl_va (set_client h c d) = hw_fences_tbl_va d"
  "hw_fence_table_entries (set_client h c d) = hw_fence_table_entries d"
  "rxq_clients_num (set_client h c d) = rxq_clients_num d" "io_writes (set_client h c d) = io_writes d"
  "dma_fences (set_client h c d) = dma_fences d" "qtime (set_client h c d) = qtime d"
  by (simp_all add: set_client_def)

text \<open>The parts of the state that delivering a signal leaves alone.\<close>

definition same_frame :: "hwf \<Rightarrow> hwf \<Rightarrow> bool" where
  "same_frame d d' \<longleftrightarrow> hw_fences_tbl d' = hw_fences_tbl d \<and> hw_fences_tbl_va d' = hw_fences_tbl_va d \<and>
     hw_fence_table_entries d' = hw_fence_table_entries d \<and> rxq_clients_num d' = rxq_clients_num d \<and>
     clients d' = clients d \<and> client_of d' = client_of d \<and> qtime d' = qtime d \<and>
     client_lock_tbl d' = client_lock_tbl d \<and> client_lock_tbl_cnt d' = client_lock_tbl_cnt d \<and>
     hw_fence_client_queue_size d' = hw_fence_client_queue_size d"

lemma same_frame_trans: "same_frame d d' \<Longrightarrow> same_frame d' d'' \<Longrightarrow> same_frame d d''"
  by (simp add: same_frame_def)

lemma same_frame_refl [simp]: "same_frame d d"
  by (simp add: same_frame_def)

abbreviation rx_ring :: "hwf \<Rightarrow> msm_hw_fence_client \<Rightarrow> ring" where
  "rx_ring d c \<equiv> queue_ring False d (cl_queues c ! RXQ)"

definition inbox :: "hwf \<Rightarrow> msm_hw_fence_client \<Rightarrow> queue_msg list" where
  "inbox d c = (if cl_update_rxq c then ring_items (rx_slots c) (rx_ring d c) else [])"

definition inbox_room :: "hwf \<Rightarrow> msm_hw_fence_client \<Rightarrow> nat" where
  "inbox_room d c = (if cl_update_rxq c then ring_room (rx_slots c) (rx_ring d c) else 0)"

lemma queue_ready_frame: "same_frame d d' \<Longrightarrow> queue_ready n d' c t = queue_ready n d c t"
  by (simp add: same_frame_def queue_ready_def)

lemma same_frame_set_queue_ring: "same_frame d (set_queue_ring wm queue q d)"
  by (simp add: same_frame_def client_of_def fun_eq_iff)

lemma inbox_no_val [simp]: "inbox d (no_val c) = inbox d c" "inbox_room d (no_val c) = inbox_room d c"
  by (simp_all add: inbox_def inbox_room_def)

text \<open>Delivery to a registered client changes no other client's inbox.\<close>

definition delivered :: "hwf \<Rightarrow> nat \<Rightarrow> queue_msg \<Rightarrow> hwf \<Rightarrow> bool" where
  "delivered d n m d' \<longleftrightarrow> same_frame d d' \<and> clients_ready d' \<and> (\<forall>n' c. client_of d n' = Some c \<longrightarrow>
     inbox d' c = inbox d c @ (if n' = n \<and> 0 < inbox_room d c then [m] else []) \<and>
     (n' \<noteq> n \<longrightarrow> inbox_room d' c = inbox_room d c))"

lemma clients_ready_frame:
  assumes "clients_ready d" and "same_frame d d'"
    and "\<And>n c. client_of d n = Some c \<Longrightarrow> cl_update_rxq c \<Longrightarrow> ring_ok (rx_slots c) (rx_ring d' c)"
  shows "clients_ready d'"
  using assms queue_ready_frame [OF assms(2)]
  by (auto simp: clients_ready_def same_frame_def rx_ready_def txq_wm_def)

text \<open>A change outside the rings and the clients.\<close>

lemma delivered_other:
  assumes "delivered d n m d1" and "same_frame d1 d2" and "hfi_hdrs d2 = hfi_hdrs d1" and "q_words d2 = q_words d1"
  shows "delivered d n m d2"
proof -
  have ring: "queue_ring wm d2 queue = queue_ring wm d1 queue" for wm queue
    using assms(3,4) by (simp add: queue_ring_def)
  have "clients_ready d2"
    using assms(1) clients_ready_frame [OF _ assms(2)]
    by (auto simp: delivered_def ring clients_ready_def rx_ready_def txq_wm_def)
  moreover have "inbox d2 = inbox d1" "inbox_room d2 = inbox_room d1"
    by (rule ext, simp add: inbox_def inbox_room_def ring)+
  ultimately show ?thesis
    using assms(1,2) same_frame_trans [of d d1 d2] by (simp add: delivered_def)
qed

lemma update_rx_delivered:
  assumes ready: "clients_ready d" and c: "client_of d n = Some (no_val c)" and up: "cl_update_rxq c"
  shows "\<exists>d' ret. hw_fence_update_queue d c m RXQ = Some (d', ret) \<and> delivered d n m d' \<and> client_objs d' = client_objs d"
proof -
  let ?queue = "cl_queues c ! RXQ"
  have rdy: "queue_ready (rx_slots c) d c RXQ" and rok: "ring_ok (rx_slots c) (rx_ring d c)"
    using clients_readyD(2) [OF ready c] up by (simp_all add: rx_ready_def txq_wm_def)
  have mine: "c' = no_val c" if "client_of d n = Some c'" for c' using that c by simp
  show ?thesis
  proof (cases "0 < inbox_room d c")
    case True
    then have room: "0 < ring_room (rx_slots c) (rx_ring d c)" using up by (simp add: inbox_room_def)
    obtain q where q: "ring_put (ring_size (rx_slots c)) (qtime d) m (rx_ring d c) = Some (q, 0)"
      "ring_ok (rx_slots c) q" "ring_items (rx_slots c) q = ring_items (rx_slots c) (rx_ring d c) @ [m]"
      using rok room by (rule ring_put_ok)
    let ?d = "set_queue_ring False ?queue q d"
    have upd: "hw_fence_update_queue d c m RXQ = Some (?d, 0)"
      using update_queue_ring [OF rdy, of m q 0] q(1) by (simp add: txq_wm_def)
    have other: "rx_ring ?d c' = rx_ring d c'" if "client_of d n' = Some c'" "n' \<noteq> n" "cl_update_rxq c'" for n' c'
      using clients_readyD(3) [OF ready that(1) c that(2,3)] up
      by (simp add: rx_apart_def queue_ring_other)
    have "clients_ready ?d"
    proof (rule clients_ready_frame [OF ready same_frame_set_queue_ring])
      fix n' c' assume c': "client_of d n' = Some c'" "cl_update_rxq c'"
      show "ring_ok (rx_slots c') (rx_ring ?d c')"
      proof (cases "n' = n")
        case True
        with mine c' q(2) show ?thesis by simp
      next
        case False
        with other [OF c'(1) False c'(2)] clients_readyD(2) [OF ready c'(1)] c'(2) show ?thesis
          by (simp add: rx_ready_def txq_wm_def)
      qed
    qed
    moreover have "inbox ?d c' = inbox d c' @ (if n' = n \<and> 0 < inbox_room d c' then [m] else [])"
      "n' \<noteq> n \<Longrightarrow> inbox_room ?d c' = inbox_room d c'" if "client_of d n' = Some c'" for n' c'
    proof -
      show "inbox ?d c' = inbox d c' @ (if n' = n \<and> 0 < inbox_room d c' then [m] else [])"
        using other [OF that] mine that True q(3) up by (cases "n' = n") (auto simp: inbox_def inbox_room_def)
      show "n' \<noteq> n \<Longrightarrow> inbox_room ?d c' = inbox_room d c'"
        using other [OF that] by (simp add: inbox_room_def)
    qed
    ultimately show ?thesis
      using upd by (intro exI [of _ ?d]) (simp add: delivered_def same_frame_set_queue_ring)
  next
    case False
    then have "ring_room (rx_slots c) (rx_ring d c) = 0" using up by (simp add: inbox_room_def)
    with rok have "ring_put (ring_size (rx_slots c)) (qtime d) m (rx_ring d c) = Some (rx_ring d c, - EINVAL)"
      by (rule ring_put_full)
    then have "hw_fence_update_queue d c m RXQ = Some (d, - EINVAL)"
      using update_queue_ring [OF rdy, of m] by (simp add: txq_wm_def)
    with False ready mine show ?thesis by (auto simp: delivered_def)
  qed
qed

lemma not_delivered: "clients_ready d \<Longrightarrow> client_of d n = Some c \<Longrightarrow> \<not> cl_update_rxq c \<Longrightarrow> delivered d n m d"
  by (auto simp: delivered_def inbox_room_def)

lemma trigger_delivered:
  assumes "delivered d n m d1"
  shows "delivered d n m (hw_fence_ipcc_trigger_signal d1 a b e)"
    and "client_objs (hw_fence_ipcc_trigger_signal d1 a b e) = client_objs d1"
    and "clients (hw_fence_ipcc_trigger_signal d1 a b e) = clients d1"
proof -
  have "same_frame d1 (writel v x d1)" for v x
    by (simp add: same_frame_def client_of_def fun_eq_iff)
  then show "delivered d n m (hw_fence_ipcc_trigger_signal d1 a b e)"
    by (intro delivered_other [OF assms]) (simp_all add: hw_fence_ipcc_trigger_signal_def Let_def)
qed (simp_all add: hw_fence_ipcc_trigger_signal_def Let_def)

lemma fence_ctl_signal_registered:
  assumes ready: "clients_ready d" and n: "n < length (clients d)" "clients d ! n = Some h"
    and c: "client_objs d h = Some c" and i: "i < length (hw_fences_tbl d)"
  shows "\<exists>d'. fence_ctl_signal P d c i (of_nat i) 0 cd error = Some d' \<and>
    delivered d n (signal_msg (hw_fences_tbl d ! i) i cd error) d'"
proof -
  let ?m = "signal_msg (hw_fences_tbl d ! i) i cd error"
  have cn: "client_of d n = Some (no_val c)" using n c by (simp add: client_of_def)
  then have cid: "unat (cl_client_id c) = n" using clients_readyD(1) [OF ready cn] by simp
  obtain d1 ret where d1: "(if cl_update_rxq c then hw_fence_update_queue d c ?m RXQ else Some (d, 0)) = Some (d1, ret)"
    "delivered d n ?m d1" "client_objs d1 = client_objs d"
  proof (cases "cl_update_rxq c")
    case True
    with update_rx_delivered [OF ready cn True, of ?m] that show thesis by (simp only: if_True) blast
  next
    case False
    with not_delivered [OF ready cn, of ?m] that [of d 0] show thesis by simp
  qed
  let ?d2 = "if cl_send_ipc c then hw_fence_ipcc_trigger_signal d1 (ipcc_client_pid d1) (of_int (cl_ipc_client_vid c))
      (of_int (cl_ipc_signal_id c)) else d1"
  have d2: "delivered d n ?m ?d2" "client_objs ?d2 = client_objs d" "clients ?d2 = clients d"
    using d1(2,3) trigger_delivered [OF d1(2)] by (simp_all add: delivered_def same_frame_def)
  have split: "fence_ctl_signal P d c i (of_nat i) 0 cd error =
    (if client_id P VAL0 \<le> cl_client_id c \<and> cl_client_id c \<le> client_id P VAL6
     then map_option fst (process_validation_client_loopback P ?d2 (cl_client_id c)) else Some ?d2)"
    unfolding fence_ctl_signal_def fetch_in [OF i] signal_msg_def [symmetric]
    by (simp only: bind.bind_lunit d1(1) Let_def prod.case)
  have val: "map_option fst (process_validation_client_loopback P ?d2 (cl_client_id c)) = Some ?d2 \<or>
    map_option fst (process_validation_client_loopback P ?d2 (cl_client_id c)) =
      Some (set_client h (c\<lparr>cl_val_signal := 1\<rparr>) ?d2)"
    using n c cid by (simp add: process_validation_client_loopback_def d2(2,3))
  have "delivered d n ?m (set_client h (c\<lparr>cl_val_signal := 1\<rparr>) ?d2)"
    using client_of_set_val [of ?d2 h c 1] c d2(2)
    by (intro delivered_other [OF d2(1)]) (simp_all add: same_frame_def)
  with val d2(1) show ?thesis unfolding split by auto
qed


text \<open>The message that the loop sends to client \<open>c\<close>, with the client's own data if it has a place for it.\<close>

definition signal_for :: "platform \<Rightarrow> msm_hw_fence \<Rightarrow> nat \<Rightarrow> u32 \<Rightarrow> msm_hw_fence_client \<Rightarrow> queue_msg \<Rightarrow> bool" where
  "signal_for P f i error c m \<longleftrightarrow> m = signal_msg f i (qm_client_data m) error \<and>
     (hw_fence_get_client_data_id P (cl_client_id c) < HW_FENCE_MAX_CLIENTS_WITH_DATA \<longrightarrow>
       qm_client_data m = hf_client_data f ! hw_fence_get_client_data_id P (cl_client_id c))"

abbreviation awaited_by :: "msm_hw_fence \<Rightarrow> u32 \<Rightarrow> bool" where
  "awaited_by f cid \<equiv> hf_wait_client_mask f AND BIT cid \<noteq> 0"

lemma signal_msg_data [simp]: "qm_client_data (signal_msg f i x e) = x"
  by (simp add: signal_msg_def)

lemma delivered_inbox:
  assumes "delivered d n m d'" and "client_of d n' = Some c"
  shows "client_of d' n' = Some c" and "n' \<noteq> n \<Longrightarrow> inbox d' c = inbox d c" and "n' \<noteq> n \<Longrightarrow> inbox_room d' c = inbox_room d c"
    and "n' = n \<Longrightarrow> inbox d' c = inbox d c @ (if 0 < inbox_room d c then [m] else [])"
  using assms by (auto simp: delivered_def same_frame_def)

definition inbox_after ::
  "platform \<Rightarrow> msm_hw_fence \<Rightarrow> nat \<Rightarrow> u32 \<Rightarrow> u32 list \<Rightarrow> hwf \<Rightarrow> hwf \<Rightarrow> msm_hw_fence_client \<Rightarrow> bool" where
  "inbox_after P f i error cids d d' c \<longleftrightarrow> (if cl_client_id c \<in> set cids \<and> awaited_by f (cl_client_id c)
     then if 0 < inbox_room d c then \<exists>m. signal_for P f i error c m \<and> inbox d' c = inbox d c @ [m]
       else inbox d' c = inbox d c
     else inbox d' c = inbox d c \<and> inbox_room d' c = inbox_room d c)"

lemma signal_wait_clients_ready:
  assumes "clients_ready d" and "i < length (hw_fences_tbl d)" and "hw_fences_tbl d ! i = f" and "distinct cids"
    and "\<forall>cid\<in>set cids. unat cid < length (clients d) \<and> cid < 64"
  shows "\<exists>d'. signal_wait_clients P i (of_nat i) error cids cd d = Some d' \<and> same_frame d d' \<and> clients_ready d' \<and>
    (\<forall>n c. client_of d n = Some c \<longrightarrow> inbox_after P f i error cids d d' c)"
  using assms
proof (induction cids arbitrary: d cd)
  case Nil
  then show ?case by (simp add: inbox_after_def)
next
  case (Cons cid cids)
  let ?n = "unat cid" and ?id = "hw_fence_get_client_data_id P cid"
  let ?cd = "if ?id < HW_FENCE_MAX_CLIENTS_WITH_DATA then hf_client_data f ! ?id else cd"
  have n: "?n < length (clients d)" "client_bit cid = Some (BIT cid)" "cid \<notin> set cids"
    using Cons.prems(4,5) by (simp_all add: client_bit_def)
  have id: "cl_client_id c = cid \<longleftrightarrow> n = ?n" if "client_of d n = Some c" for c n
    using clients_readyD(1) [OF Cons.prems(1) that] by (auto simp: word_unat_eq_iff)
  show ?case
  proof (cases "awaited_by f cid \<and> clients d ! ?n \<noteq> None")
    case False
    then have "signal_wait_clients P i (of_nat i) error (cid # cids) cd d =
        signal_wait_clients P i (of_nat i) error cids (if awaited_by f cid then ?cd else cd) d"
      using Cons.prems(2,3) n by (auto simp: Let_def)
    moreover have "inbox_after P f i error (cid # cids) d d' c"
      if "client_of d m = Some c" "inbox_after P f i error cids d d' c" for m c d'
    proof (cases "cl_client_id c = cid")
      case True
      with id [OF that(1)] that(1) have "clients d ! ?n \<noteq> None"
        by (auto simp: client_of_def Option.bind_eq_Some_conv split: if_splits)
      with False True n(3) that(2) show ?thesis by (simp add: inbox_after_def)
    next
      case False
      with that(2) show ?thesis by (simp add: inbox_after_def)
    qed
    ultimately show ?thesis
      using Cons.IH [OF Cons.prems(1-3), of "if awaited_by f cid then ?cd else cd"] Cons.prems(4,5) by auto
  next
    case True
    then obtain h where h: "clients d ! ?n = Some h" and aw: "awaited_by f cid" by auto
    obtain c where c: "client_objs d h = Some c" "client_of d ?n = Some (no_val c)"
      using Cons.prems(1) n(1) h by (rule client_of_obj)
    obtain d1 where d1: "fence_ctl_signal P d c i (of_nat i) 0 ?cd error = Some d1"
      "delivered d ?n (signal_msg f i ?cd error) d1"
      using fence_ctl_signal_registered [OF Cons.prems(1) n(1) h c(1) Cons.prems(2), of P ?cd error] Cons.prems(3)
      by auto
    have fr: "same_frame d d1" "clients_ready d1" using d1(2) by (simp_all add: delivered_def)
    then have tb: "hw_fences_tbl d1 = hw_fences_tbl d" "clients d1 = clients d" "client_of d1 = client_of d"
      by (simp_all add: same_frame_def)
    obtain d' where d': "signal_wait_clients P i (of_nat i) error cids ?cd d1 = Some d'" "same_frame d1 d'"
      "clients_ready d'" "\<forall>n c. client_of d n = Some c \<longrightarrow> inbox_after P f i error cids d1 d' c"
      using Cons.IH [OF fr(2), of ?cd] Cons.prems(2-5) tb by auto
    have "signal_wait_clients P i (of_nat i) error (cid # cids) cd d = Some d'"
      using Cons.prems(2,3) n h aw c(1) d1(1) d'(1) by (simp add: Let_def)
    moreover have "inbox_after P f i error (cid # cids) d d' c'" if c': "client_of d m = Some c'" for m c'
    proof (cases "m = ?n")
      case True
      then have me: "cl_client_id c' = cid" using id [OF c'] by simp
      then have "inbox d' c' = inbox d1 c'" using d'(4) c' n(3) by (auto simp: inbox_after_def)
      moreover have "signal_for P f i error c' (signal_msg f i ?cd error)"
        by (simp add: signal_for_def me)
      ultimately show ?thesis
        using delivered_inbox(4) [OF d1(2) c' True] aw me by (auto simp: inbox_after_def)
    next
      case False
      then have "cl_client_id c' \<noteq> cid" using id [OF c'] by simp
      moreover have "inbox_after P f i error cids d1 d' c'" using d'(4) c' by blast
      ultimately show ?thesis
        by (auto simp: inbox_after_def delivered_inbox(2,3) [OF d1(2) c' False] split: if_splits)
    qed
    ultimately show ?thesis
      using same_frame_trans [OF fr(1) d'(2)] d'(3) by blast
  qed
qed

definition mask_ready :: "hwf \<Rightarrow> bool" where
  "mask_ready d \<longleftrightarrow> rxq_clients_num d < 64 \<and> unat (rxq_clients_num d) < length (clients d)"

lemma signal_all_ready:
  assumes "clients_ready d" and "mask_ready d" and "i < length (hw_fences_tbl d)"
  shows "\<exists>d'. signal_all_wait_clients P d i (of_nat i) error = Some d' \<and> same_frame d d' \<and> clients_ready d' \<and>
    (\<forall>n c. client_of d n = Some c \<longrightarrow> inbox_after P (hw_fences_tbl d ! i) i error
       (map of_nat [0..<Suc (unat (rxq_clients_num d))]) d d' c)"
  unfolding signal_all_wait_clients_def
proof (rule signal_wait_clients_ready [OF assms(1,3) refl])
  have n: "unat (rxq_clients_num d) < 64" using assms(2) by (simp add: mask_ready_def word_less_nat_alt)
  then have u: "unat (of_nat k :: u32) = k" if "k \<le> unat (rxq_clients_num d)" for k
    using that by (simp add: unat_of_nat)
  have "inj_on (of_nat :: nat \<Rightarrow> u32) {0..<Suc (unat (rxq_clients_num d))}"
    by (rule inj_onI) (metis atLeastLessThan_iff less_Suc_eq_le u)
  then show "distinct (map of_nat [0..<Suc (unat (rxq_clients_num d))] :: u32 list)"
    by (simp add: distinct_map del: upt_Suc)
  show "\<forall>cid\<in>set (map of_nat [0..<Suc (unat (rxq_clients_num d))]). unat cid < length (clients d) \<and> cid < (64 :: u32)"
    using assms(2) n u by (auto simp: mask_ready_def word_less_nat_alt simp del: upt_Suc)
qed

text \<open>C16. When a fence dies, every client that waits for it learns about it, exactly once and nobody else
  does: if the rx queues that the driver writes have room, signaling all waiting clients returns, and the
  messages in the inbox of a client whose rx queue the driver writes are those from before plus, if and
  only if the client is in the fence's wait mask, one message with this fence's context, sequence number
  and index and the error, carrying the client's own data if the client has a place for it. Nothing is written for
  the other clients. The fence table, the locks and the clients are as before.\<close>

theorem waiters_signaled:
  assumes "clients_ready d" and "mask_ready d" and "i < length (hw_fences_tbl d)"
    and "\<forall>n c. client_of d n = Some c \<longrightarrow> cl_update_rxq c \<longrightarrow> n \<le> unat (rxq_clients_num d) \<and> 0 < inbox_room d c"
  shows "\<exists>d'. signal_all_wait_clients P d i (of_nat i) error = Some d' \<and> same_frame d d' \<and> clients_ready d' \<and>
    (\<forall>n c. client_of d n = Some c \<longrightarrow>
      (if cl_update_rxq c \<and> awaited_by (hw_fences_tbl d ! i) (cl_client_id c)
       then \<exists>m. signal_for P (hw_fences_tbl d ! i) i error c m \<and> inbox d' c = inbox d c @ [m]
       else inbox d' c = inbox d c))"
proof -
  obtain d' where d': "signal_all_wait_clients P d i (of_nat i) error = Some d'" "same_frame d d'" "clients_ready d'"
    "\<forall>n c. client_of d n = Some c \<longrightarrow> inbox_after P (hw_fences_tbl d ! i) i error
       (map of_nat [0..<Suc (unat (rxq_clients_num d))]) d d' c"
    using signal_all_ready [OF assms(1-3)] by blast
  have served: "cl_client_id c \<in> set (map of_nat [0..<Suc (unat (rxq_clients_num d))])"
    if "client_of d n = Some c" "cl_update_rxq c" for n c
  proof -
    have "cl_client_id c = of_nat n" using clients_readyD(1) [OF assms(1) that(1)] by (rule eq_of_natI)
    moreover have "n \<in> set [0..<Suc (unat (rxq_clients_num d))]" using assms(4) that by (fastforce simp del: upt_Suc)
    ultimately show ?thesis unfolding set_map by blast
  qed
  have "if cl_update_rxq c \<and> awaited_by (hw_fences_tbl d ! i) (cl_client_id c)
      then \<exists>m. signal_for P (hw_fences_tbl d ! i) i error c m \<and> inbox d' c = inbox d c @ [m] else inbox d' c = inbox d c"
    if c: "client_of d n = Some c" for n c
  proof (cases "cl_update_rxq c")
    case True
    then have "0 < inbox_room d c" using assms(4) c by blast
    with d'(4) c served [OF c True] True show ?thesis by (auto simp: inbox_after_def simp del: upt_Suc)
  next
    case False
    then show ?thesis by (simp add: inbox_def)
  qed
  with d'(1-3) show ?thesis by blast
qed


lemma sample_client_of: "client_of (sample_wait_state tbl) n = (if n = 2 then Some sample_waiter else None)"
  by (auto simp: client_of_def sample_wait_state_def nth_Cons' no_val_def sample_client_def zero_client_def
      split: if_splits)

lemma sample_inbox:
  "rx_slots sample_waiter = 2" "inbox (sample_wait_state tbl) sample_waiter = []"
  "0 < inbox_room (sample_wait_state tbl) sample_waiter"
  using sample_wait_ready(2) [of tbl] sample_wait_ready(3-5)
  by (simp_all add: inbox_def inbox_room_def rx_slots_def q_size_u32_def sample_client_def zero_client_def txq_wm_def)

lemma sample_clients_ready: "clients_ready (sample_wait_state tbl)" "mask_ready (sample_wait_state tbl)"
  using sample_wait_ready(1,2) [of tbl] sample_wait_ready(3)
  by (auto simp: clients_ready_def sample_client_of rx_ready_def sample_inbox(1))
    (auto simp: sample_wait_state_def sample_client_def mask_ready_def zero_client_def nth_Cons' less_Suc_eq)

theorem waiters_signaled_witness:
  "\<exists>d' m. signal_all_wait_clients sample_platform
      (sample_wait_state [(new_fence 0 7 (5, 9) 0)\<lparr>hf_wait_client_mask := 4\<rparr>]) 0 (of_nat 0) 32 = Some d' \<and>
    inbox d' sample_waiter = [m] \<and> qm_error m = 32"
proof -
  let ?f = "(new_fence 0 7 (5, 9) 0)\<lparr>hf_wait_client_mask := 4\<rparr>"
  let ?d = "sample_wait_state [?f]"
  have tbl: "hw_fences_tbl ?d = [?f]" "rxq_clients_num ?d = 3" by (simp_all add: sample_wait_state_def)
  have "\<exists>d'. signal_all_wait_clients sample_platform ?d 0 (of_nat 0) 32 = Some d' \<and> same_frame ?d d' \<and>
    clients_ready d' \<and> (\<forall>n c. client_of ?d n = Some c \<longrightarrow>
      (if cl_update_rxq c \<and> awaited_by (hw_fences_tbl ?d ! 0) (cl_client_id c)
       then \<exists>m. signal_for sample_platform (hw_fences_tbl ?d ! 0) 0 32 c m \<and> inbox d' c = inbox ?d c @ [m]
       else inbox d' c = inbox ?d c))"
  proof (rule waiters_signaled [OF sample_clients_ready])
    show "0 < length (hw_fences_tbl ?d)" by (simp add: tbl)
    show "\<forall>n c. client_of ?d n = Some c \<longrightarrow> cl_update_rxq c \<longrightarrow> n \<le> unat (rxq_clients_num ?d) \<and> 0 < inbox_room ?d c"
      using sample_inbox(3) [of "[?f]"] by (auto simp: sample_client_of tbl simp del: gr0_conv_Suc)
  qed
  then obtain d' where d': "signal_all_wait_clients sample_platform ?d 0 (of_nat 0) 32 = Some d'"
    and ib: "\<And>n c. client_of ?d n = Some c \<Longrightarrow>
      (if cl_update_rxq c \<and> awaited_by (hw_fences_tbl ?d ! 0) (cl_client_id c)
       then \<exists>m. signal_for sample_platform (hw_fences_tbl ?d ! 0) 0 32 c m \<and> inbox d' c = inbox ?d c @ [m]
       else inbox d' c = inbox ?d c)" by blast
  have "cl_client_id sample_waiter = 2" "cl_update_rxq sample_waiter" by (simp_all add: sample_client_def)
  then have "awaited_by (hw_fences_tbl ?d ! 0) (cl_client_id sample_waiter)" "cl_update_rxq sample_waiter" by (simp_all add: tbl BIT_def)
  with ib [of 2 sample_waiter] obtain m where m: "signal_for sample_platform ?f 0 32 sample_waiter m"
    "inbox d' sample_waiter = inbox ?d sample_waiter @ [m]"
    by (auto simp: sample_client_of tbl)
  have "qm_error m = 32" using m(1) by (simp add: signal_for_def) (metis queue_msg.select_convs(6) signal_msg_def)
  with d' m(2) sample_inbox(2) show ?thesis by auto
qed

section \<open>Cleaning up a fence\<close>

definition unwaited :: "u32 \<Rightarrow> msm_hw_fence \<Rightarrow> msm_hw_fence" where
  "unwaited cid f = f\<lparr>hf_wait_client_mask := hf_wait_client_mask f AND NOT (BIT cid)\<rparr>"

definition destroys :: "platform \<Rightarrow> u32 \<Rightarrow> u32 \<Rightarrow> msm_hw_fence \<Rightarrow> bool" where
  "destroys P cid reset_flags f \<longleftrightarrow> hf_fence_allocator f = cid \<and> reset_flags AND reset_without_destroy P = 0"

text \<open>An entry of the table after the reset of client \<open>cid\<close>.\<close>

definition cleaned :: "platform \<Rightarrow> u32 \<Rightarrow> u32 \<Rightarrow> msm_hw_fence \<Rightarrow> msm_hw_fence" where
  "cleaned P cid reset_flags f = (if destroys P cid reset_flags f
     then (cleanup_hw_fence f)\<lparr>hf_valid := 0\<rparr> else unwaited cid f)"

lemma unwaited_fields [simp]:
  "hf_valid (unwaited cid f) = hf_valid f" "key (unwaited cid f) = key f" "hf_lock (unwaited cid f) = hf_lock f"
  "hf_flags (unwaited cid f) = hf_flags f" "hf_fence_allocator (unwaited cid f) = hf_fence_allocator f"
  by (simp_all add: unwaited_def key_def)

lemma unwaited_same: "hf_wait_client_mask f AND BIT cid = 0 \<Longrightarrow> unwaited cid f = f"
proof -
  assume "hf_wait_client_mask f AND BIT cid = 0"
  then have "\<not> bit (hf_wait_client_mask f AND BIT cid) n" for n by simp
  then have "hf_wait_client_mask f AND NOT (BIT cid) = hf_wait_client_mask f"
    by (intro bit_eqI) (auto simp: bit_and_iff bit_not_iff)
  then show ?thesis by (cases f) (simp add: unwaited_def)
qed

definition owns_dying :: "u32 \<Rightarrow> msm_hw_fence \<Rightarrow> bool" where
  "owns_dying cid f \<longleftrightarrow> hf_fence_allocator f = cid \<and> \<not> signaled f"

definition reset_error :: "platform \<Rightarrow> u32 \<Rightarrow> u32" where
  "reset_error P reset_flags = (if reset_flags AND reset_without_error P \<noteq> 0 then 0 else error_reset P)"

text \<open>The entries that a reset of client \<open>cid\<close> can work on.\<close>

definition owned_ok :: "u32 \<Rightarrow> msm_hw_fence \<Rightarrow> bool" where
  "owned_ok cid f \<longleftrightarrow> (if valid_fence f then key f \<noteq> (0, 0) else hf_fence_allocator f \<noteq> cid)"

lemma clients_ready_tbl [simp]: "clients_ready (d\<lparr>hw_fences_tbl := t\<rparr>) = clients_ready d"
  by (auto simp: clients_ready_def client_of_def rx_ready_def queue_ready_def queue_ring_def)

lemma client_of_tbl [simp]: "client_of (d\<lparr>hw_fences_tbl := t\<rparr>) = client_of d"
  by (simp add: client_of_def fun_eq_iff)

lemma inbox_tbl [simp]:
  "inbox (d\<lparr>hw_fences_tbl := t\<rparr>) = inbox d" "inbox_room (d\<lparr>hw_fences_tbl := t\<rparr>) = inbox_room d"
  by (simp_all add: inbox_def inbox_room_def queue_ring_def fun_eq_iff)

text \<open>An entry that stays what it is, valid or free, with its key.\<close>

lemma table_inv_same_key:
  assumes inv: "table_inv d" and i: "i < length (hw_fences_tbl d)"
    and f: "hf_valid f = hf_valid (hw_fences_tbl d ! i)" "key f = key (hw_fences_tbl d ! i)" "hf_lock f = 0"
  shows "table_inv (set_fence i f d)"
proof (cases "valid_fence (hw_fences_tbl d ! i)")
  case True
  with i have "stored_at d (key (hw_fences_tbl d ! i)) i" by (simp add: keyed_at_def)
  with table_inv_replace(1) [OF inv this, of f] True f show ?thesis by simp
next
  case False
  moreover have "key f = (0, 0)" using f(2) inv i False by (simp add: table_inv_def free_cleanD)
  ultimately show ?thesis
    using inv i f keyed_skip(1) [of i "hw_fences_tbl d" valid_fence f key]
    by (simp add: table_inv_def table_ok_set_fence free_clean_set_fence keys_unique_def)
qed


abbreviation all_cids :: "hwf \<Rightarrow> u32 list" where
  "all_cids d \<equiv> map of_nat [0..<Suc (unat (rxq_clients_num d))]"

lemma inbox_after_tbl [simp]:
  "inbox_after P f i e cids (d\<lparr>hw_fences_tbl := t\<rparr>) d' c = inbox_after P f i e cids d d' c"
  "inbox_after P f i e cids d (d'\<lparr>hw_fences_tbl := t\<rparr>) c = inbox_after P f i e cids d d' c"
  by (simp_all add: inbox_after_def)

text \<open>The first part of the function: the client's bit leaves the wait mask.\<close>

lemma cleanup_fence_unwait:
  assumes ok: "table_ok d" and i: "i < length (hw_fences_tbl d)" and cid: "cl_client_id c < 64"
  shows "hw_fence_utils_cleanup_fence P d c i hash reset_flags = (let f = unwaited (cl_client_id c) (hw_fences_tbl d ! i);
       d1 = set_fence i f d in
     if hf_fence_allocator f = cl_client_id c then do {
       d \<leftarrow> (if \<not> signaled f then signal_all_wait_clients P d1 i hash (reset_error P reset_flags) else Some d1);
       if reset_flags AND reset_without_destroy P \<noteq> 0 then Some (d, 0)
       else do {
         f \<leftarrow> fetch (hw_fences_tbl d) i;
         hw_fence_destroy d c (hf_ctx_id f) (hf_seq_id f)
       }
     } else Some (d1, 0))"
proof -
  let ?f = "hw_fences_tbl d ! i"
  have l0: "hf_lock ?f = 0" using ok i by (simp add: table_okD(4))
  have comm: "f\<lparr>hf_wait_client_mask := m, hf_lock := 1\<rparr> = f\<lparr>hf_lock := 1, hf_wait_client_mask := m\<rparr>" for f m
    by (cases f) simp
  have bit: "(if hf_wait_client_mask ?f AND BIT (cl_client_id c) \<noteq> 0
      then set_fence i (?f\<lparr>hf_lock := 1, hf_wait_client_mask := hf_wait_client_mask ?f AND NOT (BIT (cl_client_id c))\<rparr>)
        (set_fence i (?f\<lparr>hf_lock := 1\<rparr>) d)
      else set_fence i (?f\<lparr>hf_lock := 1\<rparr>) d) = set_fence i ((unwaited (cl_client_id c) ?f)\<lparr>hf_lock := 1\<rparr>) d"
  proof (cases "hf_wait_client_mask ?f AND BIT (cl_client_id c) = 0")
    case True
    then show ?thesis by (simp add: unwaited_same)
  next
    case False
    then show ?thesis by (simp add: unwaited_def comm)
  qed
  have un: "global_atomic_store (set_fence i ((unwaited (cl_client_id c) ?f)\<lparr>hf_lock := 1\<rparr>) d) (FenceLock i) False =
      Some (set_fence i (unwaited (cl_client_id c) ?f) d)"
    using i l0 by (simp add: relock fence_relock)
  show ?thesis
    using i l0 cid bit
    by (simp add: hw_fence_utils_cleanup_fence_def fence_lock client_bit_def reset_error_def un Let_def cong: if_cong)
qed

lemma cleanup_fence_at:
  assumes inv: "table_inv d" and cl: "clients_ready d" "mask_ready d" and i: "i < length (hw_fences_tbl d)"
    and cid: "cl_client_id c < 64" and own: "owned_ok (cl_client_id c) (hw_fences_tbl d ! i)"
  shows "\<exists>d'. hw_fence_utils_cleanup_fence P d c i (of_nat i) reset_flags = Some (d', 0) \<and> table_inv d' \<and>
    hw_fences_tbl d' = (hw_fences_tbl d)[i := cleaned P (cl_client_id c) reset_flags (hw_fences_tbl d ! i)] \<and>
    same_frame (d\<lparr>hw_fences_tbl := hw_fences_tbl d'\<rparr>) d' \<and> clients_ready d' \<and>
    (\<forall>n c'. client_of d n = Some c' \<longrightarrow> (if owns_dying (cl_client_id c) (hw_fences_tbl d ! i)
       then inbox_after P (unwaited (cl_client_id c) (hw_fences_tbl d ! i)) i (reset_error P reset_flags) (all_cids d) d d' c'
       else inbox d' c' = inbox d c'))"
proof -
  let ?g = "hw_fences_tbl d ! i" and ?cid = "cl_client_id c"
  let ?f = "unwaited ?cid ?g"
  let ?d1 = "set_fence i ?f d"
  have ok: "table_ok d" using inv by (simp add: table_inv_def)
  have l0: "hf_lock ?g = 0" using inv i by (simp add: table_inv_def table_okD(4))
  have inv1: "table_inv ?d1" using table_inv_same_key [OF inv i, of ?f] l0 by simp
  have d1: "?d1 = d\<lparr>hw_fences_tbl := (hw_fences_tbl d)[i := ?f]\<rparr>" by (simp add: set_fence_def)
  have cl1: "clients_ready ?d1" "mask_ready ?d1" "i < length (hw_fences_tbl ?d1)"
    using cl i by (simp_all add: d1 mask_ready_def)
  show ?thesis
  proof (cases "hf_fence_allocator ?g = ?cid")
    case False
    then have "hw_fence_utils_cleanup_fence P d c i (of_nat i) reset_flags = Some (?d1, 0)"
      by (simp add: cleanup_fence_unwait [OF ok i cid] Let_def)
    with False inv1 cl1(1) show ?thesis
      by (intro exI [of _ ?d1]) (simp add: cleaned_def destroys_def owns_dying_def d1)
  next
    case True
    obtain d2 where d2: "(if \<not> signaled ?f then signal_all_wait_clients P ?d1 i (of_nat i) (reset_error P reset_flags)
        else Some ?d1) = Some d2" "same_frame ?d1 d2" "clients_ready d2"
      "\<And>n c'. client_of d n = Some c' \<Longrightarrow> if owns_dying ?cid ?g
         then inbox_after P ?f i (reset_error P reset_flags) (all_cids d) d d2 c' else inbox d2 c' = inbox d c'"
    proof (cases "signaled ?f")
      case True
      with cl1(1) show ?thesis by (intro that [of ?d1]) (simp_all add: owns_dying_def d1)
    next
      case False
      obtain d2 where d2: "signal_all_wait_clients P ?d1 i (of_nat i) (reset_error P reset_flags) = Some d2"
        "same_frame ?d1 d2" "clients_ready d2" "\<forall>n c. client_of ?d1 n = Some c \<longrightarrow>
          inbox_after P (hw_fences_tbl ?d1 ! i) i (reset_error P reset_flags) (all_cids ?d1) ?d1 d2 c"
        using signal_all_ready [OF cl1] by blast
      have "inbox_after P ?f i (reset_error P reset_flags) (all_cids d) d d2 c'" if "client_of d n = Some c'" for n c'
      proof -
        have "inbox_after P (hw_fences_tbl ?d1 ! i) i (reset_error P reset_flags) (all_cids ?d1) ?d1 d2 c'"
          using d2(4) that by (simp only: d1 client_of_tbl)
        then show ?thesis using i by (simp add: d1 del: upt_Suc)
      qed
      with d2(1-3) False True show ?thesis
        by (intro that [of d2]) (simp_all add: owns_dying_def del: upt_Suc)
    qed
    have tb: "hw_fences_tbl d2 = (hw_fences_tbl d)[i := ?f]" using d2(2) by (simp add: same_frame_def)
    have fr: "same_frame (d\<lparr>hw_fences_tbl := hw_fences_tbl d2\<rparr>) d2" using d2(2) by (simp add: d1 tb)
    have inv2: "table_inv d2"
      using inv1 d2(2) table_inv_cong(1) [of ?d1 d2] by (simp add: same_frame_def)
    show ?thesis
    proof (cases "reset_flags AND reset_without_destroy P = 0")
      case False
      with True have "hw_fence_utils_cleanup_fence P d c i (of_nat i) reset_flags = Some (d2, 0)"
        using d2(1) by (simp add: cleanup_fence_unwait [OF ok i cid] Let_def)
      moreover have "cleaned P ?cid reset_flags ?g = ?f" using False by (simp add: cleaned_def destroys_def)
      ultimately show ?thesis using inv2 fr d2(3,4) by (intro exI [of _ d2]) (simp add: tb del: upt_Suc)
    next
      case destroy: True
      have v: "valid_fence ?g" "key ?g \<noteq> (0, 0)" using own True by (auto simp: owned_ok_def split: if_splits)
      have at: "stored_at d2 (hf_ctx_id ?f, hf_seq_id ?f) i"
        using i v by (simp add: keyed_at_def tb key_def)
      have nz: "(hf_ctx_id ?f, hf_seq_id ?f) \<noteq> (0, 0)" using v(2) by (simp add: key_def unwaited_def)
      let ?h = "unreserve_hw_fence d2 ?f ?cid (hf_ctx_id ?f) (hf_seq_id ?f) 0"
      have h: "?h = cleaned P ?cid reset_flags ?g"
        using True destroy
        by (simp add: unreserve_hw_fence_def cleaned_def destroys_def cleanup_hw_fence_def unwaited_def)
      have "hw_fence_utils_cleanup_fence P d c i (of_nat i) reset_flags = Some (set_fence i ?h d2, 0)"
        using True destroy d2(1) hw_fence_cleanup_stored [OF inv2 nz at, of ?cid] i
        by (simp add: cleanup_fence_unwait [OF ok i cid] Let_def hw_fence_destroy_def tb)
      moreover have "table_inv (set_fence i ?h d2)"
        using unreserve_deletes(1) [OF inv2 at, of ?cid] i by (simp add: tb)
      moreover have "set_fence i ?h d2 = d2\<lparr>hw_fences_tbl := (hw_fences_tbl d)[i := ?h]\<rparr>"
        by (simp add: set_fence_def tb)
      moreover have "same_frame (d\<lparr>hw_fences_tbl := t\<rparr>) (d2\<lparr>hw_fences_tbl := t\<rparr>)" for t
        using fr by (simp add: same_frame_def)
      ultimately show ?thesis using d2(3,4)
        by (intro exI [of _ "d2\<lparr>hw_fences_tbl := (hw_fences_tbl d)[i := ?h]\<rparr>"])
          (simp add: h del: upt_Suc)
    qed
  qed
qed

end
