(* ===== verification/HwfDoorbell.thy ===== *)
theory HwfDoorbell
  imports HwfSignal
begin

text \<open>
  The doorbell that the service VM rings, \<open>hw_fence_drv_utils.c\<close>: each bit of a 64-bit word names a
  loopback client whose signal this driver processes in place of hardware. What the hypervisor's
  \<open>gh_dbl_read_and_clean\<close> returns is an argument of the callback.
\<close>

section \<open>The code\<close>

definition HW_FENCE_LOOPBACK_DPU_CTL_5 :: nat where "HW_FENCE_LOOPBACK_DPU_CTL_5 = 5"
definition HW_FENCE_LOOPBACK_GFX_CTX_0 :: nat where "HW_FENCE_LOOPBACK_GFX_CTX_0 = 6"

definition HW_FENCE_LOOPBACK_VAL_0 :: "platform \<Rightarrow> nat" where
  "HW_FENCE_LOOPBACK_VAL_0 P = unat (client_id P VAL0)"

definition HW_FENCE_LOOPBACK_MAX :: "platform \<Rightarrow> nat" where
  "HW_FENCE_LOOPBACK_MAX P = HW_FENCE_LOOPBACK_VAL_0 P + 7"

text \<open>The start register is looked up, and written only in a build for simulation.\<close>

definition process_dpu_client_loopback :: "hwf \<Rightarrow> nat \<Rightarrow> (hwf \<times> int) option" where
  "process_dpu_client_loopback d ctl_id =
     (if HW_FENCE_LOOPBACK_DPU_CTL_5 < ctl_id then Some (d, - EINVAL)
      else do {
        reg \<leftarrow> fetch (ctl_start_ptr d) ctl_id;
        Some (d, if reg = 0 then - EINVAL else 0)
      })"

text \<open>The loop of \<open>_process_gfx_client_loopback\<close>: it reads until the queue is empty or the read fails.
  \<open>p\<close> is the payload buffer on the stack.\<close>

definition gfx_read :: "platform \<Rightarrow> msm_hw_fence_queue_payload \<Rightarrow> hwf \<Rightarrow> (hwf \<times> msm_hw_fence_queue_payload \<times> int) option"
where
  "gfx_read P p d = do {
     h \<leftarrow> fetch (clients d) (unat (client_id P CTX0));
     case h of None \<Rightarrow> Some (d, p, - EINVAL)
     | Some h \<Rightarrow> do { c \<leftarrow> client_objs d h; hw_fence_read_queue d c p RXQ }
   }"

partial_function (option) process_gfx_client_loopback ::
  "platform \<Rightarrow> msm_hw_fence_queue_payload \<Rightarrow> hwf \<Rightarrow> (hwf \<times> int) option" where
  "process_gfx_client_loopback P p d = do {
     (d, p, read) \<leftarrow> gfx_read P p d;
     if read \<le> 0 then Some (d, read) else process_gfx_client_loopback P p d
   }"

definition process_doorbell_client ::
  "platform \<Rightarrow> msm_hw_fence_queue_payload \<Rightarrow> nat \<Rightarrow> hwf \<Rightarrow> (hwf \<times> int) option" where
  "process_doorbell_client P p n d =
     (if n \<le> HW_FENCE_LOOPBACK_DPU_CTL_5 then process_dpu_client_loopback d n
      else if n = HW_FENCE_LOOPBACK_GFX_CTX_0 then process_gfx_client_loopback P p d
      else if HW_FENCE_LOOPBACK_VAL_0 P \<le> n \<and> n \<le> HW_FENCE_LOOPBACK_VAL_0 P + 6
      then process_validation_client_loopback P d (of_nat n)
      else Some (d, - EINVAL))"

text \<open>\<open>1 << client_id\<close> is a shift of the 32-bit constant.\<close>

definition int_bit :: "nat \<Rightarrow> u64 option" where
  "int_bit n = (if n < 31 then Some (push_bit n 1) else None)"

fun doorbell_loop :: "platform \<Rightarrow> msm_hw_fence_queue_payload \<Rightarrow> nat list \<Rightarrow> u64 \<Rightarrow> hwf \<Rightarrow> hwf option" where
  "doorbell_loop P p [] db_flags d = Some d"
| "doorbell_loop P p (n # ns) db_flags d = do {
     mask \<leftarrow> int_bit n;
     if mask AND db_flags \<noteq> 0 then do {
       (d, _) \<leftarrow> process_doorbell_client P p n d;
       let db_flags = db_flags AND NOT mask;
       if db_flags = 0 then Some d else doorbell_loop P p ns db_flags d
     } else doorbell_loop P p ns db_flags d
   }"

definition hw_fence_utils_process_doorbell_mask ::
  "platform \<Rightarrow> msm_hw_fence_queue_payload \<Rightarrow> u64 \<Rightarrow> hwf \<Rightarrow> hwf option" where
  "hw_fence_utils_process_doorbell_mask P p db_flags d =
     doorbell_loop P p [0..<HW_FENCE_LOOPBACK_MAX P] db_flags d"

text \<open>\<open>_hw_fence_cb\<close> with the result and the flags that the hypervisor returns.\<close>

definition hw_fence_cb :: "platform \<Rightarrow> msm_hw_fence_queue_payload \<Rightarrow> int \<times> u64 \<Rightarrow> hwf \<Rightarrow> hwf option" where
  "hw_fence_cb P p dbl d = (case dbl of (ret, clear_flags) \<Rightarrow>
     if ret \<noteq> 0 then Some d else hw_fence_utils_process_doorbell_mask P p clear_flags d)"

section \<open>The loop over the flags\<close>

text \<open>The reference: the loopback clients whose bits are set, in the order of their ids.\<close>

definition rung :: "platform \<Rightarrow> u64 \<Rightarrow> nat list" where
  "rung P db_flags = filter (bit db_flags) [0..<HW_FENCE_LOOPBACK_MAX P]"

abbreviation serve :: "platform \<Rightarrow> msm_hw_fence_queue_payload \<Rightarrow> nat \<Rightarrow> hwf \<Rightarrow> hwf option" where
  "serve P p n d \<equiv> map_option fst (process_doorbell_client P p n d)"

lemma int_bit_BIT: "int_bit n = Some m \<Longrightarrow> n < 31 \<and> m = BIT (of_nat n) \<and> unat (of_nat n :: u32) = n"
  by (auto simp: int_bit_def BIT_def unat_of_nat split: if_splits)

lemma int_bit_test: "int_bit n = Some m \<Longrightarrow> (m AND w \<noteq> 0) = bit w n"
  using int_bit_BIT [of n m] and_BIT_iff [of "of_nat n" w] by (simp add: and.commute)

lemma int_bit_clear: "int_bit n = Some m \<Longrightarrow> bit (w AND NOT m) k = (bit w k \<and> k \<noteq> n)"
  using int_bit_BIT [of n m] by (cases "k < 64") (auto simp: bit_and_iff bit_not_iff bit_BIT dest: bit_imp_le_length)

lemma doorbell_loop_serves:
  assumes "\<forall>n\<in>set ns. n < 31" and "distinct ns"
  shows "doorbell_loop P p ns db_flags d = chain (serve P p) (filter (bit db_flags) ns) d"
  using assms
proof (induction ns arbitrary: db_flags d)
  case Nil
  then show ?case by simp
next
  case (Cons n ns)
  obtain m where m: "int_bit n = Some m" using Cons.prems(1) by (simp add: int_bit_def)
  have other: "filter (bit (db_flags AND NOT m)) ns = filter (bit db_flags) ns"
    using Cons.prems(2) by (intro filter_cong) (auto simp: int_bit_clear [OF m])
  have none: "filter (bit db_flags) ns = []" if "db_flags AND NOT m = 0"
    using that other by (metis bit_0_eq filter_False bot_apply bot_bool_def)
  have IH: "doorbell_loop P p ns w d = chain (serve P p) (filter (bit w) ns) d" for w d
    using Cons by simp
  show ?case
    using none
    by (simp add: m int_bit_test [OF m] IH other Let_def split: Option.bind_split option.split prod.split)
qed

section \<open>What serving a doorbell does\<close>

text \<open>
  The GPU's rx queue, which the service VM writes and this driver only reads, so that it has no lock here: it is set up,
  its ring is well-formed, and the messages in it are those that nobody has read.
\<close>

definition rx_placed :: "hwf \<Rightarrow> msm_hw_fence_client \<Rightarrow> bool" where
  "rx_placed d c \<longleftrightarrow> RXQ < length (cl_queues c) \<and> qd_va_header (cl_queues c ! RXQ) \<noteq> 0 \<and>
     q_size_u32 (cl_queues c ! RXQ) = ring_size (rx_slots c) \<and> ring_ok (rx_slots c) (rx_ring d c)"

definition unread :: "hwf \<Rightarrow> msm_hw_fence_client \<Rightarrow> queue_msg list" where
  "unread d c = ring_items (rx_slots c) (rx_ring d c)"

lemma rx_placed_no_val [simp]: "rx_placed d (no_val c) = rx_placed d c" "unread d (no_val c) = unread d c"
  by (simp_all add: rx_placed_def unread_def)

lemma unread_inbox: "cl_update_rxq c \<Longrightarrow> inbox d c = unread d c"
  by (simp add: inbox_def unread_def)

text \<open>The loop reads all messages, however many there are.\<close>

lemma set_queue_ring_twice [simp]:
  "set_queue_ring wm queue q (set_queue_ring wm queue q' d) = set_queue_ring wm queue q d"
  by (cases q; cases q') (simp add: set_queue_ring_def Let_def)

lemma gfx_loop_drains:
  assumes "fetch (clients d) (unat (client_id P CTX0)) = Some (Some h)" and "client_objs d h = Some c"
    and "RXQ < length (cl_queues c)" and "qd_va_header (cl_queues c ! RXQ) \<noteq> 0"
    and "q_size_u32 (cl_queues c ! RXQ) = ring_size n" and "ring_ok n (rx_ring d c)"
  shows "\<exists>q. process_gfx_client_loopback P p d = Some (set_queue_ring False (cl_queues c ! RXQ) q d, 0) \<and>
    ring_ok n q \<and> ring_items n q = []"
  using assms
proof (induction "ring_items n (rx_ring d c)" arbitrary: d p)
  case Nil
  have "hw_fence_read_queue d c p RXQ = Some (d, p, 0)"
    using Nil.prems read_queue_ring [OF _ _ _ _ ring_get_empty [OF Nil.prems(6) Nil.hyps [symmetric], of p]] by simp
  then have "process_gfx_client_loopback P p d = Some (d, 0)"
    using Nil.prems(1,2) by (subst process_gfx_client_loopback.simps) (simp add: gfx_read_def)
  then show ?case
    using Nil.hyps Nil.prems(6) by (intro exI [of _ "rx_ring d c"]) simp
next
  case (Cons m ms)
  obtain q where q: "ring_get (ring_size n) p (rx_ring d c) = Some (q, payload_of p m, if ms = [] then 0 else 1)"
    "ring_ok n q" "ring_items n q = ms"
    using Cons.prems(6) Cons.hyps(2) [symmetric] by (rule ring_get_ok)
  let ?d = "set_queue_ring False (cl_queues c ! RXQ) q d"
  have read: "hw_fence_read_queue d c p RXQ = Some (?d, payload_of p m, if ms = [] then 0 else 1)"
    using Cons.prems(3-5) by (intro read_queue_ring [OF _ _ _ _ q(1)]) simp_all
  then have step: "process_gfx_client_loopback P p d =
      (if ms = [] then Some (?d, 0) else process_gfx_client_loopback P (payload_of p m) ?d)"
    using Cons.prems(1,2) by (subst process_gfx_client_loopback.simps) (simp add: gfx_read_def)
  show ?case
  proof (cases "ms = []")
    case True
    with step q show ?thesis by (intro exI [of _ q]) simp
  next
    case False
    have "\<exists>q'. process_gfx_client_loopback P (payload_of p m) ?d =
        Some (set_queue_ring False (cl_queues c ! RXQ) q' ?d, 0) \<and> ring_ok n q' \<and> ring_items n q' = []"
      using Cons.prems q by (intro Cons.hyps(1)) simp_all
    with False step show ?thesis by auto
  qed
qed

text \<open>The flag of the client with id \<open>n\<close> on which a validation client waits.\<close>

definition val_flag :: "hwf \<Rightarrow> nat \<Rightarrow> int option" where
  "val_flag d n = (if n < length (clients d)
     then map_option cl_val_signal (Option.bind (clients d ! n) (client_objs d)) else None)"

definition is_val_loopback :: "platform \<Rightarrow> nat \<Rightarrow> bool" where
  "is_val_loopback P n \<longleftrightarrow> HW_FENCE_LOOPBACK_VAL_0 P \<le> n \<and> n \<le> HW_FENCE_LOOPBACK_VAL_0 P + 6"

text \<open>A driver on which every doorbell can be served. The GPU's rx queue is in order whether or not the driver writes
  to it (in the tables of signals it does not), and shares no memory with the rx queues that the driver writes.\<close>

definition doorbell_ready :: "platform \<Rightarrow> hwf \<Rightarrow> bool" where
  "doorbell_ready P d \<longleftrightarrow> clients_ready d \<and>
     length (ctl_start_ptr d) = HW_FENCE_MAX_DPU_LOOPBACK_CLIENTS \<and>
     HW_FENCE_LOOPBACK_MAX P \<le> 31 \<and> HW_FENCE_LOOPBACK_GFX_CTX_0 < HW_FENCE_LOOPBACK_VAL_0 P \<and>
     unat (client_id P CTX0) < length (clients d) \<and> HW_FENCE_LOOPBACK_MAX P \<le> length (clients d) \<and>
     (\<forall>c. client_of d (unat (client_id P CTX0)) = Some c \<longrightarrow> rx_placed d c \<and>
        (\<forall>m c'. client_of d m = Some c' \<longrightarrow> m \<noteq> unat (client_id P CTX0) \<longrightarrow> cl_update_rxq c' \<longrightarrow> rx_apart c c'))"

text \<open>What serving the loopback clients \<open>ns\<close> changes, and what it keeps.\<close>

definition served :: "platform \<Rightarrow> nat set \<Rightarrow> hwf \<Rightarrow> hwf \<Rightarrow> bool" where
  "served P ns d d' \<longleftrightarrow> same_frame d d' \<and> clients_ready d' \<and> ctl_start_ptr d' = ctl_start_ptr d \<and>
     (\<forall>m c. client_of d m = Some c \<longrightarrow> m \<noteq> unat (client_id P CTX0) \<longrightarrow> inbox d' c = inbox d c) \<and>
     (\<forall>c. client_of d (unat (client_id P CTX0)) = Some c \<longrightarrow> rx_placed d c \<longrightarrow> rx_placed d' c \<and>
        unread d' c = (if HW_FENCE_LOOPBACK_GFX_CTX_0 \<in> ns then [] else unread d c)) \<and>
     (\<forall>m. val_flag d' m = (if m \<in> ns \<and> is_val_loopback P m then map_option (\<lambda>_. 1) (val_flag d m) else val_flag d m))"

lemma served_none [simp]: "clients_ready d \<Longrightarrow> ns \<inter> {n. n = HW_FENCE_LOOPBACK_GFX_CTX_0 \<or> is_val_loopback P n} = {} \<Longrightarrow> served P ns d d"
  by (auto simp: served_def)

lemma served_trans: "served P ns d d' \<Longrightarrow> served P ms d' d'' \<Longrightarrow> served P (ns \<union> ms) d d''"
  by (auto simp: served_def same_frame_def option.map_comp comp_def)

lemma doorbell_ready_served: "doorbell_ready P d \<Longrightarrow> served P ns d d' \<Longrightarrow> doorbell_ready P d'"
  by (simp add: doorbell_ready_def served_def same_frame_def)

lemma set_queue_ring_objs [simp]: "ctl_start_ptr (set_queue_ring wm queue q d) = ctl_start_ptr d"
  by (simp add: set_queue_ring_def Let_def split: prod.split)

lemma gfx_served:
  assumes "doorbell_ready P d"
  shows "\<exists>d' r. process_gfx_client_loopback P p d = Some (d', r) \<and> served P {HW_FENCE_LOOPBACK_GFX_CTX_0} d d'"
proof -
  let ?n = "unat (client_id P CTX0)"
  have rdy: "clients_ready d" and n: "?n < length (clients d)"
    and nv: "\<not> is_val_loopback P HW_FENCE_LOOPBACK_GFX_CTX_0"
    using assms by (simp_all add: doorbell_ready_def is_val_loopback_def)
  show ?thesis
  proof (cases "clients d ! ?n")
    case None
    then have "process_gfx_client_loopback P p d = Some (d, - EINVAL)"
      using n by (subst process_gfx_client_loopback.simps) (simp add: gfx_read_def)
    moreover have "client_of d ?n = None" using None by (simp add: client_of_def)
    ultimately show ?thesis using rdy nv by (auto simp: served_def)
  next
    case (Some h)
    obtain c where c: "client_objs d h = Some c" "client_of d ?n = Some (no_val c)"
      using rdy n Some by (rule client_of_obj)
    have gp: "rx_placed d c" "\<And>m c'. client_of d m = Some c' \<Longrightarrow> m \<noteq> ?n \<Longrightarrow> cl_update_rxq c' \<Longrightarrow> rx_apart c c'"
      using assms c(2) by (auto simp: doorbell_ready_def rx_apart_def)
    note q = gp(1) [unfolded rx_placed_def]
    have "fetch (clients d) ?n = Some (Some h)" using n Some by simp
    from gfx_loop_drains [OF this c(1), of "rx_slots c" p] q obtain q' where
      q': "process_gfx_client_loopback P p d = Some (set_queue_ring False (cl_queues c ! RXQ) q' d, 0)"
        "ring_ok (rx_slots c) q'" "ring_items (rx_slots c) q' = []" by blast
    let ?d = "set_queue_ring False (cl_queues c ! RXQ) q' d"
    have fr: "same_frame d ?d" by (rule same_frame_set_queue_ring)
    have other: "rx_ring ?d c' = rx_ring d c'" if "client_of d m = Some c'" "m \<noteq> ?n" "cl_update_rxq c'" for m c'
      using gp(2) [OF that] unfolding rx_apart_def by (intro queue_ring_other) auto
    have ok: "ring_ok (rx_slots c') (rx_ring ?d c')" if "client_of d m = Some c'" "cl_update_rxq c'" for m c'
      using that other [OF that(1) _ that(2)] c(2) q'(2) clients_readyD(2) [OF rdy that(1)]
      by (cases "m = ?n") (auto simp: rx_ready_def txq_wm_def)
    have "inbox ?d c' = inbox d c'" if "client_of d m = Some c'" "m \<noteq> ?n" for m c'
      using other [OF that] by (simp add: inbox_def)
    moreover have "rx_placed ?d c" "unread ?d c = []" using q q'(2,3) by (simp_all add: rx_placed_def unread_def)
    moreover have "val_flag ?d = val_flag d" by (simp add: val_flag_def fun_eq_iff)
    ultimately have "served P {HW_FENCE_LOOPBACK_GFX_CTX_0} d ?d"
      using fr clients_ready_frame [OF rdy fr ok] nv c(2) by (auto simp: served_def)
    with q'(1) show ?thesis by blast
  qed
qed

lemma validation_served:
  assumes "doorbell_ready P d" and v: "is_val_loopback P n"
  shows "\<exists>d' r. process_validation_client_loopback P d (of_nat n) = Some (d', r) \<and> served P {n} d d'"
proof -
  have n: "n < 31" "n < length (clients d)" and rdy: "clients_ready d" and g: "n \<noteq> HW_FENCE_LOOPBACK_GFX_CTX_0"
    using assms by (auto simp: doorbell_ready_def is_val_loopback_def HW_FENCE_LOOPBACK_MAX_def)
  then have u: "unat (of_nat n :: u32) = n" by (simp add: unat_of_nat)
  have v6: "unat (client_id P VAL0 + 6) = unat (client_id P VAL0) + 6"
    using assms(1) by (subst unat_add_lem [THEN iffD1])
      (simp_all add: doorbell_ready_def HW_FENCE_LOOPBACK_MAX_def HW_FENCE_LOOPBACK_VAL_0_def)
  have chk: "\<not> ((of_nat n :: u32) < client_id P VAL0 \<or> client_id P VAL0 + 6 < of_nat n)"
    using v unfolding word_less_nat_alt u v6 by (simp add: is_val_loopback_def HW_FENCE_LOOPBACK_VAL_0_def)
  show ?thesis
  proof (cases "clients d ! n")
    case None
    then have "val_flag d n = None" by (simp add: val_flag_def)
    then have "served P {n} d d" using rdy g by (auto simp: served_def)
    with None n(2) chk u show ?thesis by (simp add: process_validation_client_loopback_def)
  next
    case (Some h)
    obtain c where c: "client_objs d h = Some c" "client_of d n = Some (no_val c)"
      using rdy n(2) Some by (rule client_of_obj)
    let ?d = "set_client h (c\<lparr>cl_val_signal := 1\<rparr>) d"
    have fr: "same_frame d ?d" using client_of_set_val [OF c(1), of 1] by (simp add: same_frame_def)
    have rings: "queue_ring wm ?d queue = queue_ring wm d queue" for wm queue by (simp add: queue_ring_def)
    have ready: "clients_ready ?d"
      using clients_readyD(2) [OF rdy] by (intro clients_ready_frame [OF rdy fr]) (auto simp: rings rx_ready_def txq_wm_def)
    have same: "inbox ?d = inbox d" "rx_placed ?d = rx_placed d" "unread ?d = unread d"
      by (simp_all add: inbox_def rx_placed_def unread_def rings fun_eq_iff)
    have flag: "val_flag ?d m = (if m = n then Some 1 else val_flag d m)" for m
    proof (cases "m < length (clients d) \<and> clients d ! m = Some h")
      case True
      then have "client_of d m = Some (no_val c)" using c(1) by (simp add: client_of_def)
      then have "m = n" using clients_readyD(1) [OF rdy] c(2) by metis
      with True show ?thesis by (simp add: val_flag_def set_client_def)
    next
      case False
      with Some n(2) have "m \<noteq> n" by auto
      moreover have "val_flag ?d m = val_flag d m"
        using False by (cases "clients d ! m") (auto simp: val_flag_def set_client_def)
      ultimately show ?thesis by simp
    qed
    have "val_flag d n = Some (cl_val_signal c)" using n(2) Some c(1) by (simp add: val_flag_def)
    moreover have "ctl_start_ptr ?d = ctl_start_ptr d" by (simp add: set_client_def)
    ultimately have "served P {n} d ?d" using fr ready same flag v g by (auto simp: served_def)
    moreover have "process_validation_client_loopback P d (of_nat n) = Some (?d, 0)"
      using Some n(2) chk u c(1) by (simp add: process_validation_client_loopback_def)
    ultimately show ?thesis by blast
  qed
qed

lemma client_served:
  assumes "doorbell_ready P d"
  shows "\<exists>d'. serve P p n d = Some d' \<and> served P {n} d d'"
proof -
  have rdy: "clients_ready d" and len: "length (ctl_start_ptr d) = 6"
    and apart: "HW_FENCE_LOOPBACK_GFX_CTX_0 < HW_FENCE_LOOPBACK_VAL_0 P"
    using assms by (simp_all add: doorbell_ready_def HW_FENCE_MAX_DPU_LOOPBACK_CLIENTS_def)
  consider "n \<le> 5" | "n = 6" | "6 < n" "is_val_loopback P n" | "6 < n" "\<not> is_val_loopback P n" by linarith
  then show ?thesis
  proof cases
    case 1
    then have "\<not> is_val_loopback P n" "n \<noteq> HW_FENCE_LOOPBACK_GFX_CTX_0"
      using apart by (simp_all add: is_val_loopback_def HW_FENCE_LOOPBACK_GFX_CTX_0_def)
    with 1 rdy len show ?thesis
      by (simp add: process_doorbell_client_def process_dpu_client_loopback_def HW_FENCE_LOOPBACK_DPU_CTL_5_def)
  next
    case 2
    with gfx_served [OF assms, of p] show ?thesis
      by (auto simp: process_doorbell_client_def HW_FENCE_LOOPBACK_GFX_CTX_0_def HW_FENCE_LOOPBACK_DPU_CTL_5_def)
  next
    case 3
    with validation_served [OF assms 3(2)] show ?thesis
      by (auto simp: process_doorbell_client_def HW_FENCE_LOOPBACK_GFX_CTX_0_def HW_FENCE_LOOPBACK_DPU_CTL_5_def
          is_val_loopback_def)
  next
    case 4
    with rdy show ?thesis
      by (auto simp: process_doorbell_client_def HW_FENCE_LOOPBACK_GFX_CTX_0_def HW_FENCE_LOOPBACK_DPU_CTL_5_def
          is_val_loopback_def served_def)
  qed
qed

lemma clients_served:
  assumes "doorbell_ready P d"
  shows "\<exists>d'. chain (serve P p) ns d = Some d' \<and> served P (set ns) d d'"
  using assms
proof (induction ns arbitrary: d)
  case Nil
  then show ?case by (simp add: doorbell_ready_def)
next
  case (Cons n ns)
  obtain d1 where d1: "serve P p n d = Some d1" "served P {n} d d1"
    using client_served [OF Cons.prems] by blast
  obtain d' where "chain (serve P p) ns d1 = Some d'" "served P (set ns) d1 d'"
    using Cons.IH doorbell_ready_served [OF Cons.prems d1(2)] by blast
  with d1 served_trans [OF d1(2)] show ?case by fastforce
qed

section \<open>Properties\<close>

text \<open>C17. The loop over the 64 flags, with its early exit once no flag is left, does the same as serving
  the loopback clients whose bits are set in the order of their ids, for every flag word; bits that name
  no client are ignored.\<close>

theorem doorbell_serves_rung:
  assumes "HW_FENCE_LOOPBACK_MAX P \<le> 31"
  shows "hw_fence_utils_process_doorbell_mask P p db_flags d = chain (serve P p) (rung P db_flags) d"
  unfolding hw_fence_utils_process_doorbell_mask_def rung_def
  using assms by (intro doorbell_loop_serves) auto

theorem doorbell_serves_rung_witness:
  "\<forall>p. hw_fence_utils_process_doorbell_mask sample_platform p (2 ^ 3 + 2 ^ 20) zero_hwf =
    chain (serve sample_platform p) (rung sample_platform (2 ^ 3 + 2 ^ 20)) zero_hwf"
  by (intro allI doorbell_serves_rung) (simp add: HW_FENCE_LOOPBACK_MAX_def HW_FENCE_LOOPBACK_VAL_0_def)

text \<open>C18. Every doorbell is answered: whatever flags the service VM sets and however full the GPU's rx
  queue is, processing them comes to an end, with the GPU's rx queue read to the last message if its bit
  is set, the flag of exactly those validation clients raised that are registered and whose bits are set,
  and the inboxes of all other clients, the fence table, the locks and the clients as before.\<close>

theorem doorbell_answered:
  assumes "doorbell_ready P d"
  shows "\<exists>d'. hw_fence_cb P p (0, db_flags) d = Some d' \<and> same_frame d d' \<and> clients_ready d' \<and>
    (\<forall>c. client_of d (unat (client_id P CTX0)) = Some c \<longrightarrow>
       unread d' c = (if bit db_flags HW_FENCE_LOOPBACK_GFX_CTX_0 then [] else unread d c)) \<and>
    (\<forall>m c. client_of d m = Some c \<longrightarrow> m \<noteq> unat (client_id P CTX0) \<longrightarrow> inbox d' c = inbox d c) \<and>
    (\<forall>m. val_flag d' m = (if bit db_flags m \<and> is_val_loopback P m
       then map_option (\<lambda>_. 1) (val_flag d m) else val_flag d m))"
proof -
  have max: "HW_FENCE_LOOPBACK_MAX P \<le> 31" "HW_FENCE_LOOPBACK_GFX_CTX_0 < HW_FENCE_LOOPBACK_MAX P"
    and val: "is_val_loopback P m \<Longrightarrow> m < HW_FENCE_LOOPBACK_MAX P" for m
    using assms by (auto simp: doorbell_ready_def HW_FENCE_LOOPBACK_MAX_def is_val_loopback_def)
  obtain d' where d': "chain (serve P p) (rung P db_flags) d = Some d'" "served P (set (rung P db_flags)) d d'"
    using clients_served [OF assms] by blast
  have "hw_fence_cb P p (0, db_flags) d = Some d'"
    using max(1) d'(1) doorbell_loop_serves [of "[0..<HW_FENCE_LOOPBACK_MAX P]" P p db_flags d]
    by (simp add: hw_fence_cb_def hw_fence_utils_process_doorbell_mask_def rung_def)
  moreover have "(m \<in> set (rung P db_flags)) = (bit db_flags m \<and> m < HW_FENCE_LOOPBACK_MAX P)" for m
    by (auto simp: rung_def)
  moreover have "\<forall>c. client_of d (unat (client_id P CTX0)) = Some c \<longrightarrow> rx_placed d c" using assms by (auto simp: doorbell_ready_def)
  ultimately show ?thesis using d'(2) max(2) val by (auto simp: served_def cong: conj_cong)
qed

text \<open>The GPU client with one message in its rx queue, and one validation client.\<close>

definition doorbell_gfx :: msm_hw_fence_client where
  "doorbell_gfx = sample_client\<lparr>cl_client_id := 1, cl_update_rxq := False\<rparr>"

definition doorbell_sample :: hwf where
  "doorbell_sample = (sample_queue_state 0 16)\<lparr>
     clients := (replicate 15 None)[1 := Some 0, 8 := Some 1],
     client_objs := [0 \<mapsto> doorbell_gfx, 1 \<mapsto> zero_client\<lparr>cl_client_id := 8\<rparr>]\<rparr>"

lemma doorbell_gfx_fields [simp]:
  "cl_client_id doorbell_gfx = 1" "\<not> cl_update_rxq doorbell_gfx" "cl_queues doorbell_gfx = cl_queues sample_client"
  "rx_slots doorbell_gfx = 2" "no_val doorbell_gfx = doorbell_gfx"
  by (simp_all add: doorbell_gfx_def sample_client_def zero_client_def rx_slots_def q_size_u32_def no_val_def)

lemma doorbell_sample_clients:
  "length (clients doorbell_sample) = 15"
  "n < 15 \<Longrightarrow> clients doorbell_sample ! n = (if n = 1 then Some 0 else if n = 8 then Some 1 else None)"
  by (auto simp: doorbell_sample_def nth_list_update)

lemma doorbell_sample_client_of:
  "client_of doorbell_sample n = (if n = 1 then Some doorbell_gfx
     else if n = 8 then Some (zero_client\<lparr>cl_client_id := 8\<rparr>) else None)"
  by (simp add: client_of_def doorbell_sample_clients)
    (simp add: doorbell_sample_def no_val_def zero_client_def doorbell_gfx_def sample_client_def)

lemma doorbell_sample_ready: "doorbell_ready sample_platform doorbell_sample"
proof -
  have gfx: "rx_placed doorbell_sample doorbell_gfx"
    by (simp add: rx_placed_def doorbell_sample_def sample_queue_state_def zero_hwf_def
        sample_client_def zero_client_def q_size_u32_def ring_size_def queue_ring_def ring_ok_def)
  have "rx_ready d doorbell_gfx" for d by (simp add: rx_ready_def)
  moreover have "rx_ready d (zero_client\<lparr>cl_client_id := 8\<rparr>)" for d
    by (simp add: rx_ready_def zero_client_def)
  ultimately have "clients_ready doorbell_sample"
    unfolding clients_ready_def doorbell_sample_client_of doorbell_sample_clients(1)
    by (auto simp: doorbell_sample_clients(2) zero_client_def)
  with gfx show ?thesis
    by (simp add: doorbell_ready_def zero_client_def doorbell_sample_clients doorbell_sample_client_of HW_FENCE_LOOPBACK_MAX_def
        HW_FENCE_LOOPBACK_VAL_0_def HW_FENCE_LOOPBACK_GFX_CTX_0_def)
      (simp add: doorbell_sample_def sample_queue_state_def zero_hwf_def)
qed

theorem doorbell_answered_witness:
  "\<forall>p. \<exists>d'. hw_fence_cb sample_platform p (0, 2 ^ 6 + 2 ^ 8) doorbell_sample = Some d' \<and>
    length (unread doorbell_sample doorbell_gfx) = 1 \<and> unread d' doorbell_gfx = [] \<and> val_flag d' 8 = Some 1"
  (is "\<forall>p. ?served p")
proof
  fix p
  have one: "length (unread doorbell_sample doorbell_gfx) = 1"
    by (simp add: unread_def doorbell_sample_def sample_queue_state_def zero_hwf_def sample_client_def
        zero_client_def queue_ring_def ring_count.simps)
  have flag: "val_flag doorbell_sample 8 = Some 0"
    by (simp add: val_flag_def doorbell_sample_clients) (simp add: doorbell_sample_def zero_client_def)
  have bits: "bit (2 ^ 6 + 2 ^ 8 :: u64) 6" "bit (2 ^ 6 + 2 ^ 8 :: u64) 8"
    by (simp_all add: bit_iff_odd)
  have "client_of doorbell_sample 1 = Some doorbell_gfx" by (simp add: doorbell_sample_client_of)
  with doorbell_answered [OF doorbell_sample_ready, of p "2 ^ 6 + 2 ^ 8"] one flag bits show "?served p"
    by (fastforce simp: HW_FENCE_LOOPBACK_GFX_CTX_0_def is_val_loopback_def HW_FENCE_LOOPBACK_VAL_0_def)
qed

end
