(* ===== verification/HwfMemory.thy ===== *)
theory HwfMemory
  imports HwfSignal
begin

text \<open>
  The carved-out memory as the clients use it: the sizes that the device-tree parser accepts leave room
  for the headers and the queues of every client, at page-aligned places that do not overlap; and what it means that all of them are in order.
\<close>

section \<open>Sizes\<close>

text \<open>Sizes of the kernel's structures for which the size computations of the parser do not overflow.\<close>

definition platform_sizes :: "platform \<Rightarrow> bool" where
  "platform_sizes P \<longleftrightarrow> 0 < page_size P \<and> unat (page_size P) \<le> 2 ^ 20 \<and> sizeof_hfi_queue_header P \<noteq> 0 \<and>
     unat (sizeof_hfi_table_header P) + 2 * unat (sizeof_hfi_queue_header P) \<le> 2 ^ 20"

definition headers_bytes :: "platform \<Rightarrow> u32 \<Rightarrow> nat" where
  "headers_bytes P qn = unat (sizeof_hfi_table_header P) + unat qn * unat (sizeof_hfi_queue_header P)"

text \<open>Numbers of queues and entries, and a size with room for the headers and the queues.\<close>

definition sizes_fit :: "platform \<Rightarrow> u32 \<Rightarrow> u32 \<Rightarrow> u32 \<Rightarrow> bool" where
  "sizes_fit P qn e mem \<longleftrightarrow> unat qn \<in> {1, 2} \<and> 0 < unat e \<and> unat e < 2 ^ 26 \<and>
     headers_bytes P qn + 64 * unat e * unat qn \<le> unat mem"

lemma headers_size:
  assumes "platform_sizes P" and "unat qn \<le> 2"
  shows "unat (HW_FENCE_HFI_CLIENT_HEADERS_SIZE P qn) = headers_bytes P qn"
    and "unat (ucast (HW_FENCE_HFI_CLIENT_HEADERS_SIZE P qn) :: u32) = headers_bytes P qn"
    and "headers_bytes P qn \<le> 2 ^ 20"
proof -
  let ?t = "unat (sizeof_hfi_table_header P)" and ?q = "unat (sizeof_hfi_queue_header P)"
  have le: "unat qn * ?q \<le> 2 * ?q" using assms(2) by (rule mult_le_mono1)
  with assms(1) show b: "headers_bytes P qn \<le> 2 ^ 20"
    unfolding platform_sizes_def headers_bytes_def by linarith
  have "?q * unat qn < 2 ^ LENGTH(64)" using b by (simp add: headers_bytes_def mult.commute)
  then have m: "unat (sizeof_hfi_queue_header P * ucast qn) = ?q * unat qn"
    by (subst unat_mult_lem [THEN iffD1]) simp_all
  show u: "unat (HW_FENCE_HFI_CLIENT_HEADERS_SIZE P qn) = headers_bytes P qn"
    unfolding HW_FENCE_HFI_CLIENT_HEADERS_SIZE_def headers_bytes_def
    using b by (subst unat_add_lem [THEN iffD1]) (simp_all add: m headers_bytes_def mult.commute)
  show "unat (ucast (HW_FENCE_HFI_CLIENT_HEADERS_SIZE P qn) :: u32) = headers_bytes P qn"
    using b by (subst unat_ucast_down) (simp_all add: u)
qed

lemma U32_mask: "unat (m :: u64) \<le> 2 ^ 20 \<Longrightarrow> unat (U32_MAX AND NOT m) = 2 ^ 32 - 1 - unat m"
proof -
  assume m: "unat m \<le> 2 ^ 20"
  have U: "U32_MAX = mask 32" by (simp add: U32_MAX_def mask_eq_exp_minus_1)
  have "U32_MAX AND m = take_bit 32 m" unfolding U by (simp add: take_bit_eq_mask and.commute)
  also have "\<dots> = m"
  proof -
    have "unat m < 2 ^ 32" using m by simp
    then show ?thesis by (simp add: take_bit_word_eq_self word_less_nat_alt unsigned_take_bit_eq take_bit_nat_eq_self
        word_unat_eq_iff)
  qed
  finally have am: "U32_MAX AND m = m" .
  have "(U32_MAX AND m) AND (U32_MAX AND NOT m) = 0"
    by (rule bit_eqI) (auto simp: bit_and_iff bit_not_iff)
  then have "(U32_MAX AND m) + (U32_MAX AND NOT m) = (U32_MAX AND m) OR (U32_MAX AND NOT m)"
    by (rule disjunctive_add_eq_or)
  also have "\<dots> = U32_MAX"
    by (rule bit_eqI) (auto simp: bit_and_iff bit_not_iff bit_or_iff dest: bit_imp_le_length)
  finally have "U32_MAX AND NOT m = U32_MAX - m" unfolding am by (simp add: algebra_simps)
  moreover have "m \<le> U32_MAX" using m by (simp add: word_le_nat_alt U32_MAX_def)
  ultimately show ?thesis by (simp add: unat_sub U32_MAX_def)
qed

text \<open>What the checks on one client type establish.\<close>

lemma indv_sizes:
  assumes P: "platform_sizes P" and indv: "parse_client_queue_dt_props_indv P d desc prop = (desc', 0)"
  shows "sizes_fit P (ct_queues_num desc') (ct_queue_entries desc') (ct_mem_size desc')"
proof -
  let ?qn = "ct_queues_num desc'" and ?e = "ct_queue_entries desc'"
  let ?H = "HW_FENCE_HFI_CLIENT_HEADERS_SIZE P ?qn" and ?m = "page_size P - 1"
  let ?sz = "HW_FENCE_CLIENT_QUEUE_PAYLOAD * ?e"
  have c: "?qn \<noteq> 0" "\<not> of_nat HW_FENCE_CLIENT_QUEUES < ?qn" "?e \<noteq> 0"
    "\<not> U32_MAX div ucast HW_FENCE_CLIENT_QUEUE_PAYLOAD \<le> ucast ?e"
    "\<not> ((U32_MAX AND NOT ?m) - ?H) div ucast ?qn \<le> ucast ?sz"
    "ct_mem_size desc' = ucast (PAGE_ALIGN P (?H + ucast (?sz * ?qn)))"
    using indv by (auto simp: parse_client_queue_dt_props_indv_def Let_def split: option.splits prod.splits if_splits)
  have qn: "unat ?qn \<in> {1, 2}"
  proof -
    have "unat ?qn \<le> 2" using c(2) by (simp add: word_less_nat_alt)
    moreover have "unat ?qn \<noteq> 0" using c(1) by (simp add: unat_eq_zero)
    ultimately show ?thesis by auto
  qed
  then have qn2: "unat ?qn \<le> 2" by auto
  have e: "0 < unat ?e" "unat ?e < 2 ^ 26"
    using c(3,4) by (simp_all add: unat_gt_0 word_le_nat_alt U32_MAX_def HW_FENCE_CLIENT_QUEUE_PAYLOAD_def unat_div)
  have m: "unat ?m = unat (page_size P) - 1" "unat (page_size P) \<le> 2 ^ 20"
    using P by (simp_all add: platform_sizes_def unat_minus_one word_neq_0_conv)
  then have m20: "unat ?m \<le> 2 ^ 20" by linarith
  note H = headers_size [OF P qn2]
  have lim: "unat ((U32_MAX AND NOT ?m) - ?H) = 2 ^ 32 - 1 - unat ?m - headers_bytes P ?qn"
    using H m20 by (subst unat_sub) (simp_all add: word_le_nat_alt U32_mask)
  have "unat (ucast ?sz :: u64) < unat (((U32_MAX AND NOT ?m) - ?H) div ucast ?qn)"
    using c(5) by (simp add: word_le_nat_alt)
  then have "64 * unat ?e < (2 ^ 32 - 1 - unat ?m - headers_bytes P ?qn) div unat ?qn"
    unfolding unat_div lim unat_ucast_up queue_words(2) [OF e(2)] .
  then have "Suc (64 * unat ?e) * unat ?qn \<le> 2 ^ 32 - 1 - unat ?m - headers_bytes P ?qn"
    using qn by (intro less_eq_div_iff_mult_less_eq [THEN iffD1]) auto
  then have fit: "headers_bytes P ?qn + 64 * unat ?e * unat ?qn + unat ?m < 2 ^ 32"
    using qn H(3) m20 by auto
  have "unat (?sz * ?qn) = 64 * unat ?e * unat ?qn"
    using fit queue_words(2) [OF e(2)] by (subst unat_mult_lem [THEN iffD1]) simp_all
  then have tot: "unat (?H + ucast (?sz * ?qn)) = headers_bytes P ?qn + 64 * unat ?e * unat ?qn"
    using fit H(1) by (subst unat_add_lem [THEN iffD1]) simp_all
  have "unat (?H + ucast (?sz * ?qn) + ?m) = headers_bytes P ?qn + 64 * unat ?e * unat ?qn + unat ?m"
    using fit tot by (subst unat_add_lem [THEN iffD1]) simp_all
  moreover have "PAGE_ALIGN P (?H + ucast (?sz * ?qn)) \<le> ?H + ucast (?sz * ?qn) + ?m"
    unfolding PAGE_ALIGN_def by (rule word_and_le2)
  ultimately have "unat (PAGE_ALIGN P (?H + ucast (?sz * ?qn))) < 2 ^ 32"
    using fit by (simp add: word_le_nat_alt)
  then have "unat (ct_mem_size desc') = unat (PAGE_ALIGN P (?H + ucast (?sz * ?qn)))"
    unfolding c(6) by (rule unat_ucast_down)
  moreover have "unat (?H + ucast (?sz * ?qn)) \<le> unat (PAGE_ALIGN P (?H + ucast (?sz * ?qn)))"
    unfolding PAGE_ALIGN_def using fit tot by (intro align_above) simp
  ultimately show ?thesis using qn e tot by (simp add: sizes_fit_def)
qed

lemma parse_types_sizes:
  assumes "platform_sizes P" and "parse_types P d props is types rxq conf = Some (types', rxq', conf', 0)" and "distinct is"
  shows "\<forall>i\<in>set is. sizes_fit P (ct_queues_num (types' ! i)) (ct_queue_entries (types' ! i)) (ct_mem_size (types' ! i))"
  using parse_types_each [OF assms(2,3)] indv_sizes [OF assms(1)] by blast

definition types_fit :: "platform \<Rightarrow> hwf \<Rightarrow> bool" where
  "types_fit P d \<longleftrightarrow> (\<forall>i<HW_FENCE_MAX_CLIENT_TYPE. sizes_fit P (ct_queues_num (hw_fence_client_types d ! i))
     (ct_queue_entries (hw_fence_client_types d ! i)) (ct_mem_size (hw_fence_client_types d ! i)))"

lemma parse_clients_types:
  assumes "parse_client_queue_dt_props P alloc props d = Some (d', 0)"
  obtains rxq conf where "parse_types P d props [0..<HW_FENCE_MAX_CLIENT_TYPE] (initial_client_types P)
      (HW_FENCE_MIN_RXQ_CLIENTS P) 0 = Some (hw_fence_client_types d', rxq, conf, 0)"
proof -
  obtain types rxq conf ret where p: "parse_types P d props [0..<HW_FENCE_MAX_CLIENT_TYPE] (initial_client_types P)
      (HW_FENCE_MIN_RXQ_CLIENTS P) 0 = Some (types, rxq, conf, ret)"
    using assms by (auto simp: parse_client_queue_dt_props_def Option.bind_eq_Some_conv)
  then have "ret = 0" "alloc" using assms by (auto simp: parse_client_queue_dt_props_def Let_def split: if_splits)
  with p assms have "hw_fence_client_types d' = types"
    by (auto simp: parse_client_queue_dt_props_def Option.bind_eq_Some_conv Let_def)
  with p \<open>ret = 0\<close> show thesis by (intro that) simp
qed

lemma parse_clients_fit:
  assumes "platform_sizes P" and "parse_client_queue_dt_props P alloc props d = Some (d', 0)"
  shows "types_fit P d'"
proof -
  obtain rxq conf where "parse_types P d props [0..<HW_FENCE_MAX_CLIENT_TYPE] (initial_client_types P)
      (HW_FENCE_MIN_RXQ_CLIENTS P) 0 = Some (hw_fence_client_types d', rxq, conf, 0)"
    using assms(2) by (rule parse_clients_types)
  from parse_types_sizes [OF assms(1) this] show ?thesis by (simp add: types_fit_def)
qed

section \<open>The places of the clients\<close>

text \<open>The descriptor of sub-client \<open>j\<close> of type \<open>i\<close>, as the driver finds it by the external id, and its bytes.\<close>

definition client_place :: "platform \<Rightarrow> hwf \<Rightarrow> nat \<times> nat \<Rightarrow> hw_fence_client_queue_size_desc option" where
  "client_place P d x = do {
     cid \<leftarrow> hw_fence_utils_get_client_id_priv P d (ct_init_id (hw_fence_client_types d ! fst x) + of_nat (snd x));
     fetch (hw_fence_client_queue_size d) (unat cid)
   }"

definition place_bytes :: "hw_fence_client_queue_size_desc \<Rightarrow> nat set" where
  "place_bytes q = {unat (qs_start_offset q) ..< unat (qs_start_offset q) + unat (qs_mem_size q)}"

text \<open>The bytes that the whole layout needs, at most.\<close>

definition layout_bytes :: "platform \<Rightarrow> hwf \<Rightarrow> nat" where
  "layout_bytes P d = fixed_bytes d + unat (page_size P) +
     (\<Sum>x\<leftarrow>steps (hw_fence_client_types d). unat (ct_mem_size (hw_fence_client_types d ! fst x)))"

lemma layout_fits:
  assumes "0 < page_size P" and "layout_bytes P d < 2 ^ 32"
  shows "fits P d"
  using queues_start_range(2) [OF assms(1), of d] assms
  by (simp add: fits_def layout_bytes_def fixed_bytes_def step_size_def)

lemma client_place_step:
  assumes P: "platform_ok P" and lay: "laid_out P d" and k: "k < length (steps (hw_fence_client_types d))"
  shows "client_place P d (steps (hw_fence_client_types d) ! k) = Some (size_entry (hw_fence_client_types d) (steps (hw_fence_client_types d) ! k)
    (queues_start P d + (\<Sum>x\<leftarrow>take k (steps (hw_fence_client_types d)). step_size (hw_fence_client_types d) x)))"
proof -
  let ?types = "hw_fence_client_types d"
  let ?x = "steps ?types ! k"
  have x: "?x \<in> set (steps ?types)" using k by simp
  have types: "types_ok P ?types" and c: "clients_counted P d"
    and len: "length (hw_fence_client_queue_size d) = unat (clients_num d)"
    using lay by (simp_all add: laid_out_def Let_def)
  have i: "fst ?x < 13" using x set_steps [of "fst ?x" "snd ?x"] by simp
  have ext: "ct_init_id (?types ! fst ?x) + of_nat (snd ?x) = ext_id P ?x"
    using types i ext_id.simps [of P "fst ?x" "snd ?x"] by (simp add: types_ok_def)
  obtain p where p: "hw_fence_utils_get_client_id_priv P d (ext_id P ?x) = Some p" "unat p = priv_index P d (ext_id P ?x)"
    using c step_in_types [OF P types x] by (rule get_client_id_priv)
  have "unat p < unat (clients_num d)" using priv_index_less [OF c step_in_types [OF P types x]] p(2) by simp
  then have "client_place P d ?x = Some (hw_fence_client_queue_size d ! step_index P d ?x)"
    by (simp add: client_place_def ext p len step_index_def)
  then show ?thesis using lay k by (simp add: laid_out_def Let_def)
qed

text \<open>C11. Reading the client types from the device tree always ends with a return code and never writes
  outside the array of descriptors it allocates. If it returns 0, the number of internal clients is the static
  ones plus all sub-clients, and every client that the device tree asks for has a place: the driver finds under its
  external id a descriptor with the number of queues and entries and the flag of its type, whose size has
  room for the headers and all queues. If the whole layout needs less than 4 GB, which the driver does not
  check, then every place starts and ends at a page boundary, after the control queues, the locks and the
  fence table and not beyond \<open>used_mem_size\<close>, and the places of different clients have no byte in common.\<close>

theorem parse_lays_out:
  assumes P: "platform_ok P" "platform_sizes P" "page_size P = 2 ^ k"
  shows "\<exists>d' ret. parse_client_queue_dt_props P alloc props d = Some (d', ret) \<and> (ret = 0 \<longrightarrow> laid_out P d' \<and>
    (\<forall>x\<in>set (steps (hw_fence_client_types d')). \<exists>q. client_place P d' x = Some q \<and>
       qs_queues_num q = ct_queues_num (hw_fence_client_types d' ! fst x) \<and>
       qs_queue_entries q = ct_queue_entries (hw_fence_client_types d' ! fst x) \<and>
       qs_skip_txq_wr_idx q = ct_skip_txq_wr_idx (hw_fence_client_types d' ! fst x) \<and>
       headers_bytes P (qs_queues_num q) + 64 * unat (qs_queue_entries q) * unat (qs_queues_num q) \<le> unat (qs_mem_size q) \<and>
       (layout_bytes P d' < 2 ^ 32 \<longrightarrow>
          2 ^ k dvd unat (qs_start_offset q) \<and> 2 ^ k dvd unat (qs_mem_size q) \<and>
          fixed_bytes d' \<le> unat (qs_start_offset q) \<and> unat (qs_start_offset q) + unat (qs_mem_size q) \<le> unat (used_mem_size d') \<and>
          (\<forall>y\<in>set (steps (hw_fence_client_types d')). \<forall>q'. x \<noteq> y \<longrightarrow> client_place P d' y = Some q' \<longrightarrow>
             place_bytes q \<inter> place_bytes q' = {}))))"
proof -
  obtain d' ret where parse: "parse_client_queue_dt_props P alloc props d = Some (d', ret)" and lay: "ret = 0 \<longrightarrow> laid_out P d'"
    using parse_client_queues [OF P(1), of alloc props d] by blast
  let ?types = "hw_fence_client_types d'"
  let ?xs = "steps ?types"
  have "\<exists>q. client_place P d' x = Some q \<and> qs_queues_num q = ct_queues_num (?types ! fst x) \<and>
      qs_queue_entries q = ct_queue_entries (?types ! fst x) \<and> qs_skip_txq_wr_idx q = ct_skip_txq_wr_idx (?types ! fst x) \<and>
      headers_bytes P (qs_queues_num q) + 64 * unat (qs_queue_entries q) * unat (qs_queues_num q) \<le> unat (qs_mem_size q) \<and>
      (layout_bytes P d' < 2 ^ 32 \<longrightarrow>
         2 ^ k dvd unat (qs_start_offset q) \<and> 2 ^ k dvd unat (qs_mem_size q) \<and>
         fixed_bytes d' \<le> unat (qs_start_offset q) \<and> unat (qs_start_offset q) + unat (qs_mem_size q) \<le> unat (used_mem_size d') \<and>
         (\<forall>y\<in>set ?xs. \<forall>q'. x \<noteq> y \<longrightarrow> client_place P d' y = Some q' \<longrightarrow> place_bytes q \<inter> place_bytes q' = {}))"
    if ret: "ret = 0" and x: "x \<in> set ?xs" for x
  proof -
    have lay: "laid_out P d'" using lay ret by blast
    have parse0: "parse_client_queue_dt_props P alloc props d = Some (d', 0)" using parse ret by simp
    obtain l where l: "l < length ?xs" "?xs ! l = x" using x by (auto simp: in_set_conv_nth)
    let ?q = "\<lambda>l. size_entry ?types (?xs ! l) (queues_start P d' + (\<Sum>x\<leftarrow>take l ?xs. step_size ?types x))"
    note place = client_place_step [OF P(1) lay]
    have i: "fst z < 13" if "z \<in> set ?xs" for z using that set_steps [of "fst z" "snd z"] by simp
    have room: "headers_bytes P (qs_queues_num (?q l)) + 64 * unat (qs_queue_entries (?q l)) * unat (qs_queues_num (?q l))
        \<le> unat (qs_mem_size (?q l))"
      using parse_clients_fit [OF P(2) parse0] i [OF x] l(2) by (simp add: types_fit_def sizes_fit_def size_entry_def Let_def)
    have far: "2 ^ k dvd unat (qs_start_offset (?q l)) \<and> 2 ^ k dvd unat (qs_mem_size (?q l)) \<and>
        fixed_bytes d' \<le> unat (qs_start_offset (?q l)) \<and> unat (qs_start_offset (?q l)) + unat (qs_mem_size (?q l)) \<le> unat (used_mem_size d') \<and>
        (\<forall>y\<in>set ?xs. \<forall>q'. x \<noteq> y \<longrightarrow> client_place P d' y = Some q' \<longrightarrow> place_bytes (?q l) \<inter> place_bytes q' = {})"
      if small: "layout_bytes P d' < 2 ^ 32"
    proof -
      have page: "0 < page_size P" using P(2) by (simp add: platform_sizes_def)
      have fits: "fits P d'" using page small by (rule layout_fits)
      have start: "unat (qs_start_offset (?q m)) = step_start P d' m" if "m < length ?xs" for m
        using step_start_less(2) [OF fits, of m] that by (simp add: size_entry_def Let_def)
      have bytes: "unat (qs_mem_size (?q m)) = step_bytes d' m" for m by (simp add: size_entry_def step_size_def Let_def)
      obtain rxq conf where types: "parse_types P d props [0..<HW_FENCE_MAX_CLIENT_TYPE] (initial_client_types P)
          (HW_FENCE_MIN_RXQ_CLIENTS P) 0 = Some (?types, rxq, conf, 0)"
        using parse0 by (rule parse_clients_types)
      have al: "2 ^ k dvd unat (step_size ?types z)" if z: "z \<in> set ?xs" for z
      proof -
        have "fst z \<in> set [0..<HW_FENCE_MAX_CLIENT_TYPE]" using i [OF z] by simp
        with parse_types_each [OF types distinct_upt] indv_aligned [OF P(3)] show ?thesis unfolding step_size_def by blast
      qed
      have "\<forall>z\<in>set (take l ?xs). 2 ^ k dvd unat (step_size ?types z)" using al in_set_takeD by fast
      then have "2 ^ k dvd step_start P d' l"
        unfolding step_start_def queues_start_def using page_align_dvd [OF P(3)] by (intro dvd_add dvd_sum_list)
      moreover have "fixed_bytes d' \<le> step_start P d' l"
        using queues_start_above [OF fits] by (simp add: step_start_def fixed_bytes_def)
      moreover have "step_start P d' l + step_bytes d' l \<le> unat (used_mem_size d')"
        using step_start_mono [OF l(1) order_refl, of P] used_mem [OF lay fits] by simp
      moreover have "place_bytes (?q l) \<inter> place_bytes q' = {}"
        if y: "y \<in> set ?xs" "x \<noteq> y" "client_place P d' y = Some q'" for y q'
      proof -
        obtain m where m: "m < length ?xs" "?xs ! m = y" using y(1) by (auto simp: in_set_conv_nth)
        have q': "q' = ?q m" using place [OF m(1)] y(3) m(2) by simp
        have "l < m \<or> m < l" using l(2) m(2) y(2) by (cases l m rule: linorder_cases) auto
        then have "step_start P d' l + step_bytes d' l \<le> step_start P d' m \<or> step_start P d' m + step_bytes d' m \<le> step_start P d' l"
          using step_start_mono [of l m d' P] step_start_mono [of m l d' P] l(1) m(1) by auto
        then show ?thesis unfolding q' place_bytes_def start [OF l(1)] start [OF m(1)] bytes by auto
      qed
      ultimately show ?thesis using al [OF x] l(2) unfolding start [OF l(1)] bytes by simp
    qed
    show ?thesis
      using place [OF l(1)] room far l(2) by (intro exI [of _ "?q l"]) (simp add: size_entry_def Let_def)
  qed
  with parse lay show ?thesis by blast
qed

lemma sample_platform_sizes: "platform_sizes sample_platform"
  by (simp add: platform_sizes_def)

lemma layout_sample_types:
  "map_option (\<lambda>(d, ret). ct_clients_num (hw_fence_client_types d ! 1))
     (parse_client_queue_dt_props sample_platform True (\<lambda>_. None) layout_sample) = Some 6"
  by code_simp

theorem parse_lays_out_witness:
  "\<exists>d. parse_client_queue_dt_props sample_platform True (\<lambda>_. None) layout_sample = Some (d, 0) \<and>
    (\<exists>q. client_place sample_platform d (1, 3) = Some q \<and> 4096 dvd unat (qs_start_offset q) \<and> fixed_bytes d = 1080 \<and>
       1080 \<le> unat (qs_start_offset q))"
proof -
  obtain d where d: "parse_client_queue_dt_props sample_platform True (\<lambda>_. None) layout_sample = Some (d, 0)"
    by (rule layout_sample_state)
  have v: "hw_fence_mem_ctrl_queues_size d = 328" "rxq_clients_num d = 14" "hw_fence_mem_fences_table_size d = 640"
    and m: "map (step_size (hw_fence_client_types d)) (steps (hw_fence_client_types d)) = replicate 14 4096"
    and n: "ct_clients_num (hw_fence_client_types d ! 1) = 6"
    using layout_sample_parse layout_sample_types unfolding d by simp_all
  have "map (\<lambda>x. unat (ct_mem_size (hw_fence_client_types d ! fst x))) (steps (hw_fence_client_types d))
      = map unat (map (step_size (hw_fence_client_types d)) (steps (hw_fence_client_types d)))"
    by (simp add: step_size_def)
  then have small: "layout_bytes sample_platform d < 2 ^ 32"
    unfolding m by (simp add: layout_bytes_def fixed_bytes_def v sum_list_replicate)
  have "page_size sample_platform = 2 ^ 12" by simp
  from parse_lays_out [OF sample_platform_ok sample_platform_sizes this, of True "\<lambda>_. None" layout_sample] d
  have "\<forall>x\<in>set (steps (hw_fence_client_types d)). \<exists>q. client_place sample_platform d x = Some q \<and>
      (layout_bytes sample_platform d < 2 ^ 32 \<longrightarrow> 2 ^ 12 dvd unat (qs_start_offset q) \<and> fixed_bytes d \<le> unat (qs_start_offset q))"
    by fastforce
  moreover have "(1, 3) \<in> set (steps (hw_fence_client_types d))" unfolding set_steps using n by simp
  ultimately obtain q where "client_place sample_platform d (1, 3) = Some q" "2 ^ 12 dvd unat (qs_start_offset q)"
    "fixed_bytes d \<le> unat (qs_start_offset q)"
    using small by blast
  moreover have "fixed_bytes d = 1080" by (simp add: fixed_bytes_def v)
  ultimately show ?thesis using d by (intro exI [of _ d]) auto
qed

section \<open>Addresses of the queues\<close>

abbreviation desc_of :: "hwf \<Rightarrow> nat \<Rightarrow> hw_fence_client_queue_size_desc" where
  "desc_of d n \<equiv> hw_fence_client_queue_size d ! n"

abbreviation queue_count :: "hwf \<Rightarrow> nat \<Rightarrow> nat" where
  "queue_count d n \<equiv> unat (qs_queues_num (desc_of d n))"

abbreviation slots :: "hwf \<Rightarrow> nat \<Rightarrow> nat" where
  "slots d n \<equiv> unat (qs_queue_entries (desc_of d n))"

definition region_base :: "hwf \<Rightarrow> nat \<Rightarrow> u64" where
  "region_base d n = io_mem_base d + ucast (qs_start_offset (desc_of d n))"

definition hdr_addr :: "platform \<Rightarrow> hwf \<Rightarrow> nat \<times> nat \<Rightarrow> u64" where
  "hdr_addr P d x = header_at P (region_base d (fst x)) (snd x)"

definition words_addr :: "platform \<Rightarrow> hwf \<Rightarrow> nat \<times> nat \<Rightarrow> u64" where
  "words_addr P d x = words_at P (region_base d (fst x)) (qs_queues_num (desc_of d (fst x)))
     (qs_queue_entries (desc_of d (fst x))) (snd x)"

text \<open>The queues of the internal clients: client and number of the queue.\<close>

definition queue_ids :: "hwf \<Rightarrow> (nat \<times> nat) set" where
  "queue_ids d = {(n, i). n < unat (clients_num d) \<and> i < queue_count d n}"

definition memory_ok :: "platform \<Rightarrow> hwf \<Rightarrow> bool" where
  "memory_ok P d \<longleftrightarrow> platform_sizes P \<and> laid_out P d \<and> fits P d \<and> types_fit P d \<and> io_mem_base d \<noteq> 0 \<and>
     ucast (used_mem_size d) \<le> res_size d \<and> unat (io_mem_base d) + unat (used_mem_size d) < 2 ^ 64"

lemma memory_desc:
  assumes "memory_ok P d" and "n < unat (clients_num d)"
  shows "desc_of d n = zero_size_desc \<or>
    sizes_fit P (qs_queues_num (desc_of d n)) (qs_queue_entries (desc_of d n)) (qs_mem_size (desc_of d n))"
proof (cases "n \<in> step_index P d ` set (steps (hw_fence_client_types d))")
  case False
  with assms show ?thesis by (simp add: memory_ok_def laid_out_def Let_def)
next
  case True
  then obtain k where k: "k < length (steps (hw_fence_client_types d))"
      "n = step_index P d (steps (hw_fence_client_types d) ! k)"
    by (auto simp: in_set_conv_nth)
  let ?x = "steps (hw_fence_client_types d) ! k"
  have "?x \<in> set (steps (hw_fence_client_types d))" using k(1) by simp
  then have "fst ?x < HW_FENCE_MAX_CLIENT_TYPE" using set_steps [of "fst ?x" "snd ?x"] by simp
  moreover have "\<exists>off. desc_of d n = size_entry (hw_fence_client_types d) ?x off"
    using assms(1) k by (auto simp: memory_ok_def laid_out_def Let_def)
  ultimately show ?thesis
    using assms(1) by (auto simp: memory_ok_def types_fit_def size_entry_def Let_def)
qed

lemma memory_fit:
  assumes "memory_ok P d" and "(n, i) \<in> queue_ids d"
  shows "sizes_fit P (qs_queues_num (desc_of d n)) (qs_queue_entries (desc_of d n)) (qs_mem_size (desc_of d n))"
    and "n < length (hw_fence_client_queue_size d)"
  using assms memory_desc [of P d n]
  by (auto simp: queue_ids_def zero_size_desc_def memory_ok_def laid_out_def Let_def)

text \<open>The bytes of a client's region.\<close>

definition region_bytes :: "hwf \<Rightarrow> nat \<Rightarrow> nat set" where
  "region_bytes d n = {unat (qs_start_offset (desc_of d n)) ..<
     unat (qs_start_offset (desc_of d n)) + unat (qs_mem_size (desc_of d n))}"

lemma region_bytes_span:
  assumes "memory_ok P d" and "n < unat (clients_num d)"
  shows "region_bytes d n = span d MEM_RESERVE_CLIENT_QUEUE (of_nat n)" and "unat (of_nat n :: u32) = n"
    and "n < length (hw_fence_client_queue_size d)"
proof -
  have "unat (clients_num d) < 2 ^ LENGTH(32)" by (rule unsigned_less)
  with assms(2) show u: "unat (of_nat n :: u32) = n" by (simp add: unat_of_nat)
  show l: "n < length (hw_fence_client_queue_size d)"
    using assms by (simp add: memory_ok_def laid_out_def Let_def)
  show "region_bytes d n = span d MEM_RESERVE_CLIENT_QUEUE (of_nat n)"
    by (simp add: region_bytes_def span_def region_def u l)
qed

lemma region_bytes_disjoint:
  assumes "memory_ok P d" and "n < unat (clients_num d)" and "m < unat (clients_num d)" and "n \<noteq> m"
  shows "region_bytes d n \<inter> region_bytes d m = {}"
proof -
  have ok: "laid_out P d" "fits P d" using assms(1) by (simp_all add: memory_ok_def)
  have "(of_nat n :: u32) \<noteq> of_nat m"
    using region_bytes_span(2) [OF assms(1,2)] region_bytes_span(2) [OF assms(1,3)] assms(4) by metis
  then show ?thesis
    using span_clients_disjoint [OF ok, of "of_nat n" "of_nat m"] assms
    by (simp add: region_bytes_span)
qed

lemma region_bytes_bound:
  assumes "memory_ok P d" and "n < unat (clients_num d)"
  shows "region_bytes d n \<subseteq> {unat (queues_start P d) ..< unat (used_mem_size d)}"
proof -
  have ok: "laid_out P d" "fits P d" using assms(1) by (simp_all add: memory_ok_def)
  show ?thesis
    using span_client_bounds [OF ok, of "of_nat n"] assms by (simp add: region_bytes_span)
qed

text \<open>Headers and words lie inside the region of their client.\<close>

lemma queue_places:
  assumes M: "memory_ok P d" and x: "(n, i) \<in> queue_ids d"
  shows "unat (hdr_addr P d (n, i)) = unat (io_mem_base d) + (unat (qs_start_offset (desc_of d n)) +
      unat (sizeof_hfi_table_header P) + i * unat (sizeof_hfi_queue_header P))"
    and "unat (words_addr P d (n, i)) = unat (io_mem_base d) + (unat (qs_start_offset (desc_of d n)) +
      headers_bytes P (qs_queues_num (desc_of d n)) + i * (64 * slots d n))"
    and "unat (hdr_addr P d (n, i)) \<in> (+) (unat (io_mem_base d)) ` region_bytes d n"
    and "unat (words_addr P d (n, i)) \<in> (+) (unat (io_mem_base d)) ` region_bytes d n"
proof -
  let ?s = "unat (qs_start_offset (desc_of d n))" and ?mem = "unat (qs_mem_size (desc_of d n))"
    and ?t = "unat (sizeof_hfi_table_header P)" and ?q = "unat (sizeof_hfi_queue_header P)"
    and ?H = "headers_bytes P (qs_queues_num (desc_of d n))" and ?io = "unat (io_mem_base d)"
  have n: "n < unat (clients_num d)" "i < queue_count d n" using x by (simp_all add: queue_ids_def)
  have fit: "queue_count d n \<in> {1, 2}" "0 < slots d n" "slots d n < 2 ^ 26" "?H + 64 * slots d n * queue_count d n \<le> ?mem"
    using memory_fit(1) [OF M x] by (simp_all add: sizes_fit_def)
  have P: "platform_sizes P" and top: "?io + unat (used_mem_size d) < 2 ^ 64" using M by (simp_all add: memory_ok_def)
  have q: "0 < ?q" using P by (simp add: platform_sizes_def unat_gt_0)
  have iq: "i * ?q < queue_count d n * ?q" using n(2) q by simp
  have ie: "i * (64 * slots d n) + 64 * slots d n \<le> 64 * slots d n * queue_count d n"
    using n(2) fit(1) by auto
  have pos: "0 < ?mem" using fit(2,4) fit(1) by auto
  then have "?s + ?mem - 1 \<in> region_bytes d n" by (simp add: region_bytes_def)
  with region_bytes_bound [OF M n(1)] pos have used: "?s + ?mem \<le> unat (used_mem_size d)" by fastforce
  have used32: "unat (used_mem_size d) < 2 ^ LENGTH(32)" by (rule unsigned_less)
  have hdr: "?t + i * ?q < ?H" using iq by (simp add: headers_bytes_def)
  have small: "?H \<le> ?mem" using fit(4) by simp
  have base: "unat (region_base d n) = ?io + ?s"
    using used top pos unfolding region_base_def by (subst unat_add_lem [THEN iffD1]) simp_all
  have b64: "?io + ?s + ?mem < 2 ^ LENGTH(64)" using used top by simp
  have "unat (of_nat i * sizeof_hfi_queue_header P) = i * ?q"
  proof -
    have ui: "unat (of_nat i :: u64) = i" using n(2) fit(1) by (auto simp: unat_of_nat)
    have "i * ?q < 2 ^ LENGTH(64)" using hdr small used used32 by simp
    then show ?thesis by (subst unat_mult_lem [THEN iffD1]) (simp_all add: ui)
  qed
  then show h: "unat (hdr_addr P d (n, i)) = ?io + (?s + ?t + i * ?q)"
    unfolding hdr_addr_def header_at_def using base b64 hdr small
    by (subst unat_add_lem [THEN iffD1]; (subst unat_add_lem [THEN iffD1])?) simp_all
  have uqn: "queue_count d n \<le> 2" using fit(1) by auto
  note H = headers_size [OF P uqn]
  have qs: "unat (of_nat i * (HW_FENCE_CLIENT_QUEUE_PAYLOAD * qs_queue_entries (desc_of d n))) = i * (64 * slots d n)"
  proof -
    have ui: "unat (of_nat i :: u32) = i" using n(2) fit(1) by (auto simp: unat_of_nat)
    have "i * (64 * slots d n) < 2 ^ LENGTH(32)" using ie fit(4) used used32 by simp
    then show ?thesis using queue_words(2) [OF fit(3)] by (subst unat_mult_lem [THEN iffD1]) (simp_all add: ui)
  qed
  have off: "unat ((ucast (HW_FENCE_HFI_CLIENT_HEADERS_SIZE P (qs_queues_num (desc_of d n))) :: u32) +
      of_nat i * (HW_FENCE_CLIENT_QUEUE_PAYLOAD * qs_queue_entries (desc_of d n))) = ?H + i * (64 * slots d n)"
    using ie fit(4) used used32 by (subst unat_add_lem [THEN iffD1]) (simp_all add: H qs)
  show w: "unat (words_addr P d (n, i)) = ?io + (?s + ?H + i * (64 * slots d n))"
    unfolding words_addr_def words_at_def fst_conv snd_conv
    using base b64 ie fit(4) by (subst unat_add_lem [THEN iffD1]) (simp_all add: off)
  have "?s + ?t + i * ?q \<in> region_bytes d n" using hdr small by (simp add: region_bytes_def)
  then show "unat (hdr_addr P d (n, i)) \<in> (+) ?io ` region_bytes d n" unfolding h by (rule imageI)
  have "?s + ?H + i * (64 * slots d n) \<in> region_bytes d n" using ie fit(2,4) by (simp add: region_bytes_def)
  then show "unat (words_addr P d (n, i)) \<in> (+) ?io ` region_bytes d n" unfolding w by (rule imageI)
qed

text \<open>No two queues share a header or words, and no header is at address 0.\<close>

lemma queue_places_distinct:
  assumes M: "memory_ok P d" and "x \<in> queue_ids d" and "y \<in> queue_ids d" and "x \<noteq> y"
  shows "hdr_addr P d x \<noteq> hdr_addr P d y" and "words_addr P d x \<noteq> words_addr P d y"
proof -
  obtain n i m j where xy: "x = (n, i)" "y = (m, j)" by (cases x, cases y) blast
  note px = queue_places [OF M assms(2) [unfolded xy]] and py = queue_places [OF M assms(3) [unfolded xy]]
  have nm: "n < unat (clients_num d)" "m < unat (clients_num d)" using assms(2,3) xy by (simp_all add: queue_ids_def)
  have q: "0 < unat (sizeof_hfi_queue_header P)" using M by (simp add: memory_ok_def platform_sizes_def unat_gt_0)
  have e: "0 < slots d n" using memory_fit(1) [OF M assms(2) [unfolded xy]] by (simp add: sizes_fit_def)
  show "hdr_addr P d x \<noteq> hdr_addr P d y"
  proof (cases "n = m")
    case True
    with px(1) py(1) q assms(4) xy show ?thesis by (auto simp: word_unat_eq_iff)
  next
    case False
    with region_bytes_disjoint [OF M nm] px(3) py(3) show ?thesis unfolding xy by (auto simp: word_unat_eq_iff)
  qed
  show "words_addr P d x \<noteq> words_addr P d y"
  proof (cases "n = m")
    case True
    with px(2) py(2) e assms(4) xy show ?thesis by (auto simp: word_unat_eq_iff)
  next
    case False
    with region_bytes_disjoint [OF M nm] px(4) py(4) show ?thesis unfolding xy by (auto simp: word_unat_eq_iff)
  qed
qed

lemma hdr_addr_nonzero:
  assumes M: "memory_ok P d" and "x \<in> queue_ids d"
  shows "hdr_addr P d x \<noteq> 0"
proof
  assume "hdr_addr P d x = 0"
  with queue_places(1) [OF M, of "fst x" "snd x"] assms(2) have "unat (io_mem_base d) = 0" by simp
  with M show False by (simp add: memory_ok_def unat_eq_zero)
qed

section \<open>Memory and clients in order\<close>

text \<open>The ring that setting up queue \<open>x\<close> finds, or found.\<close>

abbreviation place_ring :: "platform \<Rightarrow> bool \<Rightarrow> hwf \<Rightarrow> nat \<times> nat \<Rightarrow> ring" where
  "place_ring P wm d x \<equiv> found_ring wm d (hdr_addr P d x) (words_addr P d x) (slots d (fst x))"

definition rings_ok :: "platform \<Rightarrow> hwf \<Rightarrow> bool" where
  "rings_ok P d \<longleftrightarrow> (\<forall>x\<in>queue_ids d. \<forall>wm. ring_ok (slots d (fst x)) (place_ring P wm d x))"

definition locks_free :: "hwf \<Rightarrow> bool" where
  "locks_free d \<longleftrightarrow> client_lock_tbl_cnt d = rxq_clients_num d \<and>
     client_lock_tbl d = replicate (unat (rxq_clients_num d)) 0"

text \<open>Queue \<open>i\<close> of client \<open>n\<close> is set up at its place.\<close>

definition placed :: "platform \<Rightarrow> hwf \<Rightarrow> nat \<Rightarrow> msm_hw_fence_queue \<Rightarrow> nat \<Rightarrow> bool" where
  "placed P d n queue i \<longleftrightarrow> qd_va_header queue = hdr_addr P d (n, i) \<and> qd_va_queue queue = words_addr P d (n, i) \<and>
     q_size_u32 queue = ring_size (slots d n) \<and> q_words d (words_addr P d (n, i)) \<noteq> []"

text \<open>A client object that is in the table at \<open>n\<close>. If its rx queue is written, it has one, with a lock.\<close>

definition registered :: "platform \<Rightarrow> hwf \<Rightarrow> nat \<Rightarrow> msm_hw_fence_client \<Rightarrow> bool" where
  "registered P d n c \<longleftrightarrow> unat (cl_client_id c) = n \<and> length (cl_queues c) = HW_FENCE_CLIENT_QUEUES \<and> 0 < queue_count d n \<and>
     (\<forall>i<queue_count d n. placed P d n (cl_queues c ! i) i) \<and>
     (cl_update_rxq c \<longrightarrow> queue_count d n = HW_FENCE_CLIENT_QUEUES \<and> 0 < n \<and> n \<le> unat (rxq_clients_num d))"

definition clients_ok :: "platform \<Rightarrow> hwf \<Rightarrow> bool" where
  "clients_ok P d \<longleftrightarrow> length (clients d) = unat (clients_num d) \<and> (\<forall>h\<ge>next_obj d. client_objs d h = None) \<and>
     (\<forall>n<length (clients d). \<forall>h. clients d ! n = Some h \<longrightarrow> (\<exists>c. client_objs d h = Some c \<and> registered P d n c))"

definition memory_inv :: "platform \<Rightarrow> hwf \<Rightarrow> bool" where
  "memory_inv P d \<longleftrightarrow> memory_ok P d \<and> rings_ok P d \<and> locks_free d \<and> clients_ok P d"

lemma placed_ring: "placed P d n queue i \<Longrightarrow> queue_ring wm d queue = place_ring P wm d (n, i)"
  by (simp add: placed_def queue_ring_def found_ring_def Let_def)

lemma registered_no_val [simp]: "registered P d n (no_val c) = registered P d n c"
  by (simp add: registered_def)

lemma client_of_registered:
  assumes "memory_inv P d" and "client_of d n = Some c"
  shows "registered P d n c" and "n < unat (clients_num d)"
  using assms by (auto simp: memory_inv_def clients_ok_def client_of_def Option.bind_eq_Some_conv split: if_splits)

text \<open>The invariant of the memory is what delivering signals needs.\<close>

lemma registered_rx:
  assumes inv: "memory_inv P d" and c: "registered P d n c" "n < unat (clients_num d)" and up: "cl_update_rxq c"
  shows "rx_slots c = slots d n" and "(n, RXQ) \<in> queue_ids d" and "queue_ready (slots d n) d c RXQ"
    and "ring_ok (slots d n) (client_ring d c RXQ)"
proof -
  have M: "memory_ok P d" and L: "locks_free d" using inv by (simp_all add: memory_inv_def)
  have two: "queue_count d n = 2" "0 < n" "n \<le> unat (rxq_clients_num d)" using c(1) up by (simp_all add: registered_def)
  show x: "(n, RXQ) \<in> queue_ids d" using c(2) two(1) by (simp add: queue_ids_def)
  have fit: "0 < slots d n" "slots d n < 2 ^ 26" using memory_fit(1) [OF M x] by (simp_all add: sizes_fit_def)
  have at: "placed P d n (cl_queues c ! RXQ) RXQ" using c(1) two(1) by (simp add: registered_def)
  then have "q_size_u32 (cl_queues c ! RXQ) = ring_size (slots d n)" by (simp add: placed_def)
  then show "rx_slots c = slots d n" using unat_ring_size [OF fit(2)] by (simp add: rx_slots_def)
  have id: "unat (cl_client_id c) = n" "length (cl_queues c) = 2" using c(1) by (simp_all add: registered_def)
  then have "1 \<le> cl_client_id c" using two(2) by (simp add: word_le_nat_alt)
  then have lock: "unat (cl_client_id c - 1) = n - 1" using id(1) by (simp add: unat_sub)
  then have "cl_client_id c - 1 < client_lock_tbl_cnt d \<and> unat (cl_client_id c - 1) < length (client_lock_tbl d) \<and>
      client_lock_tbl d ! unat (cl_client_id c - 1) = 0"
    using L two(2,3) by (simp add: locks_free_def word_less_nat_alt)
  then show "queue_ready (slots d n) d c RXQ"
    using id two(1) at memory_fit(2) [OF M x] hdr_addr_nonzero [OF M x]
    unfolding queue_ready_def placed_def by simp
  show "ring_ok (slots d n) (client_ring d c RXQ)"
    using inv x placed_ring [OF at] by (auto simp: memory_inv_def rings_ok_def)
qed

lemma memory_clients_ready:
  assumes inv: "memory_inv P d"
  shows "clients_ready d"
proof -
  have objs: "client_of d n \<noteq> None" if "n < length (clients d)" "clients d ! n \<noteq> None" for n
    using inv that by (fastforce simp: memory_inv_def clients_ok_def client_of_def)
  have rx: "rx_ready d c" if "client_of d n = Some c" for n c
    using registered_rx [OF inv client_of_registered [OF inv that]] by (simp add: rx_ready_def)
  have apart: "rx_apart c c'"
    if "client_of d n = Some c" "client_of d m = Some c'" "n \<noteq> m" "cl_update_rxq c" "cl_update_rxq c'" for n m c c'
  proof -
    note cn = client_of_registered [OF inv that(1)] and cm = client_of_registered [OF inv that(2)]
    have "placed P d n (cl_queues c ! RXQ) RXQ" "placed P d m (cl_queues c' ! RXQ) RXQ"
      using cn cm that(4,5) by (simp_all add: registered_def)
    moreover have "memory_ok P d" using inv by (simp add: memory_inv_def)
    ultimately show ?thesis
      using queue_places_distinct [of P d "(n, RXQ)" "(m, RXQ)"] that(3)
        registered_rx(2) [OF inv cn that(4)] registered_rx(2) [OF inv cm that(5)]
      by (simp add: rx_apart_def placed_def)
  qed
  show ?thesis
    using objs rx apart client_of_registered(1) [OF inv] unfolding clients_ready_def registered_def by blast
qed

section \<open>Setting up the queues of a client\<close>

text \<open>The parts of the state that say where everything is.\<close>

definition same_layout :: "hwf \<Rightarrow> hwf \<Rightarrow> bool" where
  "same_layout d d' \<longleftrightarrow> hw_fence_client_queue_size d' = hw_fence_client_queue_size d \<and>
     hw_fence_client_types d' = hw_fence_client_types d \<and> clients_num d' = clients_num d \<and>
     rxq_clients_num d' = rxq_clients_num d \<and> io_mem_base d' = io_mem_base d \<and> res_size d' = res_size d \<and>
     used_mem_size d' = used_mem_size d \<and> hw_fence_mem_ctrl_queues_size d' = hw_fence_mem_ctrl_queues_size d \<and>
     hw_fence_mem_fences_table_size d' = hw_fence_mem_fences_table_size d"

lemma same_layout_refl [simp]: "same_layout d d"
  by (simp add: same_layout_def)

lemma same_layout_trans: "same_layout d d' \<Longrightarrow> same_layout d' d'' \<Longrightarrow> same_layout d d''"
  by (simp add: same_layout_def)

lemma same_layout_places:
  assumes "same_layout d d'"
  shows "hdr_addr P d' = hdr_addr P d" and "words_addr P d' = words_addr P d" and "queue_ids d' = queue_ids d"
    and "memory_ok P d' = memory_ok P d"
proof -
  have eq: "hw_fence_client_queue_size d' = hw_fence_client_queue_size d" "clients_num d' = clients_num d"
    "hw_fence_client_types d' = hw_fence_client_types d" "io_mem_base d' = io_mem_base d"
    "rxq_clients_num d' = rxq_clients_num d" "res_size d' = res_size d" "used_mem_size d' = used_mem_size d"
    "hw_fence_mem_ctrl_queues_size d' = hw_fence_mem_ctrl_queues_size d"
    "hw_fence_mem_fences_table_size d' = hw_fence_mem_fences_table_size d"
    using assms by (simp_all add: same_layout_def)
  show "hdr_addr P d' = hdr_addr P d" "words_addr P d' = words_addr P d" "queue_ids d' = queue_ids d"
    by (simp_all add: hdr_addr_def words_addr_def region_base_def queue_ids_def eq fun_eq_iff)
  have idx: "step_index P d' x = step_index P d x" "clients_counted P d' = clients_counted P d" for x
    using types_only [OF eq(3,2)] by (simp_all add: step_index_def)
  have q: "queues_start P d' = queues_start P d" by (simp add: queues_start_def eq)
  have "step_index P d' = step_index P d" using idx(1) by (simp add: fun_eq_iff)
  then show "memory_ok P d' = memory_ok P d"
    using idx(2) by (simp add: memory_ok_def laid_out_def fits_def types_fit_def Let_def eq q)
qed

text \<open>Changes that keep every ring where it is, and the words in use.\<close>

definition rings_kept :: "platform \<Rightarrow> hwf \<Rightarrow> hwf \<Rightarrow> bool" where
  "rings_kept P d d' \<longleftrightarrow> (\<forall>x\<in>queue_ids d. (\<forall>wm. place_ring P wm d' x = place_ring P wm d x) \<and>
     (q_words d (words_addr P d x) \<noteq> [] \<longrightarrow> q_words d' (words_addr P d x) \<noteq> []))"

lemma rings_kept_refl [simp]: "rings_kept P d d"
  by (simp add: rings_kept_def)

lemma registered_kept:
  assumes "same_layout d d'" and "rings_kept P d d'" and "n < unat (clients_num d)" and "registered P d n c"
  shows "registered P d' n c"
proof -
  have qs: "hw_fence_client_queue_size d' = hw_fence_client_queue_size d" "rxq_clients_num d' = rxq_clients_num d"
    using assms(1) by (simp_all add: same_layout_def)
  note pl = same_layout_places [OF assms(1)]
  have "placed P d' n queue i" if "i < queue_count d n" "placed P d n queue i" for queue i
    using that assms(2,3) by (auto simp: placed_def pl qs rings_kept_def queue_ids_def)
  with assms(4) show ?thesis by (simp add: registered_def qs)
qed

lemma rings_ok_kept:
  assumes "same_layout d d'" and "rings_kept P d d'" and "rings_ok P d"
  shows "rings_ok P d'"
proof -
  have "hw_fence_client_queue_size d' = hw_fence_client_queue_size d" using assms(1) by (simp add: same_layout_def)
  then show ?thesis
    using assms(2,3) same_layout_places [OF assms(1)] by (simp add: rings_ok_def rings_kept_def)
qed

lemma memory_inv_kept:
  assumes inv: "memory_inv P d" and lay: "same_layout d d'" and rings: "rings_kept P d d'"
    and locks: "client_lock_tbl d' = client_lock_tbl d" "client_lock_tbl_cnt d' = client_lock_tbl_cnt d"
    and cl: "clients d' = clients d" "client_objs d' = client_objs d" "next_obj d' = next_obj d"
  shows "memory_inv P d'"
proof -
  have "clients_num d' = clients_num d" "rxq_clients_num d' = rxq_clients_num d"
    using lay by (simp_all add: same_layout_def)
  moreover have "clients_ok P d'"
    unfolding clients_ok_def
  proof (intro conjI allI impI)
    show "length (clients d') = unat (clients_num d')" "next_obj d' \<le> h \<Longrightarrow> client_objs d' h = None" for h
      using inv cl \<open>clients_num d' = clients_num d\<close> by (simp_all add: memory_inv_def clients_ok_def)
    fix n h assume n: "n < length (clients d')" "clients d' ! n = Some h"
    then obtain c where "client_objs d h = Some c" "registered P d n c"
      using inv cl(1) by (fastforce simp: memory_inv_def clients_ok_def)
    moreover have "n < unat (clients_num d)" using inv cl n by (simp add: memory_inv_def clients_ok_def)
    ultimately show "\<exists>c. client_objs d' h = Some c \<and> registered P d' n c"
      using registered_kept [OF lay rings] cl by auto
  qed
  ultimately show ?thesis
    using inv locks rings_ok_kept [OF lay rings] same_layout_places(4) [OF lay]
    by (simp add: memory_inv_def locks_free_def)
qed

text \<open>\<open>hw_fence_alloc_client_resources\<close>: either the device tree gives the client no region, or its queues
  are set up at their places with the rings that are there.\<close>

lemma alloc_resources:
  assumes M: "memory_ok P d" and n: "n < unat (clients_num d)" and c: "unat (cl_client_id c) = n"
    "length (cl_queues c) = HW_FENCE_CLIENT_QUEUES"
  obtains "desc_of d n = zero_size_desc" "hw_fence_alloc_client_resources P d c md = Some (d, c, md, - ENOMEM)"
  | d' qs md' where "hw_fence_alloc_client_resources P d c md =
        Some (d', c\<lparr>cl_mem_descriptor := md', cl_queues := qs\<rparr>, md', 0)"
      "length qs = HW_FENCE_CLIENT_QUEUES" "0 < queue_count d n" "\<forall>i<queue_count d n. placed P d' n (qs ! i) i" "rings_kept P d d'"
      "d' = d\<lparr>hfi_tables := hfi_tables d', hfi_hdrs := hfi_hdrs d', q_words := q_words d'\<rparr>"
proof (cases "desc_of d n = zero_size_desc")
  case True
  have id: "\<not> clients_num d \<le> cl_client_id c" using n c(1) by (simp add: word_le_nat_alt)
  have "n < length (hw_fence_client_queue_size d)" using M n by (simp add: memory_ok_def laid_out_def Let_def)
  with True id c(1) have "hw_fence_alloc_client_resources P d c md = Some (d, c, md, - ENOMEM)"
    by (simp add: hw_fence_alloc_client_resources_def init_hw_fences_queues_def hw_fence_utils_reserve_mem_def
        region_def zero_size_desc_def)
  with True that(1) show thesis by blast
next
  case False
  let ?desc = "desc_of d n" and ?id = "cl_client_id c"
  let ?e = "qs_queue_entries ?desc" and ?qn = "qs_queues_num ?desc" and ?ptr = "region_base d n"
  have id: "\<not> clients_num d \<le> ?id" and len: "n < length (hw_fence_client_queue_size d)"
    using n c(1) M by (simp_all add: word_le_nat_alt memory_ok_def laid_out_def Let_def)
  have fit: "unat ?qn \<in> {1, 2}" "0 < unat ?e" "unat ?e < 2 ^ 26" "headers_bytes P ?qn + 64 * unat ?e * unat ?qn \<le> unat (qs_mem_size ?desc)"
    using False memory_desc [OF M n] by (simp_all add: sizes_fit_def)
  then have pos: "0 < unat (qs_mem_size ?desc)" by auto
  then have "unat (qs_start_offset ?desc) + unat (qs_mem_size ?desc) - 1 \<in> region_bytes d n" by (simp add: region_bytes_def)
  with region_bytes_bound [OF M n] pos have used: "unat (qs_start_offset ?desc) + unat (qs_mem_size ?desc) \<le> unat (used_mem_size d)"
    by fastforce
  have "unat (used_mem_size d) < 2 ^ LENGTH(32)" by (rule unsigned_less)
  with used have "unat (qs_start_offset ?desc + qs_mem_size ?desc) = unat (qs_start_offset ?desc) + unat (qs_mem_size ?desc)"
    by (subst unat_add_lem [THEN iffD1]) simp_all
  with used have "\<not> res_size d < ucast (qs_start_offset ?desc + qs_mem_size ?desc)"
    using M by (simp add: memory_ok_def word_less_nat_alt word_le_nat_alt)
  moreover have "qs_mem_size ?desc \<noteq> 0" using pos by (simp add: unat_gt_0 [symmetric])
  ultimately obtain phys sz where res: "hw_fence_utils_reserve_mem d MEM_RESERVE_CLIENT_QUEUE ?id = Some (0, phys, ?ptr, sz)"
    using id len c(1) by (simp add: hw_fence_utils_reserve_mem_def region_def region_base_def)
  let ?md = "\<lparr>md_virtual_addr = ?ptr, md_device_addr = phys, md_size = sz\<rparr>"
  let ?d = "d\<lparr>hfi_tables := (hfi_tables d)(?ptr := \<lparr>th_version = 0, th_size = sz,
           th_qhdr0_offset = ucast (sizeof_hfi_table_header P), th_qhdr_size = ucast (sizeof_hfi_queue_header P),
           th_num_q = ?qn, th_num_active_q = ?qn\<rparr>)\<rparr>"
  have q: "sizeof_hfi_queue_header P \<noteq> 0" using M by (simp add: memory_ok_def platform_sizes_def)
  have c2: "length (cl_queues c) = 2" using c(2) by simp
  obtain d' qs where init: "chain (init_queue P phys ?ptr (ucast (HW_FENCE_HFI_CLIENT_HEADERS_SIZE P ?qn))
       (HW_FENCE_CLIENT_QUEUE_PAYLOAD * ?e) HW_FENCE_CLIENT_QUEUE_PAYLOAD) [0..<unat ?qn] (?d, cl_queues c) = Some (d', qs)"
    and qs: "length qs = 2" "\<forall>i<unat ?qn. qd_va_header (qs ! i) = header_at P ?ptr i \<and>
       qd_va_queue (qs ! i) = words_at P ?ptr ?qn ?e i \<and> q_size_u32 (qs ! i) = ring_size (unat ?e) \<and>
       (\<forall>wm. queue_ring wm d' (qs ! i) = found_ring wm ?d (header_at P ?ptr i) (words_at P ?ptr ?qn ?e i) (unat ?e))"
    and out: "outside (header_at P ?ptr ` {..<unat ?qn}) (words_at P ?ptr ?qn ?e ` {..<unat ?qn}) ?d d'"
    using init_queues_rings [OF fit(1) c2 fit(2,3) q, of phys ?ptr ?d] by blast
  have lay: "d' = d\<lparr>hfi_tables := hfi_tables d', hfi_hdrs := hfi_hdrs d', q_words := q_words d'\<rparr>"
  proof -
    obtain h w where "d' = ?d\<lparr>hfi_hdrs := h, q_words := w\<rparr>" using out unfolding outside_def by blast
    then show ?thesis by simp
  qed
  have H: "header_at P ?ptr ` {..<unat ?qn} = hdr_addr P d ` Pair n ` {..<unat ?qn}"
    and W: "words_at P ?ptr ?qn ?e ` {..<unat ?qn} = words_addr P d ` Pair n ` {..<unat ?qn}"
    by (simp_all add: image_image hdr_addr_def words_addr_def)
  have fd: "found_ring wm ?d hdr words m = found_ring wm d hdr words m" for wm hdr words m by (simp add: found_ring_def)
  have found: "queue_ring wm d' (qs ! i) = place_ring P wm d (n, i)" if "i < unat ?qn" for wm i
    using qs(2) that by (simp add: fd hdr_addr_def words_addr_def)
  have claimed: "q_words d' (words_addr P d (n, i)) \<noteq> []" if "i < unat ?qn" for i
  proof -
    have e: "q_words d' (qd_va_queue (qs ! i)) = snd (snd (place_ring P True d (n, i)))"
      unfolding found [OF that, of True, symmetric] by (simp add: queue_ring_def Let_def)
    have "snd (snd (place_ring P True d (n, i))) \<noteq> []" using fit(2) by (simp add: found_ring_def)
    then show ?thesis using e qs(2) that by (simp add: words_addr_def)
  qed
  have slay: "same_layout d d'" by (subst lay) (simp add: same_layout_def)
  note pl = same_layout_places [OF slay]
  have sz: "hw_fence_client_queue_size d' = hw_fence_client_queue_size d" using slay by (simp add: same_layout_def)
  have pd: "placed P d' n (qs ! i) i" if "i < unat ?qn" for i
    using qs(2) that claimed [OF that] by (simp add: placed_def pl sz) (simp add: hdr_addr_def words_addr_def)
  have away: "hdr_addr P d x \<notin> hdr_addr P d ` Pair n ` {..<unat ?qn}" "words_addr P d x \<notin> words_addr P d ` Pair n ` {..<unat ?qn}"
    if "x \<in> queue_ids d" "fst x \<noteq> n" for x
  proof -
    have "hdr_addr P d x \<noteq> hdr_addr P d (n, i)" "words_addr P d x \<noteq> words_addr P d (n, i)" if "i < unat ?qn" for i
    proof -
      have "(n, i) \<in> queue_ids d" "x \<noteq> (n, i)" using that \<open>fst x \<noteq> n\<close> n by (auto simp: queue_ids_def)
      then show "hdr_addr P d x \<noteq> hdr_addr P d (n, i)" "words_addr P d x \<noteq> words_addr P d (n, i)"
        using queue_places_distinct [OF M \<open>x \<in> queue_ids d\<close>] by blast+
    qed
    then show "hdr_addr P d x \<notin> hdr_addr P d ` Pair n ` {..<unat ?qn}" "words_addr P d x \<notin> words_addr P d ` Pair n ` {..<unat ?qn}"
      by blast+
  qed
  have kept: "rings_kept P d d'"
    unfolding rings_kept_def
  proof (intro ballI conjI allI impI)
    fix x wm assume x: "x \<in> queue_ids d"
    show "place_ring P wm d' x = place_ring P wm d x"
    proof (cases "fst x = n")
      case True
      then have i: "snd x < unat ?qn" "x = (n, snd x)" using x by (auto simp: queue_ids_def)
      show ?thesis using placed_ring [OF pd [OF i(1)], of wm] found [OF i(1), of wm] i(2) by simp
    next
      case False
      with found_ring_outside [OF out [unfolded H W]] away [OF x] fd show ?thesis by (simp add: pl sz)
    qed
  next
    fix x assume x: "x \<in> queue_ids d" and w: "q_words d (words_addr P d x) \<noteq> []"
    show "q_words d' (words_addr P d x) \<noteq> []"
    proof (cases "fst x = n")
      case True
      then show ?thesis using claimed [of "snd x"] x by (auto simp: queue_ids_def)
    next
      case False
      with out [unfolded H W] away(2) [OF x] w show ?thesis by (simp add: outside_def)
    qed
  qed
  have alloc: "hw_fence_alloc_client_resources P d c md = Some (d', c\<lparr>cl_mem_descriptor := ?md, cl_queues := qs\<rparr>, ?md, 0)"
    using id len c(1) res init by (simp add: hw_fence_alloc_client_resources_def init_hw_fences_queues_def)
  have two: "length qs = HW_FENCE_CLIENT_QUEUES" using qs(1) by simp
  have "0 < unat ?qn" using fit(1) by auto
  then show thesis by (rule that(2) [OF alloc two _ _ kept lay]) (use pd in blast)
qed

end
