(* ===== verification/HwfSetup.thy ===== *)
theory HwfSetup
  imports HwfDoorbell HwfMemory
begin

text \<open>
  Bringing the driver up: mapping of registers, sharing of the memory with the other virtual machine and
  registration of the doorbell (\<open>hw_fence_drv_utils.c\<close>), \<open>hw_fence_init\<close> (\<open>hw_fence_drv_priv.c\<close>) and the
  probe and remove functions of the platform driver (\<open>msm_hw_fence.c\<close>). What the kernel and the
  hypervisor answer is in the arguments: a device-tree property is its return value with the values
  read, a mapping is the mapped address (0 is NULL).
\<close>

section \<open>The code\<close>

subsection \<open>Registers\<close>

definition hw_fence_utils_map_ipcc ::
  "platform \<Rightarrow> int \<Rightarrow> u64 \<Rightarrow> bool \<Rightarrow> u32 option \<Rightarrow> u32 \<Rightarrow> hwf \<Rightarrow> (hwf \<times> int) option" where
  "hw_fence_utils_map_ipcc P ret mapped alloc dt reg d =
     (if ret \<noteq> 0 then Some (d, ret)
      else if mapped = 0 then Some (d, - ENOMEM)
      else do {
        (d, _) \<leftarrow> hw_fence_ipcc_enable_signaling P alloc (d\<lparr>ipcc_io_mem := mapped\<rparr>) dt reg;
        Some (d, 0)
      })"

definition hw_fence_utils_map_qtime :: "int \<Rightarrow> u64 \<Rightarrow> int" where
  "hw_fence_utils_map_qtime qtime_reg mapped =
     (if qtime_reg \<noteq> 0 then qtime_reg else if mapped = 0 then - ENOMEM else 0)"

text \<open>\<open>ctl\<close> gives the property of a control path and its mapping; without the property nothing is mapped. The size of the
  mapping, which nothing but a message uses, is left out.\<close>

definition map_ctl_start :: "(nat \<Rightarrow> int \<times> u64) \<Rightarrow> nat \<Rightarrow> hwf \<Rightarrow> hwf \<times> int" where
  "map_ctl_start ctl ctl_id d = (case ctl ctl_id of (ret, mapped) \<Rightarrow>
     if ret \<noteq> 0 then (d, 0)
     else if mapped = 0 then (d, - ENOMEM)
     else (d\<lparr>ctl_start_ptr := (ctl_start_ptr d)[ctl_id := mapped]\<rparr>, 0))"

definition hw_fence_utils_map_ctl_start :: "(nat \<Rightarrow> int \<times> u64) \<Rightarrow> hwf \<Rightarrow> hwf \<times> int" where
  "hw_fence_utils_map_ctl_start ctl d =
     (foldl (\<lambda>d ctl_id. fst (map_ctl_start ctl ctl_id d)) d [0..<Suc HW_FENCE_LOOPBACK_DPU_CTL_5], 0)"

text \<open>\<open>rx_dbl\<close> is what registering the doorbell returns: an error pointer or an address.\<close>

definition hw_fence_utils_init_virq :: "bool \<Rightarrow> int \<Rightarrow> int + u64 \<Rightarrow> int" where
  "hw_fence_utils_init_virq node label rx_dbl =
     (if \<not> node then - EINVAL
      else if label \<noteq> 0 then label
      else case rx_dbl of Inl e \<Rightarrow> e | Inr p \<Rightarrow> 0)"

subsection \<open>Sharing the memory\<close>

datatype perm = PERM_READ | PERM_WRITE | PERM_EXEC

text \<open>The calls to the hypervisor: the new owners of a range given those of before, and the sharing.\<close>

datatype hyp_call =
    Assign_mem (a_start: u64) (a_size: u64) (a_src: u32) (a_dst: "(u16 \<times> perm list) list")
  | Mem_share (s_acl: "(u16 \<times> perm list) list") (s_base: u64) (s_size: u64)

definition vm_bit :: "u16 \<Rightarrow> u32 option" where
  "vm_bit vmid = (if vmid < 32 then Some (push_bit (unat vmid) 1) else None)"

text \<open>The function returns with the calls it made, in order, when it is given the answers of the first
  assignment, of the two allocations and of the sharing. The answer of the last call, the attempt to give the
  memory back, is ignored by the code.\<close>

definition hw_fence_gunyah_share_mem ::
  "int \<Rightarrow> bool \<Rightarrow> bool \<Rightarrow> int \<Rightarrow> u16 \<Rightarrow> u16 \<Rightarrow> hwf \<Rightarrow> (hyp_call list \<times> int) option" where
  "hw_fence_gunyah_share_mem assigned acl sgl shared self peer d = do {
     s \<leftarrow> vm_bit self;
     p \<leftarrow> vm_bit peer;
     let src_vmlist = [(self, [PERM_READ, PERM_WRITE, PERM_EXEC])];
     let dst_vmlist = [(self, [PERM_READ, PERM_WRITE]), (peer, [PERM_READ, PERM_WRITE])];
     let assign = Assign_mem (res_start d) (res_size d) s dst_vmlist;
     let share = Mem_share dst_vmlist (res_start d) (res_size d);
     let back = Assign_mem (res_start d) (res_size d) (s OR p) src_vmlist;
     Some (if assigned \<noteq> 0 then ([assign], assigned)
       else if \<not> acl then ([assign], - ENOMEM)
       else if \<not> sgl then ([assign], - ENOMEM)
       else if shared \<noteq> 0 then ([assign, share, back], - EPROBE_DEFER)
       else ([assign, share], 0))
   }"

datatype vm_status = VM_STATUS_READY | VM_STATUS_RESET | VM_STATUS_OTHER

text \<open>
  \<open>hw_fence_rm_cb\<close>: a notification that carries the status of a virtual machine has it as \<open>Some\<close> of the
  status and the machine's id; \<open>peer\<close> and \<open>self\<close> are the ids that the resource manager knows.
\<close>

definition hw_fence_rm_cb ::
  "int \<Rightarrow> bool \<Rightarrow> bool \<Rightarrow> int \<Rightarrow> u16 option \<Rightarrow> u16 option \<Rightarrow> (vm_status \<times> u16) option \<Rightarrow> hwf
    \<Rightarrow> (hwf \<times> hyp_call list) option" where
  "hw_fence_rm_cb assigned acl sgl shared peer self payload d = (case payload of
       None \<Rightarrow> Some (d, [])
     | Some (status, vmid) \<Rightarrow>
         if status \<noteq> VM_STATUS_READY \<and> status \<noteq> VM_STATUS_RESET then Some (d, [])
         else (case (peer, self) of
             (Some peer_vmid, Some self_vmid) \<Rightarrow>
               if peer_vmid \<noteq> vmid then Some (d, [])
               else if status = VM_STATUS_READY then do {
                 (calls, ret) \<leftarrow> hw_fence_gunyah_share_mem assigned acl sgl shared self_vmid peer_vmid d;
                 Some (if ret \<noteq> 0 then d else d\<lparr>vm_ready := True\<rparr>, calls)
               } else Some (d, [])
           | _ \<Rightarrow> Some (d, [])))"

subsection \<open>Initialisation and probing\<close>

text \<open>Everything that the kernel answers while the driver is probed.\<close>

record probe_env =
  pe_alloc :: bool
  pe_alloc_clients :: bool
  pe_table_entries :: "int \<times> u32"
  pe_queue_entries :: "int \<times> u32"
  pe_props :: "nat \<Rightarrow> (u32 \<times> u32 \<times> u32 \<times> u32) option"
  pe_label :: "int option"
  pe_buffer :: bool
  pe_resource :: "(u64 \<times> u64) option"
  pe_mapped :: u64
  pe_notifier :: int
  pe_ipcc_reg :: int
  pe_ipcc_mapped :: u64
  pe_ipcc_alloc :: bool
  pe_hwrev_dt :: "u32 option"
  pe_hwrev :: u32
  pe_qtime_reg :: int
  pe_qtime_mapped :: u64
  pe_ctl :: "nat \<Rightarrow> int \<times> u64"
  pe_debugfs :: int
  pe_db_node :: bool
  pe_db_label :: int
  pe_rx_dbl :: "int + u64"

text \<open>A step of the initialisation, and the rest of it if the step returned 0.\<close>

definition and_then ::
  "(hwf \<times> int) option \<Rightarrow> (hwf \<Rightarrow> (hwf \<times> int) option) \<Rightarrow> (hwf \<times> int) option" where
  "and_then r f = do { (d, ret) \<leftarrow> r; if ret \<noteq> 0 then Some (d, ret) else f d }"

definition hw_fence_init :: "platform \<Rightarrow> probe_env \<Rightarrow> hwf \<Rightarrow> (hwf \<times> int) option" where
  "hw_fence_init P e d =
     and_then (hw_fence_utils_parse_dt_props P (pe_alloc e) (pe_alloc_clients e) (pe_table_entries e)
       (pe_queue_entries e) (pe_props e) d) (\<lambda>d.
     and_then (Some (hw_fence_utils_alloc_mem (pe_label e) (pe_buffer e) (pe_resource e) (pe_mapped e)
       (pe_notifier e) d)) (\<lambda>d.
     and_then (init_ctrl_queue P d) (\<lambda>d.
     and_then (init_global_locks d) (\<lambda>d.
     and_then (init_hw_fences_table d) (\<lambda>d.
     and_then (hw_fence_utils_map_ipcc P (pe_ipcc_reg e) (pe_ipcc_mapped e) (pe_ipcc_alloc e) (pe_hwrev_dt e)
       (pe_hwrev e) d) (\<lambda>d.
     and_then (Some (d, hw_fence_utils_map_qtime (pe_qtime_reg e) (pe_qtime_mapped e))) (\<lambda>d.
     let d = fst (hw_fence_utils_map_ctl_start (pe_ctl e) d) in
     and_then (Some (d, pe_debugfs e)) (\<lambda>d.
     Some (d, hw_fence_utils_init_virq (pe_db_node e) (pe_db_label e) (pe_rx_dbl e))))))))))"

text \<open>
  The global \<open>hw_fence_drv_data\<close> is \<open>Some\<close> of the driver data, or \<open>None\<close> while it is NULL or an error
  pointer. \<open>d0\<close> is the memory of the kernel that the driver finds (zeroed driver data, but the fences of
  the system are there).
\<close>

definition msm_hw_fence_probe_init ::
  "platform \<Rightarrow> bool \<Rightarrow> probe_env \<Rightarrow> hwf \<Rightarrow> (hwf option \<times> int) option" where
  "msm_hw_fence_probe_init P alloc e d0 =
     (if \<not> alloc then Some (None, - ENOMEM)
      else do {
        (d, rc) \<leftarrow> hw_fence_init P e d0;
        Some (if rc \<noteq> 0 then (None, rc) else (Some (d\<lparr>resources_ready := True\<rparr>), rc))
      })"

definition EOPNOTSUPP :: int where "EOPNOTSUPP = 95"

definition msm_hw_fence_probe ::
  "platform \<Rightarrow> bool \<Rightarrow> bool \<Rightarrow> bool \<Rightarrow> bool \<Rightarrow> probe_env \<Rightarrow> hwf \<Rightarrow> hwf option \<Rightarrow> (hwf option \<times> int) option" where
  "msm_hw_fence_probe P pdev enable compatible alloc e d0 drv =
     (if \<not> pdev then Some (drv, - EINVAL)
      else if \<not> enable then Some (drv, - EOPNOTSUPP)
      else if compatible then msm_hw_fence_probe_init P alloc e d0
      else Some (drv, - EINVAL))"

text \<open>\<open>drvdata\<close> is the pointer that the device carries.\<close>

definition msm_hw_fence_remove :: "bool \<Rightarrow> hwf option \<Rightarrow> hwf option \<Rightarrow> hwf option \<times> int" where
  "msm_hw_fence_remove pdev drvdata drv =
     (if \<not> pdev then (drv, - EINVAL)
      else case drvdata of None \<Rightarrow> (None, - EINVAL) | Some _ \<Rightarrow> (None, 0))"


section \<open>What the driver is after probing\<close>

subsection \<open>The device tree\<close>

lemma and_then_ok: "and_then r f = Some (d', 0) \<longleftrightarrow> (\<exists>d. r = Some (d, 0) \<and> f d = Some (d', 0))"
  by (cases r) (auto simp: and_then_def split: prod.split)

lemma parse_clients_frame:
  assumes "parse_client_queue_dt_props P alloc props d = Some (d', ret)"
  shows "\<exists>rxq types n sizes used. d' = d\<lparr>hw_fence_client_queue_size := sizes, hw_fence_client_types := types,
    rxq_clients_num := rxq, clients_num := n, used_mem_size := used\<rparr>"
proof -
  obtain types rxq conf r where p: "parse_types P d props [0..<HW_FENCE_MAX_CLIENT_TYPE] (initial_client_types P)
      (HW_FENCE_MIN_RXQ_CLIENTS P) 0 = Some (types, rxq, conf, r)"
    using assms by (auto simp: parse_client_queue_dt_props_def Option.bind_eq_Some_conv)
  let ?n = "HW_FENCE_MAX_STATIC_CLIENTS_INDEX P + conf"
  consider "d' = d\<lparr>rxq_clients_num := rxq\<rparr>"
    | "d' = d\<lparr>rxq_clients_num := rxq, hw_fence_client_types := types, clients_num := ?n, hw_fence_client_queue_size := []\<rparr>"
    | sizes off where "d' = d\<lparr>rxq_clients_num := rxq, hw_fence_client_types := types, clients_num := ?n,
        hw_fence_client_queue_size := sizes, used_mem_size := off\<rparr>"
    using assms p by (auto simp: parse_client_queue_dt_props_def Option.bind_eq_Some_conv Let_def split: if_splits)
  then show ?thesis
  proof cases
    case 1
    then show ?thesis
      by (intro exI [of _ rxq] exI [of _ "hw_fence_client_types d"] exI [of _ "clients_num d"]
          exI [of _ "hw_fence_client_queue_size d"] exI [of _ "used_mem_size d"]) simp
  next
    case 2
    then show ?thesis
      by (intro exI [of _ rxq] exI [of _ types] exI [of _ ?n] exI [of _ "[]"] exI [of _ "used_mem_size d"]) simp
  next
    case (3 sizes off)
    then show ?thesis
      by (intro exI [of _ rxq] exI [of _ types] exI [of _ ?n] exI [of _ sizes] exI [of _ off]) simp
  qed
qed

text \<open>The size of the control queues has room for their headers and words.\<close>

lemma ctrl_size:
  assumes P: "platform_sizes P" and "\<not> (U32_MAX - HW_FENCE_HFI_CTRL_HEADERS_SIZE P) div of_nat HW_FENCE_CTRL_QUEUES \<le> ucast (cqs :: u32)"
  shows "unat (HW_FENCE_HFI_CTRL_HEADERS_SIZE P) = headers_bytes P 2"
    and "unat (ucast (HW_FENCE_HFI_CTRL_HEADERS_SIZE P + ucast (of_nat HW_FENCE_CTRL_QUEUES * cqs)) :: u32) = headers_bytes P 2 + 2 * unat cqs"
proof -
  have e: "HW_FENCE_HFI_CTRL_HEADERS_SIZE P = HW_FENCE_HFI_CLIENT_HEADERS_SIZE P 2"
    by (simp add: HW_FENCE_HFI_CTRL_HEADERS_SIZE_def HW_FENCE_HFI_CLIENT_HEADERS_SIZE_def)
  have H: "unat (HW_FENCE_HFI_CTRL_HEADERS_SIZE P) = headers_bytes P 2" "headers_bytes P 2 \<le> 2 ^ 20"
    using headers_size [OF P, of 2] by (simp_all add: e)
  then show "unat (HW_FENCE_HFI_CTRL_HEADERS_SIZE P) = headers_bytes P 2" by simp
  have "unat (U32_MAX - HW_FENCE_HFI_CTRL_HEADERS_SIZE P) = 2 ^ 32 - 1 - headers_bytes P 2"
    using H by (subst unat_sub) (simp_all add: word_le_nat_alt U32_MAX_def)
  then have "unat cqs < (2 ^ 32 - 1 - headers_bytes P 2) div 2"
    using assms(2) by (simp add: word_le_nat_alt unat_div)
  then have lim: "headers_bytes P 2 + 2 * unat cqs < 2 ^ 32" using H(2) by linarith
  then have "unat (2 * cqs) = 2 * unat cqs" by (subst unat_mult_lem [THEN iffD1]) simp_all
  then have "unat (HW_FENCE_HFI_CTRL_HEADERS_SIZE P + ucast (of_nat HW_FENCE_CTRL_QUEUES * cqs)) = headers_bytes P 2 + 2 * unat cqs"
    using lim H by (subst unat_add_lem [THEN iffD1]) simp_all
  then show "unat (ucast (HW_FENCE_HFI_CTRL_HEADERS_SIZE P + ucast (of_nat HW_FENCE_CTRL_QUEUES * cqs)) :: u32) = headers_bytes P 2 + 2 * unat cqs"
    using lim by (subst unat_ucast_down) simp_all
qed

text \<open>The fields on which the layout depends.\<close>

lemma layout_fields:
  assumes "hw_fence_client_types d' = hw_fence_client_types d" and "clients_num d' = clients_num d"
    and "hw_fence_client_queue_size d' = hw_fence_client_queue_size d" and "used_mem_size d' = used_mem_size d"
    and "rxq_clients_num d' = rxq_clients_num d" and "hw_fence_mem_ctrl_queues_size d' = hw_fence_mem_ctrl_queues_size d"
    and "hw_fence_mem_fences_table_size d' = hw_fence_mem_fences_table_size d"
  shows "laid_out P d' = laid_out P d" and "fits P d' = fits P d" and "types_fit P d' = types_fit P d"
    and "queues_start P d' = queues_start P d"
proof -
  show q: "queues_start P d' = queues_start P d" by (simp add: queues_start_def assms)
  have "step_index P d' = step_index P d" "clients_counted P d' = clients_counted P d"
    using types_only [OF assms(1,2)] by (simp_all add: step_index_def fun_eq_iff)
  then show "laid_out P d' = laid_out P d" "fits P d' = fits P d" "types_fit P d' = types_fit P d"
    by (simp_all add: laid_out_def fits_def types_fit_def Let_def assms q)
qed

text \<open>The driver data after a device tree with non-zero sizes was read.\<close>

definition dt_read :: "platform \<Rightarrow> hwf \<Rightarrow> bool" where
  "dt_read P d \<longleftrightarrow> laid_out P d \<and> types_fit P d \<and> clients d = replicate (unat (clients_num d)) None \<and>
     0 < hw_fence_table_entries d \<and> ucast (hw_fence_table_entries d) < U32_MAX div sizeof_msm_hw_fence \<and>
     hw_fence_mem_fences_table_size d = ucast (sizeof_msm_hw_fence * ucast (hw_fence_table_entries d)) \<and>
     0 < hw_fence_ctrl_queue_size d \<and>
     unat (hw_fence_mem_ctrl_queues_size d) = headers_bytes P 2 + 2 * unat (hw_fence_ctrl_queue_size d)"

lemma parse_dt_ready:
  assumes P: "platform_ok P" "platform_sizes P" and vals: "snd entries \<noteq> 0" "snd queue_entries \<noteq> 0"
    and parse: "hw_fence_utils_parse_dt_props P a ac entries queue_entries props d = Some (d', 0)"
  shows "dt_read P d'" and "client_objs d' = client_objs d" and "next_obj d' = next_obj d"
    and "vm_ready d' = vm_ready d" and "ctl_start_ptr d' = ctl_start_ptr d" and "dma_fences d' = dma_fences d"
proof -
  obtain r v r' w where e: "entries = (r, v)" "queue_entries = (r', w)" by (cases entries, cases queue_entries) blast
  have vw: "v \<noteq> 0" "w \<noteq> 0" using vals e by simp_all
  let ?cqs = "ucast (HW_FENCE_CTRL_QUEUE_PAYLOAD * ucast w) :: u32"
  let ?d5 = "d\<lparr>hw_fence_table_entries := v, hw_fence_mem_fences_table_size := ucast (sizeof_msm_hw_fence * ucast v),
      hw_fence_queue_entries := w, hw_fence_ctrl_queue_size := ?cqs,
      hw_fence_mem_ctrl_queues_size := ucast (HW_FENCE_HFI_CTRL_HEADERS_SIZE P + ucast (of_nat HW_FENCE_CTRL_QUEUES * ?cqs))\<rparr>"
  have chk: "\<not> U32_MAX div sizeof_msm_hw_fence \<le> ucast v" "\<not> U32_MAX div HW_FENCE_CTRL_QUEUE_PAYLOAD \<le> ucast w"
    "\<not> (U32_MAX - HW_FENCE_HFI_CTRL_HEADERS_SIZE P) div of_nat HW_FENCE_CTRL_QUEUES \<le> ucast ?cqs"
    and "\<exists>d6. parse_client_queue_dt_props P a props ?d5 = Some (d6, 0) \<and> d' = d6\<lparr>clients := replicate (unat (clients_num d6)) None\<rparr>"
    using parse vw
    by (auto simp: hw_fence_utils_parse_dt_props_def e Let_def Option.bind_eq_Some_conv split: if_splits)
  then obtain d6 where d6: "parse_client_queue_dt_props P a props ?d5 = Some (d6, 0)"
    "d' = d6\<lparr>clients := replicate (unat (clients_num d6)) None\<rparr>" by blast
  have lay: "laid_out P d6"
    by (rule parse_client_queues [OF P(1), of a props ?d5]) (use d6(1) in auto)
  have fit: "types_fit P d6" using parse_clients_fit [OF P(2) d6(1)] .
  obtain rxq types n sizes used where f6: "d6 = ?d5\<lparr>hw_fence_client_queue_size := sizes, hw_fence_client_types := types,
    rxq_clients_num := rxq, clients_num := n, used_mem_size := used\<rparr>"
    using parse_clients_frame [OF d6(1)] by blast
  have "laid_out P d'" using lay layout_fields(1) [of d' d6 P] by (simp add: d6(2))
  moreover have "types_fit P d'" using fit by (simp add: types_fit_def d6(2))
  moreover have "0 < ?cqs"
  proof -
    have w: "unat w < 2 ^ 28" "0 < unat w"
      using chk(2) vw(2) by (simp_all add: word_le_nat_alt unat_div U32_MAX_def HW_FENCE_CTRL_QUEUE_PAYLOAD_def unat_gt_0)
    have "unat (HW_FENCE_CTRL_QUEUE_PAYLOAD * ucast w :: u64) = 24 * unat w"
      unfolding HW_FENCE_CTRL_QUEUE_PAYLOAD_def using w by (subst unat_mult_lem [THEN iffD1]) simp_all
    moreover have "24 * unat w < 2 ^ 32"
      using chk(2) by (simp add: word_le_nat_alt unat_div U32_MAX_def HW_FENCE_CTRL_QUEUE_PAYLOAD_def)
    ultimately have "unat ?cqs = 24 * unat w" by (subst unat_ucast_down) simp_all
    then show ?thesis using w(2) by (simp add: word_less_nat_alt)
  qed
  moreover have "0 < v" using vw(1) by (simp add: word_neq_0_conv)
  ultimately show "dt_read P d'"
    using chk(1) ctrl_size(2) [OF P(2) chk(3)] by (simp add: dt_read_def d6(2) f6 not_le)
  show "client_objs d' = client_objs d" "next_obj d' = next_obj d" "vm_ready d' = vm_ready d"
    "ctl_start_ptr d' = ctl_start_ptr d" "dma_fences d' = dma_fences d"
    by (simp_all add: d6(2) f6)
qed


subsection \<open>Carve-out, locks, table and registers\<close>

lemma alloc_mem_done:
  assumes "hw_fence_utils_alloc_mem label buffer resource mapped notifier d = (d', 0)"
  obtains start sz where "d' = d\<lparr>res_start := start, io_mem_base := mapped, res_size := sz,
      hfi_tables := (\<lambda>_. zero_hfi_table), hfi_hdrs := (\<lambda>_. zero_hfi_hdr), q_words := (\<lambda>_. [])\<rparr>"
    "mapped \<noteq> 0" "ucast (used_mem_size d) \<le> sz"
  using assms
  by (auto simp: hw_fence_utils_alloc_mem_def Let_def EPROBE_DEFER_def ENXIO_def split: option.splits if_splits prod.splits)

lemma init_queue_frame:
  assumes "init_queue P phys ptr hs qsz psz i (d, qs) = Some (d', qs')"
  shows "outside {header_at P ptr i} {ptr + ucast (hs + of_nat i * qsz)} d d'"
  using assms
  by (auto simp: init_queue_def claim_words_def Let_def header_at_def outside_def split: if_splits)

text \<open>The headers and the words of the control queues, for a carve-out at \<open>io\<close>.\<close>

definition ctrl_headers :: "platform \<Rightarrow> u64 \<Rightarrow> u64 set" where
  "ctrl_headers P io = {header_at P io 0, header_at P io 1}"

definition ctrl_words :: "platform \<Rightarrow> hwf \<Rightarrow> u64 set" where
  "ctrl_words P d = {io_mem_base d + ucast (ucast (HW_FENCE_HFI_CTRL_HEADERS_SIZE P) :: u32),
     io_mem_base d + ucast ((ucast (HW_FENCE_HFI_CTRL_HEADERS_SIZE P) :: u32) + hw_fence_ctrl_queue_size d)}"

lemma init_ctrl_queue_frame:
  assumes "init_ctrl_queue P d = Some (d', 0)"
  obtains h w t where "d' = d\<lparr>hfi_tables := t, hfi_hdrs := h, q_words := w,
      ctrl_queue_mem_desc := ctrl_queue_mem_desc d', ctrl_queues := ctrl_queues d'\<rparr>"
    "\<forall>a. a \<notin> ctrl_headers P (io_mem_base d) \<longrightarrow> h a = hfi_hdrs d a" "\<forall>a. a \<notin> ctrl_words P d \<longrightarrow> w a = q_words d a"
proof -
  let ?hs = "ucast (HW_FENCE_HFI_CTRL_HEADERS_SIZE P) :: u32" and ?io = "io_mem_base d"
    and ?f = "\<lambda>phys. init_queue P phys (io_mem_base d) (ucast (HW_FENCE_HFI_CTRL_HEADERS_SIZE P)) (hw_fence_ctrl_queue_size d)
        (ucast HW_FENCE_CTRL_QUEUE_PAYLOAD)"
  obtain phys sz t d2 qs2 where c: "chain (?f phys) [0..<2] (d\<lparr>hfi_tables := t\<rparr>, ctrl_queues d) = Some (d2, qs2)"
    and d': "d' = d2\<lparr>ctrl_queue_mem_desc := \<lparr>md_virtual_addr = ?io, md_device_addr = phys, md_size = sz\<rparr>,
      ctrl_queues := qs2\<rparr>"
    using assms by (auto simp: init_ctrl_queue_def init_hw_fences_queues_def hw_fence_utils_reserve_mem_def region_def
        Option.bind_eq_Some_conv Let_def split: if_splits)
  let ?d = "d\<lparr>hfi_tables := t\<rparr>"
  have two: "[0..<2] = [0, 1 :: nat]" by (simp add: upt_rec)
  obtain d1 qs1 where s1: "?f phys 0 (?d, ctrl_queues d) = Some (d1, qs1)" "?f phys 1 (d1, qs1) = Some (d2, qs2)"
    using c by (auto simp: two Option.bind_eq_Some_conv)
  have "outside ({header_at P ?io 0} \<union> {header_at P ?io 1})
      ({?io + ucast (?hs + of_nat 0 * hw_fence_ctrl_queue_size d)} \<union> {?io + ucast (?hs + of_nat 1 * hw_fence_ctrl_queue_size d)}) ?d d2"
    by (rule outside_trans [OF init_queue_frame [OF s1(1)] init_queue_frame [OF s1(2)]])
  then have o: "outside (ctrl_headers P ?io) (ctrl_words P d) ?d d2"
    by (simp add: ctrl_headers_def ctrl_words_def insert_commute)
  then obtain h w where d2: "d2 = ?d\<lparr>hfi_hdrs := h, q_words := w\<rparr>" by (auto simp: outside_def)
  show thesis
  proof (rule that)
    show "d' = d\<lparr>hfi_tables := t, hfi_hdrs := h, q_words := w, ctrl_queue_mem_desc := ctrl_queue_mem_desc d',
        ctrl_queues := ctrl_queues d'\<rparr>" by (simp add: d' d2)
  qed (use o in \<open>simp_all add: outside_def d2\<close>)
qed

lemma init_locks_done:
  assumes "init_global_locks d = Some (d', 0)" and "fits P d"
  shows "d' = d\<lparr>client_lock_tbl := replicate (unat (rxq_clients_num d)) 0, client_lock_tbl_cnt := rxq_clients_num d\<rparr>"
proof -
  have "unat (ucast (HW_FENCE_MEM_LOCKS_SIZE (rxq_clients_num d)) :: u32) = 8 * unat (rxq_clients_num d)"
    using assms(2) by (subst unat_ucast_down) (simp_all add: locks_size fits_def)
  then have "(ucast (HW_FENCE_MEM_LOCKS_SIZE (rxq_clients_num d)) :: u32) div 8 = rxq_clients_num d"
    by (simp add: word_unat_eq_iff unat_div)
  then show ?thesis
    using assms(1) by (auto simp: init_global_locks_def hw_fence_utils_reserve_mem_def region_def Let_def split: if_splits)
qed

lemma init_table_frame:
  assumes "init_hw_fences_table d = Some (d', 0)"
  obtains va tbl cnt where "d' = d\<lparr>hw_fences_tbl_va := va, hw_fences_tbl := tbl, hw_fences_tbl_cnt := cnt\<rparr>"
  using assms by (auto simp: init_hw_fences_table_def Option.bind_eq_Some_conv Let_def split: if_splits)

text \<open>Mapping registers changes the fields of the IPC controller, the register log and the pointers only.\<close>

definition ipcc_frame :: "hwf \<Rightarrow> hwf \<Rightarrow> bool" where
  "ipcc_frame d d' \<longleftrightarrow> d' = d\<lparr>ipcc_io_mem := ipcc_io_mem d', ipcc_client_vid := ipcc_client_vid d',
     ipcc_client_pid := ipcc_client_pid d', protocol_id := protocol_id d', ipc_clients_table := ipc_clients_table d',
     io_writes := io_writes d'\<rparr>"

lemma hwrev_frame:
  assumes "hw_fence_ipcc_hwrev_init P alloc d hwrev = Some (d', r)"
  shows "ipcc_frame d d'"
proof -
  have conf: "\<exists>tbl. d' = d\<lparr>ipc_clients_table := tbl\<rparr>"
    if "hw_fence_ipcc_init_map_with_configurable_clients P alloc d base = Some (d', r)" for d d' r base
    using that by (auto simp: hw_fence_ipcc_init_map_with_configurable_clients_def Option.bind_eq_Some_conv Let_def
        split: if_splits)
  show ?thesis
    using assms by (auto simp: hw_fence_ipcc_hwrev_init_def ipcc_frame_def dest!: conf split: if_splits)
qed

lemma map_ipcc_frame:
  assumes "hw_fence_utils_map_ipcc P ret mapped alloc dt reg d = Some (d', r)"
  shows "ipcc_frame d d'"
proof -
  have mapped: "ipcc_frame d d'" if "ipcc_frame (d\<lparr>ipcc_io_mem := mapped\<rparr>) d'" for d'
    using that by (simp add: ipcc_frame_def)
  have w: "ipcc_frame d (writel v a (writel v' a' d'))" if "ipcc_frame d d'" for v a v' a' and d d' :: hwf
    using that by (simp add: ipcc_frame_def writel_def) (erule ssubst, simp)
  have "ipcc_frame d d'" if "hw_fence_ipcc_enable_signaling P alloc d dt reg = Some (d', r)" for d d' r
    using that hwrev_frame
    by (auto simp: hw_fence_ipcc_enable_signaling_def Option.bind_eq_Some_conv Let_def intro!: w split: if_splits)
  moreover have "ipcc_frame d d" by (simp add: ipcc_frame_def)
  ultimately show ?thesis
    using mapped assms by (auto simp: hw_fence_utils_map_ipcc_def Option.bind_eq_Some_conv split: if_splits)
qed

lemma map_ctl_start_frame:
  "\<exists>ptrs. fst (hw_fence_utils_map_ctl_start ctl d) = d\<lparr>ctl_start_ptr := ptrs\<rparr> \<and> length ptrs = length (ctl_start_ptr d)"
proof -
  have "\<exists>ptrs. foldl (\<lambda>d i. fst (map_ctl_start ctl i d)) d is = d\<lparr>ctl_start_ptr := ptrs\<rparr> \<and> length ptrs = length (ctl_start_ptr d)"
    for "is"
  proof (induction "is" arbitrary: d)
    case Nil
    then show ?case by (simp add: exI [of _ "ctl_start_ptr d"])
  next
    case (Cons i "is")
    obtain p where p: "fst (map_ctl_start ctl i d) = d\<lparr>ctl_start_ptr := p\<rparr>" "length p = length (ctl_start_ptr d)"
      by (cases "ctl i"; cases "fst (ctl i) = 0 \<and> snd (ctl i) \<noteq> 0")
        (auto simp: map_ctl_start_def intro: that [of "ctl_start_ptr d"])
    show ?case using Cons.IH [of "d\<lparr>ctl_start_ptr := p\<rparr>"] p by simp
  qed
  then show ?thesis by (simp add: hw_fence_utils_map_ctl_start_def del: upt_Suc)
qed

subsection \<open>The memory after probing\<close>

text \<open>The control queues lie below the queues of the clients.\<close>

lemma ctrl_places:
  assumes M: "memory_ok P d" and D: "dt_read P d" and x: "x \<in> queue_ids d"
  shows "hdr_addr P d x \<notin> ctrl_headers P (io_mem_base d)" and "words_addr P d x \<notin> ctrl_words P d"
proof -
  let ?io = "unat (io_mem_base d)" and ?H = "headers_bytes P 2" and ?q = "unat (hw_fence_ctrl_queue_size d)"
  have P: "platform_sizes P" and ok: "laid_out P d" "fits P d" and top: "?io + unat (used_mem_size d) < 2 ^ 64"
    using M by (simp_all add: memory_ok_def)
  have ctrl: "unat (hw_fence_mem_ctrl_queues_size d) = ?H + 2 * ?q" "0 < ?q"
    using D by (simp_all add: dt_read_def unat_gt_0 word_neq_0_conv)
  have below: "?H + 2 * ?q \<le> unat (queues_start P d)" using queues_start_above [OF ok(2)] ctrl(1) by simp
  have "unat (queues_start P d) \<le> unat (used_mem_size d)"
    using used_mem [OF ok] step_start_0 [of P d] by (simp add: step_start_def)
  with below top have fit: "?io + ?H + 2 * ?q < 2 ^ LENGTH(64)" by simp
  have "unat (hw_fence_mem_ctrl_queues_size d) < 2 ^ LENGTH(32)" by (rule unsigned_less)
  then have s32: "?H + 2 * ?q < 2 ^ LENGTH(32)" using ctrl(1) by simp
  obtain n i where xni: "x = (n, i)" by (cases x)
  have n: "n < unat (clients_num d)" using x xni by (simp add: queue_ids_def)
  have above: "?io + unat (queues_start P d) \<le> unat (hdr_addr P d x)" "?io + unat (queues_start P d) \<le> unat (words_addr P d x)"
    using queue_places(3,4) [OF M x [unfolded xni]] region_bytes_bound [OF M n] unfolding xni by auto
  have h: "unat (header_at P (io_mem_base d) i) < ?io + ?H" if "i < 2" for i
  proof -
    have qh: "0 < unat (sizeof_hfi_queue_header P)" using P by (simp add: platform_sizes_def unat_gt_0)
    have i: "unat (of_nat i :: u64) = i" using that by (simp add: unat_of_nat)
    have le: "i * unat (sizeof_hfi_queue_header P) < 2 * unat (sizeof_hfi_queue_header P)" using that qh by simp
    have H: "?H = unat (sizeof_hfi_table_header P) + 2 * unat (sizeof_hfi_queue_header P)"
      by (simp add: headers_bytes_def)
    have lim: "?io + unat (sizeof_hfi_table_header P) + i * unat (sizeof_hfi_queue_header P) < 2 ^ LENGTH(64)"
      using le fit H by linarith
    have m: "unat (of_nat i * sizeof_hfi_queue_header P) = i * unat (sizeof_hfi_queue_header P)"
      using lim i by (subst unat_mult_lem [THEN iffD1]) simp_all
    have "unat (header_at P (io_mem_base d) i) = ?io + unat (sizeof_hfi_table_header P) + i * unat (sizeof_hfi_queue_header P)"
      unfolding header_at_def using lim m
      by (subst unat_add_lem [THEN iffD1]; (subst unat_add_lem [THEN iffD1])?) simp_all
    then show ?thesis using le H by linarith
  qed
  have hs: "unat (ucast (HW_FENCE_HFI_CTRL_HEADERS_SIZE P) :: u32) = ?H"
    using headers_size(2) [OF P, of 2] by (simp add: HW_FENCE_HFI_CTRL_HEADERS_SIZE_def HW_FENCE_HFI_CLIENT_HEADERS_SIZE_def)
  have sum: "unat ((ucast (HW_FENCE_HFI_CTRL_HEADERS_SIZE P) :: u32) + hw_fence_ctrl_queue_size d) = ?H + ?q"
    using s32 hs by (subst unat_add_lem [THEN iffD1]) simp_all
  have w: "unat a < ?io + ?H + 2 * ?q" if "a \<in> ctrl_words P d" for a
  proof -
    have add: "unat (io_mem_base d + ucast (off :: u32)) = ?io + unat off" if "unat off \<le> ?H + ?q" for off
      using that fit by (subst unat_add_lem [THEN iffD1]) simp_all
    show ?thesis
      using that ctrl(2) add [of "ucast (HW_FENCE_HFI_CTRL_HEADERS_SIZE P)"]
        add [of "ucast (HW_FENCE_HFI_CTRL_HEADERS_SIZE P) + hw_fence_ctrl_queue_size d"] hs sum
      by (auto simp: ctrl_words_def)
  qed
  show "hdr_addr P d x \<notin> ctrl_headers P (io_mem_base d)"
    using above(1) below h [of 0] h [of 1] unfolding ctrl_headers_def by (auto simp del: One_nat_def)
  show "words_addr P d x \<notin> ctrl_words P d"
    using above(2) below w by fastforce
qed

text \<open>The fence table after a successful setup of the table of the size that the device tree gives.\<close>

lemma table_set_up:
  assumes D: "dt_read P d" and fit: "fits P d" and io: "io_mem_base d \<noteq> 0"
    and top: "unat (io_mem_base d) + unat (queues_start P d) < 2 ^ 64" and init: "init_hw_fences_table d = Some (d', 0)"
  shows "table_inv d' \<and> fence_map d' = Map.empty \<and> free_slots d' = unat (hw_fence_table_entries d) \<and>
    hw_fences_tbl_cnt d' = hw_fence_table_entries d"
proof -
  let ?c = "hw_fence_mem_ctrl_queues_size d" and ?l = "HW_FENCE_MEM_LOCKS_SIZE (rxq_clients_num d)"
  have small: "unat ?c + 8 * unat (rxq_clients_num d) < 2 ^ 32" using fit by (simp add: fits_def)
  then have "unat (ucast ?c + ?l) = unat ?c + 8 * unat (rxq_clients_num d)"
    by (subst unat_add_lem [THEN iffD1]) (simp_all add: locks_size)
  then have "unat (ucast (ucast ?c + ?l) :: u32) = unat ?c + 8 * unat (rxq_clients_num d)"
    using small by (subst unat_ucast_down) simp_all
  moreover have "unat ?c + 8 * unat (rxq_clients_num d) \<le> unat (queues_start P d)"
    using queues_start_above [OF fit] by simp
  ultimately have "unat (io_mem_base d + ucast (ucast (ucast ?c + ?l) :: u32)) =
      unat (io_mem_base d) + (unat ?c + 8 * unat (rxq_clients_num d))"
    using top by (subst unat_add_lem [THEN iffD1]) simp_all
  moreover have "hw_fences_tbl_va d' = io_mem_base d + ucast (ucast (ucast ?c + ?l) :: u32)"
    using init by (auto simp: init_hw_fences_table_def hw_fence_utils_reserve_mem_def region_def Let_def split: if_splits)
  ultimately have "hw_fences_tbl_va d' \<noteq> 0"
    using io by (auto simp: unat_eq_zero [symmetric])
  with fence_table_ready [OF init] D show ?thesis by (simp add: dt_read_def)
qed

lemma table_inv_fields:
  assumes "hw_fences_tbl d' = hw_fences_tbl d" and "hw_fences_tbl_va d' = hw_fences_tbl_va d"
    and "hw_fence_table_entries d' = hw_fence_table_entries d"
  shows "table_inv d' = table_inv d" and "fence_map d' = fence_map d" and "free_slots d' = free_slots d"
  by (simp_all add: table_inv_def table_ok_def keys_unique_def free_clean_def fence_map_def free_slots_def assms)

text \<open>What a successful initialisation has done, step by step.\<close>

lemma hw_fence_init_steps:
  assumes "hw_fence_init P e d0 = Some (d', 0)"
  obtains d1 d2 d3 d4 d5 d6 where
    "hw_fence_utils_parse_dt_props P (pe_alloc e) (pe_alloc_clients e) (pe_table_entries e) (pe_queue_entries e)
       (pe_props e) d0 = Some (d1, 0)"
    "hw_fence_utils_alloc_mem (pe_label e) (pe_buffer e) (pe_resource e) (pe_mapped e) (pe_notifier e) d1 = (d2, 0)"
    "init_ctrl_queue P d2 = Some (d3, 0)" "init_global_locks d3 = Some (d4, 0)"
    "init_hw_fences_table d4 = Some (d5, 0)" "ipcc_frame d5 d6"
    "d' = fst (hw_fence_utils_map_ctl_start (pe_ctl e) d6)"
  using assms unfolding hw_fence_init_def and_then_ok Let_def
  by (elim exE conjE) (auto dest: map_ipcc_frame)

lemma probe_establishes:
  assumes P: "platform_ok P" "platform_sizes P" and vals: "snd (pe_table_entries e) \<noteq> 0" "snd (pe_queue_entries e) \<noteq> 0"
    and probe: "msm_hw_fence_probe_init P alloc e (zero_hwf\<lparr>dma_fences := fs, qtime := t\<rparr>) = Some (Some d, 0)"
    and fit: "fits P d" and top: "unat (io_mem_base d) + unat (used_mem_size d) < 2 ^ 64"
  shows "memory_inv P d \<and> (\<forall>x\<in>queue_ids d. \<forall>wm. ring_items (slots d (fst x)) (place_ring P wm d x) = []) \<and>
    (\<forall>n. client_of d n = None) \<and> table_inv d \<and> fence_map d = Map.empty \<and>
    free_slots d = unat (hw_fence_table_entries d) \<and> resources_ready d \<and> \<not> vm_ready d \<and>
    hw_fences_tbl_cnt d = hw_fence_table_entries d"
proof -
  let ?z = "zero_hwf\<lparr>dma_fences := fs, qtime := t\<rparr>"
  obtain d' where init: "hw_fence_init P e ?z = Some (d', 0)" and d: "d = d'\<lparr>resources_ready := True\<rparr>"
    using probe by (auto simp: msm_hw_fence_probe_init_def Option.bind_eq_Some_conv split: if_splits)
  obtain d1 d2 d3 d4 d5 d6 where
    s1: "hw_fence_utils_parse_dt_props P (pe_alloc e) (pe_alloc_clients e) (pe_table_entries e) (pe_queue_entries e)
       (pe_props e) ?z = Some (d1, 0)" and
    s2: "hw_fence_utils_alloc_mem (pe_label e) (pe_buffer e) (pe_resource e) (pe_mapped e) (pe_notifier e) d1 = (d2, 0)" and
    s3: "init_ctrl_queue P d2 = Some (d3, 0)" and s4: "init_global_locks d3 = Some (d4, 0)" and
    s5: "init_hw_fences_table d4 = Some (d5, 0)" and s6: "ipcc_frame d5 d6" and
    s7: "d' = fst (hw_fence_utils_map_ctl_start (pe_ctl e) d6)"
    using hw_fence_init_steps [OF init] by blast
  note dt = parse_dt_ready [OF P vals s1]
  obtain start sz where d2: "d2 = d1\<lparr>res_start := start, io_mem_base := pe_mapped e, res_size := sz,
      hfi_tables := (\<lambda>_. zero_hfi_table), hfi_hdrs := (\<lambda>_. zero_hfi_hdr), q_words := (\<lambda>_. [])\<rparr>"
    and io: "pe_mapped e \<noteq> 0" and room: "ucast (used_mem_size d1) \<le> sz"
    using alloc_mem_done [OF s2] by blast
  obtain h w t' m qs where d3: "d3 = d2\<lparr>hfi_tables := t', hfi_hdrs := h, q_words := w, ctrl_queue_mem_desc := m, ctrl_queues := qs\<rparr>"
    and h: "\<forall>a. a \<notin> ctrl_headers P (io_mem_base d2) \<longrightarrow> h a = hfi_hdrs d2 a"
    and w: "\<forall>a. a \<notin> ctrl_words P d2 \<longrightarrow> w a = q_words d2 a"
    using init_ctrl_queue_frame [OF s3] by metis
  obtain va tbl cnt where d5: "d5 = d4\<lparr>hw_fences_tbl_va := va, hw_fences_tbl := tbl, hw_fences_tbl_cnt := cnt\<rparr>"
    using init_table_frame [OF s5] by blast
  obtain ptrs where d7: "d' = d6\<lparr>ctl_start_ptr := ptrs\<rparr>" using map_ctl_start_frame s7 by blast
  obtain b1 b2 b3 b4 b5 b6 where d6: "d6 = d5\<lparr>ipcc_io_mem := b1, ipcc_client_vid := b2, ipcc_client_pid := b3,
      protocol_id := b4, ipc_clients_table := b5, io_writes := b6\<rparr>"
    using s6 unfolding ipcc_frame_def by blast
  have fit3: "fits P d3"
  proof -
    have "\<exists>l c. d4 = d3\<lparr>client_lock_tbl := l, client_lock_tbl_cnt := c\<rparr>"
      using s4 by (auto simp: init_global_locks_def Option.bind_eq_Some_conv Let_def split: if_splits)
    then obtain l c where "d4 = d3\<lparr>client_lock_tbl := l, client_lock_tbl_cnt := c\<rparr>" by blast
    with fit show ?thesis using layout_fields(2) [of d d3 P] by (simp add: d d7 d6 d5)
  qed
  have d4: "d4 = d3\<lparr>client_lock_tbl := replicate (unat (rxq_clients_num d3)) 0, client_lock_tbl_cnt := rxq_clients_num d3\<rparr>"
    using init_locks_done [OF s4 fit3] .
  note steps = d d7 d6 d5 d4 d3 d2
  have lay: "laid_out P d = laid_out P d1" "types_fit P d = types_fit P d1" "queues_start P d = queues_start P d1"
    using layout_fields(1,3,4) [of d d1 P] by (simp_all add: steps)
  have D: "dt_read P d" "dt_read P d4"
    using dt(1) lay layout_fields(1,3) [of d4 d1 P] by (simp_all add: dt_read_def steps)
  have M: "memory_ok P d"
    using P(2) D(1) fit io room top by (simp add: memory_ok_def dt_read_def steps)
  have fresh: "hfi_hdrs d (hdr_addr P d x) = zero_hfi_hdr" "q_words d (words_addr P d x) = []" if "x \<in> queue_ids d" for x
  proof -
    have "ctrl_words P d = ctrl_words P d2" "io_mem_base d = io_mem_base d2" by (simp_all add: ctrl_words_def steps)
    with ctrl_places [OF M D(1) that] h w show "hfi_hdrs d (hdr_addr P d x) = zero_hfi_hdr" "q_words d (words_addr P d x) = []"
      by (simp_all add: steps)
  qed
  have ring: "place_ring P wm d x = (0, 0, replicate (16 * slots d (fst x)) 0)" if "x \<in> queue_ids d" for wm x
    using fresh [OF that] by (simp add: found_ring_def zero_hfi_hdr_def)
  have room': "0 < slots d (fst x) \<and> slots d (fst x) < 2 ^ 26" if "x \<in> queue_ids d" for x
    using memory_fit(1) [OF M, of "fst x" "snd x"] that by (simp add: sizes_fit_def)
  have no: "clients d = replicate (unat (clients_num d)) None" using D(1) by (simp add: dt_read_def)
  have "rings_ok P d" unfolding rings_ok_def using ring empty_ring(1) room' by simp
  moreover have "locks_free d" by (simp add: locks_free_def steps)
  moreover have "clients_ok P d"
    using no dt(2,3) by (simp add: clients_ok_def steps zero_hwf_def)
  ultimately have inv: "memory_inv P d" using M by (simp add: memory_inv_def)
  have "table_inv d5 \<and> fence_map d5 = Map.empty \<and> free_slots d5 = unat (hw_fence_table_entries d4) \<and>
      hw_fences_tbl_cnt d5 = hw_fence_table_entries d4"
  proof (rule table_set_up [OF D(2) _ _ _ s5])
    show "fits P d4" using fit3 layout_fields(2) [of d4 d3 P] by (simp add: d4)
    show "io_mem_base d4 \<noteq> 0" using io by (simp add: d4 d3 d2)
    have "unat (queues_start P d) \<le> unat (used_mem_size d)"
      using used_mem [of P d] M step_start_0 [of P d] by (simp add: step_start_def memory_ok_def)
    moreover have "io_mem_base d4 = io_mem_base d" by (simp add: steps)
    moreover have "queues_start P d4 = queues_start P d" using layout_fields(4) [of d4 d P] by (simp add: steps)
    ultimately show "unat (io_mem_base d4) + unat (queues_start P d4) < 2 ^ 64" using top by simp
  qed
  moreover have "hw_fence_table_entries d4 = hw_fence_table_entries d" by (simp add: steps)
  ultimately have tbl: "table_inv d" "fence_map d = Map.empty" "free_slots d = unat (hw_fence_table_entries d)"
    "hw_fences_tbl_cnt d = hw_fence_table_entries d"
    using table_inv_fields [of d d5] by (simp_all add: d d7 d6)
  have "client_of d n = None" for n by (simp add: client_of_def no)
  moreover have "\<not> vm_ready d" using dt(4) by (simp add: steps zero_hwf_def)
  moreover have "resources_ready d" by (simp add: d)
  moreover have "ring_items (slots d (fst x)) (place_ring P wm d x) = []" if "x \<in> queue_ids d" for x wm
    using ring [OF that] empty_ring(2) room' [OF that] by simp
  ultimately show ?thesis using inv tbl by blast
qed

text \<open>C19. Probing brings the driver up in order. If the platform's sizes are sane, the device tree gives
  sizes other than 0, and the regions fit the 32-bit offsets and the address space, then whenever
  \<open>msm_hw_fence_probe_init\<close> returns 0: every header and every queue of every internal client lies at a place
  of its own in the carve-out and holds an empty ring that is well-formed, all locks of the clients are
  free, no client is registered, the fence table is empty, well-formed and of the configured size, and the
  driver is marked ready for registrations but waits for the other virtual machine.\<close>

theorem probe_ready:
  assumes P: "platform_ok P" "platform_sizes P" and vals: "snd (pe_table_entries e) \<noteq> 0" "snd (pe_queue_entries e) \<noteq> 0"
    and probe: "msm_hw_fence_probe_init P alloc e (zero_hwf\<lparr>dma_fences := fs, qtime := t\<rparr>) = Some (Some d, 0)"
    and fit: "fits P d" and top: "unat (io_mem_base d) + unat (used_mem_size d) < 2 ^ 64"
  shows "memory_inv P d \<and> (\<forall>x\<in>queue_ids d. \<forall>wm. ring_items (slots d (fst x)) (place_ring P wm d x) = []) \<and>
    (\<forall>n. client_of d n = None) \<and> table_inv d \<and> fence_map d = Map.empty \<and>
    free_slots d = unat (hw_fence_table_entries d) \<and> resources_ready d \<and> \<not> vm_ready d"
  using probe_establishes [OF assms] by blast

text \<open>A device tree with default client types and small tables, on a target with a fixed set of clients.\<close>

definition probe_sample :: probe_env where
  "probe_sample = \<lparr>pe_alloc = True, pe_alloc_clients = True, pe_table_entries = (0, 4), pe_queue_entries = (0, 4),
     pe_props = (\<lambda>_. None), pe_label = Some 0, pe_buffer = True, pe_resource = Some (0x80000, 0x100000),
     pe_mapped = 0x10000, pe_notifier = 0, pe_ipcc_reg = 0, pe_ipcc_mapped = 0x20000, pe_ipcc_alloc = True,
     pe_hwrev_dt = Some 0x00010700, pe_hwrev = 0, pe_qtime_reg = 0, pe_qtime_mapped = 0x30000, pe_ctl = (\<lambda>_. (- EINVAL, 0)),
     pe_debugfs = 0, pe_db_node = True, pe_db_label = 0, pe_rx_dbl = Inr 1\<rparr>"

abbreviation probe_zeroed :: hwf where
  "probe_zeroed \<equiv> zero_hwf\<lparr>dma_fences := (\<lambda>_. None), qtime := 0\<rparr>"

lemma probe_sample_run:
  "map_option (\<lambda>(d, ret). (ret, map_option (\<lambda>d. (io_mem_base d, used_mem_size d, queues_start sample_platform d,
       hw_fence_mem_ctrl_queues_size d, rxq_clients_num d, hw_fence_mem_fences_table_size d, clients_num d,
       hw_fence_table_entries d, map (step_size (hw_fence_client_types d)) (steps (hw_fence_client_types d)))) d))
     (msm_hw_fence_probe_init sample_platform True probe_sample probe_zeroed) =
   Some (0, Some (0x10000, 0xF000, 4096, 328, 14, 640, 17, 4, replicate 14 4096))"
  by code_simp

lemma probe_sample_state:
  obtains d where "msm_hw_fence_probe_init sample_platform True probe_sample probe_zeroed = Some (Some d, 0)"
    "fits sample_platform d" "unat (io_mem_base d) + unat (used_mem_size d) < 2 ^ 64" "clients_num d = 17"
    "hw_fence_table_entries d = 4"
proof -
  obtain dd ret where e: "msm_hw_fence_probe_init sample_platform True probe_sample probe_zeroed = Some (dd, ret)"
    using probe_sample_run by fastforce
  then obtain d where d: "dd = Some d"
    using probe_sample_run unfolding e by auto
  note v = probe_sample_run [unfolded e d, simplified]
  have "map (\<lambda>x. unat (step_size (hw_fence_client_types d) x)) (steps (hw_fence_client_types d))
      = map unat (map (step_size (hw_fence_client_types d)) (steps (hw_fence_client_types d)))"
    by simp
  also have "\<dots> = map unat (replicate 14 (4096 :: u32))" using v by (auto simp: numeral_eq_Suc)
  finally have m: "map (\<lambda>x. unat (step_size (hw_fence_client_types d) x)) (steps (hw_fence_client_types d)) = replicate 14 4096"
    by simp
  have "fits sample_platform d"
    unfolding fits_def m using v by (simp add: sum_list_replicate)
  moreover have "io_mem_base d = 0x10000" "used_mem_size d = 0xF000" "clients_num d = 17" "hw_fence_table_entries d = 4" "ret = 0"
    using v by blast+
  ultimately show thesis using e d by (intro that) simp_all
qed

theorem probe_ready_witness:
  "\<exists>d. msm_hw_fence_probe_init sample_platform True probe_sample probe_zeroed = Some (Some d, 0) \<and>
    memory_inv sample_platform d \<and> table_inv d \<and> free_slots d = 4"
proof -
  obtain d where d: "msm_hw_fence_probe_init sample_platform True probe_sample probe_zeroed = Some (Some d, 0)"
    "fits sample_platform d" "unat (io_mem_base d) + unat (used_mem_size d) < 2 ^ 64" "hw_fence_table_entries d = 4"
    using probe_sample_state by blast
  have "snd (pe_table_entries probe_sample) \<noteq> 0" "snd (pe_queue_entries probe_sample) \<noteq> 0"
    by (simp_all add: probe_sample_def)
  from probe_ready [OF sample_platform_ok sample_platform_sizes this d(1-3)] d(1,4) show ?thesis by auto
qed

section \<open>Sharing the memory\<close>

text \<open>The driver reports the other virtual machine as ready only when the memory is shared with it: a
  notification of the resource manager changes nothing but that flag, and raises it exactly when it says
  that the peer is ready and the assignment, the allocations and the sharing succeed. Then the calls were the assignment
  of the whole carve-out to this machine and the peer, and its sharing with the same rights.\<close>

lemma vm_ready_shared:
  assumes "hw_fence_rm_cb assigned acl sgl shared peer self payload d = Some (d', calls)" and "\<not> vm_ready d"
  shows "d' = d\<lparr>vm_ready := vm_ready d'\<rparr> \<and>
    (vm_ready d' \<longleftrightarrow> (\<exists>s p b. self = Some s \<and> peer = Some p \<and> payload = Some (VM_STATUS_READY, p) \<and>
       assigned = 0 \<and> acl \<and> sgl \<and> shared = 0 \<and> vm_bit s = Some b \<and>
       calls = [Assign_mem (res_start d) (res_size d) b [(s, [PERM_READ, PERM_WRITE]), (p, [PERM_READ, PERM_WRITE])],
         Mem_share [(s, [PERM_READ, PERM_WRITE]), (p, [PERM_READ, PERM_WRITE])] (res_start d) (res_size d)]))"
  using assms
  by (auto simp: hw_fence_rm_cb_def hw_fence_gunyah_share_mem_def vm_bit_def Option.bind_eq_Some_conv EPROBE_DEFER_def Let_def
      split: option.splits prod.splits if_splits)

lemma vm_ready_shared_example:
  "\<exists>d' calls. hw_fence_rm_cb 0 True True 0 (Some 4) (Some 3) (Some (VM_STATUS_READY, 4)) zero_hwf = Some (d', calls) \<and>
    vm_ready d' \<and> length calls = 2"
proof -
  obtain d' calls where r: "hw_fence_rm_cb 0 True True 0 (Some 4) (Some 3) (Some (VM_STATUS_READY, 4)) zero_hwf = Some (d', calls)"
    by (simp add: hw_fence_rm_cb_def hw_fence_gunyah_share_mem_def vm_bit_def Let_def)
  moreover have "vm_ready d'"
    using r by (auto simp: hw_fence_rm_cb_def hw_fence_gunyah_share_mem_def vm_bit_def Let_def)
  ultimately show ?thesis using vm_ready_shared [OF r] by (auto simp: zero_hwf_def)
qed

end
