(* ===== verification/HwfClient.thy ===== *)
theory HwfClient
  imports HwfSetup
begin

text \<open>
  The interface of the driver for its clients, \<open>msm_hw_fence.c\<close>. \<open>drv\<close> is the global
  \<open>hw_fence_drv_data\<close>, \<open>None\<close> while it is NULL or an error pointer; functions that use it without a
  check take the driver data itself. A client handle is the address of a client object, \<open>None\<close> for NULL
  and error pointers; using a handle whose object is not allocated is not a run that completes.
  \<open>Inl e\<close> is \<open>ERR_PTR(e)\<close>.
\<close>

section \<open>The code\<close>

subsection \<open>Registration\<close>

definition new_client :: "u32 \<Rightarrow> u32 \<Rightarrow> msm_hw_fence_client" where
  "new_client cid cid_ext = zero_client\<lparr>cl_client_id := cid, cl_client_id_ext := cid_ext\<rparr>"

text \<open>The part of \<open>msm_hw_fence_register\<close> after the client is marked as registered: it fills the object
  \<open>c\<close> and the caller's memory descriptor, and its return value is 0 or the error.\<close>

definition register_setup ::
  "platform \<Rightarrow> hwf \<Rightarrow> msm_hw_fence_client \<Rightarrow> msm_hw_fence_mem_addr
    \<Rightarrow> (hwf \<times> msm_hw_fence_client \<times> msm_hw_fence_mem_addr \<times> int) option" where
  "register_setup P d c md = do {
     let cid = cl_client_id c;
     vid \<leftarrow> hw_fence_ipcc_get_client_virt_id d cid;
     pid \<leftarrow> hw_fence_ipcc_get_client_phys_id d cid;
     let c = c\<lparr>cl_ipc_client_vid := vid, cl_ipc_client_pid := pid\<rparr>;
     if vid \<le> 0 \<or> pid \<le> 0 then Some (d, c, md, - EINVAL)
     else do {
       sig \<leftarrow> hw_fence_ipcc_get_signal_id d cid;
       let c = c\<lparr>cl_ipc_signal_id := sig\<rparr>;
       if sig < 0 then Some (d, c, md, - EINVAL)
       else do {
         rxq \<leftarrow> hw_fence_ipcc_needs_rxq_update d cid;
         let c = c\<lparr>cl_update_rxq := rxq\<rparr>;
         few \<leftarrow> (if rxq then do {
             desc \<leftarrow> fetch (hw_fence_client_queue_size d) (unat cid);
             Some (qs_queues_num desc < of_nat HW_FENCE_CLIENT_QUEUES)
           } else Some False);
         if few then Some (d, c, md, - EINVAL)
         else do {
           irq \<leftarrow> hw_fence_ipcc_needs_ipc_irq P d cid;
           skip \<leftarrow> hw_fence_utils_skips_txq_wr_idx d cid;
           let c = c\<lparr>cl_send_ipc := irq, cl_skip_txq_wr_idx := skip\<rparr>;
           (d, c, md, ret) \<leftarrow> hw_fence_alloc_client_resources P d c md;
           if ret \<noteq> 0 then Some (d, c, md, ret)
           else do {
             (d, ret) \<leftarrow> hw_fence_init_controller_signal P d c;
             Some (d, c, md, if ret \<noteq> 0 then ret else hw_fence_init_controller_resources c)
           }
         }
       }
     }
   }"

text \<open>The driver data with the client \<open>c\<close> in the table at a new address.\<close>

definition mark_client :: "msm_hw_fence_client \<Rightarrow> hwf \<Rightarrow> hwf" where
  "mark_client c d = d\<lparr>clients := (clients d)[unat (cl_client_id c) := Some (next_obj d)],
     client_objs := (client_objs d)(next_obj d := Some c), next_obj := Suc (next_obj d)\<rparr>"

definition msm_hw_fence_register ::
  "platform \<Rightarrow> bool \<Rightarrow> u32 \<Rightarrow> msm_hw_fence_mem_addr option \<Rightarrow> hwf option
    \<Rightarrow> (hwf option \<times> msm_hw_fence_mem_addr option \<times> (int + nat)) option" where
  "msm_hw_fence_register P alloc cid_ext mem_descriptor drv = (case drv of
       None \<Rightarrow> Some (drv, mem_descriptor, Inl (- EAGAIN))
     | Some d \<Rightarrow>
         if \<not> resources_ready d then Some (drv, mem_descriptor, Inl (- EAGAIN))
         else (case mem_descriptor of
           None \<Rightarrow> Some (drv, mem_descriptor, Inl (- EINVAL))
         | Some md \<Rightarrow>
             if client_id P CLIENT_MAX \<le> cid_ext then Some (drv, mem_descriptor, Inl (- EINVAL))
             else do {
               cid \<leftarrow> hw_fence_utils_get_client_id_priv P d cid_ext;
               if client_id P CLIENT_MAX \<le> cid then Some (drv, mem_descriptor, Inl (- EINVAL))
               else if \<not> alloc then Some (drv, mem_descriptor, Inl (- ENOMEM))
               else do {
                 slot \<leftarrow> fetch (clients d) (unat cid);
                 if slot \<noteq> None then Some (drv, mem_descriptor, Inl (- EINVAL))
                 else do {
                   let h = next_obj d;
                   (d, c, md, ret) \<leftarrow> register_setup P (mark_client (new_client cid cid_ext) d) (new_client cid cid_ext) md;
                   let d = set_client h c d;
                   if ret \<noteq> 0 then do {
                     d \<leftarrow> hw_fence_cleanup_client d h;
                     Some (Some d, Some md, Inl ret)
                   } else Some (Some d, Some md, Inr h)
                 }
               }
             }))"

definition msm_hw_fence_deregister :: "nat option \<Rightarrow> hwf \<Rightarrow> (hwf \<times> int) option" where
  "msm_hw_fence_deregister client_handle d = (case client_handle of
       None \<Rightarrow> Some (d, - EINVAL)
     | Some h \<Rightarrow> do {
         c \<leftarrow> client_objs d h;
         if clients_num d \<le> cl_client_id c then Some (d, - EINVAL)
         else do { d \<leftarrow> hw_fence_cleanup_client d h; Some (d, 0) }
       })"

subsection \<open>Fences\<close>

definition clear_bit :: "nat \<Rightarrow> u64 \<Rightarrow> u64" where
  "clear_bit n w = w AND NOT (push_bit n 1)"

text \<open>\<open>fence\<close> and \<open>handle\<close> are the members of \<open>struct msm_hw_fence_create_params\<close>; the value at \<open>handle\<close>
  is returned.\<close>

definition msm_hw_fence_create ::
  "platform \<Rightarrow> nat option \<Rightarrow> nat option \<Rightarrow> u64 option \<Rightarrow> hwf \<Rightarrow> (hwf \<times> u64 option \<times> int) option" where
  "msm_hw_fence_create P client_handle fence handle d = (case (client_handle, fence, handle) of
       (Some h, Some fid, Some hash) \<Rightarrow>
         if \<not> vm_ready d then Some (d, handle, - EAGAIN)
         else do {
           f \<leftarrow> dma_fences d fid;
           if df_array f \<noteq> None then Some (d, handle, - EINVAL)
           else if bit (df_flags f) (flag_enabled_bit P) then Some (d, handle, - EINVAL)
           else do {
             c \<leftarrow> client_objs d h;
             (d, hash, ret) \<leftarrow> hw_fence_create d c (df_context f) (df_seqno f) hash;
             if ret \<noteq> 0 then Some (d, Some hash, ret)
             else do { d \<leftarrow> set_fence_bit fid (flag_enabled_bit P) d; Some (d, Some hash, 0) }
           }
         }
     | _ \<Rightarrow> Some (d, handle, - EINVAL))"

definition msm_hw_fence_destroy ::
  "platform \<Rightarrow> nat option \<Rightarrow> nat option \<Rightarrow> hwf \<Rightarrow> (hwf \<times> int) option" where
  "msm_hw_fence_destroy P client_handle fence d = (case (client_handle, fence) of
       (Some h, Some fid) \<Rightarrow> do {
         f \<leftarrow> dma_fences d fid;
         if df_array f \<noteq> None then Some (d, - EINVAL)
         else if \<not> bit (df_flags f) (flag_enabled_bit P) then Some (d, - EINVAL)
         else do {
           c \<leftarrow> client_objs d h;
           (d, ret) \<leftarrow> hw_fence_destroy d c (df_context f) (df_seqno f);
           if ret \<noteq> 0 then Some (d, ret)
           else do {
             f \<leftarrow> dma_fences d fid;
             Some (d\<lparr>dma_fences := (dma_fences d)(fid \<mapsto> f\<lparr>df_flags := clear_bit (flag_enabled_bit P) (df_flags f)\<rparr>)\<rparr>, 0)
           }
         }
       }
     | _ \<Rightarrow> Some (d, - EINVAL))"

definition msm_hw_fence_destroy_with_handle :: "nat option \<Rightarrow> u64 \<Rightarrow> hwf \<Rightarrow> (hwf \<times> int) option" where
  "msm_hw_fence_destroy_with_handle client_handle handle d = (case client_handle of
       None \<Rightarrow> Some (d, - EINVAL)
     | Some h \<Rightarrow> do {
         c \<leftarrow> client_objs d h;
         if clients_num d \<le> cl_client_id c then Some (d, - EINVAL)
         else hw_fence_destroy_with_hash d c handle
       })"

subsection \<open>Waiting\<close>

text \<open>The loop of \<open>msm_hw_fence_wait_update_v2\<close> over the list of fences, from fence \<open>i\<close> on. A NULL entry
  is dereferenced by the kernel's \<open>to_dma_fence_array\<close>. The variable \<open>hash\<close> is set by every call that
  returns 0.\<close>

fun wait_fences ::
  "platform \<Rightarrow> nat \<Rightarrow> nat option list \<Rightarrow> u64 list option \<Rightarrow> nat list \<Rightarrow> u64 list option \<Rightarrow> hwf
    \<Rightarrow> (hwf \<times> u64 list option \<times> int) option" where
  "wait_fences P h fence_list client_data_list [] handles d = Some (d, handles, 0)"
| "wait_fences P h fence_list client_data_list (i # is) handles d = do {
     fence \<leftarrow> fetch fence_list i;
     client_data \<leftarrow> (case client_data_list of None \<Rightarrow> Some 0 | Some cds \<Rightarrow> fetch cds i);
     fid \<leftarrow> fence;
     f \<leftarrow> dma_fences d fid;
     c \<leftarrow> client_objs d h;
     (d, hash, ret) \<leftarrow> (if df_array f \<noteq> None
       then hw_fence_process_fence_array P d c fid 0 client_data
       else hw_fence_process_fence P d c fid 0 client_data);
     if ret \<noteq> 0 then Some (d, handles, ret)
     else (case handles of
         None \<Rightarrow> wait_fences P h fence_list client_data_list is handles d
       | Some hs \<Rightarrow>
           if i < length hs then wait_fences P h fence_list client_data_list is (Some (hs[i := hash])) d
           else None)
   }"

definition msm_hw_fence_wait_update_v2 ::
  "platform \<Rightarrow> nat option \<Rightarrow> nat option list option \<Rightarrow> u64 list option \<Rightarrow> u64 list option \<Rightarrow> u32 \<Rightarrow> hwf
    \<Rightarrow> (hwf \<times> u64 list option \<times> int) option" where
  "msm_hw_fence_wait_update_v2 P client_handle fence_list handles client_data_list num_fences d =
     (case (client_handle, fence_list) of
       (Some h, Some fences) \<Rightarrow> do {
         fence \<leftarrow> fetch fences 0;
         if fence = None then Some (d, handles, - EINVAL)
         else if \<not> vm_ready d then Some (d, handles, - EAGAIN)
         else do {
           c \<leftarrow> client_objs d h;
           if client_data_list \<noteq> None \<and> HW_FENCE_MAX_CLIENTS_WITH_DATA \<le> hw_fence_get_client_data_id P (cl_client_id c)
           then Some (d, handles, - EINVAL)
           else if rxq_clients_num d < cl_client_id c then Some (d, handles, - EINVAL)
           else wait_fences P h fences client_data_list [0..<unat num_fences] handles d
         }
       }
     | _ \<Rightarrow> Some (d, handles, - EINVAL))"

definition msm_hw_fence_wait_update ::
  "platform \<Rightarrow> nat option \<Rightarrow> nat option list option \<Rightarrow> u32 \<Rightarrow> hwf \<Rightarrow> (hwf \<times> int) option" where
  "msm_hw_fence_wait_update P client_handle fence_list num_fences d =
     map_option (\<lambda>(d, _, ret). (d, ret)) (msm_hw_fence_wait_update_v2 P client_handle fence_list None None num_fences d)"

subsection \<open>Reset, signaling\<close>

definition reset_fence :: "platform \<Rightarrow> nat \<Rightarrow> u32 \<Rightarrow> nat \<Rightarrow> hwf \<Rightarrow> hwf option" where
  "reset_fence P h reset_flags i d = do {
     c \<leftarrow> client_objs d h;
     (d, _) \<leftarrow> hw_fence_utils_cleanup_fence P d c i (of_nat i) reset_flags;
     Some d
   }"

definition msm_hw_fence_reset_client :: "platform \<Rightarrow> nat option \<Rightarrow> u32 \<Rightarrow> hwf \<Rightarrow> (hwf \<times> int) option" where
  "msm_hw_fence_reset_client P client_handle reset_flags d = (case client_handle of
       None \<Rightarrow> Some (d, - EINVAL)
     | Some h \<Rightarrow>
         if \<not> vm_ready d then Some (d, - EAGAIN)
         else do {
           d \<leftarrow> chain (reset_fence P h reset_flags) [0..<unat (hw_fences_tbl_cnt d)] d;
           c \<leftarrow> client_objs d h;
           d \<leftarrow> hw_fence_utils_reset_queues d c;
           Some (d, 0)
         })"

definition msm_hw_fence_reset_client_by_id :: "platform \<Rightarrow> u32 \<Rightarrow> u32 \<Rightarrow> hwf \<Rightarrow> (hwf \<times> int) option" where
  "msm_hw_fence_reset_client_by_id P cid_ext reset_flags d =
     (if client_id P CLIENT_MAX \<le> cid_ext then Some (d, - EINVAL)
      else do {
        cid \<leftarrow> hw_fence_utils_get_client_id_priv P d cid_ext;
        if client_id P CLIENT_MAX \<le> cid then Some (d, - EINVAL)
        else do {
          h \<leftarrow> fetch (clients d) (unat cid);
          msm_hw_fence_reset_client P h reset_flags d
        }
      })"

text \<open>The result of writing the queue is not looked at.\<close>

definition msm_hw_fence_update_txq ::
  "nat option \<Rightarrow> u64 \<Rightarrow> u64 \<Rightarrow> u32 \<Rightarrow> hwf option \<Rightarrow> (hwf option \<times> int) option" where
  "msm_hw_fence_update_txq client_handle handle flags error drv = (case drv of
       None \<Rightarrow> Some (drv, - EAGAIN)
     | Some d \<Rightarrow>
         if \<not> resources_ready d \<or> \<not> vm_ready d then Some (drv, - EAGAIN)
         else (case client_handle of
           None \<Rightarrow> Some (drv, - EINVAL)
         | Some h \<Rightarrow>
             if ucast (hw_fences_tbl_cnt d) \<le> handle then Some (drv, - EINVAL)
             else do {
               f \<leftarrow> fetch (hw_fences_tbl d) (unat handle);
               c \<leftarrow> client_objs d h;
               (d, _) \<leftarrow> hw_fence_update_queue d c \<lparr>qm_ctxt_id = hf_ctx_id f, qm_seqno = hf_seq_id f,
                 qm_hash = handle, qm_flags = flags, qm_client_data = 0, qm_error = error\<rparr> TXQ;
               Some (Some d, 0)
             }))"

definition msm_hw_fence_trigger_signal ::
  "nat option \<Rightarrow> u32 \<Rightarrow> u32 \<Rightarrow> u32 \<Rightarrow> hwf option \<Rightarrow> hwf option \<times> int" where
  "msm_hw_fence_trigger_signal client_handle tx_client_pid rx_client_vid signal_id drv = (case drv of
       None \<Rightarrow> (drv, - EAGAIN)
     | Some d \<Rightarrow>
         if \<not> resources_ready d \<or> \<not> vm_ready d then (drv, - EAGAIN)
         else if client_handle = None then (drv, - EINVAL)
         else (Some (hw_fence_ipcc_trigger_signal d tx_client_pid rx_client_vid signal_id), 0))"

definition msm_hw_fence_driver_doorbell_sim ::
  "platform \<Rightarrow> msm_hw_fence_queue_payload \<Rightarrow> u64 \<Rightarrow> hwf option \<Rightarrow> (hwf option \<times> int) option" where
  "msm_hw_fence_driver_doorbell_sim P p db_mask drv = (case drv of
       None \<Rightarrow> Some (drv, - EAGAIN)
     | Some d \<Rightarrow>
         if \<not> resources_ready d then Some (drv, - EAGAIN)
         else do { d \<leftarrow> hw_fence_utils_process_doorbell_mask P p db_mask d; Some (Some d, 0) })"


section \<open>Registering a client\<close>

text \<open>Setting up a client changes queue memory, the register log and the flag of the DPU signaling only.\<close>

definition setup_only :: "hwf \<Rightarrow> hwf \<Rightarrow> bool" where
  "setup_only d d' \<longleftrightarrow> d' = d\<lparr>hfi_tables := hfi_tables d', hfi_hdrs := hfi_hdrs d', q_words := q_words d',
     io_writes := io_writes d', ipcc_dpu_initialized := ipcc_dpu_initialized d'\<rparr>"

lemma setup_onlyI:
  "d' = d\<lparr>hfi_tables := t, hfi_hdrs := h, q_words := w, io_writes := l, ipcc_dpu_initialized := b\<rparr> \<Longrightarrow> setup_only d d'"
  by (simp add: setup_only_def)

lemma setup_onlyE:
  assumes "setup_only d d'"
  obtains t h w l b where
    "d' = d\<lparr>hfi_tables := t, hfi_hdrs := h, q_words := w, io_writes := l, ipcc_dpu_initialized := b\<rparr>"
  using assms unfolding setup_only_def by blast

lemma setup_only_refl [simp]: "setup_only d d"
  by (simp add: setup_only_def)

lemma setup_only_trans: "setup_only d d' \<Longrightarrow> setup_only d' d'' \<Longrightarrow> setup_only d d''"
  by (elim setup_onlyE) (simp add: setup_only_def)

lemma setup_only_fields:
  assumes "setup_only d d'"
  shows "same_layout d d'" and "client_lock_tbl d' = client_lock_tbl d" and "client_lock_tbl_cnt d' = client_lock_tbl_cnt d"
    and "clients d' = clients d" and "client_objs d' = client_objs d" and "next_obj d' = next_obj d"
    and "hw_fences_tbl d' = hw_fences_tbl d" and "hw_fences_tbl_va d' = hw_fences_tbl_va d"
    and "hw_fence_table_entries d' = hw_fence_table_entries d" and "ipc_clients_table d' = ipc_clients_table d"
    and "hw_fences_tbl_cnt d' = hw_fences_tbl_cnt d" and "dma_fences d' = dma_fences d"
    and "resources_ready d' = resources_ready d" and "vm_ready d' = vm_ready d" and "ctl_start_ptr d' = ctl_start_ptr d"
    and "qtime d' = qtime d"
  using assms by (elim setup_onlyE; simp add: same_layout_def)+

text \<open>The rows of the IPC table agree with the memory: there is a row for every client, and a client whose
  rx queue is written has a lock.\<close>

definition rows_ok :: "hwf \<Rightarrow> bool" where
  "rows_ok d \<longleftrightarrow> unat (clients_num d) \<le> length (ipc_clients_table d) \<and>
     (\<forall>n<unat (clients_num d). im_update_rxq (ipc_clients_table d ! n) \<longrightarrow> queue_count d n = HW_FENCE_CLIENT_QUEUES \<longrightarrow>
        0 < n \<and> n \<le> unat (rxq_clients_num d))"

lemma enable_dpu_rows_setup: "setup_only d (enable_dpu_rows b rows d)"
proof (induction rows arbitrary: b d)
  case Nil
  then show ?case by simp
next
  case (Cons row rows)
  have w: "setup_only d (writel v a d)" for v a and d :: hwf
    by (simp add: setup_only_def writel_def)
  have ww: "setup_only d (writel v a (writel v' a' d))" for v a v' a' and d :: hwf
    using setup_only_trans [OF w w] .
  have IH: "setup_only d1 (enable_dpu_rows b rows d2)" if "setup_only d1 d2" for b and d1 d2 :: hwf
    using setup_only_trans [OF that Cons.IH] .
  show ?case
    by (cases "im_virt row = DPU_VID"; cases b) (simp_all add: Let_def Cons.IH IH w ww)
qed

lemma init_controller_signal_setup:
  assumes "unat (clients_num d) \<le> length (ipc_clients_table d)"
  obtains d' ret where "hw_fence_init_controller_signal P d c = Some (d', ret)" "setup_only d d'" "ret \<in> {0, - EINVAL}"
    "hfi_hdrs d' = hfi_hdrs d" "q_words d' = q_words d" "is_known_client P (cl_client_id c) \<longrightarrow> ret = 0"
proof (cases "is_dpu_client P (cl_client_id c) \<and> \<not> ipcc_dpu_initialized d")
  case False
  then show thesis by (intro that [of d "if is_dpu_client P (cl_client_id c) \<or> is_known_client P (cl_client_id c) then 0 else - EINVAL"])
      (auto simp: hw_fence_init_controller_signal_def)
next
  case True
  let ?d = "d\<lparr>ipcc_dpu_initialized := True\<rparr>"
  have s0: "setup_only d ?d" by (simp add: setup_only_def)
  have rows: "hfi_hdrs (enable_dpu_rows b rows d) = hfi_hdrs d" "q_words (enable_dpu_rows b rows d) = q_words d" for b rows and d :: hwf
    by (induction rows arbitrary: b d) (auto simp: Let_def)
  obtain d' r where "hw_fence_ipcc_enable_dpu_signaling ?d = Some (d', r)" "setup_only ?d d'"
    "hfi_hdrs d' = hfi_hdrs d" "q_words d' = q_words d"
    using assms enable_dpu_rows_setup [of ?d False "take (unat (clients_num d)) (ipc_clients_table d)"] rows [of False _ ?d]
    by (cases "protocol_id d = 0 \<or> ipc_clients_table d = []") (auto simp: hw_fence_ipcc_enable_dpu_signaling_def)
  then show thesis
    using True setup_only_trans [OF s0] by (intro that [of d' 0]) (simp_all add: hw_fence_init_controller_signal_def)
qed

text \<open>A client that can be registered: its row in the IPC table has ids and a signal, the device tree gives it queues
  (both of them if the rx queue is to be written), and the driver knows how it is signaled.\<close>

definition can_register :: "platform \<Rightarrow> hwf \<Rightarrow> u32 \<Rightarrow> bool" where
  "can_register P d cid \<longleftrightarrow> (let row = ipc_clients_table d ! unat cid in
     0 < im_virt row \<and> 0 < im_phys row \<and> 0 \<le> im_signal_id row \<and> is_known_client P cid \<and>
     0 < queue_count d (unat cid) \<and> (im_update_rxq row \<longrightarrow> queue_count d (unat cid) = HW_FENCE_CLIENT_QUEUES))"

text \<open>The outcome of the setup: everything stays in order, and if it succeeds the client is registered.\<close>

lemma register_setup_result:
  assumes M: "memory_ok P d" and rows: "rows_ok d" and n: "n < unat (clients_num d)"
    and c: "unat (cl_client_id c) = n" "length (cl_queues c) = HW_FENCE_CLIENT_QUEUES" "\<not> cl_update_rxq c"
  obtains d' c' md' ret where "register_setup P d c md = Some (d', c', md', ret)" "setup_only d d'" "rings_kept P d d'"
    "cl_client_id c' = cl_client_id c" "ret = 0 \<Longrightarrow> registered P d' n c'" "ret \<in> {0, - EINVAL, - ENOMEM}"
    "ret = 0 \<Longrightarrow> cl_update_rxq c' = im_update_rxq (ipc_clients_table d ! n)"
    "can_register P d (cl_client_id c) \<longrightarrow> ret = 0"
proof -
  let ?row = "ipc_clients_table d ! n"
  have len: "n < length (ipc_clients_table d)" using rows n by (simp add: rows_ok_def)
  have size: "n < length (hw_fence_client_queue_size d)"
    using M n by (simp add: memory_ok_def laid_out_def Let_def)
  have id: "\<not> clients_num d \<le> cl_client_id c" using n c(1) by (simp add: word_le_nat_alt)
  let ?c = "c\<lparr>cl_ipc_client_vid := im_virt ?row, cl_ipc_client_pid := im_phys ?row\<rparr>"
  let ?c2 = "?c\<lparr>cl_ipc_signal_id := im_signal_id ?row, cl_update_rxq := im_update_rxq ?row\<rparr>"
  note get = hw_fence_ipcc_get_client_virt_id_def hw_fence_ipcc_get_client_phys_id_def hw_fence_ipcc_get_signal_id_def
    hw_fence_ipcc_needs_rxq_update_def
  consider "im_virt ?row \<le> 0 \<or> im_phys ?row \<le> 0" | "\<not> (im_virt ?row \<le> 0 \<or> im_phys ?row \<le> 0)" "im_signal_id ?row < 0"
    | "\<not> (im_virt ?row \<le> 0 \<or> im_phys ?row \<le> 0)" "\<not> im_signal_id ?row < 0" "im_update_rxq ?row" "queue_count d n < 2"
    | "\<not> (im_virt ?row \<le> 0 \<or> im_phys ?row \<le> 0)" "\<not> im_signal_id ?row < 0" "im_update_rxq ?row \<longrightarrow> \<not> queue_count d n < 2"
    by blast
  then show thesis
  proof cases
    case 1
    then have "register_setup P d c md = Some (d, ?c, md, - EINVAL)"
      using len c(1) by (simp add: register_setup_def get id)
    then show thesis by (rule that) (use 1 c(1) in \<open>auto simp: can_register_def Let_def\<close>)
  next
    case 2
    then have "register_setup P d c md = Some (d, ?c\<lparr>cl_ipc_signal_id := im_signal_id ?row\<rparr>, md, - EINVAL)"
      using len c(1) by (simp add: register_setup_def get id)
    then show thesis by (rule that) (use 2 c(1) in \<open>auto simp: can_register_def Let_def\<close>)
  next
    case 3
    then have "register_setup P d c md = Some (d, ?c2, md, - EINVAL)"
      using len c(1) size by (simp add: register_setup_def get id word_less_nat_alt)
    then show thesis by (rule that) (use 3 c(1) in \<open>auto simp: can_register_def Let_def\<close>)
  next
    case 4
    obtain irq where irq: "hw_fence_ipcc_needs_ipc_irq P d (cl_client_id c) = Some irq"
      using len c(1) by (cases "sint (client_id P CLIENT_MAX) \<le> sint (cl_client_id c)") (auto simp: hw_fence_ipcc_needs_ipc_irq_def)
    obtain skip where skip: "hw_fence_utils_skips_txq_wr_idx d (cl_client_id c) = Some skip"
      using size c(1) id by (simp add: hw_fence_utils_skips_txq_wr_idx_def)
    let ?c4 = "?c2\<lparr>cl_send_ipc := irq, cl_skip_txq_wr_idx := skip\<rparr>"
    have su: "register_setup P d c md = do {
        (d, c, md, ret) \<leftarrow> hw_fence_alloc_client_resources P d ?c4 md;
        if ret \<noteq> 0 then Some (d, c, md, ret)
        else do {
          (d, ret) \<leftarrow> hw_fence_init_controller_signal P d c;
          Some (d, c, md, if ret \<noteq> 0 then ret else hw_fence_init_controller_resources c)
        }
      }"
      using 4 len c(1) size irq skip
      by (cases "im_update_rxq ?row") (simp_all add: register_setup_def get id word_less_nat_alt Let_def)
    have c4: "unat (cl_client_id ?c4) = n" "length (cl_queues ?c4) = HW_FENCE_CLIENT_QUEUES" using c by simp_all
    show thesis
    proof (rule alloc_resources [OF M n c4, of md])
      assume none: "desc_of d n = zero_size_desc"
        and "hw_fence_alloc_client_resources P d ?c4 md = Some (d, ?c4, md, - ENOMEM)"
      with su have "register_setup P d c md = Some (d, ?c4, md, - ENOMEM)" by simp
      then show thesis by (rule that) (use none c(1) in \<open>auto simp: can_register_def Let_def zero_size_desc_def\<close>)
    next
      fix d1 qs md1
      let ?c5 = "?c4\<lparr>cl_mem_descriptor := md1, cl_queues := qs\<rparr>"
      assume alloc: "hw_fence_alloc_client_resources P d ?c4 md = Some (d1, ?c5, md1, 0)"
        and qs: "length qs = HW_FENCE_CLIENT_QUEUES" "0 < queue_count d n" "\<forall>i<queue_count d n. placed P d1 n (qs ! i) i" and kept: "rings_kept P d d1"
        and d1: "d1 = d\<lparr>hfi_tables := hfi_tables d1, hfi_hdrs := hfi_hdrs d1, q_words := q_words d1\<rparr>"
      have s1: "setup_only d d1"
        by (rule setup_onlyI [where t = "hfi_tables d1" and h = "hfi_hdrs d1" and w = "q_words d1" and l = "io_writes d"
            and b = "ipcc_dpu_initialized d"]) (subst d1, simp)
      note f1 = setup_only_fields [OF s1]
      have "unat (clients_num d1) \<le> length (ipc_clients_table d1)"
        using rows f1(1,10) by (simp add: rows_ok_def same_layout_def)
      then obtain d2 ret where d2: "hw_fence_init_controller_signal P d1 ?c5 = Some (d2, ret)" "setup_only d1 d2"
        "ret \<in> {0, - EINVAL}" "hfi_hdrs d2 = hfi_hdrs d1" "q_words d2 = q_words d1" "is_known_client P (cl_client_id ?c5) \<longrightarrow> ret = 0"
        by (rule init_controller_signal_setup)
      have lay2: "same_layout d d2" and lay12: "same_layout d1 d2"
        using setup_only_fields(1) [OF setup_only_trans [OF s1 d2(2)]] setup_only_fields(1) [OF d2(2)] .
      have sz: "hw_fence_client_queue_size d2 = hw_fence_client_queue_size d" "hw_fence_client_queue_size d1 = hw_fence_client_queue_size d"
        "rxq_clients_num d2 = rxq_clients_num d"
        using lay2 f1(1) by (simp_all add: same_layout_def)
      have pr: "place_ring P wm d2 x = place_ring P wm d1 x" for wm x
        using same_layout_places [OF lay12] d2(4,5) sz by (simp add: found_ring_def)
      have "rings_kept P d d2"
        using kept same_layout_places [OF f1(1)] d2(5) unfolding rings_kept_def pr by simp
      moreover have "registered P d2 n ?c5"
      proof -
        have qc: "queue_count d n = 2" if "im_update_rxq ?row"
          using 4 that memory_desc [OF M n] by (auto simp: zero_size_desc_def sizes_fit_def)
        have "placed P d2 n queue i = placed P d1 n queue i" for queue i
          using same_layout_places [OF lay12] d2(5) sz by (simp add: placed_def)
        moreover have "im_update_rxq ?row \<longrightarrow> queue_count d n = 2 \<and> 0 < n \<and> n \<le> unat (rxq_clients_num d)"
          using qc rows n by (auto simp: rows_ok_def)
        ultimately show ?thesis using qs c(1) sz by (simp add: registered_def)
      qed
      moreover have "register_setup P d c md = Some (d2, ?c5, md1, ret)"
        using su alloc d2(1) by (simp add: hw_fence_init_controller_resources_def)
      ultimately show thesis
        using setup_only_trans [OF s1 d2(2)] d2(3,6) by (intro that) (auto simp: can_register_def Let_def)
    qed
  qed
qed

text \<open>A change of the client table in which each client is an old one or registered anew.\<close>

lemma memory_inv_clients:
  assumes inv: "memory_inv P d" and lay: "same_layout d d'" and rings: "rings_kept P d d'"
    and locks: "client_lock_tbl d' = client_lock_tbl d" "client_lock_tbl_cnt d' = client_lock_tbl_cnt d"
    and len: "length (clients d') = length (clients d)" and fresh: "\<forall>h\<ge>next_obj d'. client_objs d' h = None"
    and cl: "\<And>m h. m < length (clients d) \<Longrightarrow> clients d' ! m = Some h \<Longrightarrow>
      clients d ! m = Some h \<and> client_objs d' h = client_objs d h \<or> (\<exists>c. client_objs d' h = Some c \<and> registered P d' m c)"
  shows "memory_inv P d'"
proof -
  have nums: "clients_num d' = clients_num d" "rxq_clients_num d' = rxq_clients_num d"
    using lay by (simp_all add: same_layout_def)
  have num: "length (clients d) = unat (clients_num d)" using inv by (simp add: memory_inv_def clients_ok_def)
  have "\<exists>c. client_objs d' h = Some c \<and> registered P d' m c" if m: "m < length (clients d)" "clients d' ! m = Some h" for m h
    using cl [OF m]
  proof
    assume same: "clients d ! m = Some h \<and> client_objs d' h = client_objs d h"
    then obtain c where "client_objs d h = Some c" "registered P d m c"
      using inv m(1) by (fastforce simp: memory_inv_def clients_ok_def)
    with registered_kept [OF lay rings] m(1) num same show ?thesis by auto
  qed
  then have "clients_ok P d'" using len fresh num nums by (simp add: clients_ok_def)
  then show ?thesis
    using inv locks nums rings_ok_kept [OF lay rings] same_layout_places(4) [OF lay]
    by (simp add: memory_inv_def locks_free_def)
qed

lemma rings_kept_trans:
  assumes "same_layout d d'" and "rings_kept P d d'" and "rings_kept P d' d''"
  shows "rings_kept P d d''"
proof -
  have "hw_fence_client_queue_size d' = hw_fence_client_queue_size d" using assms(1) by (simp add: same_layout_def)
  then show ?thesis
    using assms(2,3) unfolding rings_kept_def same_layout_places(1-3) [OF assms(1)] by simp
qed

lemma rings_kept_same:
  "same_layout d d' \<Longrightarrow> hfi_hdrs d' = hfi_hdrs d \<Longrightarrow> q_words d' = q_words d \<Longrightarrow> rings_kept P d d'"
  using same_layout_places [of d d'] by (simp add: rings_kept_def found_ring_def same_layout_def)

text \<open>What registering changes: the memory of the client's own queues, the register log and the flag of
  the DPU signaling, and the client table.\<close>

definition register_frame :: "hwf \<Rightarrow> hwf \<Rightarrow> bool" where
  "register_frame d d' \<longleftrightarrow>
     setup_only (d\<lparr>clients := clients d', client_objs := client_objs d', next_obj := next_obj d'\<rparr>) d'"

lemma register_frame_fields:
  assumes "register_frame d d'"
  shows "same_layout d d'" and "client_lock_tbl d' = client_lock_tbl d" and "client_lock_tbl_cnt d' = client_lock_tbl_cnt d"
    and "hw_fences_tbl d' = hw_fences_tbl d" and "hw_fences_tbl_va d' = hw_fences_tbl_va d"
    and "hw_fence_table_entries d' = hw_fence_table_entries d" and "hw_fences_tbl_cnt d' = hw_fences_tbl_cnt d"
    and "ipc_clients_table d' = ipc_clients_table d" and "dma_fences d' = dma_fences d"
    and "resources_ready d' = resources_ready d" and "vm_ready d' = vm_ready d" and "ctl_start_ptr d' = ctl_start_ptr d"
  using setup_only_fields [OF assms [unfolded register_frame_def]] by (simp_all add: same_layout_def)

lemma register_new:
  assumes inv: "memory_inv P d" and rows: "rows_ok d" and ready: "resources_ready d"
    and id: "hw_fence_utils_get_client_id_priv P d cid_ext = Some cid" "unat cid < unat (clients_num d)"
    and max: "cid_ext < client_id P CLIENT_MAX" "cid < client_id P CLIENT_MAX" and alloc
    and free: "clients d ! unat cid = None"
  obtains d' md' e where "msm_hw_fence_register P alloc cid_ext (Some md) (Some d) = Some (Some d', Some md', Inl e)"
      "e \<in> {- EINVAL, - ENOMEM}" "memory_inv P d'" "rings_kept P d d'" "register_frame d d'"
      "clients d' = clients d" "client_objs d' = client_objs d" "\<not> can_register P d cid"
  | d' md' c where "msm_hw_fence_register P alloc cid_ext (Some md) (Some d) = Some (Some d', Some md', Inr (next_obj d))"
      "memory_inv P d'" "rings_kept P d d'" "register_frame d d'"
      "clients d' = (clients d)[unat cid := Some (next_obj d)]" "client_objs d' = (client_objs d)(next_obj d \<mapsto> c)"
      "registered P d' (unat cid) c" "cl_update_rxq c = im_update_rxq (ipc_clients_table d ! unat cid)"
proof -
  let ?n = "unat cid" and ?h = "next_obj d"
  let ?c = "new_client cid cid_ext"
  let ?d0 = "mark_client ?c d"
  have len: "length (clients d) = unat (clients_num d)" and fresh: "\<And>h. ?h \<le> h \<Longrightarrow> client_objs d h = None"
    using inv by (simp_all add: memory_inv_def clients_ok_def)
  have c: "unat (cl_client_id ?c) = ?n" "length (cl_queues ?c) = HW_FENCE_CLIENT_QUEUES" "\<not> cl_update_rxq ?c"
    by (simp_all add: new_client_def zero_client_def)
  have lay0: "same_layout d ?d0" by (simp add: same_layout_def mark_client_def)
  have M0: "memory_ok P ?d0" using inv same_layout_places(4) [OF lay0] by (simp add: memory_inv_def)
  have rows0: "rows_ok ?d0" using rows by (simp add: rows_ok_def mark_client_def)
  have n0: "?n < unat (clients_num ?d0)" using id(2) by (simp add: mark_client_def)
  obtain d1 c1 md1 ret where su: "register_setup P ?d0 ?c md = Some (d1, c1, md1, ret)" "setup_only ?d0 d1" "rings_kept P ?d0 d1"
    "cl_client_id c1 = cl_client_id ?c" "ret = 0 \<Longrightarrow> registered P d1 ?n c1" "ret \<in> {0, - EINVAL, - ENOMEM}"
    "ret = 0 \<Longrightarrow> cl_update_rxq c1 = im_update_rxq (ipc_clients_table ?d0 ! ?n)"
    "can_register P ?d0 (cl_client_id ?c) \<longrightarrow> ret = 0"
    using register_setup_result [OF M0 rows0 n0 c, of md] by blast
  note f1 = setup_only_fields [OF su(2)]
  have cid1: "unat (cl_client_id c1) = ?n" using su(4) by (simp add: new_client_def)
  have cl1: "clients d1 = (clients d)[?n := Some ?h]" "client_objs d1 = (client_objs d)(?h \<mapsto> ?c)" "next_obj d1 = Suc ?h"
    using f1(4-6) by (simp_all add: mark_client_def new_client_def)
  have lay1: "same_layout d d1" using same_layout_trans [OF lay0 f1(1)] .
  have rings1: "rings_kept P d d1"
    by (rule rings_kept_trans [OF lay0 _ su(3)]) (rule rings_kept_same [OF lay0], simp_all add: mark_client_def)
  have locks1: "client_lock_tbl d1 = client_lock_tbl d" "client_lock_tbl_cnt d1 = client_lock_tbl_cnt d"
    using f1(2,3) by (simp_all add: mark_client_def)
  let ?d2 = "set_client ?h c1 d1"
  have slot: "?n < length (clients d)" using id(2) len by simp
  have reg: "msm_hw_fence_register P alloc cid_ext (Some md) (Some d) = (if ret \<noteq> 0 then do {
        d \<leftarrow> hw_fence_cleanup_client ?d2 ?h;
        Some (Some d, Some md1, Inl ret)
      } else Some (Some ?d2, Some md1, Inr ?h))"
    using ready id max [unfolded not_le [symmetric]] \<open>alloc\<close> free slot su(1)
    by (simp add: msm_hw_fence_register_def Let_def)
  show thesis
  proof (cases "ret = 0")
    case True
    have lay2: "same_layout d1 ?d2" by (simp add: same_layout_def set_client_def)
    have kept2: "rings_kept P d1 ?d2" by (rule rings_kept_same [OF lay2]) simp_all
    have r: "registered P ?d2 ?n c1" using registered_kept [OF lay2 kept2 _ su(5) [OF True]] id(2) lay1 by (simp add: same_layout_def)
    have objs: "client_objs ?d2 = (client_objs d)(?h \<mapsto> c1)" using cl1(2) by (simp add: set_client_def)
    have lay: "same_layout d ?d2" by (rule same_layout_trans [OF lay1 lay2])
    have kept: "rings_kept P d ?d2" by (rule rings_kept_trans [OF lay1 rings1 kept2])
    have inv2: "memory_inv P ?d2"
    proof (rule memory_inv_clients [OF inv lay kept])
      show "client_lock_tbl ?d2 = client_lock_tbl d" "client_lock_tbl_cnt ?d2 = client_lock_tbl_cnt d" using locks1 by simp_all
      show "length (clients ?d2) = length (clients d)" using cl1(1) by simp
      show "\<forall>h\<ge>next_obj ?d2. client_objs ?d2 h = None" using fresh cl1(3) unfolding objs by (auto simp: set_client_def)
      fix m h assume m: "m < length (clients d)" "clients ?d2 ! m = Some h"
      show "clients d ! m = Some h \<and> client_objs ?d2 h = client_objs d h \<or> (\<exists>c. client_objs ?d2 h = Some c \<and> registered P ?d2 m c)"
      proof (cases "m = ?n")
        case True
        with m cl1(1) slot have "h = ?h" by simp
        with r True objs show ?thesis by auto
      next
        case False
        with m cl1(1) have old: "clients d ! m = Some h" by simp
        moreover have "h \<noteq> ?h"
        proof
          assume "h = ?h"
          with old inv m(1) fresh [of ?h] show False by (fastforce simp: memory_inv_def clients_ok_def)
        qed
        ultimately show ?thesis using objs by simp
      qed
    qed
    have fr2: "register_frame d ?d2"
      using su(2) by (elim setup_onlyE) (simp add: register_frame_def setup_only_def set_client_def mark_client_def)
    have rx: "cl_update_rxq c1 = im_update_rxq (ipc_clients_table d ! ?n)" using su(7) [OF True] by (simp add: mark_client_def)
    have reg2: "msm_hw_fence_register P alloc cid_ext (Some md) (Some d) = Some (Some ?d2, Some md1, Inr ?h)"
      using reg True by simp
    have cl2: "clients ?d2 = (clients d)[?n := Some ?h]" using cl1(1) by simp
    show thesis by (rule that(2) [OF reg2 inv2 kept fr2 cl2 objs r rx])
  next
    case False
    let ?d3 = "?d2\<lparr>clients := (clients ?d2)[?n := None], client_objs := (client_objs ?d2)(?h := None)\<rparr>"
    have cl3: "clients ?d3 = clients d" using cl1(1) free slot by (simp add: list_update_same_conv)
    have objs3: "client_objs ?d3 = client_objs d" using cl1(2) fresh [of ?h] by (auto simp: set_client_def)
    have "hw_fence_cleanup_client ?d2 ?h = Some ?d3"
      using cid1 slot cl1(1) by (simp add: hw_fence_cleanup_client_def set_client_def)
    then have r: "msm_hw_fence_register P alloc cid_ext (Some md) (Some d) = Some (Some ?d3, Some md1, Inl ret)"
      using reg False by simp
    have lay2: "same_layout d1 ?d3" by (simp add: same_layout_def set_client_def)
    have kept2: "rings_kept P d1 ?d3" by (rule rings_kept_same [OF lay2]) (simp_all add: set_client_def)
    have lay: "same_layout d ?d3" by (rule same_layout_trans [OF lay1 lay2])
    have kept: "rings_kept P d ?d3" by (rule rings_kept_trans [OF lay1 rings1 kept2])
    have inv3: "memory_inv P ?d3"
    proof (rule memory_inv_clients [OF inv lay kept])
      show "client_lock_tbl ?d3 = client_lock_tbl d" "client_lock_tbl_cnt ?d3 = client_lock_tbl_cnt d"
        using locks1 by (simp_all add: set_client_def)
      show "length (clients ?d3) = length (clients d)" using cl3 by simp
      show "\<forall>h\<ge>next_obj ?d3. client_objs ?d3 h = None" using fresh cl1(3) unfolding objs3 by (auto simp: set_client_def)
    qed (use cl3 objs3 in auto)
    have fr3: "register_frame d ?d3"
      using su(2) by (elim setup_onlyE) (simp add: register_frame_def setup_only_def set_client_def mark_client_def)
    have "can_register P ?d0 (cl_client_id ?c) = can_register P d cid"
      by (simp add: can_register_def mark_client_def new_client_def)
    then have no: "\<not> can_register P d cid" using su(8) False by simp
    have "ret \<in> {- EINVAL, - ENOMEM}" using su(6) False by blast
    then show thesis by (rule that(1) [OF r _ inv3 kept fr3 cl3 objs3 no])
  qed
qed

end
