(* ===== verification/HwfApi.thy ===== *)
theory HwfApi
  imports HwfClient
begin

text \<open>
  What the interface of the driver (\<open>HwfClient\<close>) promises its clients: registration, what deregistration removes,
  creating and destroying the fence of the kernel, and the reset after a client was lost.
\<close>

section \<open>Registration\<close>

lemma inbox_place:
  assumes inv: "memory_inv P d" and c: "registered P d n c" "n < unat (clients_num d)"
  shows "inbox d c = (if cl_update_rxq c then ring_items (slots d n) (place_ring P False d (n, RXQ)) else [])"
proof (cases "cl_update_rxq c")
  case True
  then have "placed P d n (cl_queues c ! RXQ) RXQ" using c(1) by (simp add: registered_def)
  then have "rx_ring d c = place_ring P False d (n, RXQ)" by (rule placed_ring)
  then show ?thesis using True registered_rx(1) [OF inv c True] by (simp add: inbox_def)
qed (simp add: inbox_def)

lemma place_ring_kept:
  "rings_kept P d d' \<Longrightarrow> x \<in> queue_ids d \<Longrightarrow> place_ring P wm d' x = place_ring P wm d x"
  by (simp add: rings_kept_def)

lemma inbox_kept:
  assumes inv: "memory_inv P d" "memory_inv P d'" and lay: "same_layout d d'" and rings: "rings_kept P d d'"
    and c: "registered P d n c" "registered P d' n c'" "n < unat (clients_num d)" "cl_update_rxq c' = cl_update_rxq c"
  shows "inbox d' c' = inbox d c"
proof -
  have n': "n < unat (clients_num d')" "slots d' n = slots d n" using c(3) lay by (simp_all add: same_layout_def)
  have "(n, RXQ) \<in> queue_ids d" if "cl_update_rxq c" using registered_rx(2) [OF inv(1) c(1,3) that] .
  then show ?thesis
    using inbox_place [OF inv(1) c(1,3)] inbox_place [OF inv(2) c(2) n'(1)] place_ring_kept [OF rings, of "(n, RXQ)"] c(4) n'(2)
    by simp
qed

lemma inbox_client_kept:
  assumes "memory_inv P d" "memory_inv P d'" and "same_layout d d'" and "rings_kept P d d'" and "client_of d m = Some c"
  shows "inbox d' c = inbox d c"
  using inbox_kept [OF assms(1-4)] client_of_registered [OF assms(1,5)] registered_kept [OF assms(3,4)] by blast

lemma rows_ok_frame:
  "rows_ok d \<Longrightarrow> register_frame d d' \<Longrightarrow> rows_ok d'"
  using register_frame_fields(1,8) [of d d'] by (simp add: rows_ok_def same_layout_def)

text \<open>No handle of the table is the next one.\<close>

lemma handle_old:
  assumes "memory_inv P d" and "m < length (clients d)" and "clients d ! m = Some h"
  shows "h < next_obj d"
  using assms by (fastforce simp: memory_inv_def clients_ok_def not_le [symmetric])

lemma client_of_other:
  assumes inv: "memory_inv P d" and cl: "clients d' = (clients d)[n := Some (next_obj d)]"
    and objs: "client_objs d' = (client_objs d)(next_obj d \<mapsto> c)" and m: "m \<noteq> n"
  shows "client_of d' m = client_of d m"
proof (cases "m < length (clients d)")
  case True
  have "client_objs d' h = client_objs d h" if "clients d ! m = Some h" for h
    using handle_old [OF inv True that] objs by simp
  with True m show ?thesis by (auto simp: client_of_def cl split: Option.bind_split)
qed (simp add: client_of_def cl)

text \<open>C21. Registration keeps the driver in order whatever happens. For a client id that the driver knows,
  \<open>msm_hw_fence_register\<close> returns. If the id is taken, it is refused with \<open>-EINVAL\<close> and nothing changes. Otherwise
  it either fails with \<open>-EINVAL\<close> or \<open>-ENOMEM\<close> and no client is added, or it returns a new handle under which
  the client is entered at its internal id with its queues set up at their places in the carve-out. In both
  cases memory, locks and clients stay in order, and no other client's object, handle or inbox changes.\<close>

theorem register_clients:
  assumes inv: "memory_inv P d" and rows: "rows_ok d" and ready: "resources_ready d"
    and id: "hw_fence_utils_get_client_id_priv P d cid_ext = Some cid" "unat cid < unat (clients_num d)"
    and max: "cid_ext < client_id P CLIENT_MAX" "cid < client_id P CLIENT_MAX"
  shows "\<exists>d' md' r. msm_hw_fence_register P True cid_ext (Some md) (Some d) = Some (Some d', Some md', r) \<and>
    memory_inv P d' \<and> rows_ok d' \<and> register_frame d d' \<and>
    (clients d ! unat cid \<noteq> None \<longrightarrow> d' = d \<and> r = Inl (- EINVAL)) \<and>
    (case r of
       Inl e \<Rightarrow> e \<in> {- EINVAL, - ENOMEM} \<and> clients d' = clients d \<and> client_objs d' = client_objs d
     | Inr h \<Rightarrow> clients d' = (clients d)[unat cid := Some h] \<and> h \<notin> Some -` set (clients d) \<and>
         (\<exists>c. client_objs d' h = Some c \<and> registered P d' (unat cid) c)) \<and>
    (\<forall>m c. m \<noteq> unat cid \<longrightarrow> client_of d' m = client_of d m \<and> (client_of d m = Some c \<longrightarrow> inbox d' c = inbox d c))"
proof (cases "clients d ! unat cid = None")
  case False
  have "length (clients d) = unat (clients_num d)" using inv by (simp add: memory_inv_def clients_ok_def)
  then have "msm_hw_fence_register P True cid_ext (Some md) (Some d) = Some (Some d, Some md, Inl (- EINVAL))"
    using False ready id max [unfolded not_le [symmetric]] by (simp add: msm_hw_fence_register_def)
  moreover have "register_frame d d" by (simp add: register_frame_def)
  ultimately show ?thesis using inv rows by (intro exI [of _ d] exI [of _ md] exI [of _ "Inl (- EINVAL)"]) simp
next
  case True
  have old: "next_obj d \<notin> Some -` set (clients d)"
    using handle_old [OF inv] by (auto simp: in_set_conv_nth)
  show ?thesis
  proof (rule register_new [OF inv rows ready id max TrueI True, of md])
    fix d' md' e
    assume r: "msm_hw_fence_register P True cid_ext (Some md) (Some d) = Some (Some d', Some md', Inl e)"
        "e \<in> {- EINVAL, - ENOMEM}" "memory_inv P d'" "rings_kept P d d'" "register_frame d d'"
        "clients d' = clients d" "client_objs d' = client_objs d"
    have "client_of d' = client_of d" using r(6,7) by (intro ext) (simp add: client_of_def)
    with r rows_ok_frame [OF rows r(5)] inbox_client_kept [OF inv r(3) register_frame_fields(1) [OF r(5)] r(4)] True show ?thesis
      by (intro exI [of _ d'] exI [of _ md'] exI [of _ "Inl e"]) simp
  next
    fix d' md' c
    assume r: "msm_hw_fence_register P True cid_ext (Some md) (Some d) = Some (Some d', Some md', Inr (next_obj d))"
        "memory_inv P d'" "rings_kept P d d'" "register_frame d d'"
        "clients d' = (clients d)[unat cid := Some (next_obj d)]" "client_objs d' = (client_objs d)(next_obj d \<mapsto> c)"
        "registered P d' (unat cid) c" "cl_update_rxq c = im_update_rxq (ipc_clients_table d ! unat cid)"
    with rows_ok_frame [OF rows r(4)] inbox_client_kept [OF inv r(2) register_frame_fields(1) [OF r(4)] r(3)]
      client_of_other [OF inv r(5,6)] old True show ?thesis
      by (intro exI [of _ d'] exI [of _ md'] exI [of _ "Inr (next_obj d)"]) simp
  qed
qed

text \<open>The driver that probing leaves on the sample target, which can register every static client.\<close>

lemma probe_sample_rows:
  "map_option (\<lambda>(d, ret). map_option (\<lambda>d. (rows_ok d, hw_fence_utils_get_client_id_priv sample_platform d 8,
       rxq_clients_num d, hw_fence_table_entries d, hw_fences_tbl_cnt d, queue_count d 8)) d)
     (msm_hw_fence_probe_init sample_platform True probe_sample probe_zeroed) = Some (Some (True, Some 8, 14, 4, 4, 2))"
  by code_simp

lemma probe_sample_inv:
  obtains d where "memory_inv sample_platform d" "rows_ok d" "resources_ready d" "clients_num d = 17" "table_inv d"
    "hw_fence_utils_get_client_id_priv sample_platform d 8 = Some 8" "clients d = replicate 17 None"
    "msm_hw_fence_probe_init sample_platform True probe_sample probe_zeroed = Some (Some d, 0)"
    "rxq_clients_num d = 14" "hw_fence_table_entries d = 4" "hw_fences_tbl_cnt d = 4" "queue_count d 8 = 2"
proof -
  obtain d where d: "msm_hw_fence_probe_init sample_platform True probe_sample probe_zeroed = Some (Some d, 0)"
    "fits sample_platform d" "unat (io_mem_base d) + unat (used_mem_size d) < 2 ^ 64" "clients_num d = 17"
    using probe_sample_state by blast
  have "snd (pe_table_entries probe_sample) \<noteq> 0" "snd (pe_queue_entries probe_sample) \<noteq> 0"
    by (simp_all add: probe_sample_def)
  note e = probe_establishes [OF sample_platform_ok sample_platform_sizes this d(1-3)]
  have "length (clients d) = 17" using e d(4) by (simp add: memory_inv_def clients_ok_def)
  moreover have "clients d ! n = None" if "n < 17" for n
  proof (rule ccontr)
    assume "clients d ! n \<noteq> None"
    then obtain h where "clients d ! n = Some h" by blast
    moreover have "client_of d n = None" using e by blast
    ultimately show False using e that \<open>length (clients d) = 17\<close>
      by (fastforce simp: client_of_def memory_inv_def clients_ok_def)
  qed
  ultimately have "clients d = replicate 17 None" by (simp add: list_eq_iff_nth_eq)
  moreover have "rows_ok d \<and> hw_fence_utils_get_client_id_priv sample_platform d 8 = Some 8 \<and> rxq_clients_num d = 14 \<and>
      hw_fence_table_entries d = 4 \<and> hw_fences_tbl_cnt d = 4 \<and> queue_count d 8 = 2"
    using probe_sample_rows unfolding d(1) by simp
  ultimately show thesis using e d(1,4) by (intro that) blast+
qed

theorem register_clients_witness:
  "\<exists>d d' md h. rows_ok d \<and> msm_hw_fence_register sample_platform True 8 (Some zero_mem_addr) (Some d) = Some (Some d', md, h) \<and>
    memory_inv sample_platform d' \<and> register_frame d d'"
proof -
  obtain d where d: "memory_inv sample_platform d" "rows_ok d" "resources_ready d" "clients_num d = 17"
    "hw_fence_utils_get_client_id_priv sample_platform d 8 = Some 8"
    by (rule probe_sample_inv)
  from register_clients [OF d(1-3,5), of zero_mem_addr] d(2,4) show ?thesis by (fastforce simp: sample_platform_def)
qed

subsection \<open>Deregistration\<close>

lemma deregister_registered:
  assumes inv: "memory_inv P d" and n: "n < length (clients d)" "clients d ! n = Some h"
  shows "msm_hw_fence_deregister (Some h) d =
      Some (d\<lparr>clients := (clients d)[n := None], client_objs := (client_objs d)(h := None)\<rparr>, 0)"
    and "memory_inv P (d\<lparr>clients := (clients d)[n := None], client_objs := (client_objs d)(h := None)\<rparr>)"
    and "m \<noteq> n \<Longrightarrow> client_of (d\<lparr>clients := (clients d)[n := None], client_objs := (client_objs d)(h := None)\<rparr>) m = client_of d m"
proof -
  let ?d = "d\<lparr>clients := (clients d)[n := None], client_objs := (client_objs d)(h := None)\<rparr>"
  have obj: "\<exists>c. client_objs d h = Some c \<and> registered P d m c" if "m < length (clients d)" "clients d ! m = Some h" for m h
    using inv that by (simp add: memory_inv_def clients_ok_def)
  obtain c where c: "client_objs d h = Some c" "unat (cl_client_id c) = n"
    using obj [OF n] by (auto simp: registered_def)
  have only: "m = n" if "m < length (clients d)" "clients d ! m = Some h" for m
    using obj [OF that] c by (auto simp: registered_def)
  have num: "length (clients d) = unat (clients_num d)" using inv by (simp add: memory_inv_def clients_ok_def)
  with n(1) c(2) have "\<not> clients_num d \<le> cl_client_id c" by (simp add: word_le_nat_alt)
  with c n(1) show "msm_hw_fence_deregister (Some h) d = Some (?d, 0)"
    by (simp add: msm_hw_fence_deregister_def hw_fence_cleanup_client_def)
  have lay: "same_layout d ?d" by (simp add: same_layout_def)
  show "memory_inv P ?d"
  proof (rule memory_inv_clients [OF inv lay])
    show "rings_kept P d ?d" by (rule rings_kept_same [OF lay]) simp_all
    show "\<forall>h\<ge>next_obj ?d. client_objs ?d h = None" using inv by (simp add: memory_inv_def clients_ok_def)
    fix m h' assume m: "m < length (clients d)" "clients ?d ! m = Some h'"
    then have "m \<noteq> n" using n(1) by (cases "m = n") simp_all
    with m only show "clients d ! m = Some h' \<and> client_objs ?d h' = client_objs d h' \<or>
        (\<exists>c. client_objs ?d h' = Some c \<and> registered P ?d m c)" by auto
  qed simp_all
  show "client_of ?d m = client_of d m" if "m \<noteq> n"
    using that only [of m] by (auto simp: client_of_def split: Option.bind_split)
qed

lemma client_id_priv_types:
  assumes "hw_fence_client_types d' = hw_fence_client_types d"
  shows "hw_fence_utils_get_client_id_priv P d' cid = hw_fence_utils_get_client_id_priv P d cid"
  unfolding hw_fence_utils_get_client_id_priv_def assms by (rule refl)

text \<open>The sample driver with a validation client registered.\<close>

lemma register_sample_run:
  "map_option (\<lambda>(dd, _, r). r) (do {
     (d, _) \<leftarrow> msm_hw_fence_probe_init sample_platform True probe_sample probe_zeroed;
     msm_hw_fence_register sample_platform True 8 (Some zero_mem_addr) d
   }) = Some (Inr 0)"
  by code_simp

lemma register_sample:
  obtains d c where "memory_inv sample_platform d" "rows_ok d" "resources_ready d" "clients_num d = 17"
    "hw_fence_utils_get_client_id_priv sample_platform d 8 = Some 8" "clients d ! 8 = Some 0" "client_of d 8 = Some c"
    "cl_update_rxq c = im_update_rxq (ipc_clients_table d ! 8)" "table_inv d"
    "rxq_clients_num d = 14" "hw_fence_table_entries d = 4" "hw_fences_tbl_cnt d = 4" "queue_count d 8 = 2"
proof -
  obtain d where d: "memory_inv sample_platform d" "rows_ok d" "resources_ready d" "clients_num d = 17" "table_inv d"
    "hw_fence_utils_get_client_id_priv sample_platform d 8 = Some 8" "clients d = replicate 17 None"
    "msm_hw_fence_probe_init sample_platform True probe_sample probe_zeroed = Some (Some d, 0)"
    "rxq_clients_num d = 14" "hw_fence_table_entries d = 4" "hw_fences_tbl_cnt d = 4" "queue_count d 8 = 2"
    by (rule probe_sample_inv)
  have run: "map_option (\<lambda>(dd, _, r). r) (msm_hw_fence_register sample_platform True 8 (Some zero_mem_addr) (Some d)) = Some (Inr 0)"
    using register_sample_run by (simp add: d(8))
  have pre: "unat (8 :: u32) < unat (clients_num d)" "8 < client_id sample_platform CLIENT_MAX"
    "clients d ! unat (8 :: u32) = None"
    by (simp_all add: d(4,7))
  show thesis
  proof (rule register_new [OF d(1-3,6) pre(1,2,2) TrueI pre(3), of zero_mem_addr])
    fix d' md' c
    assume r: "msm_hw_fence_register sample_platform True 8 (Some zero_mem_addr) (Some d) = Some (Some d', Some md', Inr (next_obj d))"
        "memory_inv sample_platform d'" "rings_kept sample_platform d d'" "register_frame d d'"
        "clients d' = (clients d)[unat (8 :: u32) := Some (next_obj d)]" "client_objs d' = (client_objs d)(next_obj d \<mapsto> c)"
        "registered sample_platform d' (unat (8 :: u32)) c"
        "cl_update_rxq c = im_update_rxq (ipc_clients_table d ! unat (8 :: u32))"
    have obj: "next_obj d = 0" using run r(1) by simp
    have "client_of d' 8 = Some (no_val c)" using r(5,6) d(7) by (simp add: client_of_def)
    moreover have "hw_fence_client_types d' = hw_fence_client_types d" "clients_num d' = clients_num d"
      "rxq_clients_num d' = rxq_clients_num d" "hw_fence_client_queue_size d' = hw_fence_client_queue_size d"
      using register_frame_fields(1) [OF r(4)] by (simp_all add: same_layout_def)
    moreover have "table_inv d'" using table_inv_fields(1) [OF register_frame_fields(4-6) [OF r(4)]] d(5) by simp
    ultimately show thesis
      using r(2,5,8) rows_ok_frame [OF d(2) r(4)] register_frame_fields(6-8,10) [OF r(4)] d(3,4,6,7,9-12) obj
        client_id_priv_types [of d' d sample_platform 8]
      by (intro that [of d' "no_val c"]) simp_all
  qed (use run in auto)
qed

section \<open>Fences of the kernel\<close>

lemma set_then_clear:
  fixes w :: u64
  assumes "\<not> bit w n" and "n < 64"
  shows "clear_bit n (set_bit n w) = w" and "bit (set_bit n w) n" and "\<not> bit (clear_bit n w) n"
proof -
  show "clear_bit n (set_bit n w) = w"
    by (rule bit_word_eqI) (use assms in \<open>auto simp: clear_bit_def bit_set_bit_iff bit_and_iff bit_not_iff bit_exp_iff\<close>)
  show "bit (set_bit n w) n" "\<not> bit (clear_bit n w) n"
    using assms by (simp_all add: clear_bit_def bit_set_bit_iff bit_and_iff bit_not_iff bit_exp_iff)
qed

lemma fence_flag_kept:
  "table_inv (d\<lparr>dma_fences := x\<rparr>) = table_inv d" "fence_map (d\<lparr>dma_fences := x\<rparr>) = fence_map d"
  "free_slots (d\<lparr>dma_fences := x\<rparr>) = free_slots d"
  by (simp_all add: table_inv_def table_ok_def keys_unique_def free_clean_def fence_map_def free_slots_def)

text \<open>The fences of the kernel and the fence table stay in step: once the other machine is ready, creating a
  hw-fence for a plain kernel fence that has none stores it under the fence's context and sequence number, hands
  out its index and marks the kernel fence as backed; creating it a second time is refused without any
  effect. Destroying it takes the fence out of the table and gives the kernel fence the flags it had, and
  destroying it a second time is refused without any effect.\<close>

lemma api_create_destroy:
  assumes inv: "table_inv d" and ready: "vm_ready d" and c: "client_objs d h = Some c"
    and f: "dma_fences d fid = Some f" "df_array f = None" "\<not> bit (df_flags f) (flag_enabled_bit P)" "flag_enabled_bit P < 64"
    and k: "(df_context f, df_seqno f) \<noteq> (0, 0)" "fence_map d (df_context f, df_seqno f) = None" and room: "0 < free_slots d"
  shows "\<exists>d1 i f1. msm_hw_fence_create P (Some h) (Some fid) (Some x) d = Some (d1, Some (of_nat i), 0) \<and> table_inv d1 \<and>
    fence_map d1 = (fence_map d)((df_context f, df_seqno f) \<mapsto>
      new_fence (qtime d) (cl_client_id c) (df_context f, df_seqno f) 0) \<and>
    dma_fences d1 = (dma_fences d)(fid \<mapsto> f1) \<and> bit (df_flags f1) (flag_enabled_bit P) \<and>
    msm_hw_fence_create P (Some h) (Some fid) (Some x) d1 = Some (d1, Some x, - EINVAL) \<and>
    (\<exists>d2. msm_hw_fence_destroy P (Some h) (Some fid) d1 = Some (d2, 0) \<and> table_inv d2 \<and>
       fence_map d2 = fence_map d \<and> free_slots d2 = free_slots d \<and> dma_fences d2 = dma_fences d \<and>
       msm_hw_fence_destroy P (Some h) (Some fid) d2 = Some (d2, - EINVAL))"
proof -
  let ?k = "(df_context f, df_seqno f)" and ?e = "flag_enabled_bit P"
  let ?new = "new_fence (qtime d) (cl_client_id c) ?k 0"
  let ?f1 = "f\<lparr>df_flags := set_bit ?e (df_flags f)\<rparr>"
  obtain i where i: "i < length (hw_fences_tbl d)" "hf_valid (hw_fences_tbl d ! i) = 0"
    and create: "hw_fence_create d c (df_context f) (df_seqno f) x = Some (set_fence i ?new d, of_nat i, 0)"
    using hw_fence_create_new [OF inv k(2) room] by metis
  note ins = table_inv_insert [OF inv i, of ?new]
  note bits = set_then_clear [OF f(3,4)]
  obtain d1 where d1: "d1 = (set_fence i ?new d)\<lparr>dma_fences := (dma_fences d)(fid \<mapsto> ?f1)\<rparr>" by blast
  have inv1: "table_inv d1" "fence_map d1 = (fence_map d)(?k \<mapsto> ?new)" "Suc (free_slots d1) = free_slots d"
    using ins k(2) by (simp_all add: fence_flag_kept d1)
  have fr1: "dma_fences d1 = (dma_fences d)(fid \<mapsto> ?f1)" "client_objs d1 = client_objs d" "vm_ready d1"
    using ready by (simp_all add: d1 set_fence_def)
  have c1: "msm_hw_fence_create P (Some h) (Some fid) (Some x) d = Some (d1, Some (of_nat i), 0)"
    using ready f c create by (simp add: msm_hw_fence_create_def set_fence_bit_def set_fence_def d1)
  have again: "msm_hw_fence_create P (Some h) (Some fid) (Some x) d1 = Some (d1, Some x, - EINVAL)"
    using f(2) bits fr1 by (simp add: msm_hw_fence_create_def)
  obtain j where j: "stored_at d1 ?k j"
    using fence_map_stored_at [OF inv1(1), of ?k] inv1(2) by (metis fun_upd_same)
  obtain d2 where d2: "d2 = set_fence j (unreserve_hw_fence d1 (hw_fences_tbl d1 ! j) (cl_client_id c) (df_context f) (df_seqno f) 0) d1"
    by blast
  note del = unreserve_deletes [OF inv1(1) j, of "cl_client_id c", folded d2]
  have destroy: "hw_fence_destroy d1 c (df_context f) (df_seqno f) = Some (d2, 0)"
    using hw_fence_cleanup_stored [OF inv1(1) k(1) j] by (simp add: hw_fence_destroy_def d2)
  have fr2: "dma_fences d2 = dma_fences d1" by (simp add: d2 set_fence_def)
  obtain d3 where d3: "d3 = d2\<lparr>dma_fences := dma_fences d\<rparr>" by blast
  have "(dma_fences d)(fid \<mapsto> f) = dma_fences d" using f(1) by (simp add: fun_upd_idem)
  then have c2: "msm_hw_fence_destroy P (Some h) (Some fid) d1 = Some (d3, 0)"
    using f(2) c destroy bits fr1 fr2 by (simp add: msm_hw_fence_destroy_def d3)
  have "table_inv d3" "fence_map d3 = fence_map d" "free_slots d3 = free_slots d" "dma_fences d3 = dma_fences d"
    using del inv1 fun_upd_idem [of "fence_map d" ?k, OF k(2)] by (simp_all add: fence_flag_kept d3)
  moreover have "msm_hw_fence_destroy P (Some h) (Some fid) d3 = Some (d3, - EINVAL)"
    using f by (simp add: msm_hw_fence_destroy_def d3)
  ultimately show ?thesis using c1 inv1(1,2) again c2 bits(2) fr1(1)
    by (intro exI [of _ d1] exI [of _ i] exI [of _ ?f1] conjI exI [of _ d3]) simp_all
qed

definition api_sample :: hwf where
  "api_sample = (table_of (replicate 4 zero_fence))\<lparr>vm_ready := True, client_objs := [0 \<mapsto> zero_client],
     dma_fences := [3 \<mapsto> \<lparr>df_context = 5, df_seqno = 9, df_flags = 0, df_array = None\<rparr>]\<rparr>"

lemma api_create_destroy_example:
  "\<exists>d1 i d2. msm_hw_fence_create sample_platform (Some 0) (Some 3) (Some 0) api_sample = Some (d1, Some (of_nat i), 0) \<and>
    fence_map d1 \<noteq> fence_map api_sample \<and> msm_hw_fence_destroy sample_platform (Some 0) (Some 3) d1 = Some (d2, 0) \<and>
    fence_map d2 = fence_map api_sample"
proof -
  note t = table_inv_fields [of api_sample "table_of (replicate 4 zero_fence)"]
  have s: "table_inv api_sample" "fence_map api_sample = Map.empty" "0 < free_slots api_sample"
    using t table_of_empty by (simp_all add: api_sample_def)
  have o: "vm_ready api_sample" "client_objs api_sample 0 = Some zero_client"
    "dma_fences api_sample 3 = Some \<lparr>df_context = 5, df_seqno = 9, df_flags = 0, df_array = None\<rparr>"
    by (simp_all add: api_sample_def)
  from api_create_destroy [OF s(1) o, where P = sample_platform and x = 0] s(2,3) show ?thesis by auto
qed

section \<open>The reset of a client\<close>

text \<open>The rest of the state, up to the fence table.\<close>

definition frame_but_table :: "hwf \<Rightarrow> hwf \<Rightarrow> bool" where
  "frame_but_table d d' \<longleftrightarrow> same_frame (d\<lparr>hw_fences_tbl := hw_fences_tbl d'\<rparr>) d'"

lemma frame_but_table_trans: "frame_but_table d d' \<Longrightarrow> frame_but_table d' d'' \<Longrightarrow> frame_but_table d d''"
  by (simp add: frame_but_table_def same_frame_def)

lemma frame_but_tableD:
  assumes "frame_but_table d d'"
  shows "client_of d' = client_of d" and "clients d' = clients d" and "rxq_clients_num d' = rxq_clients_num d"
    and "client_lock_tbl d' = client_lock_tbl d" and "client_lock_tbl_cnt d' = client_lock_tbl_cnt d"
    and "hw_fence_client_queue_size d' = hw_fence_client_queue_size d" and "mask_ready d' = mask_ready d"
    and "qtime d' = qtime d"
  using assms by (simp_all add: frame_but_table_def same_frame_def mask_ready_def)

text \<open>The fences, among the first \<open>k\<close>, whose death client \<open>c\<close> is told: those that the reset client owned,
  that were not signaled and that \<open>c\<close> was waiting for.\<close>

definition tells :: "hwf \<Rightarrow> u32 \<Rightarrow> msm_hw_fence_client \<Rightarrow> nat \<Rightarrow> bool" where
  "tells d cid c i \<longleftrightarrow> owns_dying cid (hw_fences_tbl d ! i) \<and> cl_client_id c \<in> set (all_cids d) \<and>
     awaited_by (unwaited cid (hw_fences_tbl d ! i)) (cl_client_id c)"

definition told :: "hwf \<Rightarrow> u32 \<Rightarrow> msm_hw_fence_client \<Rightarrow> nat \<Rightarrow> nat list" where
  "told d cid c k = filter (tells d cid c) [0..<k]"

text \<open>The signals of these fences, as far as the inbox has room.\<close>

definition told_msgs ::
  "platform \<Rightarrow> hwf \<Rightarrow> u32 \<Rightarrow> u32 \<Rightarrow> nat \<Rightarrow> msm_hw_fence_client \<Rightarrow> queue_msg list \<Rightarrow> bool" where
  "told_msgs P d cid reset_flags k c ms \<longleftrightarrow>
     list_all2 (\<lambda>i m. signal_for P (unwaited cid (hw_fences_tbl d ! i)) i (reset_error P reset_flags) c m)
       (take (inbox_room d c) (told d cid c k)) ms"

lemma inbox_capacity:
  assumes "clients_ready d" and "client_of d n = Some c"
  shows "inbox_room d c + length (inbox d c) = (if cl_update_rxq c then rx_slots c - 1 else 0)"
proof (cases "cl_update_rxq c")
  case True
  then have "ring_ok (rx_slots c) (rx_ring d c)"
    using clients_readyD(2) [OF assms] by (simp add: rx_ready_def txq_wm_def)
  then have "ring_count (rx_slots c) (rx_ring d c) < rx_slots c" by (rule ring_count_less)
  with True show ?thesis by (simp add: inbox_room_def inbox_def ring_room_def)
qed (simp add: inbox_room_def inbox_def)

text \<open>One more fence.\<close>

lemma told_step:
  assumes ready: "clients_ready d" "clients_ready d1" and c: "client_of d n = Some c" "client_of d1 = client_of d"
    and k: "k < length (hw_fences_tbl d)" and ms: "inbox d1 c = inbox d c @ ms" "told_msgs P d cid reset_flags k c ms"
    and step: "if owns_dying cid (hw_fences_tbl d ! k)
       then inbox_after P (unwaited cid (hw_fences_tbl d ! k)) k (reset_error P reset_flags) (all_cids d) d1 d2 c
       else inbox d2 c = inbox d1 c"
  shows "\<exists>ms'. inbox d2 c = inbox d c @ ms' \<and> told_msgs P d cid reset_flags (Suc k) c ms'"
proof -
  let ?is = "told d cid c k" and ?room = "inbox_room d c"
  have len: "length ms = min ?room (length ?is)"
    using ms(2) by (simp add: told_msgs_def list_all2_lengthD [symmetric] min.commute)
  have "inbox_room d1 c + length (inbox d1 c) = inbox_room d c + length (inbox d c)"
    using inbox_capacity [OF ready(1) c(1)] inbox_capacity [OF ready(2), of n c] c by simp
  then have room: "inbox_room d1 c = ?room - length ?is" using ms(1) len by simp
  have Suc: "told d cid c (Suc k) = ?is @ (if tells d cid c k then [k] else [])" by (simp add: told_def)
  show ?thesis
  proof (cases "tells d cid c k \<and> 0 < inbox_room d1 c")
    case True
    then obtain m where m: "signal_for P (unwaited cid (hw_fences_tbl d ! k)) k (reset_error P reset_flags) c m"
      "inbox d2 c = inbox d1 c @ [m]"
      using step by (auto simp: inbox_after_def tells_def simp del: upt_Suc)
    have lt: "0 < ?room - length ?is" using True room by simp
    have "take ?room (told d cid c (Suc k)) = take ?room ?is @ [k]" using lt True by (simp add: Suc)
    then have "told_msgs P d cid reset_flags (Suc k) c (ms @ [m])"
      using ms(2) m(1) by (simp add: told_msgs_def list_all2_appendI)
    with m(2) ms(1) show ?thesis by auto
  next
    case False
    then have same: "inbox d2 c = inbox d1 c"
      using step by (auto simp: inbox_after_def tells_def simp del: upt_Suc split: if_splits)
    have "take ?room (told d cid c (Suc k)) = take ?room ?is" using False room by (cases "tells d cid c k") (simp_all add: Suc)
    then have "told_msgs P d cid reset_flags (Suc k) c ms" using ms(2) by (simp add: told_msgs_def)
    with same ms(1) show ?thesis by auto
  qed
qed

text \<open>The loop over the table. The entry \<open>k\<close> that it works on is still what it was at the start.\<close>

lemma reset_fences:
  assumes inv: "table_inv d" and ready: "clients_ready d" "mask_ready d" and c: "client_objs d h = Some c"
    and h: "n < length (clients d)" "clients d ! n = Some h" "cl_client_id c < 64"
    and own: "\<forall>f\<in>set (hw_fences_tbl d). owned_ok (cl_client_id c) f" and k: "k \<le> length (hw_fences_tbl d)"
  shows "\<exists>d'. chain (reset_fence P h reset_flags) [0..<k] d = Some d' \<and> table_inv d' \<and> clients_ready d' \<and> frame_but_table d d' \<and>
    hw_fences_tbl d' = map (cleaned P (cl_client_id c) reset_flags) (take k (hw_fences_tbl d)) @ drop k (hw_fences_tbl d) \<and>
    (\<exists>c'. client_objs d' h = Some c' \<and> no_val c' = no_val c) \<and>
    (\<forall>m c'. client_of d m = Some c' \<longrightarrow>
       (\<exists>ms. inbox d' c' = inbox d c' @ ms \<and> told_msgs P d (cl_client_id c) reset_flags k c' ms))"
  using k
proof (induction k)
  case 0
  have "frame_but_table d d" by (simp add: frame_but_table_def)
  then show ?case using inv ready c by (simp add: told_msgs_def told_def)
next
  case (Suc k)
  let ?cid = "cl_client_id c" and ?tbl = "hw_fences_tbl d"
  obtain d1 c1 where d1: "chain (reset_fence P h reset_flags) [0..<k] d = Some d1" "table_inv d1" "clients_ready d1"
    "frame_but_table d d1" "hw_fences_tbl d1 = map (cleaned P ?cid reset_flags) (take k ?tbl) @ drop k ?tbl"
    "client_objs d1 h = Some c1" "no_val c1 = no_val c"
    and told: "\<And>m c'. client_of d m = Some c' \<Longrightarrow> \<exists>ms. inbox d1 c' = inbox d c' @ ms \<and> told_msgs P d ?cid reset_flags k c' ms"
    using Suc by auto
  note fr = frame_but_tableD [OF d1(4)]
  have id: "cl_client_id c1 = ?cid" using arg_cong [OF d1(7), of cl_client_id] by simp
  have kl: "k < length ?tbl" "k < length (hw_fences_tbl d1)" "hw_fences_tbl d1 ! k = ?tbl ! k"
    using Suc.prems d1(5) by (simp_all add: nth_append)
  have "owned_ok (cl_client_id c1) (hw_fences_tbl d1 ! k)" using own kl id by simp
  then obtain d2 where d2: "hw_fence_utils_cleanup_fence P d1 c1 k (of_nat k) reset_flags = Some (d2, 0)" "table_inv d2"
    "hw_fences_tbl d2 = (hw_fences_tbl d1)[k := cleaned P ?cid reset_flags (?tbl ! k)]"
    "same_frame (d1\<lparr>hw_fences_tbl := hw_fences_tbl d2\<rparr>) d2" "clients_ready d2"
    and inb: "\<And>m c'. client_of d1 m = Some c' \<Longrightarrow> if owns_dying ?cid (?tbl ! k)
       then inbox_after P (unwaited ?cid (?tbl ! k)) k (reset_error P reset_flags) (all_cids d1) d1 d2 c'
       else inbox d2 c' = inbox d1 c'"
    using cleanup_fence_at [OF d1(2,3) _ kl(2), of c1 P reset_flags] fr(7) ready(2) h(3) unfolding id kl(3) by blast
  have fr2: "frame_but_table d1 d2" using d2(4) by (simp add: frame_but_table_def)
  have "hw_fences_tbl d2 = map (cleaned P ?cid reset_flags) (take (Suc k) ?tbl) @ drop (Suc k) ?tbl"
    unfolding d2(3) d1(5) using kl(1)
    by (simp add: list_update_append take_Suc_conv_app_nth Cons_nth_drop_Suc [symmetric])
  moreover have "\<exists>c'. client_objs d2 h = Some c' \<and> no_val c' = no_val c"
  proof -
    have "clients d2 = clients d" using frame_but_tableD(2) [OF fr2] fr(2) by simp
    then obtain c2 where "client_objs d2 h = Some c2" "client_of d2 n = Some (no_val c2)"
      using client_of_obj [OF d2(5), of n h] h(1,2) by auto
    moreover have "client_of d2 n = Some (no_val c)"
      using frame_but_tableD(1) [OF fr2] fr(1) h c by (simp add: client_of_def)
    ultimately show ?thesis by auto
  qed
  moreover have "\<exists>ms. inbox d2 c' = inbox d c' @ ms \<and> told_msgs P d ?cid reset_flags (Suc k) c' ms"
    if c': "client_of d m = Some c'" for m c'
  proof -
    obtain ms where "inbox d1 c' = inbox d c' @ ms" "told_msgs P d ?cid reset_flags k c' ms" using told [OF c'] by blast
    moreover have "all_cids d1 = all_cids d" using fr(3) by simp
    ultimately show ?thesis
      using told_step [OF ready(1) d1(3) c' fr(1) kl(1)] inb [of m c'] c' fr(1) by metis
  qed
  moreover have "chain (reset_fence P h reset_flags) [0..<Suc k] d = Some d2"
    using d1(1,6) d2(1) by (simp add: chain_append reset_fence_def)
  ultimately show ?case using d2(2,5) frame_but_table_trans [OF d1(4) fr2] by blast
qed

text \<open>Emptying the queues: each is left with its indices at the reader's (rx) or the writer's (tx) place.\<close>

definition tx_emptied :: "msm_hw_fence_client \<Rightarrow> hwf \<Rightarrow> hwf" where
  "tx_emptied c d = (case queue_ring False d (cl_queues c ! TXQ) of
     (rd, wr, ws) \<Rightarrow> set_queue_ring False (cl_queues c ! TXQ) (wr, wr, ws) d)"

definition rx_emptied :: "msm_hw_fence_client \<Rightarrow> hwf \<Rightarrow> hwf" where
  "rx_emptied c d = (case rx_ring d c of (rd, wr, ws) \<Rightarrow> set_queue_ring False (cl_queues c ! RXQ) (rd, rd, ws) d)"

lemma reset_queues_emptied:
  assumes len: "length (cl_queues c) = HW_FENCE_CLIENT_QUEUES" and tx: "qd_va_header (cl_queues c ! TXQ) \<noteq> 0"
    and rx: "rx_ready d c"
  shows "hw_fence_utils_reset_queues d c =
    Some (if cl_update_rxq c then rx_emptied c (tx_emptied c d) else tx_emptied c d)"
proof (cases "cl_update_rxq c")
  case False
  with len tx show ?thesis by (simp add: hw_fence_utils_reset_queues_def tx_emptied_def split: prod.split)
next
  case True
  obtain d1 where d1: "tx_emptied c d = d1" by blast
  obtain rd wr ws where r: "queue_ring False d (cl_queues c ! TXQ) = (rd, wr, ws)" by (metis prod_cases3)
  have t: "set_queue_ring False (cl_queues c ! TXQ) (wr, wr, ws) d = d1" using d1 r by (simp add: tx_emptied_def)
  let ?l = "unat (cl_client_id c - 1)" and ?d = d1
  have q: "queue_ready (rx_slots c) d c RXQ" using rx True by (simp add: rx_ready_def)
  have locks: "client_lock_tbl ?d = client_lock_tbl d" "client_lock_tbl_cnt ?d = client_lock_tbl_cnt d"
    by (simp_all add: t [symmetric])
  have l: "?l < length (client_lock_tbl ?d)" "client_lock_tbl ?d ! ?l = 0" "\<not> client_lock_tbl_cnt ?d \<le> cl_client_id c - 1"
    "qd_va_header (cl_queues c ! RXQ) \<noteq> 0"
    using q by (auto simp: queue_ready_def locks)
  have same: "(client_lock_tbl ?d)[?l := 0] = client_lock_tbl ?d" using l(2) list_update_id by metis
  have lock: "global_atomic_store ?d (ClientLock ?l) True = Some (?d\<lparr>client_lock_tbl := (client_lock_tbl ?d)[?l := 1]\<rparr>)"
    using l(1,2) by (rule client_lock)
  have unlock: "global_atomic_store (set_queue_ring False queue r (?d\<lparr>client_lock_tbl := (client_lock_tbl ?d)[?l := 1]\<rparr>))
      (ClientLock ?l) False = Some (set_queue_ring False queue r ?d)" for queue r
    using l(1,2) by (simp add: client_unlock set_queue_ring_locks same)
  show ?thesis
    using True len tx l(3,4) locks(2) r t d1
    by (simp add: hw_fence_utils_reset_queues_def rx_emptied_def Let_def lock unlock split: prod.split)
qed

lemma cleaned_effect:
  "\<not> awaited_by (cleaned P cid reset_flags f) cid"
  "reset_flags AND reset_without_destroy P = 0 \<Longrightarrow> valid_fence (cleaned P cid reset_flags f) \<Longrightarrow>
     hf_fence_allocator (cleaned P cid reset_flags f) \<noteq> cid"
  by (auto simp: cleaned_def destroys_def cleanup_hw_fence_def unwaited_def and.assoc clear_BIT split: if_splits)

text \<open>The tx queue of one client and the rx queue of any client are apart.\<close>

lemma tx_rx_apart:
  assumes inv: "memory_inv P d" and c: "client_of d n = Some c" "0 < queue_count d n"
    and c': "client_of d m = Some c'" "cl_update_rxq c'"
  shows "qd_va_header (cl_queues c' ! RXQ) \<noteq> qd_va_header (cl_queues c ! TXQ)"
    and "qd_va_queue (cl_queues c' ! RXQ) \<noteq> qd_va_queue (cl_queues c ! TXQ)"
proof -
  have M: "memory_ok P d" using inv by (simp add: memory_inv_def)
  note rn = client_of_registered [OF inv c(1)] and rm = client_of_registered [OF inv c'(1)]
  have tx: "placed P d n (cl_queues c ! TXQ) TXQ" "(n, TXQ) \<in> queue_ids d"
    using rn c(2) by (simp_all add: registered_def queue_ids_def)
  have rx: "placed P d m (cl_queues c' ! RXQ) RXQ" using rm(1) c'(2) by (simp add: registered_def)
  have "(m, RXQ) \<noteq> (n, TXQ)" by simp
  from queue_places_distinct [OF M registered_rx(2) [OF inv rm c'(2)] tx(2) this] tx(1) rx
  show "qd_va_header (cl_queues c' ! RXQ) \<noteq> qd_va_header (cl_queues c ! TXQ)"
    "qd_va_queue (cl_queues c' ! RXQ) \<noteq> qd_va_queue (cl_queues c ! TXQ)"
    by (simp_all add: placed_def)
qed

text \<open>What emptying the queues of client \<open>c\<close> does to the rings.\<close>

definition emptied :: "msm_hw_fence_client \<Rightarrow> hwf \<Rightarrow> hwf" where
  "emptied c d = (if cl_update_rxq c then rx_emptied c (tx_emptied c d) else tx_emptied c d)"

lemma emptied_fields [simp]:
  "hw_fences_tbl (emptied c d) = hw_fences_tbl d" "hw_fences_tbl_va (emptied c d) = hw_fences_tbl_va d"
  "hw_fence_table_entries (emptied c d) = hw_fence_table_entries d"
  by (simp_all add: emptied_def rx_emptied_def tx_emptied_def split: prod.split)

lemma emptied_frame: "same_frame d (emptied c d)"
  unfolding emptied_def rx_emptied_def tx_emptied_def
  by (auto split: prod.split intro: same_frame_set_queue_ring same_frame_trans)

lemma emptied_rings:
  assumes apart: "cl_update_rxq c \<Longrightarrow> qd_va_header (cl_queues c ! RXQ) \<noteq> qd_va_header (cl_queues c ! TXQ) \<and>
      qd_va_queue (cl_queues c ! RXQ) \<noteq> qd_va_queue (cl_queues c ! TXQ)"
  shows "\<exists>i ws. queue_ring False (emptied c d) (cl_queues c ! TXQ) = (i, i, ws)"
    and "cl_update_rxq c \<Longrightarrow> rx_ring d c = (rd, wr, ws) \<Longrightarrow> rx_ring (emptied c d) c = (rd, rd, ws)"
    and "qd_va_header queue \<noteq> qd_va_header (cl_queues c ! TXQ) \<Longrightarrow> qd_va_queue queue \<noteq> qd_va_queue (cl_queues c ! TXQ) \<Longrightarrow>
      (cl_update_rxq c \<Longrightarrow> qd_va_header queue \<noteq> qd_va_header (cl_queues c ! RXQ) \<and>
         qd_va_queue queue \<noteq> qd_va_queue (cl_queues c ! RXQ)) \<Longrightarrow>
      queue_ring False (emptied c d) queue = queue_ring False d queue"
proof -
  obtain ti tw tws where t: "queue_ring False d (cl_queues c ! TXQ) = (ti, tw, tws)" by (metis prod_cases3)
  obtain ri rw rws where r: "rx_ring d c = (ri, rw, rws)" by (metis prod_cases3)
  let ?d = "set_queue_ring False (cl_queues c ! TXQ) (tw, tw, tws) d"
  have tx: "tx_emptied c d = ?d" using t by (simp add: tx_emptied_def)
  have rx: "rx_emptied c ?d = set_queue_ring False (cl_queues c ! RXQ) (ri, ri, rws) ?d" if "cl_update_rxq c"
    using r apart [OF that] by (simp add: rx_emptied_def queue_ring_other)
  have e: "emptied c d = (if cl_update_rxq c then set_queue_ring False (cl_queues c ! RXQ) (ri, ri, rws) ?d else ?d)"
    using rx by (simp add: emptied_def tx)
  show "\<exists>i ws. queue_ring False (emptied c d) (cl_queues c ! TXQ) = (i, i, ws)"
    using apart by (cases "cl_update_rxq c") (auto simp: e queue_ring_other)
  show "cl_update_rxq c \<Longrightarrow> rx_ring d c = (rd, wr, ws) \<Longrightarrow> rx_ring (emptied c d) c = (rd, rd, ws)"
    using r by (simp add: e)
  show "qd_va_header queue \<noteq> qd_va_header (cl_queues c ! TXQ) \<Longrightarrow> qd_va_queue queue \<noteq> qd_va_queue (cl_queues c ! TXQ) \<Longrightarrow>
      (cl_update_rxq c \<Longrightarrow> qd_va_header queue \<noteq> qd_va_header (cl_queues c ! RXQ) \<and>
         qd_va_queue queue \<noteq> qd_va_queue (cl_queues c ! RXQ)) \<Longrightarrow>
      queue_ring False (emptied c d) queue = queue_ring False d queue"
    by (cases "cl_update_rxq c") (simp_all add: e queue_ring_other)
qed

text \<open>C23. Resetting a client frees everything it held and tells everybody who depended on it. On a driver in
  order, the reset of a registered client returns 0; afterwards each entry of the fence table is what cleaning
  makes of it, so that the client waits for no fence and, unless the caller asked to keep them, owns none; its
  own queues are empty; and every other client finds its inbox extended by exactly the signals of the
  reset client's unsignaled fences that it was waiting for, in the order of the table, with the reset
  error or without an error as the caller asked, as many as its queue has room for.\<close>

theorem reset_client:
  assumes inv: "memory_inv P d" "table_inv d" "mask_ready d" and vm: "vm_ready d"
    and cnt: "hw_fences_tbl_cnt d = hw_fence_table_entries d"
    and c: "client_of d n = Some c" "clients d ! n = Some h" "cl_client_id c < 64"
    and own: "\<forall>f\<in>set (hw_fences_tbl d). owned_ok (cl_client_id c) f"
  shows "\<exists>d'. msm_hw_fence_reset_client P (Some h) reset_flags d = Some (d', 0) \<and> table_inv d' \<and> clients_ready d' \<and>
    client_of d' = client_of d \<and>
    hw_fences_tbl d' = map (cleaned P (cl_client_id c) reset_flags) (hw_fences_tbl d) \<and>
    (\<forall>f\<in>set (hw_fences_tbl d'). \<not> awaited_by f (cl_client_id c) \<and>
       (reset_flags AND reset_without_destroy P = 0 \<longrightarrow> valid_fence f \<longrightarrow> hf_fence_allocator f \<noteq> cl_client_id c)) \<and>
    inbox d' c = [] \<and> (\<exists>i ws. queue_ring False d' (cl_queues c ! TXQ) = (i, i, ws)) \<and>
    (\<forall>m c'. m \<noteq> n \<longrightarrow> client_of d m = Some c' \<longrightarrow>
       (\<exists>ms. inbox d' c' = inbox d c' @ ms \<and> told_msgs P d (cl_client_id c) reset_flags (length (hw_fences_tbl d)) c' ms))"
proof -
  let ?cid = "cl_client_id c" and ?tbl = "hw_fences_tbl d"
  have M: "memory_ok P d" using inv(1) by (simp add: memory_inv_def)
  have ready: "clients_ready d" by (rule memory_clients_ready [OF inv(1)])
  have n: "n < length (clients d)" using c(1) by (simp add: client_of_def split: if_splits)
  obtain c0 where c0: "client_objs d h = Some c0" "no_val c0 = c"
    using c(1,2) n by (auto simp: client_of_def)
  have id: "cl_client_id c0 = ?cid" using c0(2) by auto
  obtain d1 c1 where d1: "chain (reset_fence P h reset_flags) [0..<length ?tbl] d = Some d1" "table_inv d1" "clients_ready d1"
    "frame_but_table d d1" "hw_fences_tbl d1 = map (cleaned P ?cid reset_flags) ?tbl" "client_objs d1 h = Some c1" "no_val c1 = c"
    and told: "\<And>m c'. client_of d m = Some c' \<Longrightarrow> \<exists>ms. inbox d1 c' = inbox d c' @ ms \<and>
        told_msgs P d ?cid reset_flags (length ?tbl) c' ms"
    using reset_fences [OF inv(2) ready inv(3) c0(1) n c(2), of "length ?tbl" P reset_flags] c(3) own c0(2) unfolding id by auto
  note fr = frame_but_tableD [OF d1(4)]
  have c1: "cl_queues c1 = cl_queues c" "cl_update_rxq c1 = cl_update_rxq c" "cl_client_id c1 = ?cid"
    using d1(7) by auto
  have reg: "registered P d n c" "n < unat (clients_num d)" using client_of_registered [OF inv(1) c(1)] by simp_all
  then have qc: "0 < queue_count d n" by (simp add: registered_def)
  have x: "(n, TXQ) \<in> queue_ids d" using reg(2) qc by (simp add: queue_ids_def)
  have tx: "qd_va_header (cl_queues c ! TXQ) \<noteq> 0"
    using hdr_addr_nonzero [OF M x] reg(1) qc by (simp add: registered_def placed_def)
  have apart: "qd_va_header (cl_queues c' ! RXQ) \<noteq> qd_va_header (cl_queues c ! TXQ) \<and>
      qd_va_queue (cl_queues c' ! RXQ) \<noteq> qd_va_queue (cl_queues c ! TXQ)"
    if "client_of d m = Some c'" "cl_update_rxq c'" for m c'
    using tx_rx_apart [OF inv(1) c(1) qc that] by simp
  have rx: "rx_ready d1 c" using clients_readyD(2) [OF d1(3)] c(1) fr(1) by simp
  have same: "emptied c1 d1 = emptied c d1" "rx_ready d1 c1 = rx_ready d1 c"
    using d1(7) no_val_ready(4) [of d1 c1] by (simp_all add: emptied_def rx_emptied_def tx_emptied_def c1)
  have "hw_fence_utils_reset_queues d1 c1 = Some (emptied c1 d1)"
    using reset_queues_emptied [of c1 d1] reg(1) tx rx same(2) c1(1) by (simp add: registered_def emptied_def)
  then have run: "msm_hw_fence_reset_client P (Some h) reset_flags d = Some (emptied c d1, 0)"
    using vm cnt inv(2) d1(1,6) same(1)
    by (simp add: msm_hw_fence_reset_client_def table_inv_def table_ok_def)
  note rings = emptied_rings [of c, OF apart [OF c(1)]]
  have mine: "c' = c" if "client_of d n = Some c'" for c' using that c(1) by simp
  have other: "rx_ring (emptied c d1) c' = rx_ring d1 c'" if "client_of d m = Some c'" "m \<noteq> n" "cl_update_rxq c'" for m c'
    using rings(3) [of "cl_queues c' ! RXQ" d1] apart [OF that(1,3)] clients_readyD(3) [OF ready that(1) c(1) that(2,3)]
    by (auto simp: rx_apart_def)
  have ready2: "clients_ready (emptied c d1)"
  proof (rule clients_ready_frame [OF d1(3) emptied_frame])
    fix m c' assume c': "client_of d1 m = Some c'" "cl_update_rxq c'"
    have ok: "ring_ok (rx_slots c') (rx_ring d1 c')" using clients_readyD(2) [OF d1(3) c'(1)] c'(2) by (simp add: rx_ready_def txq_wm_def)
    obtain rd wr ws where r: "rx_ring d1 c' = (rd, wr, ws)" by (metis prod_cases3)
    show "ring_ok (rx_slots c') (rx_ring (emptied c d1) c')"
    proof (cases "m = n")
      case True
      then have "c' = c" using c' fr(1) mine by simp
      with ok r rings(2) [of d1 rd wr ws] c'(2) show ?thesis by (auto simp: ring_ok_def)
    next
      case False
      with other [of m c'] c' fr(1) ok show ?thesis by simp
    qed
  qed
  have "inbox (emptied c d1) c = []"
  proof (cases "cl_update_rxq c")
    case True
    obtain rd wr ws where "rx_ring d1 c = (rd, wr, ws)" by (metis prod_cases3)
    with rings(2) [of d1 rd wr ws] True show ?thesis by (simp add: inbox_def ring_items.simps ring_count.simps)
  qed (simp add: inbox_def)
  moreover have "inbox (emptied c d1) c' = inbox d1 c'" if "client_of d m = Some c'" "m \<noteq> n" for m c'
    using other [OF that] by (simp add: inbox_def)
  moreover have "table_inv (emptied c d1)" using table_inv_fields [of "emptied c d1" d1] d1(2) by simp
  moreover have "client_of (emptied c d1) = client_of d" using emptied_frame [of d1 c] fr(1) by (simp add: same_frame_def)
  ultimately show ?thesis
    using run ready2 rings(1) [of d1] d1(5) told cleaned_effect
    by (intro exI [of _ "emptied c d1"]) auto
qed

theorem reset_client_witness:
  "\<exists>d d'. vm_ready d \<and> (\<exists>f\<in>set (hw_fences_tbl d). hf_fence_allocator f = 8 \<and> valid_fence f) \<and>
    msm_hw_fence_reset_client sample_platform (Some 0) 0 d = Some (d', 0) \<and>
    (\<forall>f\<in>set (hw_fences_tbl d'). \<not> (hf_fence_allocator f = 8 \<and> valid_fence f)) \<and> length (hw_fences_tbl d') = 4"
proof -
  obtain d0 c where d0: "memory_inv sample_platform d0" "clients d0 ! 8 = Some 0" "client_of d0 8 = Some c" "table_inv d0"
    "rxq_clients_num d0 = 14" "hw_fence_table_entries d0 = 4" "hw_fences_tbl_cnt d0 = 4" "queue_count d0 8 = 2"
    "clients_num d0 = 17"
    by (rule register_sample)
  let ?f = "new_fence 0 8 (5, 9) 0"
  let ?d = "d0\<lparr>vm_ready := True, hw_fences_tbl := [?f, zero_fence, zero_fence, zero_fence]\<rparr>"
  have lay: "same_layout d0 ?d" by (simp add: same_layout_def)
  have inv: "memory_inv sample_platform ?d"
    by (rule memory_inv_kept [OF d0(1) lay]) (simp_all add: rings_kept_same [OF lay])
  have tbl: "table_inv ?d"
    using d0(4,6) by (simp add: table_inv_def table_ok_def keys_unique_def keyed_unique_def keyed_at_def free_clean_def
        zero_fence_def key_def nth_Cons split: nat.splits)
  have mask: "mask_ready ?d" using d0(1,5,9) by (simp add: mask_ready_def memory_inv_def clients_ok_def)
  have "client_of ?d = client_of d0" by (rule ext) (simp add: client_of_def)
  then have cl: "client_of ?d 8 = Some c" using d0(3) by simp
  have "unat (cl_client_id c) = 8" using clients_readyD(1) [OF memory_clients_ready [OF inv] cl] .
  then have id: "cl_client_id c = 8" by (simp add: word_unat_eq_iff)
  have own: "\<forall>f\<in>set (hw_fences_tbl ?d). owned_ok (cl_client_id c) f"
    by (simp add: owned_ok_def id zero_fence_def)
  obtain d' where d': "msm_hw_fence_reset_client sample_platform (Some 0) 0 ?d = Some (d', 0)"
    "hw_fences_tbl d' = map (cleaned sample_platform 8 0) (hw_fences_tbl ?d)"
    "\<forall>f\<in>set (hw_fences_tbl d'). valid_fence f \<longrightarrow> hf_fence_allocator f \<noteq> 8"
    using reset_client [OF inv tbl mask _ _ cl _ _ own, of 0 0] d0(2,6-8) id by auto
  have "hf_fence_allocator ?f = 8 \<and> valid_fence ?f" by (simp add: new_fence_def)
  with d' show ?thesis by (intro exI [of _ ?d] exI [of _ d']) auto
qed

end
