(* ===== verification/HwfKeeps.thy ===== *)
theory HwfKeeps
  imports HwfApi
begin

text \<open>
  What a call of the driver keeps. \<open>driver_inv\<close> is the state in good order, and \<open>keeps\<close> relates it to a later state that is
  in order again with the same clients, layout and sizes. Each operation of the driver, on a state in order and with
  sound arguments, returns (its result is not \<open>None\<close>) and keeps the state: steps on the table, the queues, signals, creating
  and destroying, waiting for fences and arrays with their roll-backs, and the reset of a client.
\<close>

section \<open>What a call keeps\<close>

text \<open>Clients apart from the flag on which a validation client waits.\<close>

abbreviation same_objs :: "hwf \<Rightarrow> hwf \<Rightarrow> bool" where
  "same_objs d d' \<equiv> \<forall>h. map_option no_val (client_objs d' h) = map_option no_val (client_objs d h)"

text \<open>The fences of the kernel keep their keys and children; only flags change.\<close>

abbreviation no_flags :: "dma_fence \<Rightarrow> dma_fence" where
  "no_flags f \<equiv> f\<lparr>df_flags := 0\<rparr>"

definition call_frame :: "hwf \<Rightarrow> hwf \<Rightarrow> bool" where
  "call_frame d d' \<longleftrightarrow> same_layout d d' \<and> client_lock_tbl d' = client_lock_tbl d \<and>
     client_lock_tbl_cnt d' = client_lock_tbl_cnt d \<and> clients d' = clients d \<and> same_objs d d' \<and> next_obj d' = next_obj d \<and>
     hw_fence_table_entries d' = hw_fence_table_entries d \<and> hw_fences_tbl_va d' = hw_fences_tbl_va d \<and>
     hw_fences_tbl_cnt d' = hw_fences_tbl_cnt d \<and> length (hw_fences_tbl d') = length (hw_fences_tbl d) \<and>
     ipc_clients_table d' = ipc_clients_table d \<and> ctl_start_ptr d' = ctl_start_ptr d \<and>
     resources_ready d' = resources_ready d \<and> vm_ready d' = vm_ready d \<and>
     (\<forall>f. map_option no_flags (dma_fences d' f) = map_option no_flags (dma_fences d f))"

lemma call_frame_refl [simp]: "call_frame d d"
  by (simp add: call_frame_def)

lemma call_frame_trans: "call_frame d d' \<Longrightarrow> call_frame d' d'' \<Longrightarrow> call_frame d d''"
  using same_layout_trans by (auto simp: call_frame_def)

text \<open>What the doorbell takes for granted: the loop-back clients are among the 31 bits of its word and among the clients,
  and the GPU has an rx queue.\<close>

definition doorbell_target :: "platform \<Rightarrow> hwf \<Rightarrow> bool" where
  "doorbell_target P d \<longleftrightarrow> length (ctl_start_ptr d) = HW_FENCE_MAX_DPU_LOOPBACK_CLIENTS \<and>
     HW_FENCE_LOOPBACK_MAX P \<le> 31 \<and> HW_FENCE_LOOPBACK_MAX P \<le> unat (clients_num d) \<and>
     unat (client_id P CTX0) < unat (clients_num d) \<and> queue_count d (unat (client_id P CTX0)) = HW_FENCE_CLIENT_QUEUES"

text \<open>The state in order: memory and clients, the table with its locks, and ids that fit a wait mask.\<close>

definition driver_inv :: "platform \<Rightarrow> hwf \<Rightarrow> bool" where
  "driver_inv P d \<longleftrightarrow> memory_inv P d \<and> table_ok d \<and> rows_ok d \<and> mask_ready d \<and> resources_ready d \<and>
     hw_fences_tbl_cnt d = hw_fence_table_entries d \<and> clients_num d \<le> 64 \<and> doorbell_target P d"

definition rings_alive :: "platform \<Rightarrow> hwf \<Rightarrow> hwf \<Rightarrow> bool" where
  "rings_alive P d d' \<longleftrightarrow> rings_ok P d' \<and>
     (\<forall>x\<in>queue_ids d. q_words d (words_addr P d x) \<noteq> [] \<longrightarrow> q_words d' (words_addr P d x) \<noteq> [])"

lemma registered_alive:
  assumes "same_layout d d'" and "rings_alive P d d'" and "n < unat (clients_num d)" and "registered P d n c"
  shows "registered P d' n c"
proof -
  have qs: "hw_fence_client_queue_size d' = hw_fence_client_queue_size d" "rxq_clients_num d' = rxq_clients_num d"
    using assms(1) by (simp_all add: same_layout_def)
  note pl = same_layout_places [OF assms(1)]
  have "placed P d' n queue i" if "i < queue_count d n" "placed P d n queue i" for queue i
    using that assms(2,3) by (auto simp: placed_def pl qs rings_alive_def queue_ids_def)
  with assms(4) show ?thesis by (simp add: registered_def qs)
qed

lemma same_objs_Some:
  assumes "same_objs d d'" and "client_objs d h = Some c"
  obtains c' where "client_objs d' h = Some c'" "no_val c' = no_val c"
proof -
  have "map_option no_val (client_objs d' h) = Some (no_val c)" using assms by simp
  then show thesis using that by auto
qed

lemma registered_no_val_eq: "no_val c' = no_val c \<Longrightarrow> registered P d n c' = registered P d n c"
  using registered_no_val [of P d n c] registered_no_val [of P d n c'] by simp

lemma driver_inv_kept:
  assumes inv: "driver_inv P d" and fr: "call_frame d d'" and rings: "rings_alive P d d'" and tbl: "table_ok d'"
  shows "driver_inv P d'"
proof -
  have lay: "same_layout d d'" and objs: "same_objs d d'" and cl: "clients d' = clients d" "next_obj d' = next_obj d"
    and locks: "client_lock_tbl d' = client_lock_tbl d" "client_lock_tbl_cnt d' = client_lock_tbl_cnt d"
    using fr by (simp_all add: call_frame_def)
  have num: "clients_num d' = clients_num d" "rxq_clients_num d' = rxq_clients_num d"
    "hw_fence_client_queue_size d' = hw_fence_client_queue_size d"
    using lay by (simp_all add: same_layout_def)
  have ok: "clients_ok P d" using inv by (simp add: driver_inv_def memory_inv_def)
  have "clients_ok P d'"
    unfolding clients_ok_def
  proof (intro conjI allI impI)
    show "length (clients d') = unat (clients_num d')" using ok cl num by (simp add: clients_ok_def)
    fix h assume "next_obj d' \<le> h"
    then have "client_objs d h = None" using ok cl by (simp add: clients_ok_def)
    moreover have "map_option no_val (client_objs d' h) = map_option no_val (client_objs d h)" using objs by blast
    ultimately show "client_objs d' h = None" by simp
  next
    fix n h assume n: "n < length (clients d')" "clients d' ! n = Some h"
    then obtain c where c: "client_objs d h = Some c" "registered P d n c"
      using ok cl(1) by (fastforce simp: clients_ok_def)
    obtain c' where c': "client_objs d' h = Some c'" "no_val c' = no_val c" using objs c(1) by (rule same_objs_Some)
    have "n < unat (clients_num d)" using ok n cl by (simp add: clients_ok_def)
    then have "registered P d' n c'" using registered_alive [OF lay rings _ c(2)] registered_no_val_eq [OF c'(2)] by simp
    with c'(1) show "\<exists>c. client_objs d' h = Some c \<and> registered P d' n c" by blast
  qed
  then have "memory_inv P d'"
    using inv rings locks num same_layout_places(4) [OF lay]
    by (simp add: driver_inv_def memory_inv_def locks_free_def rings_alive_def)
  moreover have "rows_ok d'" "mask_ready d'" "resources_ready d'" "hw_fences_tbl_cnt d' = hw_fence_table_entries d'" "clients_num d' \<le> 64"
    "doorbell_target P d'"
    using inv fr num by (simp_all add: driver_inv_def call_frame_def rows_ok_def mask_ready_def doorbell_target_def)
  ultimately show ?thesis using tbl by (simp add: driver_inv_def)
qed

text \<open>A step that keeps the order and the frame.\<close>

definition keeps :: "platform \<Rightarrow> hwf \<Rightarrow> hwf \<Rightarrow> bool" where
  "keeps P d d' \<longleftrightarrow> driver_inv P d' \<and> call_frame d d'"

lemma keeps_refl: "driver_inv P d \<Longrightarrow> keeps P d d"
  by (simp add: keeps_def)

lemma keeps_trans: "keeps P d d' \<Longrightarrow> keeps P d' d'' \<Longrightarrow> keeps P d d''"
  using call_frame_trans by (auto simp: keeps_def)

text \<open>A step outside the rings.\<close>

lemma keepsI:
  assumes "driver_inv P d" and "call_frame d d'" and "hfi_hdrs d' = hfi_hdrs d" and "q_words d' = q_words d" and "table_ok d'"
  shows "keeps P d d'"
proof -
  have lay: "same_layout d d'" using assms(2) by (simp add: call_frame_def)
  have "rings_kept P d d'" by (rule rings_kept_same [OF lay assms(3,4)])
  then have "rings_alive P d d'"
    using rings_ok_kept [OF lay] assms(1,4) by (auto simp: rings_alive_def driver_inv_def memory_inv_def)
  then show ?thesis using driver_inv_kept [OF assms(1,2) _ assms(5)] assms(2) by (simp add: keeps_def)
qed

section \<open>Steps on the table, the registers and the flags\<close>

lemma driver_invD:
  assumes "driver_inv P d"
  shows "table_ok d" and "memory_ok P d" and "rings_ok P d" and "mask_ready d" and "clients_ok P d" and "rows_ok d"
    and "resources_ready d" and "memory_inv P d"
  using assms by (simp_all add: driver_inv_def memory_inv_def)

lemma keeps_fence:
  assumes "driver_inv P d" and "hf_lock g = 0"
  shows "keeps P d (set_fence i g d)"
  using assms(1) table_ok_set_fence [OF driver_invD(1) [OF assms(1)] assms(2)]
  by (intro keepsI) (simp_all add: call_frame_def same_layout_def set_fence_def)

lemma keeps_lookup:
  assumes "driver_inv P d"
  obtains d' h' r where "hw_fence_lookup_and_process d c s cid pend op_code h = Some (d', h', r)" "keeps P d d'"
    "\<forall>i. r = Some i \<longrightarrow> i < length (hw_fences_tbl d') \<and> (op_code \<noteq> OP_DESTROY \<longrightarrow> key (hw_fences_tbl d' ! i) = (c, s))"
proof -
  note ok = driver_invD(1) [OF assms]
  obtain h' where h': "hw_fence_lookup_and_process d c s cid pend op_code h =
    (case lookup_result d c s cid pend op_code (find (\<lambda>i. probe_stop op_code c s (hw_fences_tbl d ! i)) (probe_order d c s)) of
      (d', r) \<Rightarrow> Some (d', (case r of None \<Rightarrow> h' | Some i \<Rightarrow> of_nat i), r))"
    using ok by (rule lookup_find)
  show thesis
  proof (cases "\<exists>i. find (\<lambda>i. probe_stop op_code c s (hw_fences_tbl d ! i)) (probe_order d c s) = Some i \<and>
      compare_fnc op_code (hw_fences_tbl d ! i) c s")
    case True
    then obtain i where F: "find (\<lambda>i. probe_stop op_code c s (hw_fences_tbl d ! i)) (probe_order d c s) = Some i"
      and cmp: "compare_fnc op_code (hw_fences_tbl d ! i) c s" by blast
    have i: "i < length (hw_fences_tbl d)" using F by (rule find_probe_Some)
    let ?g = "process_fnc op_code d (hw_fences_tbl d ! i) cid c s pend"
    have "keeps P d (set_fence i ?g d)" using assms table_okD(4) [OF ok i] by (intro keeps_fence) simp_all
    moreover have "op_code \<noteq> OP_DESTROY \<longrightarrow> key ?g = (c, s)"
      using cmp by (cases op_code)
        (simp_all add: key_def reserve_hw_fence_def reserve_join_fence_def Let_def fence_found_def hw_fence_match_def)
    ultimately show thesis using h' F cmp i by (intro that [of "set_fence i ?g d" "of_nat i" "Some i"]) (simp_all add: lookup_result_def)
  next
    case False
    then have "lookup_result d c s cid pend op_code (find (\<lambda>i. probe_stop op_code c s (hw_fences_tbl d ! i)) (probe_order d c s)) = (d, None)"
      by (simp add: lookup_result_def split: option.split)
    with h' keeps_refl [OF assms] show thesis by (intro that [of d h' None]) simp_all
  qed
qed

lemma keeps_cleanup:
  assumes "driver_inv P d"
  obtains d' ret where "hw_fence_cleanup d cid context seqno = Some (d', ret)" "keeps P d d'" "ret \<in> {0, - EINVAL}"
proof -
  obtain d' h' r where "hw_fence_lookup_and_process d context seqno cid 0 OP_DESTROY 0 = Some (d', h', r)" "keeps P d d'"
    using assms by (rule keeps_lookup)
  then show thesis by (intro that [of d' "if r = None then - EINVAL else 0"]) (simp_all add: hw_fence_cleanup_def)
qed

lemma keeps_destroy:
  assumes "driver_inv P d"
  obtains d' ret where "hw_fence_destroy d c context seqno = Some (d', ret)" "keeps P d d'"
proof -
  obtain d' ret where "hw_fence_cleanup d (cl_client_id c) context seqno = Some (d', ret)" "keeps P d d'"
    using assms by (rule keeps_cleanup)
  then show thesis by (intro that) (auto simp: hw_fence_destroy_def)
qed

text \<open>Taking the lock of an entry that nobody holds, changing the entry and giving the lock back.\<close>

lemma entry_lock:
  assumes "driver_inv P d" and "i < length (hw_fences_tbl d)"
  shows "global_atomic_store d (FenceLock i) True = Some (set_fence i ((hw_fences_tbl d ! i)\<lparr>hf_lock := 1\<rparr>) d)"
    and "hf_lock (hw_fences_tbl d ! i) = 0"
    and "hf_lock g = 1 \<Longrightarrow> global_atomic_store (set_fence i g d) (FenceLock i) False = Some (set_fence i (g\<lparr>hf_lock := 0\<rparr>) d)"
  using assms table_okD(4) [OF driver_invD(1) [OF assms(1)] assms(2)] by (simp_all add: fence_lock relock)

lemma keeps_trigger:
  assumes "driver_inv P d"
  shows "keeps P d (hw_fence_ipcc_trigger_signal d a b e)"
  using assms driver_invD(1) [OF assms]
  by (intro keepsI) (simp_all add: hw_fence_ipcc_trigger_signal_def writel_def Let_def call_frame_def same_layout_def table_ok_def)

lemma keeps_fence_bit:
  assumes "driver_inv P d" and "dma_fences d fid = Some f"
  obtains d' where "set_fence_bit fid n d = Some d'" "keeps P d d'"
proof -
  let ?d = "d\<lparr>dma_fences := (dma_fences d)(fid \<mapsto> f\<lparr>df_flags := set_bit n (df_flags f)\<rparr>)\<rparr>"
  have "keeps P d ?d"
    using assms driver_invD(1) [OF assms(1)]
    by (intro keepsI) (simp_all add: call_frame_def same_layout_def table_ok_def)
  then show thesis using assms(2) that [of ?d] by (simp add: set_fence_bit_def)
qed

lemma keeps_val:
  assumes "driver_inv P d" and "client_objs d h = Some c"
  shows "keeps P d (set_client h (c\<lparr>cl_val_signal := v\<rparr>) d)"
  using assms driver_invD(1) [OF assms(1)]
  by (intro keepsI) (simp_all add: set_client_def call_frame_def same_layout_def table_ok_def)

section \<open>Steps on the queues\<close>

lemma keeps_ring:
  assumes inv: "driver_inv P d" and n: "n < unat (clients_num d)" and c: "registered P d n c" and t: "t < queue_count d n"
    and q: "ring_ok (slots d n) (rd, wr, ws)"
  shows "keeps P d (set_queue_ring wm (cl_queues c ! t) (rd, wr, ws) d)"
proof -
  let ?queue = "cl_queues c ! t" and ?d = "set_queue_ring wm (cl_queues c ! t) (rd, wr, ws) d"
  have pl: "qd_va_header ?queue = hdr_addr P d (n, t)" "qd_va_queue ?queue = words_addr P d (n, t)"
    using c t by (simp_all add: registered_def placed_def)
  have x: "(n, t) \<in> queue_ids d" using n t by (simp add: queue_ids_def)
  have ws: "ws \<noteq> []" using q by (auto simp: ring_ok_def)
  have fr: "call_frame d ?d"
    by (simp add: set_queue_ring_def Let_def call_frame_def same_layout_def)
  then have lay: "same_layout d ?d" by (simp add: call_frame_def)
  note pls = same_layout_places [OF lay]
  have sz: "hw_fence_client_queue_size ?d = hw_fence_client_queue_size d" by simp
  have "rings_alive P d ?d"
    unfolding rings_alive_def rings_ok_def pls sz
  proof (intro conjI ballI allI impI)
    fix y wm' assume y: "y \<in> queue_ids d"
    have old: "ring_ok (slots d (fst y)) (place_ring P wm' d y)" using driver_invD(3) [OF inv] y by (simp add: rings_ok_def)
    show "ring_ok (slots d (fst y)) (found_ring wm' ?d (hdr_addr P d y) (words_addr P d y) (slots d (fst y)))"
    proof (cases "y = (n, t)")
      case True
      then show ?thesis using q old ws pl
        by (auto simp: set_queue_ring_def Let_def found_ring_def ring_ok_def)
    next
      case False
      with queue_places_distinct [OF driver_invD(2) [OF inv] y x] pl
      have "found_ring wm' ?d (hdr_addr P d y) (words_addr P d y) (slots d (fst y)) = place_ring P wm' d y"
        by (simp add: set_queue_ring_def Let_def found_ring_def)
      with old show ?thesis by simp
    qed
  next
    fix y assume "y \<in> queue_ids d" "q_words d (words_addr P d y) \<noteq> []"
    then show "q_words ?d (words_addr P d y) \<noteq> []" using ws by (simp add: set_queue_ring_def Let_def)
  qed
  moreover have "table_ok ?d" using driver_invD(1) [OF inv] by (simp add: table_ok_def)
  ultimately show ?thesis using driver_inv_kept [OF inv fr] fr by (simp add: keeps_def)
qed

lemma registered_ring:
  assumes inv: "driver_inv P d" and n: "n < unat (clients_num d)" and c: "registered P d n c" and t: "t < queue_count d n"
  shows "ring_ok (slots d n) (queue_ring wm d (cl_queues c ! t))" and "qd_va_header (cl_queues c ! t) \<noteq> 0"
    and "q_size_u32 (cl_queues c ! t) = ring_size (slots d n)" and "t < HW_FENCE_CLIENT_QUEUES"
proof -
  have x: "(n, t) \<in> queue_ids d" using n t by (simp add: queue_ids_def)
  have pl: "placed P d n (cl_queues c ! t) t" using c t by (simp add: registered_def)
  show "ring_ok (slots d n) (queue_ring wm d (cl_queues c ! t))"
    using driver_invD(3) [OF inv] x placed_ring [OF pl] by (auto simp: rings_ok_def)
  show "qd_va_header (cl_queues c ! t) \<noteq> 0" "q_size_u32 (cl_queues c ! t) = ring_size (slots d n)"
    using pl hdr_addr_nonzero [OF driver_invD(2) [OF inv] x] by (simp_all add: placed_def)
  show "t < HW_FENCE_CLIENT_QUEUES" using memory_fit(1) [OF driver_invD(2) [OF inv] x] t by (auto simp: sizes_fit_def)
qed

text \<open>A handle of a registered client, and the client.\<close>

definition held_handle :: "hwf \<Rightarrow> nat \<Rightarrow> bool" where
  "held_handle d h \<longleftrightarrow> Some h \<in> set (clients d)"

lemma held_client:
  assumes "driver_inv P d" and "held_handle d h"
  obtains c n where "client_objs d h = Some c" "registered P d n c" "n < unat (clients_num d)" "n < length (clients d)" "clients d ! n = Some h"
proof -
  obtain n where n: "n < length (clients d)" "clients d ! n = Some h" using assms(2) by (auto simp: held_handle_def in_set_conv_nth)
  moreover obtain c where "client_objs d h = Some c" "registered P d n c"
    using driver_invD(5) [OF assms(1)] n by (fastforce simp: clients_ok_def)
  moreover have "n < unat (clients_num d)" using driver_invD(5) [OF assms(1)] n(1) by (simp add: clients_ok_def)
  ultimately show thesis using that by blast
qed

lemma held_kept: "keeps P d d' \<Longrightarrow> held_handle d' h = held_handle d h"
  by (simp add: keeps_def call_frame_def held_handle_def)

lemma registered_id: "registered P d n c \<Longrightarrow> unat (cl_client_id c) = n"
  by (simp add: registered_def)

lemma ring_put_any:
  assumes "ring_ok n q"
  obtains q' ret where "ring_put (ring_size n) timestamp m q = Some (q', ret)" "ring_ok n q'"
proof (cases "0 < ring_room n q")
  case True
  then show thesis using ring_put_ok [OF assms True] that by metis
next
  case False
  then show thesis using ring_put_full [OF assms] assms that by simp
qed

lemma keeps_update_queue:
  assumes inv: "driver_inv P d" and n: "n < unat (clients_num d)" and c: "registered P d n c" and t: "t = TXQ \<or> t = RXQ \<and> cl_update_rxq c"
  obtains d' ret where "hw_fence_update_queue d c m t = Some (d', ret)" "keeps P d d'"
proof -
  have qc: "t < queue_count d n"
    using t c by (auto simp: registered_def)
  note r = registered_ring [OF inv n c qc]
  have ready: "queue_ready (slots d n) d c t"
  proof (cases "t = RXQ")
    case True
    then show ?thesis using registered_rx(3) [OF driver_invD(8) [OF inv] c n] t by auto
  next
    case False
    have "n < length (hw_fence_client_queue_size d)"
      using memory_fit(2) [OF driver_invD(2) [OF inv], of n t] n qc by (simp add: queue_ids_def)
    moreover have "unat (cl_client_id c) = n" "t < length (cl_queues c)" using c r(4) by (simp_all add: registered_def)
    ultimately show ?thesis using False r(2-4) qc by (simp add: queue_ready_def)
  qed
  obtain q ret where q: "ring_put (ring_size (slots d n)) (qtime d) m (client_ring d c t) = Some (q, ret)" "ring_ok (slots d n) q"
    using ring_put_any [OF r(1)] by blast
  obtain rd wr ws where "q = (rd, wr, ws)" by (cases q)
  then have "keeps P d (set_queue_ring (txq_wm c t) (cl_queues c ! t) q d)" using keeps_ring [OF inv n c qc] q(2) by simp
  then show thesis using update_queue_ring [OF ready q(1)] that by blast
qed

section \<open>Signals\<close>

text \<open>A client, with or without its flag, in the table.\<close>

definition client_in :: "hwf \<Rightarrow> msm_hw_fence_client \<Rightarrow> bool" where
  "client_in d c \<longleftrightarrow> client_of d (unat (cl_client_id c)) = Some (no_val c)"

lemma client_inD:
  assumes "driver_inv P d" and "client_in d c"
  obtains n h where "n = unat (cl_client_id c)" "registered P d n c" "n < unat (clients_num d)" "n < length (clients d)" "clients d ! n = Some h"
    "cl_client_id c < 64"
proof -
  let ?n = "unat (cl_client_id c)"
  note r = client_of_registered [OF driver_invD(8) [OF assms(1)] assms(2) [unfolded client_in_def]]
  obtain h where "?n < length (clients d)" "clients d ! ?n = Some h"
    using assms(2) by (auto simp: client_in_def client_of_def Option.bind_eq_Some_conv split: if_splits)
  moreover have "unat (clients_num d) \<le> unat (64 :: u32)" using assms(1) by (simp add: driver_inv_def word_le_nat_alt)
  then have "cl_client_id c < 64" using r(2) by (simp add: word_less_nat_alt)
  ultimately show thesis using r by (intro that [of ?n h]) simp_all
qed

lemma held_client_in:
  assumes "driver_inv P d" and "held_handle d h" and "client_objs d h = Some c"
  shows "client_in d c"
proof -
  obtain c' n where "client_objs d h = Some c'" "registered P d n c'" "n < length (clients d)" "clients d ! n = Some h"
    using assms(1,2) by (rule held_client)
  with assms(3) registered_id show ?thesis by (auto simp: client_in_def client_of_def)
qed

lemma client_in_kept:
  assumes "keeps P d d'" and "client_in d c"
  shows "client_in d' c"
proof -
  obtain n h where n: "n = unat (cl_client_id c)" "n < length (clients d)" "clients d ! n = Some h"
    using assms(2) by (auto simp: client_in_def client_of_def Option.bind_eq_Some_conv split: if_splits)
  have eq: "map_option no_val (client_objs d' h) = map_option no_val (client_objs d h)" "clients d' = clients d"
    using assms(1) by (simp_all add: keeps_def call_frame_def)
  show ?thesis using assms(2) n eq by (simp add: client_in_def client_of_def)
qed

lemma keeps_ctl_signal:
  assumes inv: "driver_inv P d" and i: "i < length (hw_fences_tbl d)" and c: "client_in d c"
  obtains d' where "fence_ctl_signal P d c i hash flags client_data error = Some d'" "keeps P d d'"
proof -
  obtain n h where n: "n < length (clients d)" "clients d ! n = Some h" and reg: "registered P d n c" "n < unat (clients_num d)"
    using inv c by (rule client_inD)
  have h: "held_handle d h" using n by (auto simp: held_handle_def in_set_conv_nth)
  define m where "m = \<lparr>qm_ctxt_id = hf_ctx_id (hw_fences_tbl d ! i), qm_seqno = hf_seq_id (hw_fences_tbl d ! i), qm_hash = hash,
    qm_flags = flags, qm_client_data = client_data, qm_error = error\<rparr>"
  obtain d1 ret where d1: "(if cl_update_rxq c then hw_fence_update_queue d c m RXQ else Some (d, 0)) = Some (d1, ret)" "keeps P d d1"
  proof (cases "cl_update_rxq c")
    case True
    then show thesis using keeps_update_queue [OF inv reg(2,1), of RXQ m] that by auto
  next
    case False
    then show thesis using keeps_refl [OF inv] that by simp
  qed
  define d2 where "d2 = (if cl_send_ipc c then hw_fence_ipcc_trigger_signal d1 (ipcc_client_pid d1) (of_int (cl_ipc_client_vid c))
      (of_int (cl_ipc_signal_id c)) else d1)"
  have inv1: "driver_inv P d1" using d1(2) by (simp add: keeps_def)
  have k2: "keeps P d d2" using keeps_trans [OF d1(2)] keeps_trigger [OF inv1] d1(2) by (simp add: d2_def)
  obtain d3 ret3 where d3: "process_validation_client_loopback P d2 (cl_client_id c) = Some (d3, ret3)" "keeps P d2 d3"
  proof (cases "cl_client_id c < client_id P VAL0 \<or> client_id P VAL0 + 6 < cl_client_id c")
    case True
    then show thesis using that [of d2 "- EINVAL"] k2 keeps_refl by (simp add: process_validation_client_loopback_def keeps_def)
  next
    case False
    have cl2: "clients d2 = clients d" "held_handle d2 h" using k2 h held_kept [OF k2] by (simp_all add: keeps_def call_frame_def)
    obtain c2 where c2: "client_objs d2 h = Some c2"
      using held_client [OF _ cl2(2)] k2 unfolding keeps_def by metis
    have "fetch (clients d2) (unat (cl_client_id c)) = Some (Some h)" using n cl2(1) registered_id [OF reg(1)] by simp
    then show thesis using False c2 keeps_val [OF _ c2, of P 1] k2
      by (intro that [of "set_client h (c2\<lparr>cl_val_signal := 1\<rparr>) d2" 0]) (simp_all add: process_validation_client_loopback_def keeps_def)
  qed
  have "fence_ctl_signal P d c i hash flags client_data error =
      Some (if client_id P VAL0 \<le> cl_client_id c \<and> cl_client_id c \<le> client_id P VAL6 then d3 else d2)"
    using i d1(1) d3(1) unfolding d2_def m_def
    by (cases "cl_update_rxq c"; cases "cl_send_ipc c") (simp_all add: fence_ctl_signal_def Let_def)
  then show thesis using that k2 keeps_trans [OF k2 d3(2)] by simp
qed

lemma keeps_signal_wait:
  assumes "driver_inv P d" and "i < length (hw_fences_tbl d)" and "\<forall>cid\<in>set cids. unat cid < length (clients d) \<and> cid < 64"
  shows "\<exists>d'. signal_wait_clients P i hash error cids cd d = Some d' \<and> keeps P d d'"
  using assms
proof (induction cids arbitrary: d cd)
  case Nil
  then show ?case using keeps_refl by simp
next
  case (Cons cid cids)
  have n: "unat cid < length (clients d)" "client_bit cid = Some (BIT cid)" using Cons.prems(3) by (simp_all add: client_bit_def)
  define f where "f = hw_fences_tbl d ! i"
  define cd' where "cd' = (if hw_fence_get_client_data_id P cid < HW_FENCE_MAX_CLIENTS_WITH_DATA
    then hf_client_data f ! hw_fence_get_client_data_id P cid else cd)"
  show ?case
  proof (cases "hf_wait_client_mask f AND BIT cid \<noteq> 0 \<and> clients d ! unat cid \<noteq> None")
    case False
    then have "signal_wait_clients P i hash error (cid # cids) cd d =
        signal_wait_clients P i hash error cids (if hf_wait_client_mask f AND BIT cid \<noteq> 0 then cd' else cd) d"
      using Cons.prems(2) n by (auto simp: Let_def f_def cd'_def)
    then show ?thesis using Cons.IH [OF Cons.prems(1,2)] Cons.prems(3) by simp
  next
    case True
    then obtain h where h: "clients d ! unat cid = Some h" by blast
    then have held: "held_handle d h" using n(1) by (auto simp: held_handle_def in_set_conv_nth)
    obtain c where c: "client_objs d h = Some c" using Cons.prems(1) held by (rule held_client)
    obtain d1 where d1: "fence_ctl_signal P d c i hash 0 cd' error = Some d1" "keeps P d d1"
      using Cons.prems(1,2) held_client_in [OF Cons.prems(1) held c] by (rule keeps_ctl_signal)
    have "\<exists>d'. signal_wait_clients P i hash error cids cd' d1 = Some d' \<and> keeps P d1 d'"
      using d1(2) Cons.prems by (intro Cons.IH) (simp_all add: keeps_def call_frame_def)
    then obtain d' where d': "signal_wait_clients P i hash error cids cd' d1 = Some d'" "keeps P d1 d'" by blast
    have "signal_wait_clients P i hash error (cid # cids) cd d = Some d'"
      using True Cons.prems(2) n h c d1(1) d'(1) unfolding f_def cd'_def by (simp add: Let_def)
    then show ?thesis using keeps_trans [OF d1(2) d'(2)] by blast
  qed
qed

lemma keeps_signal_all:
  assumes "driver_inv P d" and "i < length (hw_fences_tbl d)"
  obtains d' where "signal_all_wait_clients P d i hash error = Some d'" "keeps P d d'"
proof -
  have mask: "mask_ready d" using driver_invD(4) [OF assms(1)] .
  have n: "unat (rxq_clients_num d) < 64" using mask by (simp add: mask_ready_def word_less_nat_alt)
  have u: "unat (of_nat k :: u32) = k" if "k \<le> unat (rxq_clients_num d)" for k using that n by (simp add: unat_of_nat)
  have "\<forall>cid\<in>set (map of_nat [0..<Suc (unat (rxq_clients_num d))]). unat cid < length (clients d) \<and> cid < (64 :: u32)"
    using mask n u by (auto simp: mask_ready_def word_less_nat_alt simp del: upt_Suc)
  then show thesis using keeps_signal_wait [OF assms] that unfolding signal_all_wait_clients_def by blast
qed

section \<open>Calls on fences\<close>

lemma keeps_inv: "keeps P d d' \<Longrightarrow> driver_inv P d'"
  by (simp add: keeps_def)

lemma keeps_length: "keeps P d d' \<Longrightarrow> length (hw_fences_tbl d') = length (hw_fences_tbl d)"
  by (simp add: keeps_def call_frame_def)

lemma keeps_ready: "keeps P d d' \<Longrightarrow> vm_ready d' = vm_ready d"
  by (simp add: keeps_def call_frame_def)

text \<open>A fence of the kernel stays, with its key and its children.\<close>

lemma keeps_dma:
  assumes "keeps P d d'" and "dma_fences d fid = Some f"
  obtains f' where "dma_fences d' fid = Some f'" "no_flags f' = no_flags f"
proof -
  have "map_option no_flags (dma_fences d' fid) = Some (no_flags f)" using assms by (simp add: keeps_def call_frame_def)
  then show thesis using that by auto
qed

lemma no_flags_fields:
  "no_flags f' = no_flags f \<Longrightarrow> df_context f' = df_context f \<and> df_seqno f' = df_seqno f \<and> df_array f' = df_array f"
  by (cases f; cases f') simp

text \<open>The two early returns of creation and destruction.\<close>

lemma create_refused:
  assumes "dma_fences d fid = Some f" and "\<not> (vm_ready d \<and> df_array f = None \<and> \<not> bit (df_flags f) (flag_enabled_bit P))"
  shows "\<exists>ret. msm_hw_fence_create P (Some h) (Some fid) (Some x) d = Some (d, Some x, ret)"
  using assms unfolding msm_hw_fence_create_def
  by (cases "vm_ready d"; cases "df_array f"; cases "bit (df_flags f) (flag_enabled_bit P)") simp_all

lemma destroy_refused:
  assumes "dma_fences d fid = Some f" and "\<not> (df_array f = None \<and> bit (df_flags f) (flag_enabled_bit P))"
  shows "\<exists>ret. msm_hw_fence_destroy P (Some h) (Some fid) d = Some (d, ret)"
  using assms unfolding msm_hw_fence_destroy_def
  by (cases "df_array f"; cases "bit (df_flags f) (flag_enabled_bit P)") simp_all

lemma keeps_create:
  assumes inv: "driver_inv P d" and h: "held_handle d h" and f: "dma_fences d fid = Some f"
  shows "\<exists>d' r ret. msm_hw_fence_create P (Some h) (Some fid) (Some x) d = Some (d', r, ret) \<and> keeps P d d'"
proof (cases "vm_ready d \<and> df_array f = None \<and> \<not> bit (df_flags f) (flag_enabled_bit P)")
  case False
  have "\<exists>ret. msm_hw_fence_create P (Some h) (Some fid) (Some x) d = Some (d, Some x, ret)"
    by (rule create_refused [OF f False])
  then show ?thesis using keeps_refl [OF inv] by blast
next
  case True
  obtain c where c: "client_objs d h = Some c" using inv h by (rule held_client)
  obtain d1 h1 r where d1: "hw_fence_lookup_and_process d (df_context f) (df_seqno f) (cl_client_id c) 0 OP_CREATE x = Some (d1, h1, r)"
    "keeps P d d1"
    using inv by (rule keeps_lookup)
  obtain f1 where f1: "dma_fences d1 fid = Some f1" using d1(2) f by (rule keeps_dma)
  obtain d2 where d2: "set_fence_bit fid (flag_enabled_bit P) d1 = Some d2" "keeps P d1 d2"
    using keeps_inv [OF d1(2)] f1 by (rule keeps_fence_bit)
  have flags: "vm_ready d" "df_array f = None" "\<not> bit (df_flags f) (flag_enabled_bit P)" using True by blast+
  show ?thesis
  proof (cases r)
    case None
    then have "hw_fence_create d c (df_context f) (df_seqno f) x = Some (d1, h1, - EINVAL)"
      using d1(1) by (simp add: hw_fence_create_def)
    then have "msm_hw_fence_create P (Some h) (Some fid) (Some x) d = Some (d1, Some h1, - EINVAL)"
      using flags f c by (simp add: msm_hw_fence_create_def)
    with d1(2) show ?thesis by blast
  next
    case (Some i)
    then have "hw_fence_create d c (df_context f) (df_seqno f) x = Some (d1, h1, 0)"
      using d1(1) by (simp add: hw_fence_create_def)
    then have "msm_hw_fence_create P (Some h) (Some fid) (Some x) d = Some (d2, Some h1, 0)"
      using flags f c d2(1) by (simp add: msm_hw_fence_create_def)
    with keeps_trans [OF d1(2) d2(2)] show ?thesis by blast
  qed
qed

lemma keeps_api_destroy:
  assumes inv: "driver_inv P d" and h: "held_handle d h" and f: "dma_fences d fid = Some f"
  shows "\<exists>d' ret. msm_hw_fence_destroy P (Some h) (Some fid) d = Some (d', ret) \<and> keeps P d d'"
proof (cases "df_array f = None \<and> bit (df_flags f) (flag_enabled_bit P)")
  case False
  have "\<exists>ret. msm_hw_fence_destroy P (Some h) (Some fid) d = Some (d, ret)" by (rule destroy_refused [OF f False])
  then show ?thesis using keeps_refl [OF inv] by blast
next
  case True
  obtain c where c: "client_objs d h = Some c" using inv h by (rule held_client)
  obtain d1 ret where d1: "hw_fence_destroy d c (df_context f) (df_seqno f) = Some (d1, ret)" "keeps P d d1"
    using inv by (rule keeps_destroy)
  obtain f1 where f1: "dma_fences d1 fid = Some f1" using d1(2) f by (rule keeps_dma)
  let ?d2 = "d1\<lparr>dma_fences := (dma_fences d1)(fid \<mapsto> f1\<lparr>df_flags := clear_bit (flag_enabled_bit P) (df_flags f1)\<rparr>)\<rparr>"
  have "keeps P d1 ?d2"
    using f1 driver_invD(1) [OF keeps_inv [OF d1(2)]]
    by (intro keepsI [OF keeps_inv [OF d1(2)]]) (simp_all add: call_frame_def same_layout_def table_ok_def)
  then have k: "keeps P d ?d2" using keeps_trans [OF d1(2)] by simp
  show ?thesis
  proof (cases "ret = 0")
    case zero: True
    have "msm_hw_fence_destroy P (Some h) (Some fid) d = Some (?d2, 0)"
      using True f c d1(1) f1 zero by (simp add: msm_hw_fence_destroy_def)
    with k show ?thesis by blast
  next
    case False
    have "msm_hw_fence_destroy P (Some h) (Some fid) d = Some (d1, ret)"
      using True f c d1(1) False by (simp add: msm_hw_fence_destroy_def)
    with d1(2) show ?thesis by blast
  qed
qed

lemma keeps_destroy_with_handle:
  assumes inv: "driver_inv P d" and h: "held_handle d h"
  shows "\<exists>d' ret. msm_hw_fence_destroy_with_handle (Some h) handle d = Some (d', ret) \<and> keeps P d d'"
proof -
  obtain c where c: "client_objs d h = Some c" using inv h by (rule held_client)
  have len: "length (hw_fences_tbl d) = unat (hw_fence_table_entries d)" using driver_invD(1) [OF inv] by (simp add: table_ok_def)
  show ?thesis
  proof (cases "get_hw_fence (hw_fence_table_entries d) handle")
    case None
    then show ?thesis using c keeps_refl [OF inv]
      by (auto simp: msm_hw_fence_destroy_with_handle_def hw_fence_destroy_with_hash_def)
  next
    case (Some i)
    then have i: "i < length (hw_fences_tbl d)"
      using len by (auto simp: get_hw_fence_def word_le_nat_alt unat_ucast_up split: if_splits)
    obtain d1 ret where d1: "hw_fence_cleanup d (cl_client_id c) (hf_ctx_id (hw_fences_tbl d ! i)) (hf_seq_id (hw_fences_tbl d ! i)) = Some (d1, ret)"
      "keeps P d d1"
      using inv by (rule keeps_cleanup)
    then show ?thesis using c Some i keeps_refl [OF inv]
      by (auto simp: msm_hw_fence_destroy_with_handle_def hw_fence_destroy_with_hash_def)
  qed
qed

section \<open>Waiting\<close>

text \<open>Finding a fence only reads.\<close>

lemma find_reads:
  assumes "driver_inv P d"
  obtains h' r where "msm_hw_fence_find d c context seqno hash = Some (d, h', r)"
    "\<forall>i. r = Some i \<longrightarrow> i < length (hw_fences_tbl d) \<and> key (hw_fences_tbl d ! i) = (context, seqno) \<and> h' = of_nat i"
proof -
  let ?cid = "case c of None \<Rightarrow> 0xff | Some c \<Rightarrow> cl_client_id c"
    and ?r = "find (\<lambda>i. probe_stop OP_FIND_FENCE context seqno (hw_fences_tbl d ! i)) (probe_order d context seqno)"
  obtain h' where h': "hw_fence_lookup_and_process d context seqno ?cid 0 OP_FIND_FENCE hash =
    (case lookup_result d context seqno ?cid 0 OP_FIND_FENCE ?r of
      (d', r) \<Rightarrow> Some (d', (case r of None \<Rightarrow> h' | Some i \<Rightarrow> of_nat i), r))"
    using driver_invD(1) [OF assms] by (rule lookup_find)
  show thesis
  proof (cases ?r)
    case None
    with h' show thesis by (intro that [of h' None]) (simp_all add: msm_hw_fence_find_def lookup_result_def)
  next
    case (Some i)
    note i = find_probe_Some [OF Some]
    then have match: "hw_fence_match (hw_fences_tbl d ! i) context seqno" by (simp add: probe_stop_def)
    have "set_fence i (hw_fences_tbl d ! i) d = d" by (simp add: set_fence_def)
    with h' Some match i(1) show thesis
      by (intro that [of "of_nat i" "Some i"])
        (simp_all add: msm_hw_fence_find_def lookup_result_def fence_found_def hw_fence_match_def key_def)
  qed
qed

text \<open>Changing an entry under its lock.\<close>

lemma keeps_locked:
  assumes "driver_inv P d" and "i < length (hw_fences_tbl d)" and "hf_lock g = 1"
  shows "global_atomic_store (set_fence i g d) (FenceLock i) False = Some (set_fence i (g\<lparr>hf_lock := 0\<rparr>) d)"
    and "keeps P d (set_fence i (g\<lparr>hf_lock := 0\<rparr>) d)"
  using entry_lock(3) [OF assms] keeps_fence [OF assms(1), of "g\<lparr>hf_lock := 0\<rparr>" i] by simp_all

abbreviation fence_there :: "hwf \<Rightarrow> nat option \<Rightarrow> bool" where
  "fence_there d fence \<equiv> \<forall>fid. fence = Some fid \<longrightarrow> dma_fences d fid \<noteq> None"

lemma keeps_there: "keeps P d d' \<Longrightarrow> (dma_fences d' fid = None) = (dma_fences d fid = None)"
proof -
  assume "keeps P d d'"
  then have "map_option no_flags (dma_fences d' fid) = map_option no_flags (dma_fences d fid)"
    by (simp add: keeps_def call_frame_def)
  then show ?thesis by (metis map_option_is_None)
qed

lemma keeps_signaled_bit:
  assumes "driver_inv P d" and "fence_there d fence"
  obtains d' where "(case fence of None \<Rightarrow> Some d | Some fid \<Rightarrow> set_fence_bit fid n d) = Some d'" "keeps P d d'"
proof (cases fence)
  case None
  then show thesis using that keeps_refl [OF assms(1)] by simp
next
  case (Some fid)
  then obtain f where "dma_fences d fid = Some f" using assms(2) by auto
  with assms(1) obtain d' where "set_fence_bit fid n d = Some d'" "keeps P d d'" by (rule keeps_fence_bit)
  with Some show thesis by (intro that) simp_all
qed

lemma keeps_register_wait:
  assumes inv: "driver_inv P d" and c: "client_in d c" and fence: "fence_there d fence"
  obtains d' x ret where "hw_fence_register_wait_client P d fence c context seqno hash client_data = Some (d', x, ret)" "keeps P d d'"
proof (cases "client_data_refused P c client_data")
  case True
  then show thesis using that keeps_refl [OF inv] by (simp add: hw_fence_register_wait_client_def)
next
  case False
  obtain x r where f: "msm_hw_fence_find d (Some c) context seqno hash = Some (d, x, r)"
    "\<forall>i. r = Some i \<longrightarrow> i < length (hw_fences_tbl d) \<and> key (hw_fences_tbl d ! i) = (context, seqno) \<and> x = of_nat i"
    using inv by (rule find_reads)
  show thesis
  proof (cases r)
    case None
    then show thesis using that False f(1) keeps_refl [OF inv] by (simp add: hw_fence_register_wait_client_def)
  next
    case (Some i)
    then have i: "i < length (hw_fences_tbl d)" using f(2) by blast
    have cid: "client_bit (cl_client_id c) = Some (BIT (cl_client_id c))"
      using client_inD [OF inv c] by (metis client_bit_def)
    define g where "g = put_client_data P c client_data ((hw_fences_tbl d ! i)\<lparr>hf_lock := 1,
      hf_wait_client_mask := hf_wait_client_mask (hw_fences_tbl d ! i) OR BIT (cl_client_id c),
      hf_fence_wait_time := qtime d, hf_debug_refcount := hf_debug_refcount (hw_fences_tbl d ! i) + 1\<rparr>)"
    have g: "hf_lock g = 1" by (simp add: g_def put_client_data_def)
    note un = keeps_locked [OF inv i g]
    let ?d1 = "set_fence i (g\<lparr>hf_lock := 0\<rparr>) d"
    have fence1: "fence_there ?d1 fence" using fence by simp
    obtain d2 where d2: "(case fence of None \<Rightarrow> Some ?d1 | Some fid \<Rightarrow> set_fence_bit fid (flag_signaled_bit P) ?d1) = Some d2"
      "keeps P ?d1 d2"
      using keeps_inv [OF un(2)] fence1 by (rule keeps_signaled_bit)
    note k2 = keeps_trans [OF un(2) d2(2)]
    have i2: "i < length (hw_fences_tbl d2)" using i keeps_length [OF k2] by simp
    obtain d3 where d3: "fence_ctl_signal P d2 c i x 0 client_data 0 = Some d3" "keeps P d2 d3"
      using keeps_inv [OF k2] i2 client_in_kept [OF k2 c] by (rule keeps_ctl_signal)
    have start: "hw_fence_register_wait_client P d fence c context seqno hash client_data =
        (if hf_flags g AND MSM_HW_FENCE_FLAG_SIGNAL \<noteq> 0 then do {
           d \<leftarrow> (case fence of None \<Rightarrow> Some ?d1 | Some fid \<Rightarrow> set_fence_bit fid (flag_signaled_bit P) ?d1);
           d \<leftarrow> fence_ctl_signal P d c i x 0 client_data 0;
           Some (d, x, 0)
         } else Some (?d1, x, 0))"
      using False f(1) Some i cid entry_lock(1) [OF inv i] un(1)
      unfolding g_def by (simp add: hw_fence_register_wait_client_def hw_fence_get_qtime_def)
    show thesis
    proof (cases "hf_flags g AND MSM_HW_FENCE_FLAG_SIGNAL = 0")
      case True
      with start un(2) show thesis by (intro that) simp_all
    next
      case sig: False
      then have "hw_fence_register_wait_client P d fence c context seqno hash client_data = Some (d3, x, 0)"
        unfolding start by (simp only: d2(1) d3(1) if_True not_False_eq_True Option.bind.simps)
      with keeps_trans [OF k2 d3(2)] show thesis by (intro that)
    qed
  qed
qed

lemma keeps_process_fence:
  assumes inv: "driver_inv P d" and c: "client_in d c" and f: "dma_fences d fid = Some f"
  obtains d' x ret where "hw_fence_process_fence P d c fid hash client_data = Some (d', x, ret)" "keeps P d d'"
proof (cases "bit (df_flags f) (flag_enabled_bit P)")
  case False
  then show thesis using that f keeps_refl [OF inv] by (simp add: hw_fence_process_fence_def)
next
  case True
  have "fence_there d (Some fid)" using f by simp
  with inv c obtain d' x ret where
    "hw_fence_register_wait_client P d (Some fid) c (df_context f) (df_seqno f) hash client_data = Some (d', x, ret)" "keeps P d d'"
    by (rule keeps_register_wait)
  with True f show thesis by (intro that) (simp_all add: hw_fence_process_fence_def)
qed

subsection \<open>Fence arrays\<close>

text \<open>A fence of the kernel on which a client may wait: an array is complete, has children, and none of them has
  the context and sequence number of the array itself.\<close>

definition array_sound :: "hwf \<Rightarrow> dma_fence \<Rightarrow> dma_fence_array \<Rightarrow> bool" where
  "array_sound d base arr \<longleftrightarrow> 0 < fa_num_fences arr \<and> (\<exists>cs. fa_fences arr = Some cs \<and> length cs = unat (fa_num_fences arr) \<and>
     (\<forall>i<length cs. \<exists>fid f. cs ! i = Some fid \<and> dma_fences d fid = Some f \<and> child_key f \<noteq> child_key base))"

definition fence_sound :: "hwf \<Rightarrow> nat \<Rightarrow> bool" where
  "fence_sound d fid \<longleftrightarrow> (\<exists>f. dma_fences d fid = Some f \<and> (\<forall>arr. df_array f = Some arr \<longrightarrow> array_sound d f arr))"

lemma no_flags_key: "no_flags f' = no_flags f \<Longrightarrow> child_key f' = child_key f"
  by (drule no_flags_fields) (simp add: child_key_def)

lemma array_sound_kept:
  assumes k: "keeps P d d'" and s: "array_sound d base arr" and b: "child_key base' = child_key base"
  shows "array_sound d' base' arr"
proof -
  obtain cs where cs: "fa_fences arr = Some cs" "length cs = unat (fa_num_fences arr)" "0 < fa_num_fences arr"
    "\<forall>i<length cs. \<exists>fid f. cs ! i = Some fid \<and> dma_fences d fid = Some f \<and> child_key f \<noteq> child_key base"
    using s by (auto simp: array_sound_def)
  have "\<exists>fid f. cs ! i = Some fid \<and> dma_fences d' fid = Some f \<and> child_key f \<noteq> child_key base'" if i: "i < length cs" for i
  proof -
    obtain fid f where f: "cs ! i = Some fid" "dma_fences d fid = Some f" "child_key f \<noteq> child_key base" using cs(4) i by blast
    obtain f' where f': "dma_fences d' fid = Some f'" "no_flags f' = no_flags f" using k f(2) by (rule keeps_dma)
    show ?thesis using f(1,3) f'(1) no_flags_key [OF f'(2)] b by simp
  qed
  with cs show ?thesis by (auto simp: array_sound_def)
qed

lemma fence_sound_kept:
  assumes k: "keeps P d d'" and s: "fence_sound d fid"
  shows "fence_sound d' fid"
proof -
  obtain f where f: "dma_fences d fid = Some f" "\<And>arr. df_array f = Some arr \<Longrightarrow> array_sound d f arr"
    using s by (auto simp: fence_sound_def)
  obtain f' where f': "dma_fences d' fid = Some f'" "no_flags f' = no_flags f" using k f(1) by (rule keeps_dma)
  have "df_array f' = df_array f" "child_key f' = child_key f" using no_flags_fields [OF f'(2)] no_flags_key [OF f'(2)] by simp_all
  with f'(1) f(2) array_sound_kept [OF k] show ?thesis by (auto simp: fence_sound_def)
qed

text \<open>A step that also keeps the keys of the table.\<close>

definition keeps_keys :: "platform \<Rightarrow> hwf \<Rightarrow> hwf \<Rightarrow> bool" where
  "keeps_keys P d d' \<longleftrightarrow> keeps P d d' \<and> map key (hw_fences_tbl d') = map key (hw_fences_tbl d)"

lemma keeps_keys_refl: "driver_inv P d \<Longrightarrow> keeps_keys P d d"
  by (simp add: keeps_keys_def keeps_refl)

lemma keeps_keys_trans: "keeps_keys P d d' \<Longrightarrow> keeps_keys P d' d'' \<Longrightarrow> keeps_keys P d d''"
  using keeps_trans by (auto simp: keeps_keys_def)

lemma keeps_keysD:
  assumes "keeps_keys P d d'"
  shows "driver_inv P d'" and "keeps P d d'" and "length (hw_fences_tbl d') = length (hw_fences_tbl d)"
    and "i < length (hw_fences_tbl d) \<Longrightarrow> key (hw_fences_tbl d' ! i) = key (hw_fences_tbl d ! i)"
proof -
  show k: "keeps P d d'" "driver_inv P d'" using assms keeps_inv by (auto simp: keeps_keys_def)
  show len: "length (hw_fences_tbl d') = length (hw_fences_tbl d)" by (rule keeps_length [OF k(1)])
  have "map key (hw_fences_tbl d') = map key (hw_fences_tbl d)" using assms by (simp add: keeps_keys_def)
  then show "key (hw_fences_tbl d' ! i) = key (hw_fences_tbl d ! i)" if "i < length (hw_fences_tbl d)"
    using that len by (metis nth_map)
qed

lemma keeps_keys_fence:
  assumes "driver_inv P d" and "i < length (hw_fences_tbl d)" and "hf_lock g = 0" and "key g = key (hw_fences_tbl d ! i)"
  shows "keeps_keys P d (set_fence i g d)"
  using keeps_fence [OF assms(1,3)] assms(2,4)
  by (simp add: keeps_keys_def set_fence_def map_update list_update_same_conv)

text \<open>The signaled child: the join fence is changed under its lock while the lock of the child is held.\<close>

lemma join_under_child:
  assumes k: "k < length (hw_fences_tbl d)" "hf_lock (hw_fences_tbl d ! k) = 0"
    and jf: "jf < length (hw_fences_tbl d)" "hf_lock (hw_fences_tbl d ! jf) = 0" and ne: "k \<noteq> jf"
  defines "dl \<equiv> set_fence k ((hw_fences_tbl d ! k)\<lparr>hf_lock := 1\<rparr>) d"
  shows "global_atomic_store dl (FenceLock jf) True = Some (set_fence jf ((hw_fences_tbl d ! jf)\<lparr>hf_lock := 1\<rparr>) dl)"
    and "global_atomic_store (set_fence jf ((hw_fences_tbl d ! jf)\<lparr>hf_lock := 1, hf_pending_child_cnt := n\<rparr>) dl) (FenceLock jf) False =
      Some (set_fence jf ((hw_fences_tbl d ! jf)\<lparr>hf_pending_child_cnt := n\<rparr>) dl)"
    and "global_atomic_store (set_fence jf x dl) (FenceLock k) False = Some (set_fence jf x d)"
proof -
  show "global_atomic_store dl (FenceLock jf) True = Some (set_fence jf ((hw_fences_tbl d ! jf)\<lparr>hf_lock := 1\<rparr>) dl)"
    using fence_lock [of jf dl] ne jf by (simp add: dl_def)
  have "((hw_fences_tbl d ! jf)\<lparr>hf_lock := 1, hf_pending_child_cnt := n\<rparr>)\<lparr>hf_lock := 0\<rparr> = (hw_fences_tbl d ! jf)\<lparr>hf_pending_child_cnt := n\<rparr>"
    using jf(2) by (cases "hw_fences_tbl d ! jf") simp
  with jf(1) show "global_atomic_store (set_fence jf ((hw_fences_tbl d ! jf)\<lparr>hf_lock := 1, hf_pending_child_cnt := n\<rparr>) dl)
      (FenceLock jf) False = Some (set_fence jf ((hw_fences_tbl d ! jf)\<lparr>hf_pending_child_cnt := n\<rparr>) dl)"
    by (subst relock) (simp_all only: dl_def set_fence_tbl length_list_update, simp_all)
  have "set_fence jf x dl = set_fence k ((hw_fences_tbl d ! k)\<lparr>hf_lock := 1\<rparr>) (set_fence jf x d)"
    using ne by (simp add: dl_def set_fence_def list_update_swap)
  then show "global_atomic_store (set_fence jf x dl) (FenceLock k) False = Some (set_fence jf x d)"
    using lock_unlock [of k "set_fence jf x d"] k ne by simp
qed

lemma keeps_array_child:
  assumes inv: "driver_inv P d" and jf: "jf < length (hw_fences_tbl d)" "key (hw_fences_tbl d ! jf) = child_key base"
    and arr: "array_sound d base arr" and i: "i < unat (fa_num_fences arr)"
  shows "\<exists>d' res. process_array_child P c arr jf hash i sg d = Some (d', res) \<and> keeps_keys P d d' \<and> (\<forall>j. res = Inl j \<longrightarrow> j = i)"
proof -
  obtain cs fid f where cs: "fa_fences arr = Some cs" "fetch cs i = Some (Some fid)" "dma_fences d fid = Some f" "child_key f \<noteq> child_key base"
    using arr i by (fastforce simp: array_sound_def)
  note refl = keeps_keys_refl [OF inv]
  show ?thesis
  proof (cases "df_array f = None \<and> bit (df_flags f) (flag_enabled_bit P)")
    case False
    then have "process_array_child P c arr jf hash i sg d = Some (d, Inl i)"
      using cs by (cases "df_array f") (simp_all add: process_array_child_def)
    with refl show ?thesis by blast
  next
    case True
    then have flags: "df_array f = None" "bit (df_flags f) (flag_enabled_bit P)" by blast+
    obtain x r where fd: "msm_hw_fence_find d (Some c) (df_context f) (df_seqno f) 0 = Some (d, x, r)"
      "\<forall>i. r = Some i \<longrightarrow> i < length (hw_fences_tbl d) \<and> key (hw_fences_tbl d ! i) = (df_context f, df_seqno f) \<and> x = of_nat i"
      using inv by (rule find_reads)
    show ?thesis
    proof (cases r)
      case None
      then have "process_array_child P c arr jf hash i sg d = Some (d, Inl i)"
        using cs flags fd(1) by (simp add: process_array_child_def)
      with refl show ?thesis by blast
    next
      case (Some k)
      then have k: "k < length (hw_fences_tbl d)" "key (hw_fences_tbl d ! k) = child_key f" using fd(2) by (simp_all add: child_key_def)
      have ne: "k \<noteq> jf" using k(2) jf(2) cs(4) by auto
      let ?g = "hw_fences_tbl d ! k"
      define n where "n = hf_parents_cnt ?g + 1"
      note lk = entry_lock(1,2) [OF inv k(1)] and lj = entry_lock(2) [OF inv jf(1)]
      consider "signaled ?g" | "\<not> signaled ?g" "of_nat MSM_HW_FENCE_MAX_JOIN_PARENTS \<le> n \<or> n < 1"
        | "\<not> signaled ?g" "\<not> (of_nat MSM_HW_FENCE_MAX_JOIN_PARENTS \<le> n \<or> n < 1)" by blast
      then show ?thesis
      proof cases
        case 1
        let ?p = "hf_pending_child_cnt (hw_fences_tbl d ! jf) - 1"
        let ?d = "set_fence jf ((hw_fences_tbl d ! jf)\<lparr>hf_pending_child_cnt := ?p\<rparr>) d"
        have "keeps_keys P d ?d" using lj by (intro keeps_keys_fence [OF inv jf(1)]) (simp_all add: key_def)
        moreover have "process_array_child P c arr jf hash i sg d = Some (?d, Inr (sg \<or> ?p = 0))"
          using cs flags fd(1) Some 1 k(1) jf(1) ne lk(1) join_under_child [OF k(1) lk(2) jf(1) lj ne]
          by (simp add: process_array_child_def Let_def)
        ultimately show ?thesis by blast
      next
        case 2
        then have "process_array_child P c arr jf hash i sg d = Some (d, Inl i)"
          using cs flags fd(1) Some k(1) lk lock_unlock [OF k(1) lk(2)] by (simp add: process_array_child_def Let_def n_def)
        with refl show ?thesis by blast
      next
        case 3
        let ?g1 = "?g\<lparr>hf_lock := 1, hf_parents_cnt := n, hf_parent_list := (hf_parent_list ?g)[unat (n - 1) := hash]\<rparr>"
        have "keeps_keys P d (set_fence k (?g1\<lparr>hf_lock := 0\<rparr>) d)"
          by (intro keeps_keys_fence [OF inv k(1)]) (simp_all add: key_def)
        moreover have "process_array_child P c arr jf hash i sg d = Some (set_fence k (?g1\<lparr>hf_lock := 0\<rparr>) d, Inr sg)"
          using cs flags fd(1) Some 3 k(1) lk(1) keeps_locked(1) [OF inv k(1), of ?g1]
          unfolding n_def by (simp add: process_array_child_def Let_def)
        ultimately show ?thesis by blast
      qed
    qed
  qed
qed

lemma keeps_children:
  assumes arr: "array_sound d0 base arr"
  shows "driver_inv P d \<Longrightarrow> keeps P d0 d \<Longrightarrow> jf < length (hw_fences_tbl d) \<Longrightarrow> key (hw_fences_tbl d ! jf) = child_key base \<Longrightarrow>
    (\<forall>i\<in>set is. i < unat (fa_num_fences arr)) \<Longrightarrow>
    \<exists>d' res. process_children P c arr jf hash is sg d = Some (d', res) \<and> keeps_keys P d d' \<and> (\<forall>j. res = Inl j \<longrightarrow> j \<in> set is)"
proof (induction "is" arbitrary: d sg)
  case Nil
  then show ?case using keeps_keys_refl by simp
next
  case (Cons i "is")
  have arr': "array_sound d base arr" by (rule array_sound_kept [OF Cons.prems(2) arr refl])
  have i: "i < unat (fa_num_fences arr)" using Cons.prems(5) by simp
  obtain d1 res where d1: "process_array_child P c arr jf hash i sg d = Some (d1, res)" "keeps_keys P d d1" "\<forall>j. res = Inl j \<longrightarrow> j = i"
    using keeps_array_child [OF Cons.prems(1,3,4) arr' i, of c hash sg] by blast
  note k1 = keeps_keysD [OF d1(2)]
  show ?case
  proof (cases res)
    case (Inl j)
    with d1 show ?thesis by auto
  next
    case (Inr sg1)
    have "\<exists>d' res. process_children P c arr jf hash is sg1 d1 = Some (d', res) \<and> keeps_keys P d1 d' \<and> (\<forall>j. res = Inl j \<longrightarrow> j \<in> set is)"
      using keeps_trans [OF Cons.prems(2) k1(2)] k1(3,4) Cons.prems(3-5) by (intro Cons.IH k1(1)) simp_all
    then obtain d' res' where d': "process_children P c arr jf hash is sg1 d1 = Some (d', res')" "keeps_keys P d1 d'"
      "\<forall>j. res' = Inl j \<longrightarrow> j \<in> set is" by blast
    have "process_children P c arr jf hash (i # is) sg d = Some (d', res')" using d1(1) Inr d'(1) by simp
    with keeps_keys_trans [OF d1(2) d'(2)] d'(3) show ?thesis by auto
  qed
qed

text \<open>Rolling back.\<close>

lemma drop_parent_lock [simp]: "hf_lock (drop_parent hash n f) = hf_lock f"
  by (induction n arbitrary: f) simp_all

lemma keeps_cleanup_child:
  assumes inv: "driver_inv P d" and arr: "array_sound d base arr" and i: "i < unat (fa_num_fences arr)"
  shows "\<exists>d'. cleanup_child c arr hash i d = Some d' \<and> keeps P d d'"
proof -
  obtain cs fid f where cs: "fa_fences arr = Some cs" "fetch cs i = Some (Some fid)" "dma_fences d fid = Some f"
    using arr i by (fastforce simp: array_sound_def)
  obtain x r where fd: "msm_hw_fence_find d (Some c) (df_context f) (df_seqno f) 0 = Some (d, x, r)"
    "\<forall>i. r = Some i \<longrightarrow> i < length (hw_fences_tbl d) \<and> key (hw_fences_tbl d ! i) = (df_context f, df_seqno f) \<and> x = of_nat i"
    using inv by (rule find_reads)
  show ?thesis
  proof (cases r)
    case None
    then have "cleanup_child c arr hash i d = Some d" using cs fd(1) by (simp add: cleanup_child_def)
    with keeps_refl [OF inv] show ?thesis by blast
  next
    case (Some k)
    then have k: "k < length (hw_fences_tbl d)" using fd(2) by blast
    let ?g1 = "(hw_fences_tbl d ! k)\<lparr>hf_lock := 1\<rparr>"
    let ?g = "drop_parent hash (parents_to_check ?g1) ?g1"
    have "cleanup_child c arr hash i d = Some (set_fence k (?g\<lparr>hf_lock := 0\<rparr>) d)"
      using cs fd(1) Some k entry_lock(1) [OF inv k] keeps_locked(1) [OF inv k, of ?g] by (simp add: cleanup_child_def)
    with keeps_locked(2) [OF inv k, of ?g] show ?thesis by simp
  qed
qed

lemma keeps_chain:
  assumes step: "\<And>d x. keeps P d0 d \<Longrightarrow> x \<in> set xs \<Longrightarrow> \<exists>d'. f x d = Some d' \<and> keeps P d d'"
  shows "keeps P d0 d \<Longrightarrow> \<exists>d'. chain f xs d = Some d' \<and> keeps P d d'"
  using step
proof (induction xs arbitrary: d)
  case Nil
  then show ?case using keeps_refl keeps_inv by simp
next
  case (Cons x xs)
  obtain d1 where d1: "f x d = Some d1" "keeps P d d1" using Cons.prems by (meson list.set_intros(1))
  have "\<exists>d'. chain f xs d1 = Some d' \<and> keeps P d1 d'"
    using keeps_trans [OF Cons.prems(1) d1(2)] Cons.prems(2) by (intro Cons.IH) simp_all
  then obtain d' where "chain f xs d1 = Some d'" "keeps P d1 d'" by blast
  then show ?case using d1 keeps_trans by auto
qed

lemma keeps_rollback:
  assumes inv: "driver_inv P d" and arr: "array_sound d base arr" and i: "i < unat (fa_num_fences arr)"
  shows "\<exists>d'. cleanup_join_and_child_fences d c i base arr hash = Some d' \<and> keeps P d d'"
proof -
  obtain cs where cs: "fa_fences arr = Some cs" using arr by (auto simp: array_sound_def)
  have "\<exists>d1. chain (cleanup_child c arr hash) (rev [0..<Suc i]) d = Some d1 \<and> keeps P d d1"
  proof (rule keeps_chain [OF _ keeps_refl [OF inv]])
    fix d1 x assume "keeps P d d1" "x \<in> set (rev [0..<Suc i])"
    then show "\<exists>d'. cleanup_child c arr hash x d1 = Some d' \<and> keeps P d1 d'"
      using i array_sound_kept [OF _ arr refl] by (intro keeps_cleanup_child [where base = base]) (auto intro: keeps_inv)
  qed
  then obtain d1 where d1: "chain (cleanup_child c arr hash) (rev [0..<Suc i]) d = Some d1" "keeps P d d1" by blast
  obtain d2 ret where d2: "hw_fence_cleanup d1 HW_FENCE_JOIN_FENCE_CLIENT_ID (df_context base) (df_seqno base) = Some (d2, ret)" "keeps P d1 d2"
    using keeps_inv [OF d1(2)] by (rule keeps_cleanup)
  have "cleanup_join_and_child_fences d c i base arr hash = Some d2"
    using cs d1(1) d2(1) by (simp add: cleanup_join_and_child_fences_def destroy_join_fence_def del: upt_Suc)
  with keeps_trans [OF d1(2) d2(2)] show ?thesis by blast
qed

lemma keeps_finish_array:
  assumes inv: "driver_inv P d" and c: "client_in d c" and arr: "array_sound d base arr" and fence: "dma_fences d fid \<noteq> None"
    and jf: "jf < length (hw_fences_tbl d)" and res: "\<forall>j. res = Inl j \<longrightarrow> j < unat (fa_num_fences arr)"
  shows "\<exists>d' x ret. finish_fence_array P c fid base arr hash client_data jf d res = Some (d', x, ret) \<and> keeps P d d'"
proof (cases res)
  case (Inl i)
  then have i: "i < unat (fa_num_fences arr)" using res by simp
  obtain d' where "cleanup_join_and_child_fences d c i base arr hash = Some d'" "keeps P d d'"
    using keeps_rollback [OF inv arr i] by blast
  with Inl show ?thesis by (simp add: finish_fence_array_def)
next
  case (Inr sg)
  let ?j = "put_client_data P c client_data (hw_fences_tbl d ! jf)"
  let ?d = "set_fence jf ?j d"
  have k0: "keeps P d ?d" using entry_lock(2) [OF inv jf] by (intro keeps_fence [OF inv]) (simp add: put_client_data_def)
  show ?thesis
  proof (cases sg)
    case False
    have "fa_num_fences arr \<noteq> 0" using arr by (auto simp: array_sound_def)
    then have "finish_fence_array P c fid base arr hash client_data jf d res = Some (?d, hash, 0)"
      using Inr False jf by (simp add: finish_fence_array_def Let_def)
    with k0 show ?thesis by blast
  next
    case True
    have jf0: "jf < length (hw_fences_tbl ?d)" using jf by simp
    obtain d1 where d1: "fence_ctl_signal P ?d c jf hash 0 0 (ucast client_data) = Some d1" "keeps P ?d d1"
      using keeps_inv [OF k0] jf0 client_in_kept [OF k0 c] by (rule keeps_ctl_signal)
    note k1 = keeps_trans [OF k0 d1(2)]
    obtain f1 where f1: "dma_fences d1 fid = Some f1" using fence keeps_there [OF k1, of fid] by auto
    obtain d2 where d2: "set_fence_bit fid (flag_signaled_bit P) d1 = Some d2" "keeps P d1 d2"
      using keeps_inv [OF k1] f1 by (rule keeps_fence_bit)
    obtain d3 ret where d3: "hw_fence_cleanup d2 HW_FENCE_JOIN_FENCE_CLIENT_ID (df_context base) (df_seqno base) = Some (d3, ret)" "keeps P d2 d3"
      using keeps_inv [OF d2(2)] by (rule keeps_cleanup)
    have "finish_fence_array P c fid base arr hash client_data jf d res = Some (d3, hash, 0)"
      using Inr True jf d1(1) d2(1) d3(1) by (simp add: finish_fence_array_def Let_def destroy_join_fence_def)
    with keeps_trans [OF keeps_trans [OF k1 d2(2)] d3(2)] show ?thesis by blast
  qed
qed

lemma keeps_process_array:
  assumes inv: "driver_inv P d" and c: "client_in d c" and f: "dma_fences d fid = Some base" "df_array base = Some arr"
    and arr: "array_sound d base arr"
  shows "\<exists>d' x ret. hw_fence_process_fence_array P d c fid hash client_data = Some (d', x, ret) \<and> keeps P d d'"
proof (cases "client_data_refused P c client_data")
  case True
  then show ?thesis using f keeps_refl [OF inv] by (simp add: hw_fence_process_fence_array_def)
next
  case False
  obtain d1 x r where d1: "hw_fence_lookup_and_process d (df_context base) (df_seqno base) HW_FENCE_JOIN_FENCE_CLIENT_ID
      (fa_num_fences arr) OP_CREATE_JOIN hash = Some (d1, x, r)" "keeps P d d1"
    "\<forall>i. r = Some i \<longrightarrow> i < length (hw_fences_tbl d1) \<and> (OP_CREATE_JOIN \<noteq> OP_DESTROY \<longrightarrow> key (hw_fences_tbl d1 ! i) = (df_context base, df_seqno base))"
    using inv by (rule keeps_lookup)
  show ?thesis
  proof (cases r)
    case None
    then have "hw_fence_process_fence_array P d c fid hash client_data = Some (d1, x, - EINVAL)"
      using f False d1(1) by (simp add: hw_fence_process_fence_array_def create_join_fence_def)
    with d1(2) show ?thesis by blast
  next
    case (Some jf)
    then have jf: "jf < length (hw_fences_tbl d1)" "key (hw_fences_tbl d1 ! jf) = child_key base"
      using d1(3) by (simp_all add: child_key_def)
    note inv1 = keeps_inv [OF d1(2)]
    have cid: "client_bit (cl_client_id c) = Some (BIT (cl_client_id c))" using client_inD [OF inv c] by (metis client_bit_def)
    let ?j = "(hw_fences_tbl d1 ! jf)\<lparr>hf_lock := 1, hf_wait_client_mask := hf_wait_client_mask (hw_fences_tbl d1 ! jf) OR BIT (cl_client_id c)\<rparr>"
    let ?d2 = "set_fence jf (?j\<lparr>hf_lock := 0\<rparr>) d1"
    have l2: "global_atomic_store (set_fence jf ?j d1) (FenceLock jf) False = Some ?d2" "keeps P d1 ?d2"
      using keeps_locked [OF inv1 jf(1), of ?j] by simp_all
    note k2 = keeps_trans [OF d1(2) l2(2)]
    have jf2: "jf < length (hw_fences_tbl ?d2)" "key (hw_fences_tbl ?d2 ! jf) = child_key base" using jf by (simp_all add: key_def)
    obtain d3 res where d3: "process_children P c arr jf x [0..<unat (fa_num_fences arr)] False ?d2 = Some (d3, res)" "keeps_keys P ?d2 d3"
      "\<forall>j. res = Inl j \<longrightarrow> j \<in> set [0..<unat (fa_num_fences arr)]"
      using keeps_children [OF arr keeps_inv [OF k2] k2 jf2, of "[0..<unat (fa_num_fences arr)]" c x False] by auto
    note kk3 = keeps_keysD [OF d3(2)]
    note k3 = keeps_trans [OF k2 kk3(2)]
    have "\<exists>d' y ret. finish_fence_array P c fid base arr x client_data jf d3 res = Some (d', y, ret) \<and> keeps P d3 d'"
      using f(1) keeps_there [OF k3, of fid] jf2(1) kk3(3) d3(3)
      by (intro keeps_finish_array kk3(1) client_in_kept [OF k3 c] array_sound_kept [OF k3 arr refl]) simp_all
    then obtain d' y ret where d': "finish_fence_array P c fid base arr x client_data jf d3 res = Some (d', y, ret)" "keeps P d3 d'" by blast
    have "hw_fence_process_fence_array P d c fid hash client_data = Some (d', y, ret)"
      using f False d1(1) Some jf(1) cid entry_lock(1) [OF inv1 jf(1)] l2(1) d3(1) d'(1)
      by (simp add: hw_fence_process_fence_array_def create_join_fence_def)
    with keeps_trans [OF k3 d'(2)] show ?thesis by blast
  qed
qed

subsection \<open>Lists of fences\<close>

text \<open>The arguments of a wait: the lists are as long as the count says, and the fences are sound.\<close>

definition wait_args :: "hwf \<Rightarrow> nat option list \<Rightarrow> u64 list option \<Rightarrow> u64 list option \<Rightarrow> u32 \<Rightarrow> bool" where
  "wait_args d fences handles cds num \<longleftrightarrow> fences \<noteq> [] \<and> unat num \<le> length fences \<and>
     (\<forall>i<unat num. \<exists>fid. fences ! i = Some fid \<and> fence_sound d fid) \<and>
     (\<forall>hs. handles = Some hs \<longrightarrow> unat num \<le> length hs) \<and> (\<forall>xs. cds = Some xs \<longrightarrow> unat num \<le> length xs)"

lemma keeps_wait_one:
  assumes inv: "driver_inv P d" and c: "client_in d c" and f: "fence_sound d fid" "dma_fences d fid = Some f"
  obtains d' x ret where "(if df_array f \<noteq> None then hw_fence_process_fence_array P d c fid 0 client_data
      else hw_fence_process_fence P d c fid 0 client_data) = Some (d', x, ret)" "keeps P d d'"
proof (cases "df_array f")
  case None
  obtain d' x ret where "hw_fence_process_fence P d c fid 0 client_data = Some (d', x, ret)" "keeps P d d'"
    using inv c f(2) by (rule keeps_process_fence)
  with None that show thesis by simp
next
  case (Some arr)
  then have "array_sound d f arr" using f by (simp add: fence_sound_def)
  with keeps_process_array [OF inv c f(2) Some this] Some that show thesis by fastforce
qed

lemma keeps_wait_fences:
  "keeps P d0 d \<Longrightarrow> held_handle d h \<Longrightarrow> wait_args d0 fences handles0 cds num \<Longrightarrow> (\<forall>i\<in>set is. i < unat num) \<Longrightarrow>
    (\<forall>hs. handles = Some hs \<longrightarrow> unat num \<le> length hs) \<Longrightarrow>
    \<exists>d' hs ret. wait_fences P h fences cds is handles d = Some (d', hs, ret) \<and> keeps P d d'"
proof (induction "is" arbitrary: d handles)
  case Nil
  then show ?case using keeps_refl [OF keeps_inv] by fastforce
next
  case (Cons i "is")
  have i: "i < unat num" using Cons.prems(4) by simp
  then obtain fid where fid: "fetch fences i = Some (Some fid)" "fence_sound d0 fid"
    using Cons.prems(3) by (fastforce simp: wait_args_def)
  have sound: "fence_sound d fid" by (rule fence_sound_kept [OF Cons.prems(1) fid(2)])
  then obtain f where f: "dma_fences d fid = Some f" by (auto simp: fence_sound_def)
  note inv = keeps_inv [OF Cons.prems(1)]
  obtain c where c: "client_objs d h = Some c" using inv Cons.prems(2) by (rule held_client)
  have cd: "\<exists>cd. (case cds of None \<Rightarrow> Some 0 | Some cds \<Rightarrow> fetch cds i) = Some cd"
    using Cons.prems(3) i by (cases cds) (simp_all add: wait_args_def)
  then obtain cd where cd: "(case cds of None \<Rightarrow> Some 0 | Some cds \<Rightarrow> fetch cds i) = Some cd" by blast
  obtain d1 x ret where d1: "(if df_array f \<noteq> None then hw_fence_process_fence_array P d c fid 0 cd
      else hw_fence_process_fence P d c fid 0 cd) = Some (d1, x, ret)" "keeps P d d1"
    using inv held_client_in [OF inv Cons.prems(2) c] sound f by (rule keeps_wait_one)
  have step: "wait_fences P h fences cds (i # is) handles d = (if ret \<noteq> 0 then Some (d1, handles, ret)
     else (case handles of
         None \<Rightarrow> wait_fences P h fences cds is handles d1
       | Some hs \<Rightarrow> if i < length hs then wait_fences P h fences cds is (Some (hs[i := x])) d1 else None))"
    using d1(1) by (cases "df_array f") (simp_all add: fid(1) cd f c)
  show ?case
  proof (cases "ret = 0")
    case False
    with step d1(2) show ?thesis by simp
  next
    case True
    have go: "\<exists>d' hs ret. wait_fences P h fences cds is handles' d1 = Some (d', hs, ret) \<and> keeps P d1 d'"
      if "\<forall>hs. handles' = Some hs \<longrightarrow> unat num \<le> length hs" for handles'
      using that Cons.prems(2-4) held_kept [OF d1(2)] by (intro Cons.IH keeps_trans [OF Cons.prems(1) d1(2)]) simp_all
    let ?next = "map_option (\<lambda>hs. hs[i := x]) handles"
    obtain d' hs ret' where d': "wait_fences P h fences cds is ?next d1 = Some (d', hs, ret')" "keeps P d1 d'"
      using go [of ?next] Cons.prems(5) by (cases handles) auto
    have "wait_fences P h fences cds (i # is) handles d = Some (d', hs, ret')"
      using step True d'(1) Cons.prems(5) i by (cases handles) auto
    with keeps_trans [OF d1(2) d'(2)] show ?thesis by blast
  qed
qed

lemma keeps_wait_update:
  assumes inv: "driver_inv P d" and h: "held_handle d h" and args: "wait_args d fences handles cds num"
  shows "\<exists>d' hs ret. msm_hw_fence_wait_update_v2 P (Some h) (Some fences) handles cds num d = Some (d', hs, ret) \<and> keeps P d d'"
proof -
  obtain c where c: "client_objs d h = Some c" using inv h by (rule held_client)
  obtain fence where fence: "fetch fences 0 = Some fence" using args by (cases fences) (simp_all add: wait_args_def)
  have hs: "\<forall>hs. handles = Some hs \<longrightarrow> unat num \<le> length hs" using args by (simp add: wait_args_def)
  obtain d' hs ret where d': "wait_fences P h fences cds [0..<unat num] handles d = Some (d', hs, ret)" "keeps P d d'"
    using keeps_wait_fences [OF keeps_refl [OF inv] h args _ hs, of "[0..<unat num]"] by auto
  have "msm_hw_fence_wait_update_v2 P (Some h) (Some fences) handles cds num d =
      (if fence = None then Some (d, handles, - EINVAL)
       else if \<not> vm_ready d then Some (d, handles, - EAGAIN)
       else if cds \<noteq> None \<and> HW_FENCE_MAX_CLIENTS_WITH_DATA \<le> hw_fence_get_client_data_id P (cl_client_id c)
       then Some (d, handles, - EINVAL)
       else if rxq_clients_num d < cl_client_id c then Some (d, handles, - EINVAL)
       else Some (d', hs, ret))"
    using c fence d'(1) by (cases cds) (simp_all add: msm_hw_fence_wait_update_v2_def)
  with d'(2) keeps_refl [OF inv] show ?thesis by (cases "fence = None") (simp_all split: if_splits)
qed

section \<open>Reset and signaling\<close>

lemma keeps_cleanup_fence:
  assumes inv: "driver_inv P d" and c: "client_in d c" and i: "i < length (hw_fences_tbl d)"
  shows "\<exists>d' ret. hw_fence_utils_cleanup_fence P d c i hash reset_flags = Some (d', ret) \<and> keeps P d d'"
proof -
  have cid: "cl_client_id c < 64" using inv c by (rule client_inD)
  let ?f = "unwaited (cl_client_id c) (hw_fences_tbl d ! i)"
  let ?d1 = "set_fence i ?f d"
  have k1: "keeps P d ?d1" using entry_lock(2) [OF inv i] by (intro keeps_fence [OF inv]) (simp add: unwaited_def)
  have i1: "i < length (hw_fences_tbl ?d1)" using i by simp
  obtain d2 where d2: "(if \<not> signaled ?f then signal_all_wait_clients P ?d1 i hash (reset_error P reset_flags) else Some ?d1) = Some d2"
    "keeps P ?d1 d2"
  proof (cases "signaled ?f")
    case True
    then show thesis using that keeps_refl [OF keeps_inv [OF k1]] by simp
  next
    case False
    obtain d2 where "signal_all_wait_clients P ?d1 i hash (reset_error P reset_flags) = Some d2" "keeps P ?d1 d2"
      using keeps_inv [OF k1] i1 by (rule keeps_signal_all)
    with False that show thesis by simp
  qed
  note k2 = keeps_trans [OF k1 d2(2)]
  have i2: "i < length (hw_fences_tbl d2)" using i keeps_length [OF k2] by simp
  obtain d3 ret where d3: "hw_fence_destroy d2 c (hf_ctx_id (hw_fences_tbl d2 ! i)) (hf_seq_id (hw_fences_tbl d2 ! i)) = Some (d3, ret)"
    "keeps P d2 d3"
    using keeps_inv [OF k2] by (rule keeps_destroy)
  have run: "hw_fence_utils_cleanup_fence P d c i hash reset_flags =
      (if hf_fence_allocator ?f = cl_client_id c
       then if reset_flags AND reset_without_destroy P \<noteq> 0 then Some (d2, 0) else Some (d3, ret) else Some (?d1, 0))"
    using d2(1) d3(1) i2 by (simp add: cleanup_fence_unwait [OF driver_invD(1) [OF inv] i cid] Let_def)
  show ?thesis
    unfolding run using k1 k2 keeps_trans [OF k2 d3(2)] by (simp split: if_split)
qed

text \<open>The bound on the ids is needed: the wait mask has 64 bits, and the cleanup of a fence shifts by the id of any
  client, also of one that can only transmit and is refused when it waits.\<close>

lemma cleanup_shift_undefined:
  assumes inv: "driver_inv P d" and i: "i < length (hw_fences_tbl d)" and cid: "64 \<le> cl_client_id c"
  shows "hw_fence_utils_cleanup_fence P d c i hash reset_flags = None"
proof -
  have "client_bit (cl_client_id c) = None" using cid by (simp add: client_bit_def not_less)
  then show ?thesis using entry_lock(1) [OF inv i] i by (simp add: hw_fence_utils_cleanup_fence_def Let_def)
qed

lemma keeps_reset_fence:
  assumes inv: "driver_inv P d" and h: "held_handle d h" and i: "i < length (hw_fences_tbl d)"
  shows "\<exists>d'. reset_fence P h reset_flags i d = Some d' \<and> keeps P d d'"
proof -
  obtain c where c: "client_objs d h = Some c" using inv h by (rule held_client)
  obtain d' ret where "hw_fence_utils_cleanup_fence P d c i (of_nat i) reset_flags = Some (d', ret)" "keeps P d d'"
    using keeps_cleanup_fence [OF inv held_client_in [OF inv h c] i] by blast
  then show ?thesis using c by (simp add: reset_fence_def)
qed

text \<open>Moving an index of a queue onto the other one.\<close>

lemma ring_ok_collapsed:
  assumes "ring_ok n (rd, wr, ws)"
  shows "ring_ok n (wr, wr, ws)" and "ring_ok n (rd, rd, ws)"
  using assms by (auto simp: ring_ok_def)

lemma keeps_reset_queues:
  assumes inv: "driver_inv P d" and c: "client_in d c"
  shows "\<exists>d'. hw_fence_utils_reset_queues d c = Some d' \<and> keeps P d d'"
proof -
  obtain n where reg: "registered P d n c" and n: "n < unat (clients_num d)" using inv c by (rule client_inD)
  have q0: "TXQ < queue_count d n" using reg by (simp add: registered_def)
  obtain rd wr ws where tx: "queue_ring False d (cl_queues c ! TXQ) = (rd, wr, ws)" by (metis prod_cases3)
  have "ring_ok (slots d n) (rd, wr, ws)" using registered_ring(1) [OF inv n reg q0, of False] tx by simp
  then have k1: "keeps P d (tx_emptied c d)"
    using keeps_ring [OF inv n reg q0 ring_ok_collapsed(1)] tx by (simp add: tx_emptied_def)
  have reg1: "registered P (tx_emptied c d) n c" "n < unat (clients_num (tx_emptied c d))"
  proof -
    obtain m where "m = unat (cl_client_id c)" "registered P (tx_emptied c d) m c" "m < unat (clients_num (tx_emptied c d))"
      using keeps_inv [OF k1] client_in_kept [OF k1 c] by (rule client_inD)
    with registered_id [OF reg] show "registered P (tx_emptied c d) n c" "n < unat (clients_num (tx_emptied c d))" by simp_all
  qed
  have rx: "cl_update_rxq c \<Longrightarrow> keeps P (tx_emptied c d) (rx_emptied c (tx_emptied c d))"
  proof -
    assume u: "cl_update_rxq c"
    let ?d = "tx_emptied c d"
    have q1: "RXQ < queue_count ?d n" using reg1(1) u by (simp add: registered_def)
    obtain rd wr ws where r: "rx_ring ?d c = (rd, wr, ws)" by (metis prod_cases3)
    then have "ring_ok (slots ?d n) (rd, wr, ws)"
      using registered_ring(1) [OF keeps_inv [OF k1] reg1(2,1) q1, of False] by simp
    then show ?thesis
      using keeps_ring [OF keeps_inv [OF k1] reg1(2,1) q1 ring_ok_collapsed(2)] r by (simp add: rx_emptied_def)
  qed
  have len: "length (cl_queues c) = HW_FENCE_CLIENT_QUEUES" using reg by (simp add: registered_def)
  have ready: "rx_ready d c"
    using registered_rx(3) [OF driver_invD(8) [OF inv] reg n] registered_rx(1) [OF driver_invD(8) [OF inv] reg n]
      registered_ring(1) [OF inv n reg, of RXQ "txq_wm c RXQ"] reg
    by (auto simp: rx_ready_def registered_def)
  have "hw_fence_utils_reset_queues d c = Some (emptied c d)"
    using reset_queues_emptied [OF len registered_ring(2) [OF inv n reg q0] ready] by (simp add: emptied_def)
  moreover have "keeps P d (emptied c d)" using k1 keeps_trans [OF k1 rx] by (simp add: emptied_def)
  ultimately show ?thesis by blast
qed

lemma keeps_reset_client:
  assumes inv: "driver_inv P d" and h: "held_handle d h"
  shows "\<exists>d' ret. msm_hw_fence_reset_client P (Some h) reset_flags d = Some (d', ret) \<and> keeps P d d'"
proof (cases "vm_ready d")
  case False
  then show ?thesis using keeps_refl [OF inv] by (simp add: msm_hw_fence_reset_client_def)
next
  case True
  have len: "unat (hw_fences_tbl_cnt d) = length (hw_fences_tbl d)"
    using inv table_okD(3) [OF driver_invD(1) [OF inv]] by (simp add: driver_inv_def)
  have "\<exists>d1. chain (reset_fence P h reset_flags) [0..<unat (hw_fences_tbl_cnt d)] d = Some d1 \<and> keeps P d d1"
  proof (rule keeps_chain [OF _ keeps_refl [OF inv]])
    fix d1 i assume k: "keeps P d d1" and "i \<in> set [0..<unat (hw_fences_tbl_cnt d)]"
    then show "\<exists>d'. reset_fence P h reset_flags i d1 = Some d' \<and> keeps P d1 d'"
      using h held_kept [OF k] keeps_length [OF k] len by (intro keeps_reset_fence keeps_inv [OF k]) simp_all
  qed
  then obtain d1 where d1: "chain (reset_fence P h reset_flags) [0..<unat (hw_fences_tbl_cnt d)] d = Some d1" "keeps P d d1" by blast
  note inv1 = keeps_inv [OF d1(2)]
  have h1: "held_handle d1 h" using h held_kept [OF d1(2)] by simp
  obtain c where c: "client_objs d1 h = Some c" using inv1 h1 by (rule held_client)
  obtain d2 where d2: "hw_fence_utils_reset_queues d1 c = Some d2" "keeps P d1 d2"
    using keeps_reset_queues [OF inv1 held_client_in [OF inv1 h1 c]] by blast
  have "msm_hw_fence_reset_client P (Some h) reset_flags d = Some (d2, 0)"
    using True d1(1) c d2(1) by (simp add: msm_hw_fence_reset_client_def)
  with keeps_trans [OF d1(2) d2(2)] show ?thesis by blast
qed

lemma keeps_update_txq:
  assumes inv: "driver_inv P d" and h: "held_handle d h"
  shows "\<exists>d' ret. msm_hw_fence_update_txq (Some h) handle flags error (Some d) = Some (Some d', ret) \<and> keeps P d d'"
proof (cases "vm_ready d \<and> \<not> ucast (hw_fences_tbl_cnt d) \<le> handle")
  case False
  have "resources_ready d" using driver_invD(7) [OF inv] .
  then have "\<exists>ret. msm_hw_fence_update_txq (Some h) handle flags error (Some d) = Some (Some d, ret)"
    using False by (cases "vm_ready d") (simp_all add: msm_hw_fence_update_txq_def)
  with keeps_refl [OF inv] show ?thesis by blast
next
  case True
  then have v: "vm_ready d" and handle: "\<not> ucast (hw_fences_tbl_cnt d) \<le> handle" by blast+
  obtain c where c: "client_objs d h = Some c" using inv h by (rule held_client)
  obtain n where n: "registered P d n c" "n < unat (clients_num d)" using inv held_client_in [OF inv h c] by (rule client_inD)
  have len: "unat (hw_fences_tbl_cnt d) = length (hw_fences_tbl d)"
    using inv table_okD(3) [OF driver_invD(1) [OF inv]] by (simp add: driver_inv_def)
  then have i: "unat handle < length (hw_fences_tbl d)" using handle by (simp add: word_le_nat_alt unat_ucast_up)
  let ?m = "\<lparr>qm_ctxt_id = hf_ctx_id (hw_fences_tbl d ! unat handle), qm_seqno = hf_seq_id (hw_fences_tbl d ! unat handle),
    qm_hash = handle, qm_flags = flags, qm_client_data = 0, qm_error = error\<rparr>"
  obtain d1 ret where d1: "hw_fence_update_queue d c ?m TXQ = Some (d1, ret)" "keeps P d d1"
    using keeps_update_queue [OF inv n(2,1), of TXQ ?m] by blast
  have "msm_hw_fence_update_txq (Some h) handle flags error (Some d) = Some (Some d1, 0)"
    using v handle driver_invD(7) [OF inv] i c d1(1) by (simp add: msm_hw_fence_update_txq_def)
  with d1(2) show ?thesis by blast
qed

lemma keeps_trigger_signal:
  assumes inv: "driver_inv P d"
  shows "\<exists>d' ret. msm_hw_fence_trigger_signal (Some h) pid vid sid (Some d) = (Some d', ret) \<and> keeps P d d'"
  using keeps_refl [OF inv] keeps_trigger [OF inv] driver_invD(7) [OF inv]
  by (cases "vm_ready d") (simp_all add: msm_hw_fence_trigger_signal_def)

end
