(* ===== verification/HwfRuns.thy ===== *)
theory HwfRuns
  imports HwfKeeps
begin

text \<open>
  The driver over its whole life: any sequence of calls of the exported functions, by clients that use the
  handles they got, interleaved with registrations, doorbells, what the kernel does to its fences and what the fence
  controller in the other machine does to the shared memory.
\<close>

section \<open>Joining and leaving\<close>

text \<open>A static client, or one of a type that the driver knows.\<close>

definition known_id :: "platform \<Rightarrow> u32 \<Rightarrow> bool" where
  "known_id P cid_ext \<longleftrightarrow> client_id P CLIENT_MAX \<le> cid_ext \<or> cid_ext < HW_FENCE_MAX_STATIC_CLIENTS_INDEX P \<or>
     ext_type P cid_ext < HW_FENCE_MAX_CLIENT_TYPE_CONFIGURABLE"

text \<open>The internal id that a known id leads to is one of the driver's, or out of range.\<close>

lemma known_priv:
  assumes inv: "driver_inv P d" and id: "known_id P x" "x < client_id P CLIENT_MAX"
  obtains cid where "hw_fence_utils_get_client_id_priv P d x = Some cid" "cid < client_id P CLIENT_MAX \<longrightarrow> unat cid < unat (clients_num d)"
proof -
  have cc: "clients_counted P d" using driver_invD(2) [OF inv] by (simp add: memory_ok_def laid_out_def Let_def)
  show thesis
  proof (cases "ext_client P d x")
    case True
    obtain p where "hw_fence_utils_get_client_id_priv P d x = Some p" "unat p = priv_index P d x"
      using cc True by (rule get_client_id_priv)
    with priv_index_less [OF cc True] that show thesis by simp
  next
    case False
    then have "\<not> x < HW_FENCE_MAX_STATIC_CLIENTS_INDEX P" by (simp add: ext_client_def)
    then have "ext_type P x < HW_FENCE_MAX_CLIENT_TYPE_CONFIGURABLE" using id by (simp add: known_id_def not_le [symmetric])
    with get_client_id_beyond [OF cc False] that show thesis by simp
  qed
qed

lemma driver_inv_memory:
  assumes inv: "driver_inv P d" and mem: "memory_inv P d'"
    and tbl: "hw_fences_tbl d' = hw_fences_tbl d" "hw_fences_tbl_va d' = hw_fences_tbl_va d"
      "hw_fence_table_entries d' = hw_fence_table_entries d" "hw_fences_tbl_cnt d' = hw_fences_tbl_cnt d"
    and lay: "same_layout d d'" "ipc_clients_table d' = ipc_clients_table d" "resources_ready d' = resources_ready d"
      "ctl_start_ptr d' = ctl_start_ptr d"
  shows "driver_inv P d'"
proof -
  have num: "length (clients d') = unat (clients_num d')" "length (clients d) = unat (clients_num d)"
    using mem driver_invD(5) [OF inv] by (simp_all add: memory_inv_def clients_ok_def)
  have lays: "clients_num d' = clients_num d" "rxq_clients_num d' = rxq_clients_num d"
    "hw_fence_client_queue_size d' = hw_fence_client_queue_size d"
    using lay(1) by (simp_all add: same_layout_def)
  have "table_ok d'" using driver_invD(1) [OF inv] tbl by (simp add: table_ok_def)
  moreover have "rows_ok d'" using driver_invD(6) [OF inv] lay(2) lays by (simp add: rows_ok_def)
  moreover have "mask_ready d'" using driver_invD(4) [OF inv] lays num by (simp add: mask_ready_def)
  moreover have "doorbell_target P d'" using inv lay(4) lays by (simp add: driver_inv_def doorbell_target_def)
  ultimately show ?thesis using inv mem lays tbl lay(3) by (simp add: driver_inv_def)
qed

lemma driver_register:
  assumes inv: "driver_inv P d" and id: "known_id P x"
  shows "\<exists>d' md' r. msm_hw_fence_register P alloc x (Some md) (Some d) = Some (Some d', Some md', r) \<and> driver_inv P d'"
proof -
  have ready: "resources_ready d" using driver_invD(7) [OF inv] .
  have refused: ?thesis if "msm_hw_fence_register P alloc x (Some md) (Some d) = Some (Some d, Some md, r)" for r
    using that inv by blast
  show ?thesis
  proof (cases "client_id P CLIENT_MAX \<le> x")
    case True
    then show ?thesis using refused [of "Inl (- EINVAL)"] ready by (simp add: msm_hw_fence_register_def)
  next
    case False
    then have max: "x < client_id P CLIENT_MAX" by simp
    obtain cid where cid: "hw_fence_utils_get_client_id_priv P d x = Some cid" "cid < client_id P CLIENT_MAX \<longrightarrow> unat cid < unat (clients_num d)"
      using inv id max by (rule known_priv)
    have len: "length (clients d) = unat (clients_num d)" using driver_invD(5) [OF inv] by (simp add: clients_ok_def)
    consider "client_id P CLIENT_MAX \<le> cid" | "cid < client_id P CLIENT_MAX" "\<not> alloc"
      | "cid < client_id P CLIENT_MAX" alloc "clients d ! unat cid \<noteq> None" | "cid < client_id P CLIENT_MAX" alloc "clients d ! unat cid = None"
      by (meson not_le)
    then show ?thesis
    proof cases
      case 1
      then show ?thesis using refused [of "Inl (- EINVAL)"] ready False cid(1) by (simp add: msm_hw_fence_register_def)
    next
      case 2
      then show ?thesis using refused [of "Inl (- ENOMEM)"] ready False cid(1) by (simp add: msm_hw_fence_register_def not_le [symmetric])
    next
      case 3
      then show ?thesis using refused [of "Inl (- EINVAL)"] ready False cid len
        by (simp add: msm_hw_fence_register_def not_le [symmetric])
    next
      case 4
      then have n: "unat cid < unat (clients_num d)" using cid(2) by blast
      show ?thesis
      proof (rule register_new [OF driver_invD(8,6,7) [OF inv] cid(1) n max 4(1,2,3), of md])
        fix d' md' e
        assume r: "msm_hw_fence_register P alloc x (Some md) (Some d) = Some (Some d', Some md', Inl e)"
          "memory_inv P d'" "register_frame d d'"
        have "driver_inv P d'" by (rule driver_inv_memory [OF inv r(2) register_frame_fields(4-7,1,8,10,12) [OF r(3)]])
        with r(1) show ?thesis by blast
      next
        fix d' md' c
        assume r: "msm_hw_fence_register P alloc x (Some md) (Some d) = Some (Some d', Some md', Inr (next_obj d))"
          "memory_inv P d'" "register_frame d d'"
        have "driver_inv P d'" by (rule driver_inv_memory [OF inv r(2) register_frame_fields(4-7,1,8,10,12) [OF r(3)]])
        with r(1) show ?thesis by blast
      qed
    qed
  qed
qed

lemma driver_deregister:
  assumes inv: "driver_inv P d" and h: "held_handle d h"
  shows "\<exists>d'. msm_hw_fence_deregister (Some h) d = Some (d', 0) \<and> driver_inv P d'"
proof -
  obtain n where n: "n < length (clients d)" "clients d ! n = Some h" using inv h by (rule held_client)
  let ?d = "d\<lparr>clients := (clients d)[n := None], client_objs := (client_objs d)(h := None)\<rparr>"
  note dereg = deregister_registered(1,2) [OF driver_invD(8) [OF inv] n]
  have "driver_inv P ?d" by (rule driver_inv_memory [OF inv dereg(2)]) (simp_all add: same_layout_def)
  with dereg(1) show ?thesis by blast
qed

text \<open>A reset by id, of a client that is registered or not.\<close>

lemma driver_reset_by_id:
  assumes inv: "driver_inv P d" and id: "known_id P x"
  shows "\<exists>d' ret. msm_hw_fence_reset_client_by_id P x reset_flags d = Some (d', ret) \<and> keeps P d d'"
proof (cases "client_id P CLIENT_MAX \<le> x")
  case True
  then show ?thesis using keeps_refl [OF inv] by (simp add: msm_hw_fence_reset_client_by_id_def)
next
  case False
  then have max: "x < client_id P CLIENT_MAX" by simp
  obtain cid where cid: "hw_fence_utils_get_client_id_priv P d x = Some cid" "cid < client_id P CLIENT_MAX \<longrightarrow> unat cid < unat (clients_num d)"
    using inv id max by (rule known_priv)
  show ?thesis
  proof (cases "client_id P CLIENT_MAX \<le> cid")
    case True
    then show ?thesis using False cid(1) keeps_refl [OF inv] by (simp add: msm_hw_fence_reset_client_by_id_def)
  next
    case lt: False
    then have n: "unat cid < length (clients d)" using cid(2) driver_invD(5) [OF inv] by (simp add: clients_ok_def not_le)
    have run: "msm_hw_fence_reset_client_by_id P x reset_flags d = msm_hw_fence_reset_client P (clients d ! unat cid) reset_flags d"
      using False lt cid(1) n by (simp add: msm_hw_fence_reset_client_by_id_def)
    show ?thesis
    proof (cases "clients d ! unat cid")
      case None
      then show ?thesis using keeps_refl [OF inv] by (simp add: run msm_hw_fence_reset_client_def)
    next
      case (Some h)
      then have "held_handle d h" using n by (auto simp: held_handle_def in_set_conv_nth)
      from keeps_reset_client [OF inv this] show ?thesis by (simp add: run Some)
    qed
  qed
qed

section \<open>The doorbell\<close>

lemma client_in_at:
  assumes inv: "driver_inv P d" and n: "n < length (clients d)" "clients d ! n = Some h" and c: "client_objs d h = Some c"
  shows "registered P d n c" and "held_handle d h" and "client_in d c"
proof -
  show h: "held_handle d h" using n by (auto simp: held_handle_def in_set_conv_nth)
  show "registered P d n c" using driver_invD(5) [OF inv] n c by (fastforce simp: clients_ok_def)
  show "client_in d c" by (rule held_client_in [OF inv h c])
qed

lemma keeps_gfx:
  assumes inv: "driver_inv P d"
  shows "\<exists>d' ret. process_gfx_client_loopback P p d = Some (d', ret) \<and> keeps P d d'"
proof -
  let ?n = "unat (client_id P CTX0)"
  have n: "?n < unat (clients_num d)" "queue_count d ?n = HW_FENCE_CLIENT_QUEUES"
    using inv by (simp_all add: driver_inv_def doorbell_target_def)
  have len: "?n < length (clients d)" using n(1) driver_invD(5) [OF inv] by (simp add: clients_ok_def)
  show ?thesis
  proof (cases "clients d ! ?n")
    case None
    then have "process_gfx_client_loopback P p d = Some (d, - EINVAL)"
      using len by (subst process_gfx_client_loopback.simps) (simp add: gfx_read_def)
    with keeps_refl [OF inv] show ?thesis by blast
  next
    case (Some h)
    then have h: "held_handle d h" using len by (auto simp: held_handle_def in_set_conv_nth)
    obtain c where c: "client_objs d h = Some c" using inv h by (rule held_client)
    note reg = client_in_at(1) [OF inv len Some c]
    have q: "RXQ < queue_count d ?n" using n(2) by simp
    note ring = registered_ring [OF inv n(1) reg q]
    have queues: "RXQ < length (cl_queues c)" using reg by (simp add: registered_def)
    have fetch: "fetch (clients d) ?n = Some (Some h)" using len Some by simp
    obtain q' where q': "process_gfx_client_loopback P p d = Some (set_queue_ring False (cl_queues c ! RXQ) q' d, 0)"
      "ring_ok (slots d ?n) q'"
      using gfx_loop_drains [OF fetch c queues ring(2,3,1)] by blast
    obtain rd wr ws where "q' = (rd, wr, ws)" by (cases q')
    with keeps_ring [OF inv n(1) reg q] q' show ?thesis by blast
  qed
qed

lemma keeps_validation:
  assumes inv: "driver_inv P d" and cid: "unat cid < length (clients d)"
  shows "\<exists>d' ret. process_validation_client_loopback P d cid = Some (d', ret) \<and> keeps P d d'"
proof (cases "(cid < client_id P VAL0 \<or> client_id P VAL0 + 6 < cid) \<or> clients d ! unat cid = None")
  case True
  then have "process_validation_client_loopback P d cid = Some (d, - EINVAL)"
    using cid by (auto simp: process_validation_client_loopback_def)
  with keeps_refl [OF inv] show ?thesis by blast
next
  case False
  then obtain h where h: "clients d ! unat cid = Some h" by blast
  then have "held_handle d h" using cid by (auto simp: held_handle_def in_set_conv_nth)
  with inv obtain c where c: "client_objs d h = Some c" by (rule held_client)
  have "process_validation_client_loopback P d cid = Some (set_client h (c\<lparr>cl_val_signal := 1\<rparr>) d, 0)"
    using False h c cid by (simp add: process_validation_client_loopback_def)
  with keeps_val [OF inv c] show ?thesis by blast
qed

lemma keeps_serve:
  assumes inv: "driver_inv P d" and n: "n < HW_FENCE_LOOPBACK_MAX P"
  shows "\<exists>d'. serve P p n d = Some d' \<and> keeps P d d'"
proof -
  have t: "length (ctl_start_ptr d) = 6" "HW_FENCE_LOOPBACK_MAX P \<le> 31" "HW_FENCE_LOOPBACK_MAX P \<le> length (clients d)"
    using inv driver_invD(5) [OF inv]
    by (simp_all add: driver_inv_def doorbell_target_def clients_ok_def HW_FENCE_MAX_DPU_LOOPBACK_CLIENTS_def)
  then have u: "unat (of_nat n :: u32) = n" using n by (simp add: unat_of_nat)
  then have cid: "unat (of_nat n :: u32) < length (clients d)" using n t(3) by simp
  obtain d1 r1 where gfx: "process_gfx_client_loopback P p d = Some (d1, r1)" "keeps P d d1" using keeps_gfx [OF inv] by blast
  obtain d2 r2 where val: "process_validation_client_loopback P d (of_nat n) = Some (d2, r2)" "keeps P d d2"
    using keeps_validation [OF inv cid] by blast
  consider "n \<le> HW_FENCE_LOOPBACK_DPU_CTL_5" | "\<not> n \<le> HW_FENCE_LOOPBACK_DPU_CTL_5" "n = HW_FENCE_LOOPBACK_GFX_CTX_0"
    | "\<not> n \<le> HW_FENCE_LOOPBACK_DPU_CTL_5" "n \<noteq> HW_FENCE_LOOPBACK_GFX_CTX_0" by blast
  then show ?thesis
  proof cases
    case 1
    then have "\<exists>r. process_doorbell_client P p n d = Some (d, r)"
      using t(1) by (simp add: process_doorbell_client_def process_dpu_client_loopback_def HW_FENCE_LOOPBACK_DPU_CTL_5_def)
    with keeps_refl [OF inv] show ?thesis by auto
  next
    case 2
    with gfx show ?thesis by (simp add: process_doorbell_client_def)
  next
    case 3
    with val keeps_refl [OF inv] show ?thesis by (simp add: process_doorbell_client_def)
  qed
qed

lemma driver_doorbell:
  assumes inv: "driver_inv P d"
  shows "\<exists>d'. hw_fence_cb P p dbl d = Some d' \<and> keeps P d d'"
proof -
  obtain ret flags where dbl: "dbl = (ret, flags)" by (cases dbl)
  have max: "HW_FENCE_LOOPBACK_MAX P \<le> 31" using inv by (simp add: driver_inv_def doorbell_target_def)
  have "\<exists>d'. chain (serve P p) (rung P flags) d = Some d' \<and> keeps P d d'"
  proof (rule keeps_chain [OF _ keeps_refl [OF inv]])
    fix d1 n assume "keeps P d d1" "n \<in> set (rung P flags)"
    then show "\<exists>d'. serve P p n d1 = Some d' \<and> keeps P d1 d'" by (intro keeps_serve) (auto simp: rung_def intro: keeps_inv)
  qed
  then obtain d' where "chain (serve P p) (rung P flags) d = Some d'" "keeps P d d'" by blast
  moreover have "hw_fence_utils_process_doorbell_mask P p flags d = chain (serve P p) (rung P flags) d"
    unfolding hw_fence_utils_process_doorbell_mask_def rung_def using max by (intro doorbell_loop_serves) auto
  ultimately show ?thesis using keeps_refl [OF inv] by (cases "ret = 0") (simp_all add: hw_fence_cb_def dbl)
qed

section \<open>Calls and sequences of calls\<close>

text \<open>The calls that a client makes with its handle.\<close>

datatype client_call =
    Create nat u64
  | Destroy nat
  | Destroy_handle u64
  | Wait_update "nat option list" "u64 list option" "u64 list option" u32
  | Reset u32
  | Update_txq u64 u64 u32
  | Trigger u32 u32 u32

text \<open>What the kernel owes the driver: the fences that are passed exist and are sound.\<close>

fun call_args :: "hwf \<Rightarrow> client_call \<Rightarrow> bool" where
  "call_args d (Create fid x) = (dma_fences d fid \<noteq> None)"
| "call_args d (Destroy fid) = (dma_fences d fid \<noteq> None)"
| "call_args d (Wait_update fences handles cds num) = wait_args d fences handles cds num"
| "call_args d _ = True"

fun call_run :: "platform \<Rightarrow> nat \<Rightarrow> client_call \<Rightarrow> hwf \<Rightarrow> (hwf \<times> int) option" where
  "call_run P h (Create fid x) d = map_option (\<lambda>(d, _, ret). (d, ret)) (msm_hw_fence_create P (Some h) (Some fid) (Some x) d)"
| "call_run P h (Destroy fid) d = msm_hw_fence_destroy P (Some h) (Some fid) d"
| "call_run P h (Destroy_handle handle) d = msm_hw_fence_destroy_with_handle (Some h) handle d"
| "call_run P h (Wait_update fences handles cds num) d =
     map_option (\<lambda>(d, _, ret). (d, ret)) (msm_hw_fence_wait_update_v2 P (Some h) (Some fences) handles cds num d)"
| "call_run P h (Reset flags) d = msm_hw_fence_reset_client P (Some h) flags d"
| "call_run P h (Update_txq handle flags error) d =
     map_option (\<lambda>(dd, ret). (the dd, ret)) (msm_hw_fence_update_txq (Some h) handle flags error (Some d))"
| "call_run P h (Trigger pid vid sid) d =
     (case msm_hw_fence_trigger_signal (Some h) pid vid sid (Some d) of (dd, ret) \<Rightarrow> Some (the dd, ret))"

lemma call_runs:
  assumes inv: "driver_inv P d" and h: "held_handle d h" and args: "call_args d call"
  shows "\<exists>d' ret. call_run P h call d = Some (d', ret) \<and> keeps P d d'"
proof (cases call)
  case (Create fid x)
  then obtain f where "dma_fences d fid = Some f" using args by auto
  from keeps_create [OF inv h this, of x] Create show ?thesis by auto
next
  case (Destroy fid)
  then obtain f where "dma_fences d fid = Some f" using args by auto
  from keeps_api_destroy [OF inv h this] Destroy show ?thesis by simp
next
  case (Destroy_handle handle)
  with keeps_destroy_with_handle [OF inv h] show ?thesis by simp
next
  case (Wait_update fences handles cds num)
  then have "wait_args d fences handles cds num" using args by simp
  from keeps_wait_update [OF inv h this] Wait_update show ?thesis by auto
next
  case (Reset flags)
  with keeps_reset_client [OF inv h] show ?thesis by simp
next
  case (Update_txq handle flags error)
  obtain d' ret where "msm_hw_fence_update_txq (Some h) handle flags error (Some d) = Some (Some d', ret)" "keeps P d d'"
    using keeps_update_txq [OF inv h] by blast
  with Update_txq show ?thesis by simp
next
  case (Trigger pid vid sid)
  obtain d' ret where "msm_hw_fence_trigger_signal (Some h) pid vid sid (Some d) = (Some d', ret)" "keeps P d d'"
    using keeps_trigger_signal [OF inv] by blast
  with Trigger show ?thesis by simp
qed

text \<open>C24. Every call of a client in good standing comes back and leaves the driver in good order. If the state is in
  order (each header and ring at its place and well-formed, every lock free, every handle of the client table leading
  to a client whose queues are set up, the fence table complete, ids below 64), the caller uses a handle of the table,
  and the fences it passes exist, arrays being complete and none with its own child's key, then creating and destroying
  a fence, waiting for a list of fences and fence arrays, resetting the client, writing the tx queue and triggering a
  signal all return: no lock is waited for twice, no shift goes beyond the mask, no access leaves an array, no freed
  object is used. The state after the call is in order again, on every path, errors and roll-backs included; the client
  table, the clients (but for the flag of a validation client), the layout of the memory and the size of the fence table
  are as before, and of the kernel's fences only flags have changed.\<close>

theorem client_calls_progress:
  assumes "driver_inv P d" and "held_handle d h" and "call_args d call"
  shows "\<exists>d' ret. call_run P h call d = Some (d', ret) \<and> driver_inv P d' \<and> clients d' = clients d \<and>
    (\<forall>n. client_of d' n = client_of d n) \<and> same_layout d d' \<and> length (hw_fences_tbl d') = length (hw_fences_tbl d) \<and>
    (\<forall>fid. map_option no_flags (dma_fences d' fid) = map_option no_flags (dma_fences d fid))"
proof -
  obtain d' ret where run: "call_run P h call d = Some (d', ret)" and k: "driver_inv P d'" "call_frame d d'"
    using call_runs [OF assms] by (auto simp: keeps_def)
  have "client_of d' n = client_of d n" for n
    using k(2) by (auto simp: call_frame_def client_of_def split: Option.bind_split)
  with run k show ?thesis by (auto simp: call_frame_def)
qed

text \<open>A step of the system: a call of a client; a registration for any id of a known type, whether memory is
  left for it or not; a deregistration; a reset by id; a notification of the resource manager; the doorbell, with any flags; the kernel changing its fences, and
  time passing; the fence controller in the other virtual machine writing to the memory that is shared with it.
  What is assumed of the controller is that it leaves indices within their queues and gives locks back.\<close>

definition controller_step :: "platform \<Rightarrow> hwf \<Rightarrow> hwf \<Rightarrow> bool" where
  "controller_step P d d' \<longleftrightarrow> d' = d\<lparr>hw_fences_tbl := hw_fences_tbl d', hfi_hdrs := hfi_hdrs d', q_words := q_words d'\<rparr> \<and>
     rings_alive P d d' \<and> table_ok d'"

inductive driver_step :: "platform \<Rightarrow> hwf \<Rightarrow> hwf \<Rightarrow> bool" for P where
  client: "held_handle d h \<Longrightarrow> call_args d call \<Longrightarrow> call_run P h call d = Some (d', ret) \<Longrightarrow> driver_step P d d'"
| join: "known_id P x \<Longrightarrow> msm_hw_fence_register P alloc x (Some md) (Some d) = Some (Some d', md', r) \<Longrightarrow> driver_step P d d'"
| leave: "held_handle d h \<Longrightarrow> msm_hw_fence_deregister (Some h) d = Some (d', ret) \<Longrightarrow> driver_step P d d'"
| reset: "known_id P x \<Longrightarrow> msm_hw_fence_reset_client_by_id P x reset_flags d = Some (d', ret) \<Longrightarrow> driver_step P d d'"
| notified: "hw_fence_rm_cb assigned acl sgl shared peer self payload d = Some (d', calls) \<Longrightarrow> driver_step P d d'"
| doorbell: "hw_fence_cb P p dbl d = Some d' \<Longrightarrow> driver_step P d d'"
| kernel: "driver_step P d (d\<lparr>dma_fences := fs, qtime := t\<rparr>)"
| controller: "controller_step P d d' \<Longrightarrow> driver_step P d d'"

lemma driver_inv_flags:
  "driver_inv P (d\<lparr>vm_ready := b\<rparr>) = driver_inv P d" "driver_inv P (d\<lparr>dma_fences := fs, qtime := t\<rparr>) = driver_inv P d"
proof -
  have lay: "same_layout d (d\<lparr>vm_ready := b\<rparr>)" "same_layout d (d\<lparr>dma_fences := fs, qtime := t\<rparr>)"
    by (simp_all add: same_layout_def)
  have obj: "rings_ok P d' = rings_ok P d \<and> clients_ok P d' = clients_ok P d \<and> memory_ok P d' = memory_ok P d"
    if l: "same_layout d d'" and s: "hfi_hdrs d' = hfi_hdrs d" "q_words d' = q_words d" "clients d' = clients d"
      "client_objs d' = client_objs d" "next_obj d' = next_obj d" for d'
  proof -
    note pl = same_layout_places [OF l]
    have q: "hw_fence_client_queue_size d' = hw_fence_client_queue_size d" "clients_num d' = clients_num d"
      "rxq_clients_num d' = rxq_clients_num d"
      using l by (simp_all add: same_layout_def)
    have "registered P d' n c = registered P d n c" for n c by (simp add: registered_def placed_def pl q s)
    then show ?thesis using pl(4) by (simp add: rings_ok_def clients_ok_def found_ring_def pl q s)
  qed
  show "driver_inv P (d\<lparr>vm_ready := b\<rparr>) = driver_inv P d" "driver_inv P (d\<lparr>dma_fences := fs, qtime := t\<rparr>) = driver_inv P d"
    using obj [OF lay(1)] obj [OF lay(2)]
    by (simp_all add: driver_inv_def memory_inv_def locks_free_def table_ok_def rows_ok_def mask_ready_def doorbell_target_def)
qed

lemma controller_inv:
  assumes "driver_inv P d" and "controller_step P d d'"
  shows "driver_inv P d'"
proof -
  obtain t h w where d': "d' = d\<lparr>hw_fences_tbl := t, hfi_hdrs := h, q_words := w\<rparr>"
    using assms(2) unfolding controller_step_def by blast
  have "length (hw_fences_tbl d') = length (hw_fences_tbl d)"
    using table_okD(3) [of d'] table_okD(3) [OF driver_invD(1) [OF assms(1)]] assms(2) by (simp add: controller_step_def d')
  then have "call_frame d d'" by (simp add: call_frame_def d' same_layout_def)
  then show ?thesis using driver_inv_kept [OF assms(1)] assms(2) by (simp add: controller_step_def)
qed

lemma rm_cb_flag:
  assumes "hw_fence_rm_cb assigned acl sgl shared peer self payload d = Some (d', calls)"
  shows "d' = d \<or> d' = d\<lparr>vm_ready := True\<rparr>"
proof (cases payload)
  case None
  with assms show ?thesis by (simp add: hw_fence_rm_cb_def)
next
  case (Some pl)
  obtain status vmid where pl: "pl = (status, vmid)" by (cases pl)
  show ?thesis
  proof (cases "status = VM_STATUS_READY \<and> (\<exists>p s. peer = Some p \<and> self = Some s \<and> p = vmid)")
    case False
    then have "hw_fence_rm_cb assigned acl sgl shared peer self payload d = Some (d, [])"
      unfolding hw_fence_rm_cb_def Some pl
      by (cases status; cases peer; cases self) simp_all
    with assms show ?thesis by simp
  next
    case True
    then obtain s where s: "status = VM_STATUS_READY" "peer = Some vmid" "self = Some s" by blast
    then have "hw_fence_rm_cb assigned acl sgl shared peer self payload d = do {
        (calls, ret) \<leftarrow> hw_fence_gunyah_share_mem assigned acl sgl shared s vmid d;
        Some (if ret \<noteq> 0 then d else d\<lparr>vm_ready := True\<rparr>, calls)
      }"
      unfolding hw_fence_rm_cb_def Some pl by simp
    with assms show ?thesis by (auto simp: Option.bind_eq_Some_conv)
  qed
qed

lemma driver_step_inv:
  assumes "driver_step P d d'" and "driver_inv P d"
  shows "driver_inv P d'"
  using assms
proof cases
  case (client h call ret)
  with call_runs [OF assms(2)] keeps_inv show ?thesis by fastforce
next
  case (join x alloc md md' r)
  with driver_register [OF assms(2), of x alloc md] show ?thesis by auto
next
  case (leave h ret)
  with driver_deregister [OF assms(2)] show ?thesis by fastforce
next
  case (reset x reset_flags ret)
  with driver_reset_by_id [OF assms(2), of x reset_flags] show ?thesis by (auto intro: keeps_inv)
next
  case (notified assigned acl sgl shared peer self payload calls)
  then show ?thesis using rm_cb_flag assms(2) driver_inv_flags(1) by metis
next
  case (doorbell p dbl)
  with driver_doorbell [OF assms(2), of p dbl] show ?thesis by (auto intro: keeps_inv)
next
  case (kernel fs t)
  with assms(2) show ?thesis by (simp add: driver_inv_flags)
next
  case controller
  with assms(2) show ?thesis by (rule controller_inv)
qed

lemma driver_steps_inv:
  assumes "(driver_step P)\<^sup>*\<^sup>* d d'" and "driver_inv P d"
  shows "driver_inv P d'"
  using assms by (induction rule: rtranclp_induct) (auto intro: driver_step_inv)

text \<open>C25. From probing on, the driver stays in order and answers every call. After a successful probe of a target
  whose client ids fit the 64 bits of the wait mask and the 31 of a doorbell, whose GPU has an rx queue and whose IPC
  table has a row for every client, whatever
  sequence of client calls, registrations, deregistrations, resets, notifications, doorbells, changes of the kernel's fences and
  writes of the fence controller follows: memory, queues, locks, client table and fence table are in order, and the
  next call, be it a call with a handle of the table, a registration or a reset of any known id or a deregistration, returns.
  Every doorbell is answered, with the loop over the GPU's queue coming to its end.
  In particular no interleaving leaves a lock taken or a handle that leads to a freed object.\<close>

theorem driver_runs:
  assumes "platform_ok P" "platform_sizes P" and "snd (pe_table_entries e) \<noteq> 0" "snd (pe_queue_entries e) \<noteq> 0"
    and "msm_hw_fence_probe_init P True e (zero_hwf\<lparr>dma_fences := fs, qtime := t\<rparr>) = Some (Some d0, 0)"
    and "fits P d0" and "unat (io_mem_base d0) + unat (used_mem_size d0) < 2 ^ 64"
    and "rows_ok d0" "mask_ready d0" "clients_num d0 \<le> 64" "doorbell_target P d0"
    and "(driver_step P)\<^sup>*\<^sup>* d0 d"
  shows "driver_inv P d \<and>
    (\<forall>h call. held_handle d h \<longrightarrow> call_args d call \<longrightarrow> (\<exists>d' ret. call_run P h call d = Some (d', ret))) \<and>
    (\<forall>alloc x md. known_id P x \<longrightarrow> (\<exists>d' md' r. msm_hw_fence_register P alloc x (Some md) (Some d) = Some (Some d', Some md', r))) \<and>
    (\<forall>x fl. known_id P x \<longrightarrow> (\<exists>d' ret. msm_hw_fence_reset_client_by_id P x fl d = Some (d', ret))) \<and>
    (\<forall>p dbl. \<exists>d'. hw_fence_cb P p dbl d = Some d') \<and>
    (\<forall>h. held_handle d h \<longrightarrow> (\<exists>d'. msm_hw_fence_deregister (Some h) d = Some (d', 0) \<and> \<not> held_handle d' h))"
proof -
  have "driver_inv P d0"
    using probe_establishes [OF assms(1-7)] assms(8-11) by (simp add: driver_inv_def table_inv_def)
  then have inv: "driver_inv P d" using driver_steps_inv [OF assms(12)] by blast
  have "\<exists>d'. msm_hw_fence_deregister (Some h) d = Some (d', 0) \<and> \<not> held_handle d' h" if h: "held_handle d h" for h
  proof -
    obtain d' where d': "msm_hw_fence_deregister (Some h) d = Some (d', 0)" "driver_inv P d'" using driver_deregister [OF inv h] by blast
    obtain n where n: "n < length (clients d)" "clients d ! n = Some h" using inv h by (rule held_client)
    have "client_objs d' h = None" using d'(1) deregister_registered(1) [OF driver_invD(8) [OF inv] n] by auto
    then have "\<not> held_handle d' h" using held_client [OF d'(2)] by (metis option.distinct(1))
    with d'(1) show ?thesis by blast
  qed
  moreover have "\<exists>d' ret. call_run P h call d = Some (d', ret)" if "held_handle d h" "call_args d call" for h call
    using call_runs [OF inv that] by blast
  moreover have "\<exists>d' md' r. msm_hw_fence_register P alloc x (Some md) (Some d) = Some (Some d', Some md', r)"
    if "known_id P x" for alloc x md
    using driver_register [OF inv that] by blast
  moreover have "\<exists>d'. hw_fence_cb P p dbl d = Some d'" for p dbl using driver_doorbell [OF inv] by blast
  moreover have "\<exists>d' ret. msm_hw_fence_reset_client_by_id P x fl d = Some (d', ret)" if "known_id P x" for x fl
    using driver_reset_by_id [OF inv that] by blast
  ultimately show ?thesis using inv by blast
qed

text \<open>C22. Deregistering undoes registering, and the id is free again, up to the contents of the queues. The handle of a
  registered client is accepted; its slot and its object become free and nothing else changes, so that no
  other client is affected. If the client could be registered at all (its row of the IPC table, its queues
  and its way of signaling are those of a client), then registering the id again at once succeeds: a new
  handle is in the slot, of a client whose queues are set up at their places, and again no other client's
  object or inbox changes. What deregistering does not do is empty the queues: the inbox of the new client
  has exactly the messages that its predecessor left unread.\<close>

theorem deregister_reregister:
  assumes inv: "memory_inv P d" and rows: "rows_ok d" and ready: "resources_ready d"
    and id: "hw_fence_utils_get_client_id_priv P d cid_ext = Some cid" "unat cid < unat (clients_num d)"
    and max: "cid_ext < client_id P CLIENT_MAX" "cid < client_id P CLIENT_MAX"
    and h: "clients d ! unat cid = Some h" and c: "client_of d (unat cid) = Some c"
    and row: "cl_update_rxq c = im_update_rxq (ipc_clients_table d ! unat cid)" and can: "can_register P d cid"
  shows "\<exists>d1 d2 md2 h' c'. msm_hw_fence_deregister (Some h) d = Some (d1, 0) \<and> memory_inv P d1 \<and>
    d1 = d\<lparr>clients := (clients d)[unat cid := None], client_objs := (client_objs d)(h := None)\<rparr> \<and>
    msm_hw_fence_register P True cid_ext (Some md) (Some d1) = Some (Some d2, Some md2, Inr h') \<and> memory_inv P d2 \<and>
    clients d2 = (clients d)[unat cid := Some h'] \<and> client_objs d2 h' = Some c' \<and> registered P d2 (unat cid) c' \<and>
    inbox d2 c' = inbox d c \<and>
    (\<forall>m. m \<noteq> unat cid \<longrightarrow> client_of d1 m = client_of d m \<and> client_of d2 m = client_of d m \<and>
       (\<forall>k. client_of d m = Some k \<longrightarrow> inbox d2 k = inbox d k))"
proof -
  let ?n = "unat cid"
  let ?d1 = "d\<lparr>clients := (clients d)[?n := None], client_objs := (client_objs d)(h := None)\<rparr>"
  have n: "?n < length (clients d)" using id(2) inv by (simp add: memory_inv_def clients_ok_def)
  note dereg = deregister_registered [OF inv n h]
  have "hw_fence_utils_get_client_id_priv P ?d1 cid_ext = hw_fence_utils_get_client_id_priv P d cid_ext"
    by (rule client_id_priv_types) simp
  then have s1: "rows_ok ?d1" "resources_ready ?d1" "hw_fence_utils_get_client_id_priv P ?d1 cid_ext = Some cid"
    "?n < unat (clients_num ?d1)" "clients ?d1 ! ?n = None" "same_layout d ?d1" "can_register P ?d1 cid"
    using rows ready id n can by (simp_all add: rows_ok_def same_layout_def can_register_def)
  have kept1: "rings_kept P d ?d1" by (rule rings_kept_same [OF s1(6)]) simp_all
  note rc = client_of_registered [OF inv c]
  show ?thesis
  proof (rule register_new [OF dereg(2) s1(1-4) max TrueI s1(5), of md])
    fix d2 md2 c'
    assume r: "msm_hw_fence_register P True cid_ext (Some md) (Some ?d1) = Some (Some d2, Some md2, Inr (next_obj ?d1))"
        "memory_inv P d2" "rings_kept P ?d1 d2" "register_frame ?d1 d2"
        "clients d2 = (clients ?d1)[?n := Some (next_obj ?d1)]" "client_objs d2 = (client_objs ?d1)(next_obj ?d1 \<mapsto> c')"
        "registered P d2 ?n c'" "cl_update_rxq c' = im_update_rxq (ipc_clients_table ?d1 ! ?n)"
    have lay: "same_layout d d2" using same_layout_trans [OF s1(6) register_frame_fields(1) [OF r(4)]] .
    note kept = rings_kept_trans [OF s1(6) kept1 r(3)]
    have "inbox d2 c' = inbox d c"
      using inbox_kept [OF inv r(2) lay kept rc(1) r(7) rc(2)] r(8) row by simp
    moreover have "client_of d2 m = client_of d m" if "m \<noteq> ?n" for m
      using client_of_other [OF dereg(2) r(5,6) that] dereg(3) [OF that] by simp
    moreover have "inbox d2 k = inbox d k" if "client_of d m = Some k" for m k
      using inbox_client_kept [OF inv r(2) lay kept that] .
    ultimately show ?thesis
      using r dereg by (intro exI [of _ ?d1] exI [of _ d2] exI [of _ md2] exI [of _ "next_obj ?d1"] exI [of _ c']) simp
  qed (use s1(7) in blast)
qed

subsection \<open>Samples\<close>

text \<open>The sample driver with a client, and with an array of two fences among the kernel's fences.\<close>

definition runs_fences :: "nat \<Rightarrow> dma_fence option" where
  "runs_fences = [1 \<mapsto> \<lparr>df_context = 1, df_seqno = 1, df_flags = 0, df_array = None\<rparr>,
     2 \<mapsto> \<lparr>df_context = 1, df_seqno = 2, df_flags = 0, df_array = None\<rparr>,
     3 \<mapsto> \<lparr>df_context = 2, df_seqno = 1, df_flags = 0,
           df_array = Some \<lparr>fa_num_fences = 2, fa_fences = Some [Some 1, Some 2]\<rparr>\<rparr>]"

lemma array_soundI:
  assumes "0 < fa_num_fences arr" and "fa_fences arr = Some cs" and "length cs = unat (fa_num_fences arr)"
    and "\<forall>x\<in>set cs. \<exists>fid f. x = Some fid \<and> dma_fences d fid = Some f \<and> child_key f \<noteq> child_key base"
  shows "array_sound d base arr"
  unfolding array_sound_def using assms nth_mem by blast

lemma runs_fence_sound:
  assumes "dma_fences d = runs_fences"
  shows "fence_sound d 3"
proof -
  let ?arr = "\<lparr>fa_num_fences = 2, fa_fences = Some [Some 1, Some 2]\<rparr>"
  let ?base = "\<lparr>df_context = 2, df_seqno = 1, df_flags = 0, df_array = Some ?arr\<rparr>"
  have "dma_fences d 1 = Some \<lparr>df_context = 1, df_seqno = 1, df_flags = 0, df_array = None\<rparr>"
    "dma_fences d 2 = Some \<lparr>df_context = 1, df_seqno = 2, df_flags = 0, df_array = None\<rparr>" "dma_fences d 3 = Some ?base"
    by (simp_all add: assms runs_fences_def)
  moreover from this have "array_sound d ?base ?arr"
    by (intro array_soundI [where cs = "[Some 1, Some 2]"]) (simp_all add: child_key_def)
  ultimately show ?thesis by (simp add: fence_sound_def)
qed

text \<open>The driver right after probing the sample target, and with its first client.\<close>

lemma probe_sample_doorbell:
  "map_option (\<lambda>(d, ret). map_option (\<lambda>d. (queue_count d 1, length (ctl_start_ptr d))) d)
     (msm_hw_fence_probe_init sample_platform True probe_sample probe_zeroed) = Some (Some (2, 6))"
  by code_simp

lemma probed_sample:
  obtains d where "msm_hw_fence_probe_init sample_platform True probe_sample probe_zeroed = Some (Some d, 0)"
    "fits sample_platform d" "unat (io_mem_base d) + unat (used_mem_size d) < 2 ^ 64" "rows_ok d" "mask_ready d" "clients_num d \<le> 64"
    "doorbell_target sample_platform d" "driver_inv sample_platform d"
proof -
  obtain d where d: "msm_hw_fence_probe_init sample_platform True probe_sample probe_zeroed = Some (Some d, 0)"
    "fits sample_platform d" "unat (io_mem_base d) + unat (used_mem_size d) < 2 ^ 64" "clients_num d = 17"
    using probe_sample_state by blast
  obtain d1 where d1: "memory_inv sample_platform d1" "rows_ok d1" "resources_ready d1" "clients_num d1 = 17" "table_inv d1"
    "hw_fence_utils_get_client_id_priv sample_platform d1 8 = Some 8" "clients d1 = replicate 17 None"
    "msm_hw_fence_probe_init sample_platform True probe_sample probe_zeroed = Some (Some d1, 0)" "rxq_clients_num d1 = 14"
    "hw_fence_table_entries d1 = 4" "hw_fences_tbl_cnt d1 = 4"
    by (rule probe_sample_inv)
  have "d1 = d" using d(1) d1(8) by simp
  note d1 = d1 [unfolded this]
  have ok: "mask_ready d" "clients_num d \<le> 64" by (simp_all add: mask_ready_def d1(4,7,9))
  have "queue_count d 1 = 2 \<and> length (ctl_start_ptr d) = 6" using probe_sample_doorbell unfolding d(1) by simp
  then have target: "doorbell_target sample_platform d"
    by (simp add: doorbell_target_def d1(4) HW_FENCE_LOOPBACK_MAX_def HW_FENCE_LOOPBACK_VAL_0_def
        HW_FENCE_MAX_DPU_LOOPBACK_CLIENTS_def)
  have "driver_inv sample_platform d"
    using d1(1-3,5,10,11) ok target by (simp add: driver_inv_def table_inv_def)
  with d(1-3) d1(2) ok target show thesis by (intro that)
qed

lemma joined_sample_run:
  "do {
     (d, _) \<leftarrow> msm_hw_fence_probe_init sample_platform True probe_sample probe_zeroed;
     (d, _, r) \<leftarrow> msm_hw_fence_register sample_platform True 8 (Some zero_mem_addr) d;
     d \<leftarrow> d;
     c \<leftarrow> client_objs d 0;
     Some (r, can_register sample_platform d 8, cl_update_rxq c, inbox d c, inbox_room d c)
   } = Some (Inr 0, True, True, [], 3)"
  by code_simp

lemma joined_sample:
  assumes probe: "msm_hw_fence_probe_init sample_platform True probe_sample probe_zeroed = Some (Some d0, 0)"
    and inv: "driver_inv sample_platform d0"
  obtains d c where "driver_step sample_platform d0 d" "held_handle d 0" "driver_inv sample_platform d" "clients d ! 8 = Some 0"
    "client_objs d 0 = Some c" "registered sample_platform d 8 c" "cl_update_rxq c" "im_update_rxq (ipc_clients_table d ! 8)"
    "can_register sample_platform d 8" "inbox d c = []" "inbox_room d c = 3" "clients_num d = 17"
    "hw_fence_utils_get_client_id_priv sample_platform d 8 = Some 8"
proof -
  obtain d1 where d1: "memory_inv sample_platform d1" "rows_ok d1" "resources_ready d1" "clients_num d1 = 17"
    "hw_fence_utils_get_client_id_priv sample_platform d1 8 = Some 8" "clients d1 = replicate 17 None"
    "msm_hw_fence_probe_init sample_platform True probe_sample probe_zeroed = Some (Some d1, 0)"
    by (rule probe_sample_inv)
  have "d1 = d0" using probe d1(7) by simp
  note d1 = d1 [unfolded this]
  have known: "known_id sample_platform 8" by (simp add: known_id_def HW_FENCE_MAX_STATIC_CLIENTS_INDEX_def)
  have pre: "unat (8 :: u32) < unat (clients_num d0)" "8 < client_id sample_platform CLIENT_MAX"
    "clients d0 ! unat (8 :: u32) = None"
    by (simp_all add: d1(4,6))
  show thesis
  proof (rule register_new [OF d1(1-3,5) pre(1,2,2) TrueI pre(3), of zero_mem_addr])
    fix d md' c
    assume r: "msm_hw_fence_register sample_platform True 8 (Some zero_mem_addr) (Some d0) = Some (Some d, Some md', Inr (next_obj d0))"
        "register_frame d0 d" "clients d = (clients d0)[unat (8 :: u32) := Some (next_obj d0)]"
        "client_objs d = (client_objs d0)(next_obj d0 \<mapsto> c)" "registered sample_platform d (unat (8 :: u32)) c"
        "cl_update_rxq c = im_update_rxq (ipc_clients_table d0 ! unat (8 :: u32))"
    have step: "driver_step sample_platform d0 d" using driver_step.join [OF known r(1)] .
    have run: "do {
        c \<leftarrow> client_objs d 0;
        Some (Inr (next_obj d0) :: int + nat, can_register sample_platform d 8, cl_update_rxq c, inbox d c, inbox_room d c)
      } = Some (Inr 0, True, True, [], 3)"
      using joined_sample_run by (simp add: probe r(1))
    have obj: "next_obj d0 = 0" using run by (auto simp: Option.bind_eq_Some_conv)
    then have c: "client_objs d 0 = Some c" using r(4) by simp
    have eqs: "can_register sample_platform d 8" "cl_update_rxq c" "inbox d c = []" "inbox_room d c = 3"
      using run by (simp_all add: c)
    have slot: "clients d ! 8 = Some 0" using r(3) obj d1(6) by simp
    have "held_handle d 0" using r(3) obj d1(6) set_update_memI [of "unat (8 :: u32)" "clients d0" "Some 0"] by (simp add: held_handle_def)
    moreover have "clients_num d = 17" "hw_fence_client_types d = hw_fence_client_types d0"
      using register_frame_fields(1) [OF r(2)] d1(4) by (simp_all add: same_layout_def)
    ultimately show thesis
      using step driver_step_inv [OF step inv] slot c r(5,6) eqs register_frame_fields(8) [OF r(2)] d1(5)
        client_id_priv_types [of d d0 sample_platform 8]
      by (intro that [of d c]) simp_all
  next
    fix d md' e
    assume "msm_hw_fence_register sample_platform True 8 (Some zero_mem_addr) (Some d0) = Some (Some d, Some md', Inl e)"
    with joined_sample_run show thesis by (auto simp: probe Option.bind_eq_Some_conv)
  qed
qed

lemma driver_sample:
  obtains d h where "driver_inv sample_platform d" "held_handle d h" "vm_ready d" "dma_fences d = runs_fences"
proof -
  obtain d0 where d0: "msm_hw_fence_probe_init sample_platform True probe_sample probe_zeroed = Some (Some d0, 0)"
    "driver_inv sample_platform d0"
    using probed_sample by blast
  obtain d where d: "held_handle d 0" "driver_inv sample_platform d" using joined_sample [OF d0] by blast
  have inv: "driver_inv sample_platform (d\<lparr>vm_ready := True, dma_fences := runs_fences, qtime := qtime d\<rparr>)"
    using d(2) driver_inv_flags(1) [where b = True and P = sample_platform and d = d]
      driver_inv_flags(2) [where d = "d\<lparr>vm_ready := True\<rparr>" and P = sample_platform and fs = runs_fences and t = "qtime d"]
    by simp
  show thesis by (rule that [OF inv, of 0]) (use d(1) in \<open>simp_all add: held_handle_def\<close>)
qed

theorem client_calls_progress_witness:
  "\<exists>d h d' ret. held_handle d h \<and> driver_inv sample_platform d' \<and>
    call_run sample_platform h (Wait_update [Some 3] (Some [0]) None 1) d = Some (d', ret)"
proof -
  obtain d h where d: "driver_inv sample_platform d" "held_handle d h" "vm_ready d" "dma_fences d = runs_fences"
    by (rule driver_sample)
  have "call_args d (Wait_update [Some 3] (Some [0]) None 1)"
    using runs_fence_sound [OF d(4)] by (simp add: wait_args_def)
  from client_calls_progress [OF d(1,2) this] d(2) show ?thesis by blast
qed

theorem driver_runs_witness:
  "\<exists>d0 d h d'. msm_hw_fence_probe_init sample_platform True probe_sample probe_zeroed = Some (Some d0, 0) \<and>
    (driver_step sample_platform)\<^sup>*\<^sup>* d0 d \<and> held_handle d h \<and> msm_hw_fence_deregister (Some h) d = Some (d', 0)"
proof -
  obtain d0 where d0: "msm_hw_fence_probe_init sample_platform True probe_sample probe_zeroed = Some (Some d0, 0)"
    "fits sample_platform d0" "unat (io_mem_base d0) + unat (used_mem_size d0) < 2 ^ 64" "rows_ok d0" "mask_ready d0"
    "clients_num d0 \<le> 64" "doorbell_target sample_platform d0" "driver_inv sample_platform d0"
    by (rule probed_sample)
  obtain d h where d: "driver_step sample_platform d0 d" "held_handle d h" using joined_sample [OF d0(1,8)] by blast
  have vals: "snd (pe_table_entries probe_sample) \<noteq> 0" "snd (pe_queue_entries probe_sample) \<noteq> 0"
    by (simp_all add: probe_sample_def)
  have steps: "(driver_step sample_platform)\<^sup>*\<^sup>* d0 d" using d(1) by blast
  from driver_runs [OF sample_platform_ok sample_platform_sizes vals d0(1-7) steps] d(2) d0(1) steps
  show ?thesis by blast
qed

text \<open>A client leaves with a message in its inbox; the next client with its id finds it there.\<close>

lemma message_sample:
  obtains d c where "driver_inv sample_platform d" "clients d ! 8 = Some 0" "client_of d 8 = Some c" "clients_num d = 17"
    "hw_fence_utils_get_client_id_priv sample_platform d 8 = Some 8" "cl_update_rxq c = im_update_rxq (ipc_clients_table d ! 8)"
    "can_register sample_platform d 8" "inbox d c = [sample_msg 7]"
proof -
  obtain d0 where d0: "msm_hw_fence_probe_init sample_platform True probe_sample probe_zeroed = Some (Some d0, 0)"
    "driver_inv sample_platform d0"
    using probed_sample by blast
  obtain d c where d: "held_handle d 0" "driver_inv sample_platform d" "clients d ! 8 = Some 0"
    "client_objs d 0 = Some c" "registered sample_platform d 8 c" "cl_update_rxq c" "im_update_rxq (ipc_clients_table d ! 8)"
    "can_register sample_platform d 8" "inbox d c = []" "inbox_room d c = 3" "clients_num d = 17"
    "hw_fence_utils_get_client_id_priv sample_platform d 8 = Some 8"
    by (rule joined_sample [OF d0])
  have n: "8 < unat (clients_num d)" using d(11) by simp
  have qc: "RXQ < queue_count d 8" using d(5,6) by (simp add: registered_def)
  note rx = registered_rx [OF driver_invD(8) [OF d(2)] d(5) n d(6)]
  have room: "0 < ring_room (slots d 8) (rx_ring d c)" "ring_items (slots d 8) (rx_ring d c) = []" "ring_ok (slots d 8) (rx_ring d c)"
    using d(6,9,10) rx(1) registered_ring(1) [OF d(2) n d(5) qc, of False] by (simp_all add: inbox_def inbox_room_def)
  obtain rd wr ws where q: "ring_items (slots d 8) (rd, wr, ws) = [sample_msg 7]" "ring_ok (slots d 8) (rd, wr, ws)"
    using ring_put_ok [OF room(3,1), of 0 "sample_msg 7"] room(2) by (metis append_Nil prod_cases3)
  let ?d = "set_queue_ring False (cl_queues c ! RXQ) (rd, wr, ws) d"
  have k: "keeps sample_platform d ?d" using keeps_ring [OF d(2) n d(5) qc q(2)] .
  have len: "8 < length (clients d)" using n driver_invD(5) [OF d(2)] by (simp add: clients_ok_def)
  have fields: "clients_num ?d = clients_num d" "hw_fence_client_types ?d = hw_fence_client_types d"
    "ipc_clients_table ?d = ipc_clients_table d" "hw_fence_client_queue_size ?d = hw_fence_client_queue_size d"
    using k by (simp_all add: keeps_def call_frame_def same_layout_def)
  have "client_of ?d 8 = Some (no_val c)" using d(3,4) len by (simp add: client_of_def)
  moreover have "inbox ?d (no_val c) = [sample_msg 7]"
    using q(1) d(6) rx(1) by (simp add: inbox_def)
  moreover have "driver_inv sample_platform ?d" using k by (simp add: keeps_def)
  moreover have "can_register sample_platform ?d 8" using d(8) unfolding can_register_def fields .
  ultimately show thesis
    using d(3,6,7,11,12) client_id_priv_types [OF fields(2), of sample_platform 8] fields
    by (intro that [of ?d "no_val c"]) (simp_all add: no_val_def)
qed

theorem deregister_reregister_witness:
  "\<exists>d d1 d2 md h c c'. inbox d c = [sample_msg 7] \<and> msm_hw_fence_deregister (Some 0) d = Some (d1, 0) \<and> clients d1 ! 8 = None \<and>
    msm_hw_fence_register sample_platform True 8 (Some zero_mem_addr) (Some d1) = Some (Some d2, Some md, Inr h) \<and>
    client_objs d2 h = Some c' \<and> inbox d2 c' = [sample_msg 7]"
proof -
  obtain d c where d: "driver_inv sample_platform d" "clients d ! 8 = Some 0" "client_of d 8 = Some c" "clients_num d = 17"
    "hw_fence_utils_get_client_id_priv sample_platform d 8 = Some 8" "cl_update_rxq c = im_update_rxq (ipc_clients_table d ! 8)"
    "can_register sample_platform d 8" "inbox d c = [sample_msg 7]"
    by (rule message_sample)
  have n: "8 < length (clients d)" using driver_invD(5) [OF d(1)] d(4) by (simp add: clients_ok_def)
  have at: "unat (8 :: u32) < unat (clients_num d)" "8 < client_id sample_platform CLIENT_MAX"
    "clients d ! unat (8 :: u32) = Some 0" "client_of d (unat (8 :: u32)) = Some c"
    "cl_update_rxq c = im_update_rxq (ipc_clients_table d ! unat (8 :: u32))"
    using d(2-4,6) by simp_all
  obtain d1 d2 md h c' where r: "msm_hw_fence_deregister (Some 0) d = Some (d1, 0)"
    "d1 = d\<lparr>clients := (clients d)[unat (8 :: u32) := None], client_objs := (client_objs d)(0 := None)\<rparr>"
    "msm_hw_fence_register sample_platform True 8 (Some zero_mem_addr) (Some d1) = Some (Some d2, Some md, Inr h)"
    "client_objs d2 h = Some c'" "inbox d2 c' = inbox d c"
    using deregister_reregister [OF driver_invD(8,6,7) [OF d(1)] d(5) at(1,2,2-5) d(7), of zero_mem_addr] by blast
  have "clients d1 ! 8 = None" using r(2) n by simp
  with r d(8) show ?thesis by (intro exI [of _ d] exI [of _ d1] exI [of _ d2] exI [of _ md] exI [of _ h] exI [of _ c] exI [of _ c']) simp
qed

end
