(* ===== verification/HwfSpin.thy ===== *)
theory HwfSpin
  imports HwfLock
begin

text \<open>
  The instruction sequences of \<open>_lock\<close> and \<open>_unlock\<close> (\<open>hw_fence_drv_utils.c\<close>, aarch64), interleaved: any
  number of threads of this machine run them on one lock word, one instruction with an effect on memory
  at a time, while the service machine sets and clears its bit 1 of the word at any time. An exclusive store
  succeeds only if nobody wrote the word since the thread's exclusive load, and may fail without a reason.
  First mutual exclusion and the refinement of the sequential lock, for all reachable states; then the
  wake-up of the service machine, for all fair runs.
\<close>

section \<open>The instructions\<close>

text \<open>Where a thread is: before its \<open>LDAXR\<close> and \<open>STXR\<close> of \<open>_lock\<close>, in the critical section, before those of
  \<open>_unlock\<close> (with the value in W6), and before the check of bit 1 at the end of \<open>_unlock\<close>.\<close>

datatype pc = Idle | LockLoad | LockStore | Critical | UnlockLoad | UnlockStore u64 | WakeCheck

text \<open>\<open>monitor i\<close> says whether the exclusive access of thread \<open>i\<close> is still intact, \<open>wakes\<close> is the counter
  \<open>lock_wake_cnt\<close> of the wake-up calls.\<close>

record spin =
  lock_mem :: u64
  pcs :: "nat \<Rightarrow> pc"
  monitor :: "nat \<Rightarrow> bool"
  wakes :: nat

definition at_pc :: "nat \<Rightarrow> pc \<Rightarrow> spin \<Rightarrow> spin" where
  "at_pc i p s = s\<lparr>pcs := (pcs s)(i := p)\<rparr>"

text \<open>An access that breaks the exclusive accesses of all threads.\<close>

definition write_lock :: "u64 \<Rightarrow> spin \<Rightarrow> spin" where
  "write_lock w s = s\<lparr>lock_mem := w, monitor := (\<lambda>_. False)\<rparr>"

definition load_exclusive :: "nat \<Rightarrow> spin \<Rightarrow> spin" where
  "load_exclusive i s = s\<lparr>monitor := (monitor s)(i := True)\<rparr>"

abbreviation low_word :: "u64 \<Rightarrow> u32" where
  "low_word w \<equiv> ucast w"

text \<open>The store of 1 to the low half of the word.\<close>

definition lock_value :: "u64 \<Rightarrow> u64" where
  "lock_value w = (w AND 0xFFFFFFFF00000000) OR 1"

definition SVM_BIT :: u64 where "SVM_BIT = 2"

inductive spin_step :: "spin \<Rightarrow> spin \<Rightarrow> bool" where
  start: "pcs s i = Idle \<Longrightarrow> spin_step s (at_pc i LockLoad s)"
| lock_load_taken: "pcs s i = LockLoad \<Longrightarrow> low_word (lock_mem s) \<noteq> 0 \<Longrightarrow> spin_step s (load_exclusive i s)"
| lock_load_free: "pcs s i = LockLoad \<Longrightarrow> low_word (lock_mem s) = 0 \<Longrightarrow> spin_step s (at_pc i LockStore (load_exclusive i s))"
| lock_store: "pcs s i = LockStore \<Longrightarrow> monitor s i \<Longrightarrow>
    spin_step s (at_pc i Critical (write_lock (lock_value (lock_mem s)) s))"
| lock_store_fails: "pcs s i = LockStore \<Longrightarrow> spin_step s (at_pc i LockLoad s)"
| release: "pcs s i = Critical \<Longrightarrow> spin_step s (at_pc i UnlockLoad s)"
| unlock_load: "pcs s i = UnlockLoad \<Longrightarrow> spin_step s (at_pc i (UnlockStore (unlock_word (lock_mem s))) (load_exclusive i s))"
| unlock_store: "pcs s i = UnlockStore w \<Longrightarrow> monitor s i \<Longrightarrow> spin_step s (at_pc i WakeCheck (write_lock w s))"
| unlock_store_fails: "pcs s i = UnlockStore w \<Longrightarrow> spin_step s (at_pc i UnlockLoad s)"
| wake_check: "pcs s i = WakeCheck \<Longrightarrow> spin_step s (if lock_mem s AND SVM_BIT \<noteq> 0
    then (at_pc i Idle s)\<lparr>wakes := Suc (wakes s)\<rparr> else at_pc i Idle s)"
| svm_sets: "spin_step s (write_lock (lock_mem s OR SVM_BIT) s)"
| svm_clears: "spin_step s (write_lock (lock_mem s AND NOT SVM_BIT) s)"

inductive_cases spin_stepE: "spin_step s s'"

definition spin_init :: "spin \<Rightarrow> bool" where
  "spin_init s \<longleftrightarrow> lock_mem s = 0 \<and> (\<forall>i. pcs s i = Idle)"

inductive spin_reachable :: "spin \<Rightarrow> bool" where
  init: "spin_init s \<Longrightarrow> spin_reachable s"
| step: "spin_reachable s \<Longrightarrow> spin_step s s' \<Longrightarrow> spin_reachable s'"

section \<open>The invariant\<close>

text \<open>The threads that hold the lock.\<close>

fun holds :: "pc \<Rightarrow> bool" where
  "holds Critical = True"
| "holds UnlockLoad = True"
| "holds (UnlockStore w) = True"
| "holds _ = False"

text \<open>
  Bit 0 is set exactly while a thread holds the lock, and at most one does; a thread whose exclusive access is
  intact knows the word: it is free before the store of \<open>_lock\<close>, and the value to be stored is up to date
  before the store of \<open>_unlock\<close>.
\<close>

definition spin_ok :: "spin \<Rightarrow> bool" where
  "spin_ok s \<longleftrightarrow> (bit (lock_mem s) 0 \<longleftrightarrow> (\<exists>i. holds (pcs s i))) \<and>
     (\<forall>i j. holds (pcs s i) \<longrightarrow> holds (pcs s j) \<longrightarrow> i = j) \<and>
     (\<forall>i. pcs s i = LockStore \<longrightarrow> monitor s i \<longrightarrow> low_word (lock_mem s) = 0) \<and>
     (\<forall>i w. pcs s i = UnlockStore w \<longrightarrow> monitor s i \<longrightarrow> w = unlock_word (lock_mem s))"

lemma low_word_bit: "n < 32 \<Longrightarrow> bit (low_word w) n = bit w n"
  by (simp add: bit_ucast_iff)

lemma free_bits: "low_word w = 0 \<Longrightarrow> \<not> bit w 0 \<and> \<not> bit w 1"
  using low_word_bit [of 0 w] low_word_bit [of 1 w] by simp

lemma lock_bits: "bit (lock_value w) 0" "\<not> bit (lock_value w) 1" "low_word (lock_value w) \<noteq> 0"
proof -
  have c: "(0xFFFFFFFF00000000 :: u64) = NOT (mask 32)" by (simp add: mask_eq_exp_minus_1)
  show "bit (lock_value w) 0" by (simp add: lock_value_def bit_or_iff)
  then show "low_word (lock_value w) \<noteq> 0" using free_bits by blast
  show "\<not> bit (lock_value w) 1"
    by (simp add: lock_value_def c bit_or_iff bit_and_iff bit_not_iff bit_mask_iff bit_1_iff)
qed

lemma svm_bits:
  "bit (w OR SVM_BIT) 0 = bit w 0" "bit (w OR SVM_BIT) (Suc 0)" "bit (w AND NOT SVM_BIT) 0 = bit w 0"
  "w AND SVM_BIT \<noteq> 0 \<longleftrightarrow> bit w (Suc 0)"
proof -
  have c: "SVM_BIT = 2 ^ 1" by (simp add: SVM_BIT_def)
  show "bit (w OR SVM_BIT) 0 = bit w 0" "bit (w OR SVM_BIT) (Suc 0)" "bit (w AND NOT SVM_BIT) 0 = bit w 0"
    unfolding c by (simp_all add: bit_or_iff bit_and_iff bit_not_iff bit_exp_iff del: power_one_right)
  show "w AND SVM_BIT \<noteq> 0 \<longleftrightarrow> bit w (Suc 0)"
    using and_BIT_iff [of 1 w] by (simp add: BIT_def SVM_BIT_def)
qed

lemma unlock_bits: "\<not> bit (unlock_word w) 0" "bit (unlock_word w) (Suc 0) = bit w (Suc 0)"
proof -
  have c: "(0xFFFFFFFFFFFFFFFE :: u64) = NOT 1" by simp
  show "\<not> bit (unlock_word w) 0" "bit (unlock_word w) (Suc 0) = bit w (Suc 0)"
    unfolding unlock_word_def c by (simp_all add: bit_and_iff bit_not_iff bit_1_iff)
qed

text \<open>A thread that moves without writing the word, and without taking or giving up the lock.\<close>

lemma spin_ok_move:
  assumes ok: "spin_ok s" and p: "holds p = holds (pcs s i)"
    and m: "\<forall>j. j \<noteq> i \<longrightarrow> m j = monitor s j"
    and st: "p = LockStore \<Longrightarrow> m i \<Longrightarrow> low_word (lock_mem s) = 0" "\<And>w. p = UnlockStore w \<Longrightarrow> m i \<Longrightarrow> w = unlock_word (lock_mem s)"
  shows "spin_ok (at_pc i p (s\<lparr>monitor := m\<rparr>))"
proof -
  have h: "holds (((pcs s)(i := p)) j) = holds (pcs s j)" for j using p by simp
  have "low_word (lock_mem s) = 0" if "((pcs s)(i := p)) j = LockStore" "m j" for j
    using that ok m st(1) by (cases "j = i") (auto simp: spin_ok_def)
  moreover have "w = unlock_word (lock_mem s)" if "((pcs s)(i := p)) j = UnlockStore w" "m j" for j w
    using that ok m st(2) by (cases "j = i") (auto simp: spin_ok_def)
  ultimately show ?thesis
    using ok h by (simp add: spin_ok_def at_pc_def del: fun_upd_apply)
qed

text \<open>A change of bit 1 by the service machine.\<close>

lemma spin_ok_svm:
  assumes "spin_ok s" and "bit w 0 = bit (lock_mem s) 0"
  shows "spin_ok (write_lock w s)"
  using assms by (simp add: spin_ok_def write_lock_def)

lemma spin_ok_step:
  assumes "spin_step s s'" and ok: "spin_ok s"
  shows "spin_ok s'"
  using assms(1)
proof cases
  case (start i)
  then show ?thesis using spin_ok_move [OF ok, of LockLoad i "monitor s"] by simp
next
  case (lock_load_taken i)
  then show ?thesis
    using spin_ok_move [OF ok, of LockLoad i "(monitor s)(i := True)"] by (simp add: load_exclusive_def at_pc_def fun_upd_idem)
next
  case (lock_load_free i)
  then show ?thesis
    using spin_ok_move [OF ok, of LockStore i "(monitor s)(i := True)"] by (simp add: load_exclusive_def)
next
  case (lock_store i)
  then have free: "low_word (lock_mem s) = 0" using ok by (simp add: spin_ok_def)
  then have none: "\<not> holds (pcs s j)" for j using ok free_bits by (auto simp: spin_ok_def)
  show ?thesis using none lock_bits by (auto simp: lock_store(1) spin_ok_def at_pc_def write_lock_def)
next
  case (lock_store_fails i)
  then show ?thesis using spin_ok_move [OF ok, of LockLoad i "monitor s"] by simp
next
  case (release i)
  then show ?thesis using spin_ok_move [OF ok, of UnlockLoad i "monitor s"] by simp
next
  case (unlock_load i)
  then show ?thesis
    using spin_ok_move [OF ok, of "UnlockStore (unlock_word (lock_mem s))" i "(monitor s)(i := True)"]
    by (simp add: load_exclusive_def)
next
  case (unlock_store i w)
  then have w: "w = unlock_word (lock_mem s)" using ok by (simp add: spin_ok_def)
  have only: "\<not> holds (pcs s j)" if "j \<noteq> i" for j
    using ok unlock_store(2) that unfolding spin_ok_def by (metis holds.simps(3))
  show ?thesis
    using ok only unlock_bits [of "lock_mem s"] by (auto simp: unlock_store(1) spin_ok_def at_pc_def write_lock_def w)
next
  case (unlock_store_fails i w)
  then show ?thesis using spin_ok_move [OF ok, of UnlockLoad i "monitor s"] by simp
next
  case (wake_check i)
  let ?q = "(pcs s)(i := Idle)"
  have q: "holds (?q j) = holds (pcs s j)" "(?q j = LockStore) = (pcs s j = LockStore)"
    "(?q j = UnlockStore w) = (pcs s j = UnlockStore w)" for j w
    using wake_check(2) by simp_all
  show ?thesis
    using ok by (simp add: wake_check(1) spin_ok_def at_pc_def q del: fun_upd_apply)
next
  case svm_sets
  then show ?thesis unfolding svm_sets by (intro spin_ok_svm [OF ok]) (simp_all add: svm_bits)
next
  case svm_clears
  then show ?thesis unfolding svm_clears by (intro spin_ok_svm [OF ok]) (simp_all add: svm_bits)
qed

lemma spin_reachable_ok: "spin_reachable s \<Longrightarrow> spin_ok s"
proof (induction rule: spin_reachable.induct)
  case (init s)
  then show ?case by (simp add: spin_init_def spin_ok_def)
next
  case (step s s')
  then show ?case by (simp add: spin_ok_step)
qed

section \<open>Properties\<close>

text \<open>C26. The lock excludes: in every reachable state of any number of threads and the service machine, at most
  one thread is between the end of \<open>_lock\<close> and the end of the store of \<open>_unlock\<close>, and while there is one, its bit is
  in the word, so that the word is not free for the service machine either. And the instruction sequences
  refine the sequential model of the lock: a step that changes the word is the lock of a free word by a
  thread that then holds it, the unlock by the thread that held it, or a change of bit 1 by the service
  machine, which no thread undoes.\<close>

theorem spin_lock_refines:
  assumes "spin_reachable s"
  shows "(\<forall>i j. holds (pcs s i) \<longrightarrow> holds (pcs s j) \<longrightarrow> i = j) \<and> ((\<exists>i. holds (pcs s i)) \<longleftrightarrow> bit (lock_mem s) 0) \<and>
    (\<forall>s'. spin_step s s' \<longrightarrow>
       lock_mem s' = lock_mem s \<or>
       lock_word (lock_mem s) = Some (lock_mem s') \<and> (\<exists>i. pcs s' i = Critical) \<and> \<not> (\<exists>i. holds (pcs s i)) \<or>
       lock_mem s' = unlock_word (lock_mem s) \<and> (\<exists>i. holds (pcs s i)) \<and> \<not> (\<exists>i. holds (pcs s' i)) \<or>
       lock_mem s' \<in> {lock_mem s OR SVM_BIT, lock_mem s AND NOT SVM_BIT} \<and> pcs s' = pcs s)"
proof -
  have ok: "spin_ok s" using assms by (rule spin_reachable_ok)
  have "lock_mem s' = lock_mem s \<or>
       lock_word (lock_mem s) = Some (lock_mem s') \<and> (\<exists>i. pcs s' i = Critical) \<and> \<not> (\<exists>i. holds (pcs s i)) \<or>
       lock_mem s' = unlock_word (lock_mem s) \<and> (\<exists>i. holds (pcs s i)) \<and> \<not> (\<exists>i. holds (pcs s' i)) \<or>
       lock_mem s' \<in> {lock_mem s OR SVM_BIT, lock_mem s AND NOT SVM_BIT} \<and> pcs s' = pcs s" if step: "spin_step s s'" for s'
    using step
  proof cases
    case (lock_store i)
    have free: "low_word (lock_mem s) = 0" using ok lock_store by (simp add: spin_ok_def)
    then have "lock_word (lock_mem s) = Some (lock_mem s')"
      by (simp add: lock_store(1) lock_word_def lock_value_def write_lock_def at_pc_def)
    moreover have "\<not> (\<exists>i. holds (pcs s i))" using ok free_bits [OF free] by (simp add: spin_ok_def)
    moreover have "pcs s' i = Critical" by (simp add: lock_store(1) at_pc_def)
    ultimately show ?thesis by blast
  next
    case (unlock_store i w)
    have "lock_mem s' = unlock_word (lock_mem s)"
      using ok unlock_store(2,3) by (simp add: unlock_store(1) spin_ok_def write_lock_def at_pc_def)
    moreover have "holds (pcs s i)" using unlock_store(2) by simp
    moreover have "\<not> bit (lock_mem s') 0" using calculation(1) unlock_bits by simp
    then have "\<not> (\<exists>i. holds (pcs s' i))" using spin_ok_step [OF step ok] by (simp add: spin_ok_def)
    ultimately show ?thesis by blast
  qed (simp_all add: at_pc_def load_exclusive_def write_lock_def)
  then show ?thesis using ok unfolding spin_ok_def by blast
qed

text \<open>A run: thread 0 takes the lock.\<close>

abbreviation spin0 :: spin where
  "spin0 \<equiv> \<lparr>lock_mem = 0, pcs = (\<lambda>_. Idle), monitor = (\<lambda>_. False), wakes = 0\<rparr>"

definition spin_taken :: spin where
  "spin_taken = at_pc 0 Critical (write_lock (lock_value 0) (at_pc 0 LockStore (load_exclusive 0 (at_pc 0 LockLoad spin0))))"

lemma spin_taken_reachable: "spin_reachable spin_taken"
proof -
  have "spin_reachable spin0" by (rule spin_reachable.init) (simp add: spin_init_def)
  moreover have "spin_step spin0 (at_pc 0 LockLoad spin0)" by (rule spin_step.start) simp
  moreover have "spin_step (at_pc 0 LockLoad spin0) (at_pc 0 LockStore (load_exclusive 0 (at_pc 0 LockLoad spin0)))"
    by (rule spin_step.lock_load_free) (simp_all add: at_pc_def)
  moreover have "spin_step (at_pc 0 LockStore (load_exclusive 0 (at_pc 0 LockLoad spin0))) spin_taken"
    using spin_step.lock_store [of "at_pc 0 LockStore (load_exclusive 0 (at_pc 0 LockLoad spin0))" 0]
    by (simp add: spin_taken_def at_pc_def load_exclusive_def)
  ultimately show ?thesis by (meson spin_reachable.step)
qed

theorem spin_lock_refines_witness:
  "holds (pcs spin_taken 0) \<and> bit (lock_mem spin_taken) 0 \<and> \<not> holds (pcs spin_taken 1)"
proof -
  have "holds (pcs spin_taken 0)" by (simp add: spin_taken_def at_pc_def)
  with spin_lock_refines [OF spin_taken_reachable] show ?thesis by (metis zero_neq_one)
qed

section \<open>Runs\<close>

text \<open>A run of all threads and the service machine; a moment may also pass without an access to the lock.\<close>

definition spin_run :: "(nat \<Rightarrow> spin) \<Rightarrow> bool" where
  "spin_run r \<longleftrightarrow> spin_init (r 0) \<and> (\<forall>t. r (Suc t) = r t \<or> spin_step (r t) (r (Suc t)))"

text \<open>
  The processor is fair to the threads: a thread that holds the lock or is about to check the bit does not stay
  at one instruction for ever (its critical section ends, for it runs with preemption disabled), and an
  exclusive store that is tried again and again succeeds at last.
\<close>

fun active :: "pc \<Rightarrow> bool" where
  "active WakeCheck = True"
| "active p = holds p"

fun storing :: "pc \<Rightarrow> bool" where
  "storing (UnlockStore w) = True"
| "storing _ = False"

definition threads_fair :: "(nat \<Rightarrow> spin) \<Rightarrow> bool" where
  "threads_fair r \<longleftrightarrow>
     (\<forall>i t. active (pcs (r t) i) \<longrightarrow> (\<exists>u>t. pcs (r u) i \<noteq> pcs (r t) i)) \<and>
     (\<forall>i. (\<forall>t. \<exists>u\<ge>t. storing (pcs (r u) i)) \<longrightarrow> (\<forall>t. \<exists>u\<ge>t. storing (pcs (r u) i) \<and> pcs (r (Suc u)) i = WakeCheck))"

text \<open>The service machine does not take its bit back from moment \<open>t\<close> until a wake-up call: while no thread moves,
  the bit stays.\<close>

definition svm_waits :: "(nat \<Rightarrow> spin) \<Rightarrow> nat \<Rightarrow> bool" where
  "svm_waits r t \<longleftrightarrow> (\<forall>u\<ge>t. wakes (r u) = wakes (r t) \<longrightarrow> pcs (r (Suc u)) = pcs (r u) \<longrightarrow>
     bit (lock_mem (r u)) 1 \<longrightarrow> bit (lock_mem (r (Suc u))) 1)"

lemma spin_run_reachable: "spin_run r \<Longrightarrow> spin_reachable (r t)"
proof (induction t)
  case 0
  then show ?case by (intro spin_reachable.init) (simp add: spin_run_def)
next
  case (Suc t)
  then have "r (Suc t) = r t \<or> spin_step (r t) (r (Suc t))" by (simp add: spin_run_def)
  with Suc show ?case using spin_reachable.step by metis
qed

text \<open>What a step does to a thread that holds the lock or is about to check a set bit, if it makes no wake-up call.\<close>

fun next_pc :: "pc \<Rightarrow> pc \<Rightarrow> bool" where
  "next_pc Critical p = (p = UnlockLoad)"
| "next_pc UnlockLoad p = storing p"
| "next_pc (UnlockStore w) p = (p = UnlockLoad \<or> p = WakeCheck)"
| "next_pc _ p = False"

lemma active_step:
  assumes "spin_step s s'" and "active (pcs s i)" and "bit (lock_mem s) 1" and "wakes s' = wakes s"
  shows "pcs s' i = pcs s i \<or> next_pc (pcs s i) (pcs s' i)"
  using assms(1)
proof cases
  case (wake_check j)
  then show ?thesis using assms(3,4) svm_bits(4) [of "lock_mem s"] by simp
qed (use assms(2) in \<open>auto simp: at_pc_def write_lock_def load_exclusive_def\<close>)

text \<open>No thread takes the bit of the service machine away.\<close>

lemma svm_bit_step:
  assumes ok: "spin_ok s" and step: "spin_step s s'" and b: "bit (lock_mem s) 1" and moved: "pcs s' \<noteq> pcs s"
  shows "bit (lock_mem s') 1"
  using step
proof cases
  case (lock_store i)
  then have "low_word (lock_mem s) = 0" using ok by (simp add: spin_ok_def)
  then show ?thesis using free_bits b by blast
next
  case (unlock_store i w)
  then have "w = unlock_word (lock_mem s)" using ok by (simp add: spin_ok_def)
  then show ?thesis using b unlock_bits by (simp add: unlock_store(1) at_pc_def write_lock_def)
qed (use b moved in \<open>auto simp: at_pc_def write_lock_def load_exclusive_def split: if_splits\<close>)

text \<open>A thread cannot hold the lock for ever.\<close>

lemma holder_leaves:
  assumes fair: "threads_fair r" and hold: "\<And>u. t \<le> u \<Longrightarrow> holds (pcs (r u) i)"
    and step: "\<And>u. t \<le> u \<Longrightarrow> pcs (r (Suc u)) i = pcs (r u) i \<or> next_pc (pcs (r u) i) (pcs (r (Suc u)) i)"
  shows False
proof -
  have act: "active (pcs (r u) i)" if "t \<le> u" for u using hold [OF that] by (cases "pcs (r u) i") simp_all
  have move: "\<exists>v>u. pcs (r v) i \<noteq> pcs (r u) i" if "t \<le> u" for u
    using fair act [OF that] unfolding threads_fair_def by blast
  have nc: "pcs (r v) i \<noteq> Critical" if "u \<le> v" "t \<le> u" "pcs (r u) i \<noteq> Critical" for u v
    using that
  proof (induction v rule: dec_induct)
    case (step v)
    then show ?case using assms(3) [of v] by (cases "pcs (r v) i") auto
  qed simp
  obtain u0 where u0: "t \<le> u0" "\<And>v. u0 \<le> v \<Longrightarrow> pcs (r v) i \<noteq> Critical"
  proof (cases "pcs (r t) i = Critical")
    case True
    then obtain v where "t < v" "pcs (r v) i \<noteq> Critical" using move [of t] by auto
    then show thesis using nc [of v] by (intro that [of v]) simp_all
  next
    case False
    then show thesis using nc [of t] by (intro that [of t]) simp_all
  qed
  have at: "pcs (r v) i = UnlockLoad \<or> storing (pcs (r v) i)" if "u0 \<le> v" for v
    using hold [of v] u0 that by (cases "pcs (r v) i") auto
  have "\<exists>v\<ge>u. storing (pcs (r v) i)" for u
  proof -
    let ?u = "max u u0"
    have "t \<le> ?u" using u0(1) by simp
    from move [OF this] obtain v where "?u < v" "pcs (r v) i \<noteq> pcs (r ?u) i" by blast
    then have "storing (pcs (r ?u) i) \<or> storing (pcs (r v) i)" using at [of ?u] at [of v] by auto
    then show ?thesis using \<open>?u < v\<close> by (meson less_imp_le max.boundedE order_trans order_refl)
  qed
  then obtain v where "t \<le> v" "pcs (r (Suc v)) i = WakeCheck" using fair unfolding threads_fair_def by blast
  with hold [of "Suc v"] show False by simp
qed

section \<open>Liveness\<close>

text \<open>C27. No wake-up is lost, and none fails to come: in every run of any number of threads that the processor is
  fair to, whenever the service machine has its bit set on a lock that a thread holds, and waits with the
  bit left set, then a wake-up call is made at some later moment.\<close>

theorem spin_wakeup:
  assumes run: "spin_run r" and fair: "threads_fair r"
    and taken: "bit (lock_mem (r t)) 0" and set: "bit (lock_mem (r t)) 1" and waits: "svm_waits r t"
  shows "\<exists>u\<ge>t. wakes (r u) = wakes (r t) \<and> wakes (r (Suc u)) = Suc (wakes (r t))"
proof (rule ccontr)
  assume never: "\<not> ?thesis"
  have ok: "spin_ok (r u)" for u using spin_reachable_ok spin_run_reachable [OF run] by blast
  have next_state: "r (Suc u) = r u \<or> spin_step (r u) (r (Suc u))" for u using run by (simp add: spin_run_def)
  have inc: "wakes (r (Suc u)) = wakes (r u) \<or> wakes (r (Suc u)) = Suc (wakes (r u))" for u
    using next_state [of u] by (auto elim!: spin_stepE simp: at_pc_def write_lock_def load_exclusive_def split: if_splits)
  have same: "wakes (r u) = wakes (r t)" if "t \<le> u" for u
    using that
  proof (induction u rule: dec_induct)
    case (step u)
    then show ?case using inc [of u] never by auto
  qed simp
  have bit1: "bit (lock_mem (r u)) 1" if "t \<le> u" for u
    using that
  proof (induction u rule: dec_induct)
    case base
    then show ?case using set .
  next
    case (step u)
    then show ?case using waits same [of u] next_state [of u] svm_bit_step [OF ok, of u "r (Suc u)"] unfolding svm_waits_def by metis
  qed
  obtain i where i: "holds (pcs (r t) i)" using ok [of t] taken unfolding spin_ok_def by blast
  have act_step: "pcs (r (Suc u)) i = pcs (r u) i \<or> next_pc (pcs (r u) i) (pcs (r (Suc u)) i)"
    if "t \<le> u" "active (pcs (r u) i)" for u
    using next_state [of u] active_step [OF _ that(2) bit1 [OF that(1)], of "r (Suc u)"] same [of u] same [of "Suc u"] that(1) by auto
  have act: "active (pcs (r u) i)" if "t \<le> u" for u
    using that
  proof (induction u rule: dec_induct)
    case base
    then show ?case using i by (cases "pcs (r t) i") simp_all
  next
    case (step u)
    then show ?case using act_step [of u] by (cases "pcs (r u) i"; cases "pcs (r (Suc u)) i") auto
  qed
  have stuck: "pcs (r v) i = WakeCheck" if "u \<le> v" "t \<le> u" "pcs (r u) i = WakeCheck" for u v
    using that
  proof (induction v rule: dec_induct)
    case (step v)
    then show ?case using act_step [of v] act [of v] by auto
  qed simp
  have "pcs (r u) i \<noteq> WakeCheck" if u: "t \<le> u" for u
  proof
    assume w: "pcs (r u) i = WakeCheck"
    then obtain v where "u < v" "pcs (r v) i \<noteq> pcs (r u) i" using fair unfolding threads_fair_def by (metis active.simps(1))
    with stuck [of u v] u w show False by simp
  qed
  then have "holds (pcs (r u) i)" if "t \<le> u" for u using act [OF that] that by (cases "pcs (r u) i") auto
  then show False using holder_leaves [OF fair, of t i] act_step act by blast
qed

text \<open>A run: thread 0 takes the lock, the service machine sets its bit, and the thread gives the lock back.\<close>

definition wake_states :: "spin list" where
  "wake_states = [spin0, at_pc 0 LockLoad spin0, at_pc 0 LockStore (load_exclusive 0 (at_pc 0 LockLoad spin0)), spin_taken,
     write_lock 3 spin_taken, at_pc 0 UnlockLoad (write_lock 3 spin_taken),
     at_pc 0 (UnlockStore 2) (load_exclusive 0 (write_lock 3 spin_taken)), at_pc 0 WakeCheck (write_lock 2 spin_taken),
     (at_pc 0 Idle (write_lock 2 spin_taken))\<lparr>wakes := 1\<rparr>]"

definition wake_run :: "nat \<Rightarrow> spin" where
  "wake_run t = wake_states ! min t 8"

lemma wake_states_steps:
  assumes "t < 8"
  shows "spin_step (wake_states ! t) (wake_states ! Suc t)"
proof -
  note defs = at_pc_def load_exclusive_def write_lock_def spin_taken_def
  let ?w = "write_lock 3 spin_taken" and ?v = "at_pc 0 WakeCheck (write_lock 2 spin_taken)"
  let ?u = "at_pc 0 UnlockLoad ?w"
  have lv: "lock_value 0 = 1" by (simp add: lock_value_def)
  have "spin_step spin0 (at_pc 0 LockLoad spin0)" by (rule spin_step.start) simp
  moreover have "spin_step (at_pc 0 LockLoad spin0) (at_pc 0 LockStore (load_exclusive 0 (at_pc 0 LockLoad spin0)))"
    by (rule spin_step.lock_load_free) (simp_all add: defs)
  moreover have "spin_step (at_pc 0 LockStore (load_exclusive 0 (at_pc 0 LockLoad spin0))) spin_taken"
    using spin_step.lock_store [of "at_pc 0 LockStore (load_exclusive 0 (at_pc 0 LockLoad spin0))" 0] by (simp add: defs)
  moreover have "spin_step spin_taken ?w"
    using spin_step.svm_sets [of spin_taken] by (simp add: spin_taken_def at_pc_def write_lock_def lv SVM_BIT_def)
  moreover have "spin_step ?w ?u" by (rule spin_step.release) (simp add: defs)
  moreover have "spin_step ?u (at_pc 0 (UnlockStore 2) (load_exclusive 0 ?w))"
    using spin_step.unlock_load [of ?u 0] by (simp add: defs unlock_word_def)
  moreover have "spin_step (at_pc 0 (UnlockStore 2) (load_exclusive 0 ?w)) ?v"
    using spin_step.unlock_store [of "at_pc 0 (UnlockStore 2) (load_exclusive 0 ?w)" 0 2] by (simp add: defs)
  moreover have "spin_step ?v ((at_pc 0 Idle (write_lock 2 spin_taken))\<lparr>wakes := 1\<rparr>)"
    using spin_step.wake_check [of ?v 0] by (simp add: defs SVM_BIT_def)
  moreover have "t \<in> {0, 1, 2, 3, 4, 5, 6, 7}" using assms by auto
  ultimately show ?thesis unfolding wake_states_def by (elim insertE emptyE) (simp_all only: nth_Cons_0 nth_Cons_Suc One_nat_def eval_nat_numeral BitM.simps pred_numeral_simps)
qed

lemma wake_run_ok: "spin_run wake_run" "threads_fair wake_run" "svm_waits wake_run 4"
proof -
  have late: "wake_run t = wake_run 8" if "8 \<le> t" for t using that by (simp add: wake_run_def min_absorb2)
  have idle: "pcs (wake_run 8) i = Idle" for i
    by (simp add: wake_run_def wake_states_def at_pc_def write_lock_def spin_taken_def load_exclusive_def)
  have "wake_run (Suc t) = wake_run t \<or> spin_step (wake_run t) (wake_run (Suc t))" for t
  proof (cases "t < 8")
    case True
    then show ?thesis using wake_states_steps [OF True] by (simp add: wake_run_def min_absorb1)
  qed (simp add: wake_run_def min_absorb2)
  moreover have "wake_run 0 = spin0" by (simp add: wake_run_def wake_states_def)
  ultimately show "spin_run wake_run" by (simp add: spin_run_def spin_init_def)
  show "threads_fair wake_run"
    unfolding threads_fair_def
  proof (intro conjI allI impI)
    fix i t assume a: "active (pcs (wake_run t) i)"
    have "pcs (wake_run (max 8 (Suc t))) i = Idle" using late [of "max 8 (Suc t)"] idle by simp
    with a have "pcs (wake_run (max 8 (Suc t))) i \<noteq> pcs (wake_run t) i" by auto
    then show "\<exists>u>t. pcs (wake_run u) i \<noteq> pcs (wake_run t) i" by (intro exI [of _ "max 8 (Suc t)"]) simp
  next
    fix i t assume "\<forall>t. \<exists>u\<ge>t. storing (pcs (wake_run u) i)"
    then obtain u where "8 \<le> u" "storing (pcs (wake_run u) i)" by blast
    then show "\<exists>u\<ge>t. storing (pcs (wake_run u) i) \<and> pcs (wake_run (Suc u)) i = WakeCheck" using late [of u] idle by simp
  qed
  have word: "lock_mem (wake_run u) \<in> {3, 2}" if "4 \<le> u" for u
  proof (cases "8 \<le> u")
    case True
    then show ?thesis using late [of u] by (simp add: wake_run_def wake_states_def at_pc_def write_lock_def)
  next
    case False
    with that have "u \<in> {4, 5, 6, 7}" by auto
    then show ?thesis by (auto simp: wake_run_def wake_states_def at_pc_def write_lock_def load_exclusive_def)
  qed
  have "bit (lock_mem (wake_run u)) 1" if "4 \<le> u" for u using word [OF that] by auto
  then show "svm_waits wake_run 4" unfolding svm_waits_def by auto
qed

theorem spin_wakeup_witness:
  "\<exists>r u. spin_run r \<and> threads_fair r \<and> svm_waits r 4 \<and> bit (lock_mem (r 4)) 0 \<and> 4 \<le> u \<and> wakes (r (Suc u)) = Suc (wakes (r 4))"
proof -
  have "lock_mem (wake_run 4) = 3" by (simp add: wake_run_def wake_states_def write_lock_def)
  then have "bit (lock_mem (wake_run 4)) 0" "bit (lock_mem (wake_run 4)) 1" by simp_all
  with spin_wakeup [OF wake_run_ok(1,2) this wake_run_ok(3)] wake_run_ok show ?thesis by blast
qed

end
