(* ===== verification/KernelCalls.thy ===== *)
theory KernelCalls
  imports HwfPrelude
begin

text \<open>
  The calls of the drivers on objects of the kernel whose insides they do not see: fences, files and
  descriptors, and the registration of devices. A driver model keeps them as a log, the latest last.
\<close>

datatype kcall =
    FenceGet nat | FencePut nat | FenceSignal nat | FenceSetError nat int | EnableSwSignaling nat
  | PutUnusedFd int | FdInstall int nat | Fput nat | WakeUpAll
  | SyncFileCreate nat nat | Kfree nat
  | CdevDel | DeviceDestroy | UnregisterChrdev | ClassDestroy

abbreviation ENOTTY :: int where "ENOTTY \<equiv> 25"
abbreviation ETIMEDOUT :: int where "ETIMEDOUT \<equiv> 110"

text \<open>Counting the calls of one kind.\<close>

lemma count_replicate: "count_list (replicate n x) y = (if x = y then n else 0)"
  by (induction n) auto

lemma count_map_get: "count_list (map f xs) y = length (filter (\<lambda>x. f x = y) xs)"
  by (induction xs) auto

end
