(* ===== verification/HwfDebug.thy ===== *)
theory HwfDebug
  imports KernelCalls HwfApi
begin

text \<open>
  The debug file system of the driver, \<open>hw_fence_drv_debug.c\<close>, and the fences it makes for tests,
  \<open>hw_fence_drv_debug.h\<close>. A test fence is a fence of \<open>dma_fences\<close> at an address that the kernel's allocator answers;
  references taken and given back are in the log \<open>tw_calls\<close>, and when the last one is gone the kernel calls
  \<open>hw_fence_dbg_release\<close>. Messages, delays and the list's mutex are left out.
\<close>

section \<open>Test fences\<close>

text \<open>The driver, the client handle that a test fence holds at its address, and the calls.\<close>

record test_world =
  tw_drv :: hwf
  tw_handles :: "nat \<Rightarrow> nat option"
  tw_calls :: "kcall list"

definition tw_call :: "kcall \<Rightarrow> 'a test_world_scheme \<Rightarrow> 'a test_world_scheme" where
  "tw_call k w = w\<lparr>tw_calls := tw_calls w @ [k]\<rparr>"

text \<open>\<open>dma_fence_init\<close> on a new fence: no flag is set.\<close>

definition init_fence :: "nat \<Rightarrow> u64 \<Rightarrow> u64 \<Rightarrow> 'a test_world_scheme \<Rightarrow> 'a test_world_scheme" where
  "init_fence fid context seqno w = w\<lparr>tw_drv := (tw_drv w)\<lparr>dma_fences := (dma_fences (tw_drv w))(fid \<mapsto>
       \<lparr>df_context = context, df_seqno = seqno, df_flags = 0, df_array = None\<rparr>)\<rparr>,
     tw_handles := (tw_handles w)(fid := None)\<rparr>"

definition hw_fence_release :: "platform \<Rightarrow> nat \<Rightarrow> 'a test_world_scheme \<Rightarrow> 'a test_world_scheme option" where
  "hw_fence_release P fid w = (case tw_handles w fid of
       None \<Rightarrow> Some w
     | Some h \<Rightarrow> do {
         (d, _) \<leftarrow> msm_hw_fence_destroy P (Some h) (Some fid) (tw_drv w);
         Some (w\<lparr>tw_drv := d\<rparr>)
       })"

definition hw_fence_dbg_release :: "platform \<Rightarrow> nat option \<Rightarrow> 'a test_world_scheme \<Rightarrow> 'a test_world_scheme option" where
  "hw_fence_dbg_release P fence w = (case fence of
       None \<Rightarrow> Some w
     | Some fid \<Rightarrow> do {
         f \<leftarrow> dma_fences (tw_drv w) fid;
         w \<leftarrow> (if bit (df_flags f) (flag_enabled_bit P) then hw_fence_release P fid w else Some w);
         Some (w\<lparr>tw_drv := (tw_drv w)\<lparr>dma_fences := (dma_fences (tw_drv w))(fid := None)\<rparr>,
           tw_handles := (tw_handles w)(fid := None)\<rparr>)
       })"

text \<open>The signals that the clients would trigger, by client id: virtual id, physical id and signal.\<close>

definition dbg_out_clients_signal_map_no_dpu :: "(int \<times> int \<times> int) list" where
  "dbg_out_clients_signal_map_no_dpu =
     [(APPS_VID, APPS_VID, 0), (GPU_VID, GPU_VID, 0),
      (APPS_VID, APPS_VID, 2), (APPS_VID, APPS_VID, 4), (APPS_VID, APPS_VID, 6),
      (APPS_VID, APPS_VID, 8), (APPS_VID, APPS_VID, 10), (APPS_VID, APPS_VID, 12),
      (APPS_VID, APPS_VID, 21), (APPS_VID, APPS_VID, 22), (APPS_VID, APPS_VID, 23), (APPS_VID, APPS_VID, 24),
      (APPS_VID, APPS_VID, 25), (APPS_VID, APPS_VID, 26), (APPS_VID, APPS_VID, 27)]"

section \<open>The debug file system\<close>

definition HW_FENCE_DEBUG_MAX_LOOPS :: nat where "HW_FENCE_DEBUG_MAX_LOOPS = 200"

record client_data =
  dc_client_id :: u32
  dc_dma_context :: u64
  dc_seqno_cnt :: u64
  dc_client_handle :: "nat option"
  dc_mem_descriptor :: msm_hw_fence_mem_addr

text \<open>The fields of \<open>debugfs_data\<close>, the list of debug clients (the latest first), and the static variables of
  \<open>hw_fence_dbg_create_wr\<close> and \<open>hw_fence_dbg_dump_table_rd\<close>.\<close>

record debugfs = test_world +
  dg_clients :: "client_data list"
  dg_create_hw_fences :: bool
  dg_release_delay :: u32
  dg_context_rd :: u64
  dg_seqno_rd :: u64
  dg_entry_rd :: bool
  dg_seqno :: u64
  dg_index :: u32
  dg_cnt :: u32

definition hw_fence_debug_debugfs_register :: "bool \<Rightarrow> debugfs \<Rightarrow> debugfs \<times> int" where
  "hw_fence_debug_debugfs_register root g =
     (if \<not> root then (g, - EINVAL)
      else (g\<lparr>dg_clients := [], dg_create_hw_fences := True, dg_release_delay := 8333\<rparr>, 0))"

text \<open>A write of the user: how many bytes, whether they can be read, and the number that they spell, if they do.\<close>

record dbg_input =
  di_count :: nat
  di_copy :: bool
  di_uint :: "u32 option"

definition get_debugfs_input_client :: "platform \<Rightarrow> dbg_input \<Rightarrow> int" where
  "get_debugfs_input_client P inp =
     (if 10 \<le> di_count inp then - EFAULT
      else if \<not> di_copy inp then - EFAULT
      else case di_uint inp of
        None \<Rightarrow> - EFAULT
      | Some n \<Rightarrow>
          let cid = sint n in
          if cid < uint (client_id P CTX0) \<or> uint (client_id P CLIENT_MAX) \<le> cid then - EINVAL else cid)"

text \<open>A file's result: the number of bytes written, or an error.\<close>

definition debugfs_ipcc_trigger :: "platform \<Rightarrow> dbg_input \<Rightarrow> u32 \<Rightarrow> u32 \<Rightarrow> debugfs \<Rightarrow> (debugfs \<times> int) option" where
  "debugfs_ipcc_trigger P inp tx_client rx_client g =
     (let cid = get_debugfs_input_client P inp in
      if cid < 0 then Some (g, - EINVAL)
      else do {
        sig \<leftarrow> hw_fence_ipcc_get_signal_id (tw_drv g) (word_of_int cid);
        if sig < 0 then Some (g, - EINVAL)
        else Some (g\<lparr>tw_drv := hw_fence_ipcc_trigger_signal (tw_drv g) tx_client rx_client (word_of_int sig)\<rparr>, int (di_count inp))
      })"

definition hw_fence_dbg_ipcc_write :: "platform \<Rightarrow> dbg_input \<Rightarrow> debugfs \<Rightarrow> (debugfs \<times> int) option" where
  "hw_fence_dbg_ipcc_write P inp g =
     debugfs_ipcc_trigger P inp (ipcc_client_pid (tw_drv g)) (ipcc_client_vid (tw_drv g)) g"

definition hw_fence_dbg_ipcc_dpu_write :: "platform \<Rightarrow> dbg_input \<Rightarrow> debugfs \<Rightarrow> (debugfs \<times> int) option" where
  "hw_fence_dbg_ipcc_dpu_write P inp g = do {
     vid \<leftarrow> hw_fence_ipcc_get_client_virt_id (tw_drv g) (client_id P CTL0);
     debugfs_ipcc_trigger P inp (ipcc_client_pid (tw_drv g)) (word_of_int vid) g
   }"

text \<open>The debug client with an id is given by its place in the list.\<close>

fun get_client_node :: "client_data list \<Rightarrow> u32 \<Rightarrow> nat option" where
  "get_client_node [] cid = None"
| "get_client_node (n # ns) cid =
     (if dc_client_id n = cid then Some 0 else map_option Suc (get_client_node ns cid))"

text \<open>The handle of the debug client with an id; the checks for a missing node and for a missing handle.\<close>

definition node_handle :: "debugfs \<Rightarrow> u32 \<Rightarrow> (nat \<times> nat) option" where
  "node_handle g cid = do {
     i \<leftarrow> get_client_node (dg_clients g) cid;
     h \<leftarrow> dc_client_handle (dg_clients g ! i);
     Some (i, h)
   }"

definition hw_fence_dbg_reset_client_wr :: "platform \<Rightarrow> dbg_input \<Rightarrow> debugfs \<Rightarrow> (debugfs \<times> int) option" where
  "hw_fence_dbg_reset_client_wr P inp g =
     (let cid = get_debugfs_input_client P inp in
      if cid < 0 then Some (g, - EINVAL)
      else case node_handle g (word_of_int cid) of
        None \<Rightarrow> Some (g, - EINVAL)
      | Some (i, h) \<Rightarrow> do {
          (d, _) \<leftarrow> msm_hw_fence_reset_client P (Some h) 0 (tw_drv g);
          Some (g\<lparr>tw_drv := d\<rparr>, int (di_count inp))
        })"

text \<open>\<open>alloc\<close> and \<open>alloc'\<close> are the allocations of the node and of the client, \<open>context\<close> is the kernel's new context.\<close>

definition hw_fence_dbg_register_clients_wr ::
  "platform \<Rightarrow> bool \<Rightarrow> bool \<Rightarrow> u64 \<Rightarrow> dbg_input \<Rightarrow> debugfs \<Rightarrow> (debugfs \<times> int) option" where
  "hw_fence_dbg_register_clients_wr P alloc alloc' context inp g =
     (let cid = get_debugfs_input_client P inp in
      if cid < 0 then Some (g, - EINVAL)
      else if get_client_node (dg_clients g) (word_of_int cid) \<noteq> None then Some (g, - EINVAL)
      else if \<not> alloc then Some (g, - ENOMEM)
      else do {
        (drv, md, r) \<leftarrow> msm_hw_fence_register P alloc' (word_of_int cid) (Some zero_mem_addr) (Some (tw_drv g));
        d \<leftarrow> drv;
        md \<leftarrow> md;
        (case r of
           Inl _ \<Rightarrow> Some (g\<lparr>tw_drv := d\<rparr>, - EFAULT)
         | Inr h \<Rightarrow> Some (g\<lparr>tw_drv := d, dg_clients := \<lparr>dc_client_id = word_of_int cid, dc_dma_context = context,
             dc_seqno_cnt = 0, dc_client_handle = Some h, dc_mem_descriptor = md\<rparr> # dg_clients g\<rparr>, int (di_count inp)))
      })"

subsection \<open>Simulations\<close>

text \<open>The part of a round that uses the driver: create a fence, write to the tx queue, wait for the fence as the other
  client, trigger the signal and destroy the fence. The result is 0, an error that leaves the loop (\<open>Inl False\<close>), or one
  that returns it (\<open>Inl True\<close>).\<close>

definition sim_round ::
  "platform \<Rightarrow> u64 \<Rightarrow> u64 \<Rightarrow> nat \<Rightarrow> nat \<Rightarrow> u64 \<Rightarrow> hwf \<Rightarrow> (hwf \<times> u64 \<times> (bool + unit)) option" where
  "sim_round P context seqno src dst hash d = do {
     c \<leftarrow> client_objs d src;
     (d, hash, ret) \<leftarrow> hw_fence_create d c context seqno hash;
     if ret \<noteq> 0 then Some (d, hash, Inl False)
     else do {
       c \<leftarrow> client_objs d src;
       (d, _) \<leftarrow> hw_fence_update_queue d c \<lparr>qm_ctxt_id = context, qm_seqno = seqno, qm_hash = hash, qm_flags = 0,
         qm_client_data = 0, qm_error = 0\<rparr> TXQ;
       c' \<leftarrow> client_objs d dst;
       (d, hash, ret) \<leftarrow> hw_fence_register_wait_client P d None c' context seqno hash 0;
       if ret \<noteq> 0 then Some (d, hash, Inl True)
       else do {
         (_, _, sig) \<leftarrow> fetch dbg_out_clients_signal_map_no_dpu (unat (client_id P CTL0));
         if sig < 0 then Some (d, hash, Inl True)
         else do {
           let d = hw_fence_ipcc_trigger_signal d (ipcc_client_pid d) (ipcc_client_vid d) (word_of_int sig);
           c \<leftarrow> client_objs d src;
           (d, ret) \<leftarrow> hw_fence_destroy d c context seqno;
           Some (d, hash, if ret \<noteq> 0 then Inl False else Inr ())
         }
       }
     }
   }"

text \<open>The loop, for the debug clients at places \<open>i\<close> and \<open>j\<close> with the handles \<open>src\<close> and \<open>dst\<close>.\<close>

fun sim_loop :: "platform \<Rightarrow> nat \<Rightarrow> nat \<Rightarrow> nat \<Rightarrow> nat \<Rightarrow> u64 \<Rightarrow> int \<Rightarrow> debugfs \<Rightarrow> (debugfs \<times> int) option" where
  "sim_loop P 0 i src dst hash count g = Some (g, count)"
| "sim_loop P (Suc n) i src dst hash count g =
     (if \<not> dg_create_hw_fences g then Some (g, count)
      else do {
        node \<leftarrow> fetch (dg_clients g) i;
        let context = dc_dma_context node;
        let seqno = dc_seqno_cnt node;
        let g = g\<lparr>dg_clients := (dg_clients g)[i := node\<lparr>dc_seqno_cnt := seqno + 1\<rparr>]\<rparr>;
        (d, hash, r) \<leftarrow> sim_round P context seqno src dst hash (tw_drv g);
        let g = g\<lparr>tw_drv := d\<rparr>;
        (case r of
           Inr _ \<Rightarrow> sim_loop P n i src dst hash count g
         | Inl ret \<Rightarrow> Some (g, if ret then - EINVAL else count))
      })"

text \<open>\<open>hash\<close> is the uninitialised variable of this name.\<close>

definition hw_fence_dbg_tx_and_signal_clients_wr ::
  "platform \<Rightarrow> u64 \<Rightarrow> dbg_input \<Rightarrow> debugfs \<Rightarrow> (debugfs \<times> int) option" where
  "hw_fence_dbg_tx_and_signal_clients_wr P hash inp g =
     (if 10 \<le> di_count inp then Some (g, - EFAULT)
      else if \<not> di_copy inp then Some (g, - EFAULT)
      else case di_uint inp of
        None \<Rightarrow> Some (g, - EFAULT)
      | Some input_data \<Rightarrow>
          if input_data = 0 then Some (g, 0)
          else
            let n = min (unat input_data) HW_FENCE_DEBUG_MAX_LOOPS in
            (case (node_handle g (client_id P CTL0), node_handle g (client_id P CTL1)) of
               (Some (i, src), Some (j, dst)) \<Rightarrow> sim_loop P n i src dst hash (int (di_count inp)) g
             | _ \<Rightarrow> Some (g, - EINVAL)))"

text \<open>\<open>fence\<close> is the address of the new fence, if there is memory for it and its lock.\<close>

definition hw_fence_dbg_create_wr ::
  "platform \<Rightarrow> nat option \<Rightarrow> u64 \<Rightarrow> dbg_input \<Rightarrow> debugfs \<Rightarrow> (debugfs \<times> int) option" where
  "hw_fence_dbg_create_wr P fence hash inp g =
     (let cid = get_debugfs_input_client P inp in
      if cid < 0 then Some (g, - EINVAL)
      else case node_handle g (word_of_int cid) of
        None \<Rightarrow> Some (g, - EINVAL)
      | Some (i, h) \<Rightarrow> (case fence of
          None \<Rightarrow> Some (g, - ENOMEM)
        | Some fid \<Rightarrow> do {
            let g = init_fence fid (dc_dma_context (dg_clients g ! i)) (dg_seqno g) g;
            (d, _, ret) \<leftarrow> msm_hw_fence_create P (Some h) (Some fid) (Some hash) (tw_drv g);
            let g = g\<lparr>tw_drv := d\<rparr>;
            if ret \<noteq> 0 then Some (tw_call (FencePut fid) g, - EINVAL)
            else Some (g\<lparr>dg_seqno := dg_seqno g + 1, tw_handles := (tw_handles g)(fid \<mapsto> h)\<rparr>, int (di_count inp))
          }))"

text \<open>The join simulation. \<open>fences\<close> are the addresses of the three fences, as far as there is memory for them and their
  locks, and \<open>array\<close> is that of the array. On a failure the fences that were made are freed.\<close>

fun init_fences :: "nat option list \<Rightarrow> u64 \<Rightarrow> u64 \<Rightarrow> nat list \<Rightarrow> debugfs \<Rightarrow> debugfs \<times> nat list \<times> bool" where
  "init_fences [] context seqno fids g = (g, fids, True)"
| "init_fences (None # fs) context seqno fids g = (g, fids, False)"
| "init_fences (Some fid # fs) context seqno fids g =
     init_fences fs context (seqno + 1) (fids @ [fid]) (init_fence fid context seqno g)"

definition free_fence :: "nat \<Rightarrow> debugfs \<Rightarrow> debugfs" where
  "free_fence fid g = g\<lparr>tw_drv := (tw_drv g)\<lparr>dma_fences := (dma_fences (tw_drv g))(fid := None)\<rparr>\<rparr>"

definition cleanup_fences :: "nat list \<Rightarrow> debugfs \<Rightarrow> debugfs" where
  "cleanup_fences fids g = foldl (\<lambda>g fid. free_fence fid g) g (rev fids)"

fun create_fences :: "platform \<Rightarrow> nat \<Rightarrow> u64 \<Rightarrow> u64 \<Rightarrow> u64 \<Rightarrow> nat list \<Rightarrow> hwf \<Rightarrow> (hwf \<times> int) option" where
  "create_fences P h context seqno hash [] d = Some (d, 0)"
| "create_fences P h context seqno hash (fid # fids) d = do {
     (d, hash, ret) \<leftarrow> msm_hw_fence_create P (Some h) (Some fid) (Some hash) d;
     if ret \<noteq> 0 then Some (d, - EINVAL)
     else do {
       hash \<leftarrow> hash;
       c \<leftarrow> client_objs d h;
       (d, _) \<leftarrow> hw_fence_update_queue d c \<lparr>qm_ctxt_id = context, qm_seqno = seqno, qm_hash = hash, qm_flags = 0,
         qm_client_data = 0, qm_error = 0\<rparr> TXQ;
       create_fences P h context (seqno + 1) hash fids d
     }
   }"

definition hw_fence_dbg_create_join_fence ::
  "platform \<Rightarrow> bool \<Rightarrow> nat option list \<Rightarrow> nat option \<Rightarrow> u64 \<Rightarrow> int \<Rightarrow> debugfs \<Rightarrow> (debugfs \<times> int) option" where
  "hw_fence_dbg_create_join_fence P alloc fences array hash count g =
     (case (node_handle g (client_id P CTL0), node_handle g (client_id P CTL1)) of
        (Some (i, src), Some (j, dst)) \<Rightarrow>
          let context = dc_dma_context (dg_clients g ! i); seqno = 1 in
          if \<not> alloc then Some (g, - ENOMEM)
          else (case init_fences (take 3 fences) context seqno [] g of (g, fids, made) \<Rightarrow>
            if \<not> made then Some (cleanup_fences fids g, - ENOMEM)
            else (case array of
              None \<Rightarrow> Some (cleanup_fences fids g, - EINVAL)
            | Some a \<Rightarrow> do {
                let d = (tw_drv g)\<lparr>dma_fences := (dma_fences (tw_drv g))(a \<mapsto> \<lparr>df_context = context, df_seqno = seqno + 3,
                  df_flags = 0, df_array = Some \<lparr>fa_num_fences = 3, fa_fences = Some (map Some fids)\<rparr>\<rparr>)\<rparr>;
                (d, ret) \<leftarrow> create_fences P src context seqno hash fids d;
                if ret \<noteq> 0 then Some (tw_call (FencePut a) (g\<lparr>tw_drv := d\<rparr>), - EINVAL)
                else do {
                  (d, _) \<leftarrow> msm_hw_fence_wait_update P (Some dst) (Some [Some a]) 1 d;
                  (_, _, sig) \<leftarrow> fetch dbg_out_clients_signal_map_no_dpu (unat (client_id P CTL0));
                  if sig < 0 then Some (tw_call (FencePut a) (g\<lparr>tw_drv := d\<rparr>), - EINVAL)
                  else do {
                    let d = hw_fence_ipcc_trigger_signal d (ipcc_client_pid d) (ipcc_client_vid d) (word_of_int sig);
                    Some (tw_call (FencePut a) (g\<lparr>tw_drv := d\<rparr>), count)
                  }
                }
              }))
      | _ \<Rightarrow> Some (g, - EINVAL))"

subsection \<open>Dumps\<close>

text \<open>\<open>fmt room index cnt fence\<close> is what the kernel's \<open>scnprintf\<close> writes into a buffer with this much room left.\<close>

definition dump_single_entry ::
  "(nat \<Rightarrow> u32 \<Rightarrow> u32 \<Rightarrow> msm_hw_fence \<Rightarrow> string) \<Rightarrow> (u64 \<Rightarrow> u64 \<Rightarrow> u64 \<Rightarrow> string) \<Rightarrow> nat \<Rightarrow> debugfs \<Rightarrow> (debugfs \<times> string) option" where
  "dump_single_entry fmt none max_size g = do {
     (d, hash, r) \<leftarrow> msm_hw_fence_find (tw_drv g) None (dg_context_rd g) (dg_seqno_rd g) 0;
     let g = g\<lparr>tw_drv := d, dg_index := hw_fences_tbl_cnt d\<rparr>;
     (case r of
        None \<Rightarrow> Some (g, none (dg_context_rd g) (dg_seqno_rd g) hash)
      | Some i \<Rightarrow> do {
          f \<leftarrow> fetch (hw_fences_tbl d) i;
          Some (g, fmt max_size (ucast hash) 0 f)
        })
   }"

lemma index_closer: "index < n \<Longrightarrow> unat n - unat (index + 1) < unat n - unat (index :: u32)"
  using unat_Suc_below [of index n] by (simp add: word_less_nat_alt)

text \<open>The loop increments the index when it tests it, and reads the entry after it.\<close>

function dump_full_table ::
  "(nat \<Rightarrow> u32 \<Rightarrow> u32 \<Rightarrow> msm_hw_fence \<Rightarrow> string) \<Rightarrow> nat \<Rightarrow> nat \<Rightarrow> u32 \<Rightarrow> msm_hw_fence list \<Rightarrow> u32 \<Rightarrow> u32 \<Rightarrow> string
    \<Rightarrow> (u32 \<times> u32 \<times> string) option" where
  "dump_full_table fmt max_size entry_size tbl_cnt tbl index cnt buf =
     (if index < tbl_cnt \<and> int (length buf) < int max_size - int entry_size then do {
        f \<leftarrow> fetch tbl (unat (index + 1));
        if hf_valid f = 0 then dump_full_table fmt max_size entry_size tbl_cnt tbl (index + 1) cnt buf
        else dump_full_table fmt max_size entry_size tbl_cnt tbl (index + 1) (cnt + 1)
          (buf @ fmt (max_size - length buf) (index + 1) cnt f)
      } else Some (index + 1, cnt, buf))"
  by pat_completeness auto
termination
  by (relation "measure (\<lambda>(_, _, _, tbl_cnt, _, index, _, _). unat tbl_cnt - unat index)") (simp_all add: index_closer)

declare dump_full_table.simps [simp del]

text \<open>\<open>entry_size\<close> is the size of a fence, \<open>user_size\<close> that of the user's buffer; the second result is what arrives there.\<close>

definition hw_fence_dbg_dump_table_rd ::
  "(nat \<Rightarrow> u32 \<Rightarrow> u32 \<Rightarrow> msm_hw_fence \<Rightarrow> string) \<Rightarrow> (u64 \<Rightarrow> u64 \<Rightarrow> u64 \<Rightarrow> string) \<Rightarrow> bool \<Rightarrow> bool \<Rightarrow> nat \<Rightarrow> nat \<Rightarrow> debugfs
    \<Rightarrow> (debugfs \<times> string \<times> int) option" where
  "hw_fence_dbg_dump_table_rd fmt none alloc copy entry_size user_size g =
     (let d = tw_drv g; max_size = 4096 in
      if hw_fences_tbl_va d = 0 then Some (g, [], - EINVAL)
      else if hw_fences_tbl_cnt d \<le> dg_index g then Some (g\<lparr>dg_index := 0, dg_cnt := 0\<rparr>, [], 0)
      else if user_size < entry_size then Some (g, [], - EINVAL)
      else if \<not> alloc then Some (g, [], - ENOMEM)
      else do {
        (g, buf) \<leftarrow> (if dg_entry_rd g then dump_single_entry fmt none max_size g
          else do {
            (index, cnt, buf) \<leftarrow> dump_full_table fmt max_size entry_size (hw_fences_tbl_cnt d) (hw_fences_tbl d) (dg_index g) (dg_cnt g) [];
            Some (g\<lparr>dg_index := index, dg_cnt := cnt\<rparr>, buf)
          });
        if buf = [] \<or> user_size < length buf then Some (g, [], 0)
        else if \<not> copy then Some (g, [], - EFAULT)
        else Some (g, buf, int (length buf))
      })"

text \<open>A write of up to two numbers.\<close>

definition hw_fence_dbg_dump_table_wr :: "nat \<Rightarrow> bool \<Rightarrow> u64 list \<Rightarrow> debugfs \<Rightarrow> debugfs \<times> int" where
  "hw_fence_dbg_dump_table_wr user_size copy params g =
     (if 24 \<le> user_size then (g, - EFAULT)
      else if \<not> copy then (g, - EFAULT)
      else case params of
        [c, s] \<Rightarrow> (g\<lparr>dg_context_rd := c, dg_seqno_rd := s, dg_entry_rd := True\<rparr>, int user_size)
      | [c] \<Rightarrow> (g\<lparr>dg_context_rd := 0, dg_seqno_rd := 0, dg_entry_rd := False\<rparr>, int user_size)
      | _ \<Rightarrow> (g, - EFAULT))"

text \<open>The payload of \<open>entry\<close> words at place \<open>i\<close>, with the reads in the order of the code; \<open>w\<close> are the words of the queue.\<close>

definition dump_payload :: "u32 list \<Rightarrow> nat \<Rightarrow> u32 list option" where
  "dump_payload ws i = (if (i + 1) * 16 \<le> length ws then Some (take 16 (drop (i * 16) ws)) else None)"

fun dump_payloads :: "u32 list \<Rightarrow> nat list \<Rightarrow> u32 list list option" where
  "dump_payloads ws [] = Some []"
| "dump_payloads ws (i # is) = do {
     p \<leftarrow> dump_payload ws i;
     ps \<leftarrow> dump_payloads ws is;
     Some (p # ps)
   }"

text \<open>The payloads of both queues that a dump reads. The client id of the user indexes the table of clients as it is.\<close>

definition hw_fence_dbg_dump_queues_wr :: "platform \<Rightarrow> dbg_input \<Rightarrow> debugfs \<Rightarrow> (u32 list list \<times> u32 list list \<times> int) option" where
  "hw_fence_dbg_dump_queues_wr P inp g =
     (let cid = get_debugfs_input_client P inp; d = tw_drv g in
      if cid < 0 then Some ([], [], - EINVAL)
      else do {
        h \<leftarrow> fetch (clients d) (nat cid);
        (case h of
           None \<Rightarrow> Some ([], [], - EINVAL)
         | Some h \<Rightarrow> do {
             c \<leftarrow> client_objs d h;
             rx \<leftarrow> fetch (cl_queues c) RXQ;
             tx \<leftarrow> fetch (cl_queues c) TXQ;
             rxs \<leftarrow> dump_payloads (q_words d (qd_va_queue rx)) [0..<unat (hw_fence_queue_entries d)];
             txs \<leftarrow> dump_payloads (q_words d (qd_va_queue tx)) [0..<unat (hw_fence_queue_entries d)];
             Some (rxs, txs, int (di_count inp))
           })
      })"


section \<open>The simulation\<close>

text \<open>Writing to a queue that is set up: with or without room, only the ring of the queue changes.\<close>

lemma update_queue_some:
  assumes "queue_ready n d c t" and "ring_ok n (client_ring d c t)"
  obtains q r where "hw_fence_update_queue d c m t = Some (set_queue_ring (txq_wm c t) (cl_queues c ! t) q d, r)" "ring_ok n q"
proof (cases "0 < ring_room n (client_ring d c t)")
  case True
  then obtain q where q: "ring_put (ring_size n) (qtime d) m (client_ring d c t) = Some (q, 0)" "ring_ok n q"
    using assms(2) by (metis ring_put_ok)
  then show thesis using update_queue_ring [OF assms(1) q(1)] by (intro that) simp_all
next
  case False
  then have "ring_put (ring_size n) (qtime d) m (client_ring d c t) = Some (client_ring d c t, - EINVAL)"
    using ring_put_full [OF assms(2)] by simp
  from update_queue_ring [OF assms(1) this] assms(2) show thesis by (rule that)
qed

text \<open>What a round needs: the table in order with room for one fence, both clients, and the tx queue of the source.\<close>

definition sim_ready :: "nat \<Rightarrow> nat \<Rightarrow> nat \<Rightarrow> hwf \<Rightarrow> bool" where
  "sim_ready n src dst d \<longleftrightarrow> table_inv d \<and> 0 < free_slots d \<and>
     (\<exists>c c'. client_objs d src = Some c \<and> client_objs d dst = Some c' \<and> cl_client_id c' < 64 \<and>
        queue_ready n d c TXQ \<and> ring_ok n (client_ring d c TXQ))"

text \<open>A round adds one interrupt, and leaves the table as it was.\<close>

definition same_fences :: "nat \<Rightarrow> hwf \<Rightarrow> hwf \<Rightarrow> bool" where
  "same_fences k d d' \<longleftrightarrow> fence_map d' = fence_map d \<and> free_slots d' = free_slots d \<and> length (io_writes d') = length (io_writes d) + k"

lemma signal_numbers: "i < length dbg_out_clients_signal_map_no_dpu \<Longrightarrow> 0 \<le> snd (snd (dbg_out_clients_signal_map_no_dpu ! i))"
proof -
  have "list_all (\<lambda>(_, _, sig). 0 \<le> sig) dbg_out_clients_signal_map_no_dpu" by (simp add: dbg_out_clients_signal_map_no_dpu_def)
  then show "0 \<le> snd (snd (dbg_out_clients_signal_map_no_dpu ! i))" if "i < length dbg_out_clients_signal_map_no_dpu"
    using that by (simp add: list_all_length split_beta)
qed

lemma sim_round_restores:
  assumes ready: "sim_ready n src dst d" and k: "(context, seqno) \<noteq> (0, 0)" and new: "fence_map d (context, seqno) = None"
    and ctl: "unat (client_id P CTL0) < length dbg_out_clients_signal_map_no_dpu"
  shows "\<exists>d' hash'. sim_round P context seqno src dst hash d = Some (d', hash', Inr ()) \<and> sim_ready n src dst d' \<and> same_fences 1 d d'"
proof -
  obtain c c' where inv: "table_inv d" "0 < free_slots d" and c: "client_objs d src = Some c" "client_objs d dst = Some c'"
      "cl_client_id c' < 64" "queue_ready n d c TXQ" "ring_ok n (client_ring d c TXQ)"
    using ready by (auto simp: sim_ready_def)
  let ?k = "(context, seqno)"
  let ?new = "new_fence (qtime d) (cl_client_id c) ?k 0"
  obtain i where i: "i < length (hw_fences_tbl d)" "hf_valid (hw_fences_tbl d ! i) = 0"
    and create: "hw_fence_create d c context seqno hash = Some (set_fence i ?new d, of_nat i, 0)"
    using hw_fence_create_new [OF inv(1) new inv(2)] by metis
  define d1 where "d1 = set_fence i ?new d"
  have d1: "table_inv d1" "fence_map d1 = (fence_map d)(?k \<mapsto> ?new)" "Suc (free_slots d1) = free_slots d"
    using table_inv_insert [OF inv(1) i, of ?new] new by (simp_all add: d1_def)
  define msg where "msg = \<lparr>qm_ctxt_id = context, qm_seqno = seqno, qm_hash = of_nat i, qm_flags = 0, qm_client_data = 0, qm_error = 0\<rparr>"
  have q1: "queue_ready n d1 c TXQ" "ring_ok n (client_ring d1 c TXQ)" "client_objs d1 = client_objs d" "io_writes d1 = io_writes d"
    using c(4,5) by (simp_all add: d1_def)
  obtain q r where q: "hw_fence_update_queue d1 c msg TXQ = Some (set_queue_ring (txq_wm c TXQ) (cl_queues c ! TXQ) q d1, r)" "ring_ok n q"
    using update_queue_some [OF q1(1,2)] by metis
  define d2 where "d2 = set_queue_ring (txq_wm c TXQ) (cl_queues c ! TXQ) q d1"
  have upd: "hw_fence_update_queue d1 c msg TXQ = Some (d2, r)" using q(1) unfolding d2_def .
  note t2 = table_inv_fields [of d2 d1]
  have d2: "table_inv d2" "fence_map d2 = (fence_map d)(?k \<mapsto> ?new)" "Suc (free_slots d2) = free_slots d" "client_objs d2 = client_objs d"
    "io_writes d2 = io_writes d" "queue_ready n d2 c TXQ" "ring_ok n (client_ring d2 c TXQ)"
    using t2 d1 q(2) q1 by (simp_all add: d2_def queue_ready_def)
  obtain j where j: "stored_at d2 ?k j" "hw_fences_tbl d2 ! j = ?new"
    using fence_map_stored_at [OF d2(1), of ?k ?new] d2(2) by auto
  define w where "w = waiting_fence P (qtime d2) c' 0 ?new"
  define d3 where "d3 = set_fence j w d2"
  have wait: "hw_fence_register_wait_client P d2 None c' context seqno (of_nat i) 0 = Some (d3, of_nat j, 0)"
    using register_wait_stored [OF d2(1) k j(1), of P c' 0 None "of_nat i"] c(3) j(2)
    by (simp add: client_data_refused_def d3_def w_def Let_def)
  have lk: "hf_lock ?new = 0" using free_fence(2) [OF d2(1) j(1)] j(2) by simp
  have kw: "valid_fence w" "key w = ?k" "hf_lock w = 0" using lk by (simp_all add: w_def)
  have d3: "table_inv d3" "fence_map d3 = (fence_map d)(?k \<mapsto> w)" "Suc (free_slots d3) = free_slots d" "client_objs d3 = client_objs d"
    "io_writes d3 = io_writes d" "queue_ready n d3 c TXQ" "ring_ok n (client_ring d3 c TXQ)"
    using table_inv_replace [OF d2(1) j(1) kw] d2 by (simp_all add: d3_def)
  obtain vid pid sig where sig: "dbg_out_clients_signal_map_no_dpu ! unat (client_id P CTL0) = (vid, pid, sig)"
    using prod_cases3 by blast
  have fetched: "fetch dbg_out_clients_signal_map_no_dpu (unat (client_id P CTL0)) = Some (vid, pid, sig)" "\<not> sig < 0"
    using ctl sig signal_numbers [OF ctl] by simp_all
  define d4 where "d4 = hw_fence_ipcc_trigger_signal d3 (ipcc_client_pid d3) (ipcc_client_vid d3) (word_of_int sig)"
  obtain v ad where d4': "d4 = writel v ad d3" by (simp add: d4_def hw_fence_ipcc_trigger_signal_def Let_def)
  note t4 = table_inv_fields [of d4 d3]
  have d4: "table_inv d4" "fence_map d4 = (fence_map d)(?k \<mapsto> w)" "Suc (free_slots d4) = free_slots d" "client_objs d4 = client_objs d"
    "io_writes d4 = io_writes d @ [(ad, v)]" "queue_ready n d4 c TXQ" "ring_ok n (client_ring d4 c TXQ)"
    using t4 d3 by (simp_all add: d4' queue_ready_def)
  obtain l where l: "stored_at d4 ?k l" using fence_map_stored_at [OF d4(1), of ?k w] d4(2) by auto
  define d5 where "d5 = set_fence l (unreserve_hw_fence d4 (hw_fences_tbl d4 ! l) (cl_client_id c) context seqno 0) d4"
  have destroy: "hw_fence_destroy d4 c context seqno = Some (d5, 0)"
    using hw_fence_cleanup_stored [OF d4(1) k l] by (simp add: hw_fence_destroy_def d5_def)
  have "table_inv d5" "fence_map d5 = (fence_map d4)(?k := None)" "free_slots d5 = Suc (free_slots d4)"
    using unreserve_deletes [OF d4(1) l, of "cl_client_id c"] by (simp_all add: d5_def)
  moreover have "(fence_map d)(?k := None) = fence_map d" using new by (simp add: fun_upd_idem)
  ultimately have d5: "table_inv d5" "fence_map d5 = fence_map d" "free_slots d5 = free_slots d" "client_objs d5 = client_objs d"
    "io_writes d5 = io_writes d @ [(ad, v)]" "queue_ready n d5 c TXQ" "ring_ok n (client_ring d5 c TXQ)"
    using d4 by (simp_all add: d5_def)
  have "sim_round P context seqno src dst hash d = Some (d5, of_nat j, Inr ())"
    using c q1(3) d2(4) d3(4) d4(4) create upd wait fetched destroy
    by (simp add: sim_round_def d1_def [symmetric] msg_def [symmetric] d4_def [symmetric] Let_def)
  moreover have "sim_ready n src dst d5" using d5 c inv(2) by (auto simp: sim_ready_def)
  moreover have "same_fences 1 d d5" using d5 by (simp add: same_fences_def)
  ultimately show ?thesis by blast
qed

lemma sim_loop_restores:
  assumes "sim_ready m src dst (tw_drv g)" and "dg_create_hw_fences g" and "i < length (dg_clients g)"
    and "unat (client_id P CTL0) < length dbg_out_clients_signal_map_no_dpu"
    and "\<forall>k<n. (dc_dma_context (dg_clients g ! i), dc_seqno_cnt (dg_clients g ! i) + of_nat k) \<noteq> (0, 0) \<and>
      fence_map (tw_drv g) (dc_dma_context (dg_clients g ! i), dc_seqno_cnt (dg_clients g ! i) + of_nat k) = None"
  shows "\<exists>g'. sim_loop P n i src dst hash count g = Some (g', count) \<and> sim_ready m src dst (tw_drv g') \<and>
    same_fences n (tw_drv g) (tw_drv g') \<and>
    dg_clients g' = (dg_clients g)[i := (dg_clients g ! i)\<lparr>dc_seqno_cnt := dc_seqno_cnt (dg_clients g ! i) + of_nat n\<rparr>]"
  using assms
proof (induction n arbitrary: g hash)
  case 0
  then show ?case by (simp add: same_fences_def list_update_same_conv)
next
  case (Suc n)
  define node where "node = dg_clients g ! i"
  define node1 where "node1 = node\<lparr>dc_seqno_cnt := dc_seqno_cnt node + 1\<rparr>"
  have first: "(dc_dma_context node, dc_seqno_cnt node) \<noteq> (0, 0)" "fence_map (tw_drv g) (dc_dma_context node, dc_seqno_cnt node) = None"
    using Suc.prems(5) by (auto simp: node_def dest: spec [of _ 0])
  obtain d1 hash1 where r: "sim_round P (dc_dma_context node) (dc_seqno_cnt node) src dst hash (tw_drv g) = Some (d1, hash1, Inr ())"
    "sim_ready m src dst d1" "same_fences 1 (tw_drv g) d1"
    using sim_round_restores [OF Suc.prems(1) first Suc.prems(4)] by blast
  define g1 where "g1 = g\<lparr>dg_clients := (dg_clients g)[i := node1], tw_drv := d1\<rparr>"
  have g1: "tw_drv g1 = d1" "dg_create_hw_fences g1" "i < length (dg_clients g1)" "dg_clients g1 ! i = node1"
    using Suc.prems(2,3) by (simp_all add: g1_def)
  have run: "sim_loop P (Suc n) i src dst hash count g = sim_loop P n i src dst hash1 count g1"
    using Suc.prems(2,3) r(1) by (simp add: node_def node1_def g1_def Let_def)
  have fields: "dc_dma_context node1 = dc_dma_context node" "dc_seqno_cnt node1 = dc_seqno_cnt node + 1" by (simp_all add: node1_def)
  have shift: "dc_seqno_cnt node1 + of_nat k = dc_seqno_cnt node + of_nat (Suc k)" for k by (simp add: fields)
  have fm: "fence_map d1 = fence_map (tw_drv g)" using r(3) by (simp add: same_fences_def)
  have rest: "(dc_dma_context (dg_clients g1 ! i), dc_seqno_cnt (dg_clients g1 ! i) + of_nat k) \<noteq> (0, 0) \<and>
      fence_map (tw_drv g1) (dc_dma_context (dg_clients g1 ! i), dc_seqno_cnt (dg_clients g1 ! i) + of_nat k) = None" if "k < n" for k
    unfolding g1(1,4) shift fm fields(1) using Suc.prems(5) [folded node_def] that by (metis Suc_mono)
  have "\<exists>g'. sim_loop P n i src dst hash1 count g1 = Some (g', count) \<and> sim_ready m src dst (tw_drv g') \<and>
    same_fences n (tw_drv g1) (tw_drv g') \<and>
    dg_clients g' = (dg_clients g1)[i := (dg_clients g1 ! i)\<lparr>dc_seqno_cnt := dc_seqno_cnt (dg_clients g1 ! i) + of_nat n\<rparr>]"
    using rest g1 r(2) Suc.prems(4) by (intro Suc.IH) simp_all
  then obtain g' where g': "sim_loop P n i src dst hash1 count g1 = Some (g', count)" "sim_ready m src dst (tw_drv g')"
    "same_fences n (tw_drv g1) (tw_drv g')"
    "dg_clients g' = (dg_clients g1)[i := (dg_clients g1 ! i)\<lparr>dc_seqno_cnt := dc_seqno_cnt (dg_clients g1 ! i) + of_nat n\<rparr>]"
    by blast
  have "same_fences (Suc n) (tw_drv g) (tw_drv g')" using g'(3) r(3) by (simp add: same_fences_def g1(1))
  moreover have "dg_clients g' = (dg_clients g)[i := node\<lparr>dc_seqno_cnt := dc_seqno_cnt node + of_nat (Suc n)\<rparr>]"
    using g'(4) Suc.prems(3) by (simp add: g1_def node1_def add_ac)
  ultimately show ?case using g'(1,2) unfolding run node_def by blast
qed

text \<open>C34. The life-cycle simulation leaves the table as it found it: with both debug clients registered, a tx queue that is set
  up (full or not), room for one fence and sequence numbers that are not in use, it runs all its rounds, at
  most 200, and returns the number of bytes written; no fence is left behind, none of the table is lost, every round
  triggers one interrupt, and the sequence counter of the source advances by the number of rounds.\<close>

theorem simulation_restores:
  assumes ready: "sim_ready m src dst (tw_drv g)" and on: "dg_create_hw_fences g"
    and input: "di_count inp < 10" "di_copy inp" "di_uint inp = Some v" "v \<noteq> 0"
    and nodes: "node_handle g (client_id P CTL0) = Some (i, src)" "node_handle g (client_id P CTL1) = Some (j, dst)"
    and ctl: "unat (client_id P CTL0) < length dbg_out_clients_signal_map_no_dpu" "i < length (dg_clients g)"
    and n: "n = min (unat v) HW_FENCE_DEBUG_MAX_LOOPS" and node: "node = dg_clients g ! i"
    and keys: "\<forall>k<n. (dc_dma_context node, dc_seqno_cnt node + of_nat k) \<noteq> (0, 0) \<and>
      fence_map (tw_drv g) (dc_dma_context node, dc_seqno_cnt node + of_nat k) = None"
  shows "\<exists>g'. hw_fence_dbg_tx_and_signal_clients_wr P hash inp g = Some (g', int (di_count inp)) \<and>
    table_inv (tw_drv g') \<and> fence_map (tw_drv g') = fence_map (tw_drv g) \<and> free_slots (tw_drv g') = free_slots (tw_drv g) \<and>
    length (io_writes (tw_drv g')) = length (io_writes (tw_drv g)) + n \<and>
    dg_clients g' = (dg_clients g)[i := node\<lparr>dc_seqno_cnt := dc_seqno_cnt node + of_nat n\<rparr>]"
proof -
  have "hw_fence_dbg_tx_and_signal_clients_wr P hash inp g = sim_loop P n i src dst hash (int (di_count inp)) g"
    using input nodes n by (simp add: hw_fence_dbg_tx_and_signal_clients_wr_def Let_def)
  moreover obtain g' where g': "sim_loop P n i src dst hash (int (di_count inp)) g = Some (g', int (di_count inp))"
    "sim_ready m src dst (tw_drv g')" "same_fences n (tw_drv g) (tw_drv g')"
    "dg_clients g' = (dg_clients g)[i := node\<lparr>dc_seqno_cnt := dc_seqno_cnt node + of_nat n\<rparr>]"
    using sim_loop_restores [OF ready on ctl(2,1) keys [unfolded node]] node by metis
  moreover have "table_inv (tw_drv g')" using g'(2) by (auto simp: sim_ready_def)
  ultimately show ?thesis by (auto simp: same_fences_def)
qed

definition dbg_source :: msm_hw_fence_client where
  "dbg_source = zero_client\<lparr>cl_client_id := 2, cl_queues := [
     \<lparr>qd_va_queue = 0x200, qd_q_size_bytes = 128, qd_va_header = 0x100, qd_pa_queue = 0\<rparr>, zero_queue]\<rparr>"

definition dbg_sample :: debugfs where
  "dbg_sample = \<lparr>tw_drv = (table_of (replicate 4 zero_fence))\<lparr>client_objs := [0 \<mapsto> dbg_source, 1 \<mapsto> zero_client\<lparr>cl_client_id := 3\<rparr>],
       hw_fence_client_queue_size := hw_fence_client_queue_size (sample_queue_state 0 0),
       hfi_hdrs := hfi_hdrs (sample_queue_state 0 0), q_words := q_words (sample_queue_state 0 0)\<rparr>,
     tw_handles = (\<lambda>_. None), tw_calls = [],
     dg_clients = [\<lparr>dc_client_id = 3, dc_dma_context = 6, dc_seqno_cnt = 0, dc_client_handle = Some 1, dc_mem_descriptor = zero_mem_addr\<rparr>,
       \<lparr>dc_client_id = 2, dc_dma_context = 5, dc_seqno_cnt = 0, dc_client_handle = Some 0, dc_mem_descriptor = zero_mem_addr\<rparr>],
     dg_create_hw_fences = True, dg_release_delay = 0, dg_context_rd = 0, dg_seqno_rd = 0, dg_entry_rd = False, dg_seqno = 1,
     dg_index = 0, dg_cnt = 0\<rparr>"

lemma dbg_sample_ready: "sim_ready 2 0 1 (tw_drv dbg_sample)" "fence_map (tw_drv dbg_sample) = Map.empty"
proof -
  note t = table_inv_fields [of "tw_drv dbg_sample" "table_of (replicate 4 zero_fence)"]
  have s: "table_inv (tw_drv dbg_sample)" "fence_map (tw_drv dbg_sample) = Map.empty" "0 < free_slots (tw_drv dbg_sample)"
    using t table_of_empty by (simp_all add: dbg_sample_def)
  then show "fence_map (tw_drv dbg_sample) = Map.empty" by simp
  have "queue_ready 2 (tw_drv dbg_sample) dbg_source TXQ"
    by (simp add: queue_ready_def dbg_sample_def dbg_source_def sample_queue_state_def zero_client_def q_size_u32_def ring_size_def)
  moreover have "ring_ok 2 (client_ring (tw_drv dbg_sample) dbg_source TXQ)"
    by (simp add: ring_ok_def queue_ring_def txq_wm_def dbg_sample_def dbg_source_def sample_queue_state_def zero_client_def
        zero_hfi_hdr_def Let_def)
  ultimately show "sim_ready 2 0 1 (tw_drv dbg_sample)"
    using s by (simp add: sim_ready_def dbg_sample_def)
qed

theorem simulation_restores_witness:
  "\<exists>g'. hw_fence_dbg_tx_and_signal_clients_wr sample_platform 0 \<lparr>di_count = 2, di_copy = True, di_uint = Some 3\<rparr> dbg_sample = Some (g', 2) \<and>
    fence_map (tw_drv g') = fence_map (tw_drv dbg_sample) \<and> length (io_writes (tw_drv g')) = length (io_writes (tw_drv dbg_sample)) + 3"
proof -
  let ?inp = "\<lparr>di_count = 2, di_copy = True, di_uint = Some 3\<rparr>"
  have nodes: "node_handle dbg_sample (client_id sample_platform CTL0) = Some (1, 0)"
    "node_handle dbg_sample (client_id sample_platform CTL1) = Some (0, 1)"
    by (simp_all add: node_handle_def dbg_sample_def)
  show ?thesis
    using simulation_restores [OF dbg_sample_ready(1) _ _ _ _ _ nodes, of ?inp 3 3 _ 0] dbg_sample_ready(2)
    by (simp add: HW_FENCE_DEBUG_MAX_LOOPS_def dbg_out_clients_signal_map_no_dpu_def)
      (force simp: dbg_sample_def)
qed

section \<open>The dump of the table\<close>

lemma dump_first_unseen:
  "dump_full_table fmt max_size entry_size tbl_cnt (f # fs) index cnt buf = dump_full_table fmt max_size entry_size tbl_cnt (f' # fs) index cnt buf"
proof (induction fmt max_size entry_size tbl_cnt "f # fs" index cnt buf rule: dump_full_table.induct)
  case (1 fmt max_size entry_size tbl_cnt index cnt buf)
  show ?case
  proof (cases "index < tbl_cnt \<and> int (length buf) < int max_size - int entry_size")
    case True
    then have s: "unat (index + 1) = Suc (unat index)" using unat_Suc_below by blast
    have same: "fetch (f # fs) (unat (index + 1)) = fetch (f' # fs) (unat (index + 1))" by (simp add: s fetch_def)
    show ?thesis
    proof (cases "fetch (f' # fs) (unat (index + 1))")
      case None
      then show ?thesis unfolding dump_full_table.simps [of _ _ _ _ "_ # fs" index] same by simp
    next
      case (Some e)
      with 1 [OF True] same have "hf_valid e = 0 \<Longrightarrow>
          dump_full_table fmt max_size entry_size tbl_cnt (f # fs) (index + 1) cnt buf =
          dump_full_table fmt max_size entry_size tbl_cnt (f' # fs) (index + 1) cnt buf"
        "hf_valid e \<noteq> 0 \<Longrightarrow>
          dump_full_table fmt max_size entry_size tbl_cnt (f # fs) (index + 1) (cnt + 1) (buf @ fmt (max_size - length buf) (index + 1) cnt e) =
          dump_full_table fmt max_size entry_size tbl_cnt (f' # fs) (index + 1) (cnt + 1) (buf @ fmt (max_size - length buf) (index + 1) cnt e)"
        by simp_all
      then show ?thesis unfolding dump_full_table.simps [of _ _ _ _ "_ # fs" index] same using Some by simp
    qed
  next
    case False
    then show ?thesis unfolding dump_full_table.simps [of _ _ _ _ "_ # fs" index] by auto
  qed
qed

lemma dump_beyond_end:
  assumes "length tbl = unat tbl_cnt" and "\<And>room i c f. length (fmt room i c f) \<le> L" and "index < tbl_cnt"
    and "int (length buf + L * (unat tbl_cnt - unat index)) < int max_size - int entry_size"
  shows "dump_full_table fmt max_size entry_size tbl_cnt tbl index cnt buf = None"
  using assms
proof (induction "unat tbl_cnt - unat index" arbitrary: index cnt buf)
  case 0
  then show ?case by (simp add: word_less_nat_alt)
next
  case (Suc n)
  have s: "unat (index + 1) = Suc (unat index)" using unat_Suc_below [OF Suc.prems(3)] .
  have lt: "unat index < unat tbl_cnt" using Suc.prems(3) by (simp add: word_less_nat_alt)
  have fits: "int (length buf) < int max_size - int entry_size" using Suc.prems(4) by linarith
  show ?case
  proof (cases "Suc (unat index) < unat tbl_cnt")
    case False
    then have "fetch tbl (unat (index + 1)) = None" using Suc.prems(1) s by simp
    then show ?thesis using Suc.prems(3) fits by (subst dump_full_table.simps) simp
  next
    case True
    have next1: "n = unat tbl_cnt - unat (index + 1)" "index + 1 < tbl_cnt" using Suc.hyps(2) s True by (simp_all add: word_less_nat_alt)
    have ih: "dump_full_table fmt max_size entry_size tbl_cnt tbl (index + 1) cnt' buf' = None"
      if "length buf' \<le> length buf + L" for cnt' buf'
    proof (rule Suc.hyps(1) [OF next1(1) Suc.prems(1,2) next1(2)])
      have "unat tbl_cnt - unat index = Suc n" "unat tbl_cnt - unat (index + 1) = n" using Suc.hyps(2) next1(1) by simp_all
      then show "int (length buf' + L * (unat tbl_cnt - unat (index + 1))) < int max_size - int entry_size"
        using that Suc.prems(4) by simp
    qed
    have "fetch tbl (unat (index + 1)) = Some (tbl ! unat (index + 1))" using Suc.prems(1) s True by simp
    then show ?thesis using Suc.prems(3) fits ih Suc.prems(2) by (subst dump_full_table.simps) simp
  qed
qed

text \<open>C35. The dump of the whole table is off by one: it never shows entry 0, whatever is stored there, and when the text of
  all fences fits the buffer it does not stop at the end of the table, but reads the entry behind it.\<close>

theorem dump_table_shifted:
  assumes "length tbl = unat tbl_cnt" and "0 < tbl_cnt" and "\<And>room i c f. length (fmt room i c f) \<le> L"
    and "int (L * unat tbl_cnt) < int max_size - int entry_size"
  shows "dump_full_table fmt max_size entry_size tbl_cnt tbl 0 0 [] = None \<and>
    dump_full_table fmt max_size' entry_size tbl_cnt (tbl[0 := f]) index cnt buf = dump_full_table fmt max_size' entry_size tbl_cnt tbl index cnt buf"
proof
  show "dump_full_table fmt max_size entry_size tbl_cnt tbl 0 0 [] = None"
    by (rule dump_beyond_end [OF assms(1,3,2)]) (use assms(4) in simp)
  obtain e es where "tbl = e # es" using assms(1,2) by (cases tbl) (auto simp: word_less_nat_alt)
  then show "dump_full_table fmt max_size' entry_size tbl_cnt (tbl[0 := f]) index cnt buf = dump_full_table fmt max_size' entry_size tbl_cnt tbl index cnt buf"
    by (simp add: dump_first_unseen)
qed

theorem dump_table_shifted_witness:
  "dump_full_table (\<lambda>_ _ _ _. ''fence'') 4096 64 4 (replicate 4 (new_fence 0 7 (5, 9) 0)) 0 0 [] = None"
  using dump_table_shifted [of "replicate 4 (new_fence 0 7 (5, 9) 0)" 4 "\<lambda>_ _ _ _. ''fence''" 5 4096 64] by simp

text \<open>The client id of the user indexes the table of clients without a check, so an id beyond the clients of this target
  reads past its end.\<close>

lemma dump_queues_unchecked:
  assumes "get_debugfs_input_client P inp = int n" and "length (clients (tw_drv g)) \<le> n"
  shows "hw_fence_dbg_dump_queues_wr P inp g = None"
  using assms by (simp add: hw_fence_dbg_dump_queues_wr_def)

text \<open>A test fence of the join simulation has no client handle, so that its release leaves its hw-fence in the table.\<close>

lemma release_without_handle:
  assumes "tw_handles g fid = None" and "dma_fences (tw_drv g) fid = Some f"
  shows "\<exists>g'. hw_fence_dbg_release P (Some fid) g = Some g' \<and> fence_map (tw_drv g') = fence_map (tw_drv g)"
  using assms by (simp add: hw_fence_dbg_release_def hw_fence_release_def fence_flag_kept)

end
