(* ===== verification/HwfIoctl.thy ===== *)
theory HwfIoctl
  imports HwfDebug
begin

text \<open>
  The validation interface \<open>hw_fence_ioctl.c\<close>: an open file of \<open>hw_sync\<close> stands for one validation client, and the
  ioctls register it, create fences with a descriptor, wait for them and signal them. Fences and references to them
  are as in \<open>HwfDebug\<close>; what the kernel answers and what the user's memory holds are arguments, and descriptors and
  references are in the log \<open>tw_calls\<close>. A fence and the structure around it have the same address.
\<close>

section \<open>Data\<close>

definition HW_FENCE_ARRAY_SIZE :: int where "HW_FENCE_ARRAY_SIZE = 10"

text \<open>The client handle is NULL (\<open>None\<close>), an error pointer (\<open>Inl\<close>) or a handle (\<open>Inr\<close>).\<close>

record hw_sync_obj =
  so_context :: u64
  so_client_id :: int
  so_client_handle :: "(int + nat) option"
  so_mem_descriptor :: msm_hw_fence_mem_addr

record hw_fence_sync_create_data =
  cr_seqno :: u64
  cr_incr_context :: bool
  cr_fence :: int
  cr_hash :: u64

text \<open>\<open>ar_fences\<close> are the ten descriptors of the array.\<close>

record hw_fence_array_sync_create_data =
  ar_seqno :: u64
  ar_num_fences :: int
  ar_fences :: "u64 list"
  ar_fence_array_fd :: int

record hw_fence_sync_signal_data =
  sg_hash :: u64
  sg_error_flag :: u32

text \<open>The fields of the structure for a wait, but the timeout, which only the kernel uses, and that for a reset, but
  the client id, which nobody reads.\<close>

record hw_fence_sync_wait_data =
  wt_fence :: int

record hw_fence_sync_reset_data =
  rs_reset_flag :: u32

text \<open>What \<open>copy_from_user\<close> reads for each type of argument, \<open>None\<close> where it fails.\<close>

record user_args =
  ua_int :: "int option"
  ua_create :: "hw_fence_sync_create_data option"
  ua_array :: "hw_fence_array_sync_create_data option"
  ua_signal :: "hw_fence_sync_signal_data option"
  ua_wait :: "hw_fence_sync_wait_data option"
  ua_reset :: "hw_fence_sync_reset_data option"

text \<open>What is written back to the user.\<close>

datatype sync_reply = CreateReply hw_fence_sync_create_data | ArrayReply hw_fence_array_sync_create_data

record sync_world = test_world +
  sw_replies :: "sync_reply list"

text \<open>
  The answers of the kernel: memory for the client, for the lock and the fence, and for the array of pointers; a new
  context; a descriptor; a sync file; whether the reply can be copied; a fence array; the fence that a descriptor
  leads to; what the system does to the driver during a wait, which ends when the client is signaled or the time is
  over. \<open>sa_hash\<close> and \<open>sa_payload\<close> are what the variables \<open>hash\<close> and \<open>payload\<close> hold before they are set.
\<close>

record sync_answers =
  sa_client :: bool
  sa_fence :: "nat option"
  sa_alloc :: bool
  sa_context :: u64
  sa_fd :: int
  sa_file :: "nat option"
  sa_copy :: bool
  sa_array :: "nat option"
  sa_fence_of :: "int \<Rightarrow> nat option"
  sa_wait :: "hwf \<Rightarrow> hwf"
  sa_hash :: u64
  sa_payload :: msm_hw_fence_queue_payload

text \<open>A handler takes the object of the file and returns it with the result.\<close>

type_synonym sync_result = "(hw_sync_obj option \<times> sync_world \<times> int) option"
type_synonym hw_fence_ioctl_t =
  "platform \<Rightarrow> sync_answers \<Rightarrow> user_args \<Rightarrow> hw_sync_obj option \<Rightarrow> sync_world \<Rightarrow> sync_result"

section \<open>The file\<close>

definition valid_client_id :: "platform \<Rightarrow> int \<Rightarrow> bool" where
  "valid_client_id P cid \<longleftrightarrow> \<not> (cid < uint (client_id P VAL0) \<or> uint (client_id P VAL6) < cid)"

definition is_valid_client :: "platform \<Rightarrow> hw_sync_obj option \<Rightarrow> bool" where
  "is_valid_client P obj = (case obj of None \<Rightarrow> False | Some b \<Rightarrow> valid_client_id P (so_client_id b))"

definition get_client_id :: "platform \<Rightarrow> user_args \<Rightarrow> hw_sync_obj option \<Rightarrow> int" where
  "get_client_id P u obj = (case ua_int u of
       None \<Rightarrow> - EFAULT
     | Some cid \<Rightarrow>
         if obj = None then - EINVAL
         else if \<not> valid_client_id P cid then - EINVAL else cid)"

text \<open>A fence that is found is returned with a reference.\<close>

definition hw_sync_get_fence :: "sync_answers \<Rightarrow> int \<Rightarrow> nat option" where
  "hw_sync_get_fence K fd = (if 0 \<le> fd then sa_fence_of K fd else None)"

text \<open>\<open>IS_ERR_OR_NULL\<close>: the handle, if it is one.\<close>

fun handle_of :: "(int + nat) option \<Rightarrow> nat option" where
  "handle_of (Some (Inr h)) = Some h"
| "handle_of _ = None"

definition hw_sync_debugfs_open :: "bool \<Rightarrow> u64 \<Rightarrow> hw_sync_obj option \<Rightarrow> hw_sync_obj option \<times> int" where
  "hw_sync_debugfs_open alloc context private_data =
     (if \<not> alloc then (private_data, - ENOMEM)
      else (Some \<lparr>so_context = context, so_client_id = 0, so_client_handle = None, so_mem_descriptor = zero_mem_addr\<rparr>, 0))"

text \<open>Closing the file frees the object only.\<close>

definition hw_sync_debugfs_release :: "hw_sync_obj option \<Rightarrow> int" where
  "hw_sync_debugfs_release private_data = (if private_data = None then - EINVAL else 0)"

section \<open>Clients\<close>

text \<open>The check \<open>IS_ERR(&client_id)\<close> looks at the address of the local variable, which is not an error pointer, and so
  never fails: the error code of \<open>get_client_id\<close> goes on as the id of the client.\<close>

definition hw_sync_ioctl_reg_client :: hw_fence_ioctl_t where
  "hw_sync_ioctl_reg_client P K u obj w = (let cid = get_client_id P u obj in do {
     b \<leftarrow> obj;
     if so_client_handle b \<noteq> None then Some (obj, w, - EINVAL)
     else do {
       (drv, md, r) \<leftarrow> msm_hw_fence_register P (sa_client K) (word_of_int cid) (Some (so_mem_descriptor b)) (Some (tw_drv w));
       d \<leftarrow> drv;
       md \<leftarrow> md;
       Some (Some (b\<lparr>so_client_id := cid, so_client_handle := Some r, so_mem_descriptor := md\<rparr>), w\<lparr>tw_drv := d\<rparr>,
         case r of Inl _ \<Rightarrow> - EINVAL | Inr _ \<Rightarrow> 0)
     }
   })"

definition hw_sync_ioctl_unreg_client :: hw_fence_ioctl_t where
  "hw_sync_ioctl_unreg_client P K u obj w = do {
     b \<leftarrow> obj;
     (d, ret) \<leftarrow> msm_hw_fence_deregister (handle_of (so_client_handle b)) (tw_drv w);
     Some (obj, w\<lparr>tw_drv := d\<rparr>, ret)
   }"

section \<open>Fences\<close>

definition reply :: "sync_reply \<Rightarrow> sync_world \<Rightarrow> sync_world" where
  "reply r w = w\<lparr>sw_replies := sw_replies w @ [r]\<rparr>"

text \<open>The part after the hw-fence is there: a descriptor and a sync file for fence \<open>fid\<close>.\<close>

definition create_fence_file :: "sync_answers \<Rightarrow> hw_fence_sync_create_data \<Rightarrow> nat \<Rightarrow> u64 \<Rightarrow> sync_world \<Rightarrow> sync_world \<times> int" where
  "create_fence_file K data fid hash w =
     (let fd = sa_fd K in
      if fd < 0 then (tw_call (FencePut fid) w, fd)
      else case sa_file K of
        None \<Rightarrow> (tw_call (PutUnusedFd fd) (tw_call (FencePut fid) w), - EINVAL)
      | Some file \<Rightarrow>
          let w = tw_call (FencePut fid) (tw_call (SyncFileCreate file fid) w);
              data = data\<lparr>cr_fence := fd, cr_hash := hash\<rparr>
          in if \<not> sa_copy K then (tw_call (PutUnusedFd fd) (tw_call (Fput file) (tw_call (FencePut fid) w)), - EFAULT)
          else (tw_call (FdInstall fd file) (reply (CreateReply data) w), 0))"

definition hw_sync_ioctl_create_fence :: hw_fence_ioctl_t where
  "hw_sync_ioctl_create_fence P K u obj w =
     (if \<not> is_valid_client P obj then Some (obj, w, - EINVAL)
      else do {
        b \<leftarrow> obj;
        (case handle_of (so_client_handle b) of
           None \<Rightarrow> Some (obj, w, - EINVAL)
         | Some h \<Rightarrow> (case ua_create u of
             None \<Rightarrow> Some (obj, w, - EFAULT)
           | Some data \<Rightarrow> (case sa_fence K of
               None \<Rightarrow> Some (obj, w, - ENOMEM)
             | Some fid \<Rightarrow> do {
                 let w = init_fence fid (so_context b) (cr_seqno data) w;
                 (d, hash, ret) \<leftarrow> msm_hw_fence_create P (Some h) (Some fid) (Some (sa_hash K)) (tw_drv w);
                 let w = w\<lparr>tw_drv := d\<rparr>;
                 if ret \<noteq> 0 then Some (obj, tw_call (FencePut fid) w, - EINVAL)
                 else do {
                   hash \<leftarrow> hash;
                   let w = w\<lparr>tw_handles := (tw_handles w)(fid \<mapsto> h)\<rparr>;
                   let b = (if cr_incr_context data then b\<lparr>so_context := sa_context K\<rparr> else b);
                   (case create_fence_file K data fid hash w of (w, ret) \<Rightarrow> Some (Some b, w, ret))
                 }
               })))
      })"

definition hw_sync_ioctl_destroy_fence :: hw_fence_ioctl_t where
  "hw_sync_ioctl_destroy_fence P K u obj w =
     (if \<not> is_valid_client P obj then Some (obj, w, - EINVAL)
      else case ua_create u of
        None \<Rightarrow> Some (obj, w, - EFAULT)
      | Some data \<Rightarrow> (case hw_sync_get_fence K (cr_fence data) of
          None \<Rightarrow> Some (obj, w, - EINVAL)
        | Some f \<Rightarrow> Some (obj, tw_call (FencePut f) (tw_call (FencePut f) (tw_call (FenceGet f) w)), 0)))"

section \<open>Fence arrays\<close>

text \<open>The loop puts the fence at place \<open>i\<close> in each of its rounds.\<close>

definition put_child_fences :: "int \<Rightarrow> nat list \<Rightarrow> sync_world \<Rightarrow> sync_world option" where
  "put_child_fences i fences w =
     (if i < 0 then Some w
      else do {
        f \<leftarrow> fetch fences (nat i);
        Some (w\<lparr>tw_calls := tw_calls w @ replicate (nat i + 1) (FencePut f)\<rparr>)
      })"

text \<open>The loop that collects the fences, with those found so far; the last result says whether it came to its end.\<close>

fun get_child_fences :: "sync_answers \<Rightarrow> u64 list \<Rightarrow> nat list \<Rightarrow> sync_world \<Rightarrow> (sync_world \<times> nat list \<times> bool) option" where
  "get_child_fences K [] fences w = Some (w, fences, True)"
| "get_child_fences K (x # xs) fences w =
     (let fd = sint (ucast x :: u32) in
      if fd \<le> 0 then Some (w, fences, False)
      else case hw_sync_get_fence K fd of
        None \<Rightarrow> do { w \<leftarrow> put_child_fences (int (length fences) - 1) fences w; Some (w, fences, False) }
      | Some f \<Rightarrow> get_child_fences K xs (fences @ [f]) (tw_call (FenceGet f) w))"

text \<open>The part after the array is there: a descriptor and a sync file for the array \<open>a\<close>.\<close>

definition create_array_file :: "sync_answers \<Rightarrow> hw_fence_array_sync_create_data \<Rightarrow> nat \<Rightarrow> sync_world \<Rightarrow> sync_world \<times> int" where
  "create_array_file K data a w =
     (let fd = sa_fd K in
      if fd \<le> 0 then (tw_call (FencePut a) w, fd)
      else case sa_file K of
        None \<Rightarrow> (tw_call (PutUnusedFd fd) (tw_call (Kfree a) (tw_call (FencePut a) w)), - EINVAL)
      | Some file \<Rightarrow>
          let w = tw_call (FencePut a) (tw_call (SyncFileCreate file a) w);
              data = data\<lparr>ar_fence_array_fd := fd\<rparr>
          in if \<not> sa_copy K then (tw_call (PutUnusedFd fd) (tw_call (FencePut a) (tw_call (Fput file) w)), - EFAULT)
          else (tw_call (FdInstall fd file) (reply (ArrayReply data) w), 0))"

text \<open>\<open>kcalloc\<close> of a negative number of pointers overflows and returns NULL.\<close>

definition hw_sync_ioctl_create_fence_array :: hw_fence_ioctl_t where
  "hw_sync_ioctl_create_fence_array P K u obj w =
     (if \<not> is_valid_client P obj then Some (obj, w, - EINVAL)
      else do {
        b \<leftarrow> obj;
        if handle_of (so_client_handle b) = None then Some (obj, w, - EINVAL)
        else case ua_array u of
          None \<Rightarrow> Some (obj, w, - EFAULT)
        | Some data \<Rightarrow>
            let n = ar_num_fences data in
            if HW_FENCE_ARRAY_SIZE \<le> n then Some (obj, w, - EINVAL)
            else if n < 0 \<or> \<not> sa_alloc K then Some (obj, w, - ENOMEM)
            else do {
              (w, fences, complete) \<leftarrow> get_child_fences K (take (nat n) (ar_fences data)) [] w;
              if \<not> complete then Some (obj, w, - EINVAL)
              else case sa_array K of
                None \<Rightarrow> Some (obj, w\<lparr>tw_calls := tw_calls w @ map FencePut fences\<rparr>, - EINVAL)
              | Some a \<Rightarrow>
                  let w = w\<lparr>tw_drv := (tw_drv w)\<lparr>dma_fences := (dma_fences (tw_drv w))(a \<mapsto>
                        \<lparr>df_context = so_context b, df_seqno = ar_seqno data, df_flags = 0,
                         df_array = Some \<lparr>fa_num_fences = word_of_int n, fa_fences = Some (map Some fences)\<rparr>\<rparr>)\<rparr>\<rparr>
                  in (case create_array_file K data a w of (w, ret) \<Rightarrow> Some (obj, w, ret))
            }
      })"

definition hw_sync_ioctl_destroy_fence_array :: hw_fence_ioctl_t where
  "hw_sync_ioctl_destroy_fence_array P K u obj w =
     (if \<not> is_valid_client P obj then Some (obj, w, - EINVAL)
      else case ua_array u of
        None \<Rightarrow> Some (obj, w, - EFAULT)
      | Some data \<Rightarrow> (case hw_sync_get_fence K (ar_fence_array_fd data) of
          None \<Rightarrow> Some (obj, w, - EINVAL)
        | Some a \<Rightarrow> do {
            let w = tw_call (FencePut a) (tw_call (FenceGet a) w);
            f \<leftarrow> dma_fences (tw_drv w) a;
            if df_array f = None then Some (obj, w, - EINVAL)
            else Some (obj, tw_call (FencePut a) w, 0)
          }))"

section \<open>Waiting and signaling\<close>

definition hw_sync_ioctl_reg_for_wait :: hw_fence_ioctl_t where
  "hw_sync_ioctl_reg_for_wait P K u obj w =
     (if \<not> is_valid_client P obj then Some (obj, w, - EINVAL)
      else do {
        b \<leftarrow> obj;
        (case ua_int u of
           None \<Rightarrow> Some (obj, w, - EFAULT)
         | Some fd \<Rightarrow> (case hw_sync_get_fence K fd of
             None \<Rightarrow> Some (obj, w, - EINVAL)
           | Some f \<Rightarrow> do {
               let w = tw_call (FenceGet f) w;
               (d, ret) \<leftarrow> msm_hw_fence_wait_update P (handle_of (so_client_handle b)) (Some [Some f]) 1 (tw_drv w);
               Some (obj, tw_call (FencePut f) (w\<lparr>tw_drv := d\<rparr>), ret)
             }))
      })"

definition hw_sync_ioctl_fence_signal :: hw_fence_ioctl_t where
  "hw_sync_ioctl_fence_signal P K u obj w =
     (if \<not> is_valid_client P obj then Some (obj, w, - EINVAL)
      else do {
        b \<leftarrow> obj;
        (case handle_of (so_client_handle b) of
           None \<Rightarrow> Some (obj, w, - EINVAL)
         | Some h \<Rightarrow> (case ua_signal u of
             None \<Rightarrow> Some (obj, w, - EFAULT)
           | Some data \<Rightarrow> do {
               (drv, ret) \<leftarrow> msm_hw_fence_update_txq (Some h) (sg_hash data) 0 (sg_error_flag data) (Some (tw_drv w));
               d \<leftarrow> drv;
               let w = w\<lparr>tw_drv := d\<rparr>;
               if ret \<noteq> 0 then Some (obj, w, ret)
               else do {
                 (_, _, sig) \<leftarrow> fetch dbg_out_clients_signal_map_no_dpu (nat (so_client_id b));
                 if sig < 0 then Some (obj, w, - EINVAL)
                 else do {
                   c \<leftarrow> client_objs d h;
                   (case msm_hw_fence_trigger_signal (Some h) (word_of_int (cl_ipc_client_vid c)) (word_of_int (cl_ipc_client_pid c))
                       (word_of_int sig) (Some d) of (drv, ret) \<Rightarrow> do {
                     d \<leftarrow> drv;
                     Some (obj, w\<lparr>tw_drv := d\<rparr>, ret)
                   })
                 }
               }
             }))
      })"

text \<open>The loop that reads the rx queue of client \<open>h\<close> until the message for the fence is there, the queue is empty or
  the read fails. The last result says whether the message was there.\<close>

partial_function (option) read_until ::
  "nat \<Rightarrow> u64 \<Rightarrow> u64 \<Rightarrow> msm_hw_fence_queue_payload \<Rightarrow> hwf \<Rightarrow> (hwf \<times> int \<times> bool) option" where
  "read_until h context seqno p d = do {
     c \<leftarrow> client_objs d h;
     (d, p, read) \<leftarrow> hw_fence_read_queue d c p RXQ;
     if read < 0 then Some (d, read, False)
     else if qp_ctxt_id p = context \<and> qp_seqno p = seqno then Some (d, 0, True)
     else if read = 0 then Some (d, read, False)
     else read_until h context seqno p d
   }"

text \<open>The handle is only compared with NULL, so that an error pointer is followed.\<close>

definition hw_sync_ioctl_fence_wait :: hw_fence_ioctl_t where
  "hw_sync_ioctl_fence_wait P K u obj w =
     (if \<not> is_valid_client P obj then Some (obj, w, - EINVAL)
      else do {
        b \<leftarrow> obj;
        (case ua_wait u of
           None \<Rightarrow> Some (obj, w, - EFAULT)
         | Some data \<Rightarrow> (case hw_sync_get_fence K (wt_fence data) of
             None \<Rightarrow> Some (obj, w, - EINVAL)
           | Some fid \<Rightarrow>
               let w = tw_call (FenceGet fid) w in
               if so_client_handle b = None then Some (obj, tw_call (FencePut fid) w, - EINVAL)
               else do {
                 h \<leftarrow> handle_of (so_client_handle b);
                 let d = sa_wait K (tw_drv w);
                 c \<leftarrow> client_objs d h;
                 if cl_val_signal c \<le> 0 then Some (obj, tw_call (FencePut fid) (w\<lparr>tw_drv := d\<rparr>), - ETIMEDOUT)
                 else do {
                   let d = set_client h (c\<lparr>cl_val_signal := 0\<rparr>) d;
                   f \<leftarrow> dma_fences d fid;
                   (d, read, _) \<leftarrow> read_until h (df_context f) (df_seqno f) (sa_payload K) d;
                   Some (obj, tw_call (FencePut fid) (w\<lparr>tw_drv := d\<rparr>), read)
                 }
               }))
      })"

definition hw_sync_ioctl_reset_client :: hw_fence_ioctl_t where
  "hw_sync_ioctl_reset_client P K u obj w =
     (if \<not> is_valid_client P obj then Some (obj, w, - EINVAL)
      else do {
        b \<leftarrow> obj;
        (case handle_of (so_client_handle b) of
           None \<Rightarrow> Some (obj, w, - EINVAL)
         | Some h \<Rightarrow> (case ua_reset u of
             None \<Rightarrow> Some (obj, w, - EFAULT)
           | Some data \<Rightarrow> do {
               (d, ret) \<leftarrow> msm_hw_fence_reset_client P (Some h) (rs_reset_flag data) (tw_drv w);
               Some (obj, w\<lparr>tw_drv := d\<rparr>, ret)
             }))
      })"

section \<open>Commands\<close>

text \<open>The number of a command is in its low byte; the table has no entries for the first eight.\<close>

definition HW_FENCE_IOCTL_NR :: "u32 \<Rightarrow> u32" where
  "HW_FENCE_IOCTL_NR cmd = (cmd AND 0xFF) - 2"

definition hw_sync_debugfs_ioctls :: "hw_fence_ioctl_t option list" where
  "hw_sync_debugfs_ioctls = replicate 8 None @ map Some
     [hw_sync_ioctl_reg_client, hw_sync_ioctl_unreg_client, hw_sync_ioctl_create_fence, hw_sync_ioctl_destroy_fence,
      hw_sync_ioctl_create_fence_array, hw_sync_ioctl_destroy_fence_array, hw_sync_ioctl_reg_for_wait,
      hw_sync_ioctl_fence_signal, hw_sync_ioctl_fence_wait, hw_sync_ioctl_reset_client]"

text \<open>The signed number is compared with the unsigned size of the table.\<close>

definition hw_sync_debugfs_ioctl :: "u32 \<Rightarrow> hw_fence_ioctl_t" where
  "hw_sync_debugfs_ioctl cmd P K u obj w =
     (let num = HW_FENCE_IOCTL_NR cmd in
      if of_nat (length hw_sync_debugfs_ioctls) \<le> (scast num :: u64) then Some (obj, w, - EINVAL)
      else do {
        func \<leftarrow> fetch hw_sync_debugfs_ioctls (unat num);
        (case func of None \<Rightarrow> Some (obj, w, - ENOTTY) | Some handler \<Rightarrow> handler P K u obj w)
      })"


section \<open>Commands without a client\<close>

lemmas sync_handler_defs = hw_sync_ioctl_create_fence_def hw_sync_ioctl_destroy_fence_def
  hw_sync_ioctl_create_fence_array_def hw_sync_ioctl_destroy_fence_array_def hw_sync_ioctl_reg_for_wait_def
  hw_sync_ioctl_fence_signal_def hw_sync_ioctl_fence_wait_def hw_sync_ioctl_reset_client_def

lemma scast_nonneg: 
  assumes "unat (x :: u32) < 2 ^ 31"
  shows "(scast x :: u64) = ucast x"
proof -
  have "uint x < 2 ^ 31" using assms by (metis of_nat_less_iff of_nat_numeral of_nat_power uint_nat)
  moreover have "- (2 ^ 31) \<le> uint x" by (rule order_trans [of _ 0]) simp_all
  ultimately have "sint x = uint x" unfolding sint_uint by (intro signed_take_bit_int_eq_self) simp_all
  then show ?thesis by (metis of_int_sint of_int_uint)
qed

lemma length_ioctls [simp]: "length hw_sync_debugfs_ioctls = 18"
  by (simp add: hw_sync_debugfs_ioctls_def)

text \<open>The registration is command number 10 and the deregistration 11.\<close>

lemma ioctl_table:
  assumes "fetch hw_sync_debugfs_ioctls k = Some (Some f)"
  shows "k = 8 \<and> f = hw_sync_ioctl_reg_client \<or> k = 9 \<and> f = hw_sync_ioctl_unreg_client \<or>
    f \<in> {hw_sync_ioctl_create_fence, hw_sync_ioctl_destroy_fence, hw_sync_ioctl_create_fence_array,
      hw_sync_ioctl_destroy_fence_array, hw_sync_ioctl_reg_for_wait, hw_sync_ioctl_fence_signal,
      hw_sync_ioctl_fence_wait, hw_sync_ioctl_reset_client}"
proof -
  have "k < 18" using assms by (auto simp: fetch_def split: if_splits)
  then have "k \<in> set [0..<18]" by simp
  then show ?thesis using assms by (simp add: hw_sync_debugfs_ioctls_def numeral_nat) (elim disjE; simp)
qed

lemma invalid_client_refuses:
  assumes "\<not> is_valid_client P obj"
    and "f \<in> {hw_sync_ioctl_create_fence, hw_sync_ioctl_destroy_fence, hw_sync_ioctl_create_fence_array,
      hw_sync_ioctl_destroy_fence_array, hw_sync_ioctl_reg_for_wait, hw_sync_ioctl_fence_signal,
      hw_sync_ioctl_fence_wait, hw_sync_ioctl_reset_client}"
  shows "f P K u obj w = Some (obj, w, - EINVAL)"
  using assms by (elim insertE) (simp_all add: sync_handler_defs)

lemma unreg_without_handle:
  "handle_of (so_client_handle b) = None \<Longrightarrow> hw_sync_ioctl_unreg_client P K u (Some b) w = Some (Some b, w, - EINVAL)"
  by (simp add: hw_sync_ioctl_unreg_client_def msm_hw_fence_deregister_def)

lemma ioctl_nr_below:
  assumes "(scast (HW_FENCE_IOCTL_NR cmd) :: u64) < 18"
  shows "unat (HW_FENCE_IOCTL_NR cmd) < 18"
proof (cases "cmd AND 0xFF = 0 \<or> cmd AND 0xFF = 1")
  case True
  then show ?thesis using assms by (auto simp: HW_FENCE_IOCTL_NR_def)
next
  case False
  have le: "cmd AND 0xFF \<le> 0xFF" by (rule word_and_le1)
  have "unat (cmd AND 0xFF) \<noteq> 0" "unat (cmd AND 0xFF) \<noteq> 1" using False by (simp_all add: word_unat_eq_iff)
  then have ge: "2 \<le> cmd AND 0xFF" by (simp add: word_le_nat_alt)
  then have u: "unat (HW_FENCE_IOCTL_NR cmd) = unat (cmd AND 0xFF) - 2" by (simp add: HW_FENCE_IOCTL_NR_def unat_sub)
  moreover have "unat (cmd AND 0xFF) \<le> 255" using le by (simp add: word_le_nat_alt)
  ultimately have "unat (HW_FENCE_IOCTL_NR cmd) < 2 ^ 31" by simp
  then have "(scast (HW_FENCE_IOCTL_NR cmd) :: u64) = ucast (HW_FENCE_IOCTL_NR cmd)"
    by (simp add: scast_nonneg)
  then have "(ucast (HW_FENCE_IOCTL_NR cmd) :: u64) < 18" using assms by simp
  then show ?thesis by (simp add: word_less_nat_alt unsigned_ucast_eq take_bit_nat_eq_self)
qed

text \<open>What a command does is the handler's work, or an error.\<close>

lemma ioctl_dispatch:
  "hw_sync_debugfs_ioctl cmd P K u obj w = Some (obj, w, - EINVAL) \<or>
   hw_sync_debugfs_ioctl cmd P K u obj w = Some (obj, w, - ENOTTY) \<or>
   (\<exists>f. fetch hw_sync_debugfs_ioctls (unat (HW_FENCE_IOCTL_NR cmd)) = Some (Some f) \<and>
      hw_sync_debugfs_ioctl cmd P K u obj w = f P K u obj w)"
proof (cases "18 \<le> (scast (HW_FENCE_IOCTL_NR cmd) :: u64)")
  case True
  then show ?thesis by (simp add: hw_sync_debugfs_ioctl_def Let_def)
next
  case False
  then have "unat (HW_FENCE_IOCTL_NR cmd) < 18" by (intro ioctl_nr_below) simp
  then show ?thesis using False
    by (auto simp: hw_sync_debugfs_ioctl_def Let_def fetch_def split: option.split)
qed

text \<open>A file without a client: its client id is not that of a validation client and its handle is not a handle. Every
  command but the registration is refused.\<close>

definition no_client :: "platform \<Rightarrow> hw_sync_obj \<Rightarrow> bool" where
  "no_client P b \<longleftrightarrow> \<not> valid_client_id P (so_client_id b) \<and> handle_of (so_client_handle b) = None"

lemma no_client_refused:
  assumes "no_client P b"
  shows "hw_sync_debugfs_ioctl cmd P K u (Some b) w \<in>
    {Some (Some b, w, - EINVAL), Some (Some b, w, - ENOTTY), hw_sync_ioctl_reg_client P K u (Some b) w}"
proof -
  have inv: "\<not> is_valid_client P (Some b)" and h: "handle_of (so_client_handle b) = None"
    using assms by (simp_all add: no_client_def is_valid_client_def)
  show ?thesis
    using ioctl_dispatch [of cmd P K u "Some b" w] ioctl_table invalid_client_refuses [OF inv, of _ K u w]
      unreg_without_handle [OF h, of P K u w] by (metis insertI1 insertI2)
qed

lemma register_of_error:
  assumes "client_id P CLIENT_MAX \<le> cid"
  shows "\<exists>e. msm_hw_fence_register P alloc cid (Some md) (Some d) = Some (Some d, Some md, Inl e)"
  using assms by (simp add: msm_hw_fence_register_def)

text \<open>C36. A registration that cannot work, because the client id is out of range or cannot be read, disables the file for
  good: the call fails and leaves the driver as it is, but it leaves an error pointer as the handle and an error
  number as the client id, and from then on every command with every argument, a correct registration included, is
  refused without any effect.\<close>

theorem bad_registration_disables:
  assumes "so_client_handle b = None" and "\<forall>cid. ua_int u = Some cid \<longrightarrow> \<not> valid_client_id P cid"
    and "client_id P CLIENT_MAX \<le> 0xFFFF0000"
  shows "\<exists>b'. hw_sync_ioctl_reg_client P K u (Some b) w = Some (Some b', w, - EINVAL) \<and>
    (\<forall>cmd K' u' w'. hw_sync_debugfs_ioctl cmd P K' u' (Some b') w' \<in>
       {Some (Some b', w', - EINVAL), Some (Some b', w', - ENOTTY)})"
proof -
  define cid where "cid = get_client_id P u (Some b)"
  have cid: "cid = - EINVAL \<or> cid = - EFAULT"
    using assms(2) by (auto simp: cid_def get_client_id_def split: option.split)
  then have "(0xFFFF0000 :: u32) \<le> word_of_int cid" by auto
  then have "client_id P CLIENT_MAX \<le> word_of_int cid" using assms(3) by (rule order_trans [rotated])
  then obtain e where e: "msm_hw_fence_register P (sa_client K) (word_of_int cid) (Some (so_mem_descriptor b)) (Some (tw_drv w))
      = Some (Some (tw_drv w), Some (so_mem_descriptor b), Inl e)" using register_of_error by blast
  define b' where "b' = b\<lparr>so_client_id := cid, so_client_handle := Some (Inl e)\<rparr>"
  have reg: "hw_sync_ioctl_reg_client P K u (Some b) w = Some (Some b', w, - EINVAL)"
    using assms(1) e by (simp add: hw_sync_ioctl_reg_client_def b'_def flip: cid_def)
  have "cid < uint (client_id P VAL0)" using cid uint_ge_0 [of "client_id P VAL0"] by linarith
  then have dead: "no_client P b'" by (simp add: no_client_def valid_client_id_def b'_def)
  have "hw_sync_ioctl_reg_client P K' u' (Some b') w' = Some (Some b', w', - EINVAL)" for K' u' w'
    by (simp add: hw_sync_ioctl_reg_client_def b'_def)
  then have "hw_sync_debugfs_ioctl cmd P K' u' (Some b') w' \<in> {Some (Some b', w', - EINVAL), Some (Some b', w', - ENOTTY)}"
    for cmd K' u' w' using no_client_refused [OF dead, of cmd K' u' w'] by (simp, blast)
  then show ?thesis using reg by blast
qed

definition new_sync_obj :: hw_sync_obj where
  "new_sync_obj = \<lparr>so_context = 7, so_client_id = 0, so_client_handle = None, so_mem_descriptor = zero_mem_addr\<rparr>"

definition no_args :: user_args where
  "no_args = \<lparr>ua_int = None, ua_create = None, ua_array = None, ua_signal = None, ua_wait = None, ua_reset = None\<rparr>"

definition val_client :: msm_hw_fence_client where
  "val_client = sample_client\<lparr>cl_val_signal := 1\<rparr>"

definition val_world :: sync_world where
  "val_world = \<lparr>tw_drv = (sample_queue_state 16 16)\<lparr>client_objs := [5 \<mapsto> val_client],
       dma_fences := [3 \<mapsto> \<lparr>df_context = 7, df_seqno = 9, df_flags = 0, df_array = None\<rparr>]\<rparr>,
     tw_handles = Map.empty, tw_calls = [], sw_replies = []\<rparr>"

definition val_answers :: sync_answers where
  "val_answers = \<lparr>sa_client = True, sa_fence = Some 4, sa_alloc = True, sa_context = 8, sa_fd = 3, sa_file = Some 20,
     sa_copy = True, sa_array = Some 6, sa_fence_of = [11 \<mapsto> 3], sa_wait = id, sa_hash = 0, sa_payload = zero_payload\<rparr>"

theorem bad_registration_disables_witness:
  "\<exists>b'. hw_sync_ioctl_reg_client sample_platform val_answers no_args (Some new_sync_obj) val_world = Some (Some b', val_world, - EINVAL) \<and>
    hw_sync_debugfs_ioctl 0xC008570A sample_platform val_answers (no_args\<lparr>ua_int := Some 8\<rparr>) (Some b') val_world \<in>
      {Some (Some b', val_world, - EINVAL), Some (Some b', val_world, - ENOTTY)}"
  using bad_registration_disables [of new_sync_obj no_args sample_platform val_answers val_world]
  by (auto simp: new_sync_obj_def no_args_def)

text \<open>C37. A file that was just opened is harmless: before it is registered, every command of any number and argument is
  refused and changes neither the file nor the driver, except the registration, number 10. No other number leads
  to a handler than those from 10 to 19.\<close>

theorem unregistered_refused:
  assumes "0 < client_id P VAL0" and "hw_sync_debugfs_open True context f = (Some b, ret)" and "cmd AND 0xFF \<noteq> 10"
  shows "hw_sync_debugfs_ioctl cmd P K u (Some b) w \<in> {Some (Some b, w, - EINVAL), Some (Some b, w, - ENOTTY)}"
proof -
  have b: "so_client_id b = 0" "so_client_handle b = None" using assms(2) by (auto simp: hw_sync_debugfs_open_def)
  have "(0::int) < uint (client_id P VAL0)" using assms(1) by (simp add: word_less_def)
  then have inv: "\<not> is_valid_client P (Some b)" and h: "handle_of (so_client_handle b) = None"
    using b by (simp_all add: is_valid_client_def valid_client_id_def)
  have "unat (HW_FENCE_IOCTL_NR cmd) \<noteq> 8"
  proof
    assume "unat (HW_FENCE_IOCTL_NR cmd) = 8"
    then have "HW_FENCE_IOCTL_NR cmd = 8" by (simp add: word_unat_eq_iff)
    then show False using assms(3) by (simp add: HW_FENCE_IOCTL_NR_def algebra_simps)
  qed
  then show ?thesis
    using ioctl_dispatch [of cmd P K u "Some b" w] ioctl_table invalid_client_refuses [OF inv, of _ K u w]
      unreg_without_handle [OF h, of P K u w] by (metis insertI1 insertI2)
qed

theorem unregistered_refused_witness:
  "hw_sync_debugfs_ioctl 0xC008570B sample_platform val_answers no_args (Some (the (fst (hw_sync_debugfs_open True 7 None)))) val_world \<in>
    {Some (Some (the (fst (hw_sync_debugfs_open True 7 None))), val_world, - EINVAL),
     Some (Some (the (fst (hw_sync_debugfs_open True 7 None))), val_world, - ENOTTY)}"
  by (rule unregistered_refused) (simp_all add: hw_sync_debugfs_open_def)

text \<open>The deregistration keeps the handle, so the next use of it, a second deregistration for instance, goes through a
  pointer to freed memory.\<close>

lemma unregister_dangles:
  assumes "so_client_handle b = Some (Inr h)" and "hw_sync_ioctl_unreg_client P K u (Some b) w = Some (obj', w', 0)"
  shows "obj' = Some b" and "hw_sync_ioctl_unreg_client P K' u' obj' w' = None"
proof -
  obtain d where d: "msm_hw_fence_deregister (Some h) (tw_drv w) = Some (d, 0)" "obj' = Some b" "w' = w\<lparr>tw_drv := d\<rparr>"
    using assms by (auto simp: hw_sync_ioctl_unreg_client_def bind_eq_Some_conv)
  then have "client_objs d h = None"
    by (auto simp: msm_hw_fence_deregister_def hw_fence_cleanup_client_def bind_eq_Some_conv split: if_splits)
  then show "obj' = Some b" "hw_sync_ioctl_unreg_client P K' u' obj' w' = None"
    using d(2,3) assms(1) by (simp_all add: hw_sync_ioctl_unreg_client_def msm_hw_fence_deregister_def)
qed

section \<open>Waiting for a fence\<close>

definition msg_for :: "u64 \<Rightarrow> u64 \<Rightarrow> queue_msg \<Rightarrow> bool" where
  "msg_for context seqno m \<longleftrightarrow> qm_ctxt_id m = context \<and> qm_seqno m = seqno"

text \<open>What is left of the messages when those up to the first one for the fence are read.\<close>

definition unread :: "u64 \<Rightarrow> u64 \<Rightarrow> queue_msg list \<Rightarrow> queue_msg list" where
  "unread context seqno ms = tl (dropWhile (\<lambda>m. \<not> msg_for context seqno m) ms)"

lemma unread_simps [simp]:
  "unread context seqno [] = []"
  "unread context seqno (m # ms) = (if msg_for context seqno m then ms else unread context seqno ms)"
  by (simp_all add: unread_def)

lemma read_until_reads:
  assumes "client_objs d h = Some c" and "queue_ready n d c RXQ" and "ring_ok n (rx_ring d c)"
  shows "\<exists>q found. read_until h context seqno p d = Some (set_queue_ring False (cl_queues c ! RXQ) q d, 0, found) \<and>
    ring_ok n q \<and> ring_items n q = unread context seqno (ring_items n (rx_ring d c))"
  using assms
proof (induction "ring_items n (rx_ring d c)" arbitrary: d p)
  case Nil
  have "hw_fence_read_queue d c p RXQ = Some (d, p, 0)"
    using Nil.prems read_queue_ring [OF _ _ _ _ ring_get_empty [OF Nil.prems(3) Nil.hyps [symmetric], of p]]
    by (simp add: queue_ready_def)
  then have "\<exists>found. read_until h context seqno p d = Some (d, 0, found)"
    using Nil.prems(1) by (subst read_until.simps) auto
  then show ?case
    using Nil.hyps [symmetric] Nil.prems(3) by (intro exI [of _ "rx_ring d c"]) simp
next
  case (Cons m ms)
  obtain q where q: "ring_get (ring_size n) p (rx_ring d c) = Some (q, payload_of p m, if ms = [] then 0 else 1)"
    "ring_ok n q" "ring_items n q = ms"
    using Cons.prems(3) Cons.hyps(2) [symmetric] by (rule ring_get_ok)
  let ?d = "set_queue_ring False (cl_queues c ! RXQ) q d"
  have read: "hw_fence_read_queue d c p RXQ = Some (?d, payload_of p m, if ms = [] then 0 else 1)"
    using Cons.prems(2) by (intro read_queue_ring [OF _ _ _ _ q(1)]) (simp_all add: queue_ready_def)
  have key: "qp_ctxt_id (payload_of p m) = qm_ctxt_id m" "qp_seqno (payload_of p m) = qm_seqno m"
    by (simp_all add: payload_of_def)
  have step: "read_until h context seqno p d =
      (if msg_for context seqno m then Some (?d, 0, True) else if ms = [] then Some (?d, 0, False)
       else read_until h context seqno (payload_of p m) ?d)"
    using Cons.prems(1) read by (subst read_until.simps) (simp add: key msg_for_def)
  show ?case
  proof (cases "msg_for context seqno m \<or> ms = []")
    case True
    with step q Cons.hyps(2) [symmetric] show ?thesis by (intro exI [of _ q]) (auto split: if_splits)
  next
    case False
    have "\<exists>q' found. read_until h context seqno (payload_of p m) ?d =
        Some (set_queue_ring False (cl_queues c ! RXQ) q' ?d, 0, found) \<and>
        ring_ok n q' \<and> ring_items n q' = unread context seqno (ring_items n (rx_ring ?d c))"
      using Cons.prems q same_frame_set_queue_ring [THEN queue_ready_frame, of n False "cl_queues c ! RXQ" q d c RXQ]
      by (intro Cons.hyps(1)) simp_all
    with False step q Cons.hyps(2) [symmetric] show ?thesis by auto
  qed
qed

text \<open>The part of the wait up to the loop.\<close>

lemma fence_wait_start:
  assumes "is_valid_client P (Some b)" and "so_client_handle b = Some (Inr h)" and "ua_wait u = Some data"
    and "hw_sync_get_fence K (wt_fence data) = Some fid" and "client_objs (sa_wait K (tw_drv w)) h = Some c"
    and "dma_fences (sa_wait K (tw_drv w)) fid = Some f"
  shows "hw_sync_ioctl_fence_wait P K u (Some b) w =
    (if cl_val_signal c \<le> 0 then Some (Some b, tw_call (FencePut fid) ((tw_call (FenceGet fid) w)\<lparr>tw_drv := sa_wait K (tw_drv w)\<rparr>), - ETIMEDOUT)
     else map_option (\<lambda>(d, read, _). (Some b, tw_call (FencePut fid) ((tw_call (FenceGet fid) w)\<lparr>tw_drv := d\<rparr>), read))
       (read_until h (df_context f) (df_seqno f) (sa_payload K) (set_client h (c\<lparr>cl_val_signal := 0\<rparr>) (sa_wait K (tw_drv w)))))"
proof -
  have "tw_drv (tw_call (FenceGet fid) w) = tw_drv w" by (simp add: tw_call_def)
  then show ?thesis
    using assms by (simp add: hw_sync_ioctl_fence_wait_def Let_def set_client_def map_conv_bind_option case_prod_unfold o_def)
qed

text \<open>C38. A wait for a fence of a client whose rx queue is in order always comes back, with the reference to the fence
  given back. If the client was not signaled in time, it returns \<open>-ETIMEDOUT\<close> and leaves the queue alone. Otherwise it
  takes the signal and the messages out of the queue up to the first one for the fence, or all of them if there is
  none. It returns 0 in both cases, so that its caller cannot tell a fence that came from one that did not.\<close>

theorem fence_wait_outcome:
  assumes "is_valid_client P (Some b)" and "so_client_handle b = Some (Inr h)" and "ua_wait u = Some data"
    and "hw_sync_get_fence K (wt_fence data) = Some fid" and "client_objs (sa_wait K (tw_drv w)) h = Some c"
    and "dma_fences (sa_wait K (tw_drv w)) fid = Some f"
    and "queue_ready n (sa_wait K (tw_drv w)) c RXQ" and "ring_ok n (rx_ring (sa_wait K (tw_drv w)) c)"
  shows "\<exists>d'. hw_sync_ioctl_fence_wait P K u (Some b) w =
      Some (Some b, tw_call (FencePut fid) ((tw_call (FenceGet fid) w)\<lparr>tw_drv := d'\<rparr>),
        if cl_val_signal c \<le> 0 then - ETIMEDOUT else 0) \<and>
    ring_items n (rx_ring d' c) =
      (if cl_val_signal c \<le> 0 then ring_items n (rx_ring (sa_wait K (tw_drv w)) c)
       else unread (df_context f) (df_seqno f) (ring_items n (rx_ring (sa_wait K (tw_drv w)) c))) \<and>
    client_objs d' h = Some (if cl_val_signal c \<le> 0 then c else c\<lparr>cl_val_signal := 0\<rparr>)"
proof (cases "cl_val_signal c \<le> 0")
  case True
  then show ?thesis using fence_wait_start [OF assms(1-6)] assms(5) by (intro exI [of _ "sa_wait K (tw_drv w)"]) simp
next
  case False
  let ?c = "c\<lparr>cl_val_signal := 0\<rparr>"
  define d where "d = set_client h ?c (sa_wait K (tw_drv w))"
  have d: "client_objs d h = Some ?c" "queue_ready n d ?c RXQ" "rx_ring d ?c = rx_ring (sa_wait K (tw_drv w)) c"
    using assms(7) by (simp_all add: d_def set_client_def queue_ready_def queue_ring_def)
  obtain q found where q: "read_until h (df_context f) (df_seqno f) (sa_payload K) d =
      Some (set_queue_ring False (cl_queues c ! RXQ) q d, 0, found)"
    "ring_items n q = unread (df_context f) (df_seqno f) (ring_items n (rx_ring (sa_wait K (tw_drv w)) c))"
    using read_until_reads [OF d(1,2), of "df_context f" "df_seqno f" "sa_payload K"] d(3) assms(8) by auto
  then show ?thesis using False fence_wait_start [OF assms(1-6)] d(1)
    by (intro exI [of _ "set_queue_ring False (cl_queues c ! RXQ) q d"]) (simp flip: d_def)
qed

text \<open>The queue is empty, so the fence did not come, and the wait returns 0.\<close>

theorem fence_wait_outcome_witness:
  "\<exists>d'. hw_sync_ioctl_fence_wait sample_platform val_answers (no_args\<lparr>ua_wait := Some \<lparr>wt_fence = 11\<rparr>\<rparr>)
      (Some (new_sync_obj\<lparr>so_client_id := 8, so_client_handle := Some (Inr 5)\<rparr>)) val_world =
    Some (Some (new_sync_obj\<lparr>so_client_id := 8, so_client_handle := Some (Inr 5)\<rparr>),
      tw_call (FencePut 3) ((tw_call (FenceGet 3) val_world)\<lparr>tw_drv := d'\<rparr>), 0)"
proof -
  let ?b = "new_sync_obj\<lparr>so_client_id := 8, so_client_handle := Some (Inr 5)\<rparr>" and ?u = "no_args\<lparr>ua_wait := Some \<lparr>wt_fence = 11\<rparr>\<rparr>"
  have d: "sa_wait val_answers (tw_drv val_world) = tw_drv val_world" by (simp add: val_answers_def)
  have c: "client_objs (tw_drv val_world) 5 = Some val_client"
    "dma_fences (tw_drv val_world) 3 = Some \<lparr>df_context = 7, df_seqno = 9, df_flags = 0, df_array = None\<rparr>"
    by (simp_all add: val_world_def)
  have q: "queue_ready 2 (tw_drv val_world) val_client RXQ" "rx_ring (tw_drv val_world) val_client = (16, 16, replicate 32 0)"
    using sample_queue_ready [of 16 16]
    by (simp_all add: queue_ready_def val_world_def val_client_def queue_ring_def txq_wm_def)
  have ok: "ring_ok 2 (16, 16, replicate 32 0)" by (simp add: ring_ok_def)
  have "hw_sync_get_fence val_answers (wt_fence \<lparr>wt_fence = 11\<rparr>) = Some 3" "is_valid_client sample_platform (Some ?b)"
    "ua_wait ?u = Some \<lparr>wt_fence = 11\<rparr>" "so_client_handle ?b = Some (Inr 5)"
    by (simp_all add: hw_sync_get_fence_def val_answers_def is_valid_client_def valid_client_id_def)
  with fence_wait_outcome [of sample_platform ?b 5 ?u "\<lparr>wt_fence = 11\<rparr>" val_answers 3 val_world, unfolded d, OF _ _ _ _ c q(1)] q(2) ok
  show ?thesis by (auto simp: val_client_def)
qed

section \<open>References\<close>

text \<open>The references to a new fence \<open>fid\<close> after some calls: one from \<open>dma_fence_init\<close>, one for each sync file, which is given
  back when the file is closed.\<close>

definition fence_refs :: "nat \<Rightarrow> nat \<Rightarrow> kcall list \<Rightarrow> int" where
  "fence_refs file fid ks = 1 + int (count_list ks (SyncFileCreate file fid)) - int (count_list ks (FencePut fid))
     - int (count_list ks (Fput file))"

text \<open>The calls that make the file of a fence.\<close>

definition file_calls :: "sync_answers \<Rightarrow> nat \<Rightarrow> kcall list" where
  "file_calls K fid =
     (if sa_fd K < 0 then [FencePut fid]
      else case sa_file K of
        None \<Rightarrow> [FencePut fid, PutUnusedFd (sa_fd K)]
      | Some file \<Rightarrow> [SyncFileCreate file fid, FencePut fid] @
          (if sa_copy K then [FdInstall (sa_fd K) file] else [FencePut fid, Fput file, PutUnusedFd (sa_fd K)]))"

definition file_error :: "sync_answers \<Rightarrow> int" where
  "file_error K = (if sa_fd K < 0 then sa_fd K else if sa_file K = None then - EINVAL else if sa_copy K then 0 else - EFAULT)"

lemma create_fence_file_calls:
  "tw_calls (fst (create_fence_file K data fid hash w)) = tw_calls w @ file_calls K fid"
  "tw_drv (fst (create_fence_file K data fid hash w)) = tw_drv w"
  "tw_handles (fst (create_fence_file K data fid hash w)) = tw_handles w"
  "snd (create_fence_file K data fid hash w) = file_error K"
  "sw_replies (fst (create_fence_file K data fid hash w)) = sw_replies w @
     (if file_error K = 0 then [CreateReply (data\<lparr>cr_fence := sa_fd K, cr_hash := hash\<rparr>)] else [])"
  by (simp_all add: create_fence_file_def file_calls_def file_error_def tw_call_def reply_def Let_def split: option.split)

text \<open>The whole handler, once it is known what the creation of the hw-fence does.\<close>

lemma create_fence_result:
  assumes "is_valid_client P (Some b)" and "so_client_handle b = Some (Inr h)" and "ua_create u = Some data"
    and "sa_fence K = Some fid"
    and "msm_hw_fence_create P (Some h) (Some fid) (Some (sa_hash K)) (tw_drv (init_fence fid (so_context b) (cr_seqno data) w)) =
      Some (d, Some hash, ret)"
  shows "\<exists>b' w'. hw_sync_ioctl_create_fence P K u (Some b) w =
      Some (Some b', w', if ret \<noteq> 0 then - EINVAL else file_error K) \<and>
    tw_drv w' = d \<and> tw_handles w' = (tw_handles w)(fid := if ret \<noteq> 0 then None else Some h) \<and>
    tw_calls w' = tw_calls w @ (if ret \<noteq> 0 then [FencePut fid] else file_calls K fid) \<and>
    sw_replies w' = sw_replies w @ (if ret = 0 \<and> file_error K = 0
      then [CreateReply (data\<lparr>cr_fence := sa_fd K, cr_hash := hash\<rparr>)] else [])"
proof (cases "ret = 0")
  case False
  then show ?thesis using assms by (simp add: hw_sync_ioctl_create_fence_def Let_def init_fence_def tw_call_def)
next
  case True
  define w1 where "w1 = (init_fence fid (so_context b) (cr_seqno data) w)\<lparr>tw_drv := d\<rparr>"
  define w2 where "w2 = w1\<lparr>tw_handles := (tw_handles w1)(fid \<mapsto> h)\<rparr>"
  define b' where "b' = (if cr_incr_context data then b\<lparr>so_context := sa_context K\<rparr> else b)"
  have "hw_sync_ioctl_create_fence P K u (Some b) w =
      Some (Some b', fst (create_fence_file K data fid hash w2), snd (create_fence_file K data fid hash w2))"
    using assms True by (simp add: hw_sync_ioctl_create_fence_def Let_def b'_def w2_def w1_def case_prod_unfold)
  moreover have "tw_drv w2 = d" "tw_handles w2 = (tw_handles w)(fid := Some h)" "tw_calls w2 = tw_calls w" "sw_replies w2 = sw_replies w"
    by (simp_all add: w2_def w1_def init_fence_def)
  ultimately show ?thesis using True by (simp add: create_fence_file_calls)
qed

text \<open>C39. The references to a fence that the ioctl makes are right on every path but one. When it returns 0, exactly one is
  left, the one of the file that was installed under the descriptor; when it fails to make the hw-fence, a
  descriptor or a file, none is left. But when the reply cannot be copied to the user, the reference of the file
  is given back twice: one reference too many is dropped.\<close>

theorem create_fence_references:
  assumes "is_valid_client P (Some b)" and "so_client_handle b = Some (Inr h)" and "ua_create u = Some data"
    and "sa_fence K = Some fid" and "sa_fd K \<noteq> - EFAULT" and "\<forall>x. sa_file K = Some x \<longrightarrow> x = file"
    and "hw_sync_ioctl_create_fence P K u (Some b) w = Some (obj', w', ret)"
  shows "\<exists>ks. tw_calls w' = tw_calls w @ ks \<and>
    fence_refs file fid ks = (if ret = 0 then 1 else if ret = - EFAULT then - 1 else 0) \<and>
    (ret = 0 \<longleftrightarrow> FdInstall (sa_fd K) file \<in> set ks)"
proof -
  obtain d hash r where c: "msm_hw_fence_create P (Some h) (Some fid) (Some (sa_hash K))
      (tw_drv (init_fence fid (so_context b) (cr_seqno data) w)) = Some (d, Some hash, r)"
  proof -
    obtain x where x: "msm_hw_fence_create P (Some h) (Some fid) (Some (sa_hash K))
        (tw_drv (init_fence fid (so_context b) (cr_seqno data) w)) = Some x"
      using assms by (cases "msm_hw_fence_create P (Some h) (Some fid) (Some (sa_hash K))
        (tw_drv (init_fence fid (so_context b) (cr_seqno data) w))") (simp_all add: hw_sync_ioctl_create_fence_def Let_def)
    then obtain hash where "fst (snd x) = Some hash"
      by (auto simp: msm_hw_fence_create_def bind_eq_Some_conv split: if_splits)
    then show thesis using x that by (metis prod.collapse)
  qed
  let ?ks = "if r \<noteq> 0 then [FencePut fid] else file_calls K fid"
  have w': "tw_calls w' = tw_calls w @ ?ks" "ret = (if r \<noteq> 0 then - EINVAL else file_error K)"
    using create_fence_result [OF assms(1-4) c] assms(7) by auto
  have "fence_refs file fid ?ks = (if ret = 0 then 1 else if ret = - EFAULT then - 1 else 0) \<and>
      (ret = 0 \<longleftrightarrow> FdInstall (sa_fd K) file \<in> set ?ks)"
    using assms(5,6) by (simp add: w'(2) file_calls_def file_error_def fence_refs_def split: option.split)
  then show ?thesis using w'(1) by blast
qed

definition lifecycle_world :: sync_world where
  "lifecycle_world = \<lparr>tw_drv = api_sample, tw_handles = Map.empty, tw_calls = [], sw_replies = []\<rparr>"

definition lifecycle_args :: user_args where
  "lifecycle_args = no_args\<lparr>ua_create := Some \<lparr>cr_seqno = 9, cr_incr_context = False, cr_fence = 0, cr_hash = 0\<rparr>\<rparr>"

definition lifecycle_obj :: hw_sync_obj where
  "lifecycle_obj = new_sync_obj\<lparr>so_client_id := 8, so_client_handle := Some (Inr 0)\<rparr>"

text \<open>C40. A fence made through the ioctl is a hw-fence for exactly as long as the kernel keeps the fence: once created, with
  or without a descriptor, it is in the fence table under the context of the file and the sequence number of the
  user, it carries the handle of the client, and a reply to the user holds its index. When the last reference
  is dropped, the release takes it out again: the fence table, its free entries and the fences of the kernel are
  as they were before the ioctl.\<close>

theorem ioctl_fence_lifecycle:
  assumes "is_valid_client P (Some b)" and "so_client_handle b = Some (Inr h)" and "ua_create u = Some data"
    and "sa_fence K = Some fid" and new: "dma_fences (tw_drv w) fid = None"
    and inv: "table_inv (tw_drv w)" and ready: "vm_ready (tw_drv w)" and c: "client_objs (tw_drv w) h = Some c"
    and e: "flag_enabled_bit P < 64" and k: "(so_context b, cr_seqno data) \<noteq> (0, 0)"
      "fence_map (tw_drv w) (so_context b, cr_seqno data) = None" and room: "0 < free_slots (tw_drv w)"
  shows "\<exists>b' w' i. hw_sync_ioctl_create_fence P K u (Some b) w = Some (Some b', w', file_error K) \<and>
    fence_map (tw_drv w') = (fence_map (tw_drv w))((so_context b, cr_seqno data) \<mapsto>
      new_fence (qtime (tw_drv w)) (cl_client_id c) (so_context b, cr_seqno data) 0) \<and>
    tw_handles w' fid = Some h \<and>
    (file_error K = 0 \<longrightarrow> last (sw_replies w') = CreateReply (data\<lparr>cr_fence := sa_fd K, cr_hash := of_nat i\<rparr>)) \<and>
    (\<exists>w''. hw_fence_dbg_release P (Some fid) w' = Some w'' \<and> fence_map (tw_drv w'') = fence_map (tw_drv w) \<and>
       table_inv (tw_drv w'') \<and> free_slots (tw_drv w'') = free_slots (tw_drv w) \<and> dma_fences (tw_drv w'') = dma_fences (tw_drv w))"
proof -
  define d0 where "d0 = tw_drv (init_fence fid (so_context b) (cr_seqno data) w)"
  define f where "f = \<lparr>df_context = so_context b, df_seqno = cr_seqno data, df_flags = 0, df_array = None\<rparr>"
  have d0: "table_inv d0" "fence_map d0 = fence_map (tw_drv w)" "free_slots d0 = free_slots (tw_drv w)" "vm_ready d0"
    "client_objs d0 h = Some c" "dma_fences d0 fid = Some f" "dma_fences d0 = (dma_fences (tw_drv w))(fid \<mapsto> f)" "qtime d0 = qtime (tw_drv w)"
    using inv ready c by (simp_all add: d0_def init_fence_def fence_flag_kept f_def)
  have f: "df_array f = None" "\<not> bit (df_flags f) (flag_enabled_bit P)" "(df_context f, df_seqno f) \<noteq> (0, 0)"
    "fence_map d0 (df_context f, df_seqno f) = None" "0 < free_slots d0"
    using k room d0 by (simp_all add: f_def)
  obtain d1 i f1 d2 where c1: "msm_hw_fence_create P (Some h) (Some fid) (Some (sa_hash K)) d0 = Some (d1, Some (of_nat i), 0)"
    and m1: "fence_map d1 = (fence_map d0)((df_context f, df_seqno f) \<mapsto>
      new_fence (qtime d0) (cl_client_id c) (df_context f, df_seqno f) 0)"
    and f1: "dma_fences d1 = (dma_fences d0)(fid \<mapsto> f1)" "bit (df_flags f1) (flag_enabled_bit P)"
    and c2: "msm_hw_fence_destroy P (Some h) (Some fid) d1 = Some (d2, 0)" "table_inv d2" "fence_map d2 = fence_map d0"
      "free_slots d2 = free_slots d0" "dma_fences d2 = dma_fences d0"
    using api_create_destroy [OF d0(1,4,5,6) f(1,2) e f(3,4,5), of "sa_hash K"] by blast
  obtain b' w' where w': "hw_sync_ioctl_create_fence P K u (Some b) w = Some (Some b', w', file_error K)"
    "tw_drv w' = d1" "tw_handles w' fid = Some h"
    "sw_replies w' = sw_replies w @ (if file_error K = 0 then [CreateReply (data\<lparr>cr_fence := sa_fd K, cr_hash := of_nat i\<rparr>)] else [])"
    using create_fence_result [OF assms(1-4) c1 [unfolded d0_def]] by (auto simp del: create_fence_file_calls)
  define w'' where "w'' = w'\<lparr>tw_drv := d2\<lparr>dma_fences := (dma_fences d2)(fid := None)\<rparr>, tw_handles := (tw_handles w')(fid := None)\<rparr>"
  have "hw_fence_release P fid w' = Some (w'\<lparr>tw_drv := d2\<rparr>)"
    using w'(2,3) c2(1) by (simp add: hw_fence_release_def)
  then have "hw_fence_dbg_release P (Some fid) w' = Some w''"
    using w'(2) f1 by (simp add: hw_fence_dbg_release_def w''_def)
  moreover have "dma_fences (tw_drv w'') = dma_fences (tw_drv w)" using new by (simp add: w''_def c2(5) d0(7) fun_upd_idem)
  moreover have "fence_map (tw_drv w'') = fence_map (tw_drv w)" "table_inv (tw_drv w'')" "free_slots (tw_drv w'') = free_slots (tw_drv w)"
    using c2 d0 by (simp_all add: w''_def fence_flag_kept)
  ultimately show ?thesis using w' m1 d0(2,8)
    by (intro exI [of _ b'] exI [of _ w'] exI [of _ i]) (simp add: f_def)
qed

lemma lifecycle_sample:
  "table_inv (tw_drv lifecycle_world)" "fence_map (tw_drv lifecycle_world) = Map.empty" "0 < free_slots (tw_drv lifecycle_world)"
  "vm_ready (tw_drv lifecycle_world)" "client_objs (tw_drv lifecycle_world) 0 = Some zero_client"
  "dma_fences (tw_drv lifecycle_world) 4 = None"
  "is_valid_client sample_platform (Some lifecycle_obj)" "so_client_handle lifecycle_obj = Some (Inr 0)"
  "ua_create lifecycle_args = Some \<lparr>cr_seqno = 9, cr_incr_context = False, cr_fence = 0, cr_hash = 0\<rparr>" "so_context lifecycle_obj = 7"
proof -
  note t = table_inv_fields [of api_sample "table_of (replicate 4 zero_fence)"]
  show "table_inv (tw_drv lifecycle_world)" "fence_map (tw_drv lifecycle_world) = Map.empty" "0 < free_slots (tw_drv lifecycle_world)"
    using t table_of_empty by (simp_all add: lifecycle_world_def api_sample_def)
qed (simp_all add: lifecycle_world_def api_sample_def lifecycle_obj_def new_sync_obj_def is_valid_client_def valid_client_id_def
    lifecycle_args_def no_args_def)

text \<open>The copy of the reply fails, and the fence has one reference less than none.\<close>

theorem create_fence_references_witness:
  "\<exists>b' w'. hw_sync_ioctl_create_fence sample_platform (val_answers\<lparr>sa_copy := False\<rparr>) lifecycle_args (Some lifecycle_obj) lifecycle_world =
      Some (b', w', - EFAULT) \<and> fence_refs 20 4 (tw_calls w') = - 1"
proof -
  let ?K = "val_answers\<lparr>sa_copy := False\<rparr>" and ?w = "lifecycle_world"
  have K: "sa_fence ?K = Some 4" "file_error ?K = - EFAULT" "sa_fd ?K \<noteq> - EFAULT" "\<forall>x. sa_file ?K = Some x \<longrightarrow> x = 20"
    by (simp_all add: val_answers_def file_error_def)
  define d0 where "d0 = tw_drv (init_fence 4 7 9 ?w)"
  have "\<exists>d1 i. msm_hw_fence_create sample_platform (Some 0) (Some 4) (Some (sa_hash ?K)) d0 = Some (d1, Some (of_nat i), 0)"
    using api_create_destroy [of d0 0 zero_client 4 "\<lparr>df_context = 7, df_seqno = 9, df_flags = 0, df_array = None\<rparr>" sample_platform]
      lifecycle_sample by (simp add: d0_def init_fence_def fence_flag_kept) blast
  then obtain b' w' where "hw_sync_ioctl_create_fence sample_platform ?K lifecycle_args (Some lifecycle_obj) ?w = Some (Some b', w', - EFAULT)"
    using create_fence_result [OF lifecycle_sample(7-9) K(1), of ?w] lifecycle_sample(10) K(2) d0_def by fastforce
  moreover have "tw_calls ?w = []" by (simp add: lifecycle_world_def)
  ultimately show ?thesis using create_fence_references [OF lifecycle_sample(7-9) K(1,3,4), of ?w "Some b'" w' "- EFAULT"] by auto
qed

theorem ioctl_fence_lifecycle_witness:
  "\<exists>b' w' w''. hw_sync_ioctl_create_fence sample_platform val_answers lifecycle_args (Some lifecycle_obj) lifecycle_world =
      Some (Some b', w', 0) \<and> fence_map (tw_drv w') (7, 9) \<noteq> None \<and>
    hw_fence_dbg_release sample_platform (Some 4) w' = Some w'' \<and> fence_map (tw_drv w'') = Map.empty"
proof -
  have K: "sa_fence val_answers = Some 4" "file_error val_answers = 0" by (simp_all add: val_answers_def file_error_def)
  show ?thesis
    using ioctl_fence_lifecycle [OF lifecycle_sample(7-9) K(1) lifecycle_sample(6,1,4,5), unfolded K(2) lifecycle_sample(2,10)]
      lifecycle_sample(3) by (simp, elim exE conjE) (intro exI conjI, assumption, simp, assumption+)
qed

text \<open>When a descriptor of an array does not lead to a fence, the references to the fences found before it are mixed up:
  the last of them is put as often as there are fences, and the others keep their reference.\<close>

lemma get_children_missing:
  assumes "\<forall>x\<in>set xs. 0 < sint (ucast x :: u32)" and "0 < sint (ucast y :: u32)"
    and "map (\<lambda>x. hw_sync_get_fence K (sint (ucast x :: u32))) xs = map Some fs" and "hw_sync_get_fence K (sint (ucast y :: u32)) = None"
  shows "get_child_fences K (xs @ y # ys) gs w =
    map_option (\<lambda>w. (w, gs @ fs, False)) (put_child_fences (int (length (gs @ fs)) - 1) (gs @ fs)
      (w\<lparr>tw_calls := tw_calls w @ map FenceGet fs\<rparr>))"
  using assms
proof (induction xs arbitrary: gs fs w)
  case Nil
  then show ?case by (simp add: map_conv_bind_option o_def)
next
  case (Cons x xs)
  then obtain f fs' where fs: "fs = f # fs'" "hw_sync_get_fence K (sint (ucast x :: u32)) = Some f"
    "map (\<lambda>x. hw_sync_get_fence K (sint (ucast x :: u32))) xs = map Some fs'" by (cases fs) auto
  with Cons.prems Cons.IH [of fs' "gs @ [f]" "tw_call (FenceGet f) w"] show ?case by (simp add: tw_call_def)
qed

lemma children_references:
  assumes "\<forall>x\<in>set xs. 0 < sint (ucast x :: u32)" and "0 < sint (ucast y :: u32)"
    and "map (\<lambda>x. hw_sync_get_fence K (sint (ucast x :: u32))) xs = map Some (fs @ [f])"
    and "hw_sync_get_fence K (sint (ucast y :: u32)) = None"
  shows "\<exists>w'. get_child_fences K (xs @ y # ys) [] w = Some (w', fs @ [f], False) \<and>
    tw_calls w' = tw_calls w @ map FenceGet (fs @ [f]) @ replicate (Suc (length fs)) (FencePut f)"
proof -
  have "nat (int (length fs)) = length fs" by simp
  then show ?thesis
    using get_children_missing [OF assms, of ys "[]" w]
    by (simp add: put_child_fences_def fetch_def nth_append nat_add_distrib)
qed

end
