(* ===== verification/ExtDisplay.thy ===== *)
theory ExtDisplay
  imports HwfInterfaces
begin

text \<open>
  The external-display driver \<open>msm_ext_display.c\<close>: it connects display interfaces (DisplayPort, HDMI) with the
  audio codec. \<open>ext_disp\<close> is \<open>struct msm_ext_disp\<close> with the memory its pointers lead to: interface data is
  owned by the interfaces and addressed by number in \<open>ed_intfs\<close>. Constants of kernel headers
  are in a record \<open>disp_consts\<close>; the extcon devices of the kernel are a state of any type with the
  functions that read and set it, and calls of an interface's \<open>ready\<close> operation are a log. A function that
  accesses memory out of bounds or through a bad pointer is \<open>None\<close>. The mutex is left out.
\<close>

section \<open>Data\<close>

record disp_consts =
  TYPE_MAX :: u32
  MAX_CODECS :: int
  CABLE_DISCONNECT :: int
  CABLE_CONNECT :: int
  CABLE_STATE_MAX :: int

record codec_id =
  ci_type :: u32
  ci_ctrl_id :: int
  ci_stream_id :: int

text \<open>Function pointers, 0 being NULL.\<close>

record audio_codec_ops =
  op_audio_info_setup :: u64
  op_get_audio_edid_blk :: u64
  op_cable_status :: u64
  op_get_intf_id :: u64
  op_teardown_done :: u64
  op_acknowledge :: u64
  op_ready :: u64

definition zero_ops :: audio_codec_ops where
  "zero_ops = \<lparr>op_audio_info_setup = 0, op_get_audio_edid_blk = 0, op_cable_status = 0, op_get_intf_id = 0,
     op_teardown_done = 0, op_acknowledge = 0, op_ready = 0\<rparr>"

text \<open>\<open>struct msm_ext_disp_init_data\<close>; \<open>in_audio_config\<close> and \<open>in_audio_notify\<close> say whether the two pointers of
  \<open>intf_ops\<close> lead to the functions of this driver.\<close>

record init_data =
  in_pdev :: u64
  in_codec :: codec_id
  in_codec_ops :: audio_codec_ops
  in_intf_data :: u64
  in_audio_config :: bool
  in_audio_notify :: bool

text \<open>The functions of the kernel on extcon devices: \<open>extcon_get_state\<close> and \<open>extcon_set_state_sync\<close>.\<close>

record 'e extcon =
  xc_get :: "'e \<Rightarrow> nat \<Rightarrow> u32 \<Rightarrow> int"
  xc_set :: "'e \<Rightarrow> nat \<Rightarrow> u32 \<Rightarrow> bool \<Rightarrow> 'e \<times> int"

text \<open>\<open>ed_ops\<close> is \<open>None\<close> while no codec is registered, otherwise the contents of the codec's structure.\<close>

record 'e ext_disp =
  ed_intf_pdev :: u64
  ed_intf_data :: u64
  ed_current_codec :: codec_id
  ed_ops :: "audio_codec_ops option"
  ed_audio_sdev :: "nat list"
  ed_display_list :: "nat list"
  ed_update_audio :: bool
  ed_intfs :: "nat \<Rightarrow> init_data option"
  ed_extcon :: 'e
  ed_ready_calls :: "u64 list"

section \<open>The code\<close>

text \<open>The driver looks for the first interface of the list with a codec id; \<open>None\<close> is a list entry whose
  interface data is gone.\<close>

fun find_intf :: "(nat \<Rightarrow> init_data option) \<Rightarrow> codec_id \<Rightarrow> nat list \<Rightarrow> nat option option" where
  "find_intf intfs codec [] = Some None"
| "find_intf intfs codec (a # as) = do {
     data \<leftarrow> intfs a;
     if in_codec data = codec then Some (Some a) else find_intf intfs codec as
   }"

definition msm_ext_disp_get_intf_data :: "'e ext_disp \<Rightarrow> codec_id option \<Rightarrow> (int \<times> nat option) option" where
  "msm_ext_disp_get_intf_data d codec = (case codec of
       None \<Rightarrow> Some (- EINVAL, None)
     | Some codec \<Rightarrow> do {
         data \<leftarrow> find_intf (ed_intfs d) codec (ed_display_list d);
         Some (if data = None then - ENODEV else 0, data)
       })"

text \<open>\<open>alloc\<close> says whether the allocation of the list node succeeds; new nodes go to the front.\<close>

definition msm_ext_disp_add_intf_data :: "bool \<Rightarrow> 'e ext_disp \<Rightarrow> nat option \<Rightarrow> 'e ext_disp \<times> int" where
  "msm_ext_disp_add_intf_data alloc d data = (case data of
       None \<Rightarrow> (d, - EINVAL)
     | Some a \<Rightarrow>
         if \<not> alloc then (d, - ENOMEM)
         else (d\<lparr>ed_display_list := a # ed_display_list d\<rparr>, 0))"

definition msm_ext_disp_remove_intf_data :: "'e ext_disp \<Rightarrow> nat option \<Rightarrow> 'e ext_disp \<times> int" where
  "msm_ext_disp_remove_intf_data d data = (case data of
       None \<Rightarrow> (d, - EINVAL)
     | Some a \<Rightarrow> (d\<lparr>ed_display_list := remove1 a (ed_display_list d)\<rparr>, 0))"

definition msm_ext_disp_process_audio ::
  "'e extcon \<Rightarrow> 'e ext_disp \<Rightarrow> codec_id \<Rightarrow> int \<Rightarrow> ('e ext_disp \<times> int) option" where
  "msm_ext_disp_process_audio X d codec new_state =
     (if ed_ops d = None then Some (d, - EPERM)
      else if ci_stream_id codec < 0 then None
      else do {
        audio_sdev \<leftarrow> fetch (ed_audio_sdev d) (nat (ci_stream_id codec));
        let state = xc_get X (ed_extcon d) audio_sdev (ci_type codec);
        if state = of_bool (new_state \<noteq> 0) then Some (d, - EEXIST)
        else case xc_set X (ed_extcon d) audio_sdev (ci_type codec) (new_state \<noteq> 0) of
          (e, ret) \<Rightarrow> Some (d\<lparr>ed_extcon := e\<rparr>, ret)
      })"

text \<open>\<open>drvdata\<close> is the driver data of the platform device \<open>pdev\<close>, \<open>None\<close> for NULL.\<close>

definition msm_ext_disp_validate_and_get ::
  "disp_consts \<Rightarrow> bool \<Rightarrow> codec_id option \<Rightarrow> int \<Rightarrow> 'e ext_disp option \<Rightarrow> int + 'e ext_disp" where
  "msm_ext_disp_validate_and_get C pdev codec state drvdata =
     (if \<not> pdev then Inl (- EINVAL)
      else case codec of None \<Rightarrow> Inl (- EINVAL)
      | Some codec \<Rightarrow>
          if TYPE_MAX C \<le> ci_type codec \<or> ci_ctrl_id codec \<noteq> 0 \<or> MAX_CODECS C \<le> ci_stream_id codec then Inl (- EINVAL)
          else if state < CABLE_DISCONNECT C \<or> CABLE_STATE_MAX C \<le> state then Inl (- EINVAL)
          else (case drvdata of None \<Rightarrow> Inl (- EINVAL) | Some d \<Rightarrow> Inr d))"

definition msm_ext_disp_update_audio_ops :: "'e ext_disp \<Rightarrow> codec_id \<Rightarrow> ('e ext_disp \<times> int) option" where
  "msm_ext_disp_update_audio_ops d codec = do {
     (ret, data) \<leftarrow> msm_ext_disp_get_intf_data d (Some codec);
     case data of
       None \<Rightarrow> Some (d, ret)
     | Some a \<Rightarrow>
         if ret \<noteq> 0 then Some (d, ret)
         else if ed_ops d \<noteq> None then do {
           data \<leftarrow> ed_intfs d a;
           Some (d\<lparr>ed_ops := Some (in_codec_ops data), ed_current_codec := codec, ed_intf_pdev := in_pdev data,
             ed_intf_data := in_intf_data data\<rparr>, ret)
         } else Some (d, ret)
   }"

definition msm_ext_disp_select_audio_codec ::
  "bool \<Rightarrow> codec_id option \<Rightarrow> 'e ext_disp option \<Rightarrow> ('e ext_disp option \<times> int) option" where
  "msm_ext_disp_select_audio_codec pdev codec drvdata =
     (if \<not> pdev then Some (drvdata, - EINVAL)
      else case (codec, drvdata) of
        (Some codec, Some d) \<Rightarrow>
          if ed_ops d = None
          then Some (Some (d\<lparr>ed_update_audio := True, ed_current_codec := codec\<rparr>), - EINVAL)
          else map_option (\<lambda>(d, ret). (Some d, ret)) (msm_ext_disp_update_audio_ops d codec)
      | _ \<Rightarrow> Some (drvdata, - EINVAL))"

definition msm_ext_disp_audio_config ::
  "disp_consts \<Rightarrow> bool \<Rightarrow> codec_id option \<Rightarrow> int \<Rightarrow> 'e ext_disp option \<Rightarrow> ('e ext_disp option \<times> int) option" where
  "msm_ext_disp_audio_config C pdev codec state drvdata =
     (case msm_ext_disp_validate_and_get C pdev codec state drvdata of
        Inl ret \<Rightarrow> Some (drvdata, ret)
      | Inr d \<Rightarrow>
          if state = CABLE_CONNECT C then msm_ext_disp_select_audio_codec pdev codec drvdata
          else Some (Some (d\<lparr>ed_ops := map_option (\<lambda>_. zero_ops) (ed_ops d),
            ed_current_codec := (ed_current_codec d)\<lparr>ci_type := TYPE_MAX C\<rparr>\<rparr>), 0))"

definition msm_ext_disp_audio_notify ::
  "disp_consts \<Rightarrow> 'e extcon \<Rightarrow> bool \<Rightarrow> codec_id option \<Rightarrow> int \<Rightarrow> 'e ext_disp option
    \<Rightarrow> ('e ext_disp option \<times> int) option" where
  "msm_ext_disp_audio_notify C X pdev codec state drvdata =
     (case msm_ext_disp_validate_and_get C pdev codec state drvdata of
        Inl ret \<Rightarrow> Some (drvdata, ret)
      | Inr d \<Rightarrow> do {
          codec \<leftarrow> codec;
          (d, ret) \<leftarrow> msm_ext_disp_process_audio X d codec state;
          Some (Some d, ret)
        })"

text \<open>A call through the \<open>ready\<close> pointer of an interface enters the log; a NULL pointer cannot be called.\<close>

definition msm_ext_disp_ready_for_display :: "'e ext_disp \<Rightarrow> 'e ext_disp option" where
  "msm_ext_disp_ready_for_display d = do {
     (ret, data) \<leftarrow> msm_ext_disp_get_intf_data d (Some (ed_current_codec d));
     if ret \<noteq> 0 then Some d
     else do {
       a \<leftarrow> data;
       data \<leftarrow> ed_intfs d a;
       if ed_ops d = None \<or> op_ready (in_codec_ops data) = 0 then None
       else Some (d\<lparr>ed_ops := Some (in_codec_ops data), ed_ready_calls := ed_ready_calls d @ [op_ready (in_codec_ops data)]\<rparr>)
     }
   }"

text \<open>\<open>ops\<close> is the contents of the structure that the codec passes, \<open>None\<close> for a NULL pointer.\<close>

definition msm_ext_disp_register_audio_codec ::
  "disp_consts \<Rightarrow> 'e extcon \<Rightarrow> bool \<Rightarrow> audio_codec_ops option \<Rightarrow> 'e ext_disp option
    \<Rightarrow> ('e ext_disp option \<times> int) option" where
  "msm_ext_disp_register_audio_codec C X pdev ops drvdata =
     (if \<not> pdev then Some (drvdata, - EINVAL)
      else case (ops, drvdata) of
        (Some ops, Some d) \<Rightarrow> do {
          (d, ret) \<leftarrow> (if ed_ops d \<noteq> None then Some (d, - EINVAL)
            else do {
              let d = d\<lparr>ed_ops := Some ops\<rparr>;
              if ed_update_audio d then do {
                let d = d\<lparr>ed_update_audio := False\<rparr>;
                (d, _) \<leftarrow> msm_ext_disp_update_audio_ops d (ed_current_codec d);
                (d, _) \<leftarrow> msm_ext_disp_process_audio X d (ed_current_codec d) (CABLE_CONNECT C);
                Some (d, 0)
              } else Some (d, 0)
            });
          d \<leftarrow> (if ci_type (ed_current_codec d) \<noteq> TYPE_MAX C then msm_ext_disp_ready_for_display d else Some d);
          Some (Some d, ret)
        }
      | _ \<Rightarrow> Some (drvdata, - EINVAL))"

definition msm_hdmi_register_audio_codec ::
  "disp_consts \<Rightarrow> 'e extcon \<Rightarrow> bool \<Rightarrow> audio_codec_ops option \<Rightarrow> 'e ext_disp option
    \<Rightarrow> ('e ext_disp option \<times> int) option" where
  "msm_hdmi_register_audio_codec = msm_ext_disp_register_audio_codec"

definition msm_ext_disp_validate_intf :: "disp_consts \<Rightarrow> init_data option \<Rightarrow> int" where
  "msm_ext_disp_validate_intf C init_data = (case init_data of
       None \<Rightarrow> - EINVAL
     | Some i \<Rightarrow>
         if in_pdev i = 0 then - EINVAL
         else if TYPE_MAX C \<le> ci_type (in_codec i) \<or> ci_ctrl_id (in_codec i) \<noteq> 0 \<or> MAX_CODECS C \<le> ci_stream_id (in_codec i)
         then - EINVAL
         else if op_audio_info_setup (in_codec_ops i) = 0 \<or> op_get_audio_edid_blk (in_codec_ops i) = 0 \<or>
           op_cable_status (in_codec_ops i) = 0 \<or> op_get_intf_id (in_codec_ops i) = 0 \<or>
           op_teardown_done (in_codec_ops i) = 0 \<or> op_acknowledge (in_codec_ops i) = 0 \<or> op_ready (in_codec_ops i) = 0
         then - EINVAL else 0)"

definition msm_ext_disp_register_intf ::
  "disp_consts \<Rightarrow> bool \<Rightarrow> bool \<Rightarrow> nat option \<Rightarrow> 'e ext_disp option \<Rightarrow> ('e ext_disp option \<times> int) option" where
  "msm_ext_disp_register_intf C alloc pdev init_data drvdata =
     (if \<not> pdev then Some (drvdata, - EINVAL)
      else case (init_data, drvdata) of
        (Some a, Some d) \<Rightarrow> do {
          i \<leftarrow> ed_intfs d a;
          let ret = msm_ext_disp_validate_intf C (Some i);
          if ret \<noteq> 0 then Some (drvdata, ret)
          else do {
            (ret, _) \<leftarrow> msm_ext_disp_get_intf_data d (Some (in_codec i));
            if ret = 0 then Some (drvdata, ret)
            else case msm_ext_disp_add_intf_data alloc d (Some a) of (d, ret) \<Rightarrow>
              if ret \<noteq> 0 then Some (Some d, ret)
              else Some (Some (d\<lparr>ed_intfs := (ed_intfs d)(a \<mapsto> i\<lparr>in_audio_config := True, in_audio_notify := True\<rparr>)\<rparr>), ret)
          }
        }
      | _ \<Rightarrow> Some (drvdata, - EINVAL))"

definition msm_ext_disp_deregister_intf ::
  "bool \<Rightarrow> nat option \<Rightarrow> 'e ext_disp option \<Rightarrow> ('e ext_disp option \<times> int) option" where
  "msm_ext_disp_deregister_intf pdev init_data drvdata =
     (if \<not> pdev then Some (drvdata, - EINVAL)
      else case (init_data, drvdata) of
        (Some a, Some d) \<Rightarrow> (case msm_ext_disp_remove_intf_data d (Some a) of (d, ret) \<Rightarrow>
          if ret \<noteq> 0 then Some (Some d, ret)
          else do {
            i \<leftarrow> ed_intfs d a;
            Some (Some (d\<lparr>ed_intfs := (ed_intfs d)(a \<mapsto> i\<lparr>in_audio_config := False, in_audio_notify := False\<rparr>)\<rparr>), ret)
          })
      | _ \<Rightarrow> Some (drvdata, - EINVAL))"

subsection \<open>Probing\<close>

text \<open>\<open>alloc\<close> and \<open>reg\<close> are what the kernel returns for the extcon device of a codec: an error pointer or
  the device, and the result of its registration.\<close>

definition msm_ext_disp_extcon_register ::
  "disp_consts \<Rightarrow> (int \<Rightarrow> int + nat) \<Rightarrow> (int \<Rightarrow> int) \<Rightarrow> nat list \<Rightarrow> int \<Rightarrow> nat list \<times> int" where
  "msm_ext_disp_extcon_register C alloc reg sdevs n =
     (if MAX_CODECS C \<le> n then (sdevs, - EINVAL)
      else case alloc n of
        Inl e \<Rightarrow> (sdevs, e)
      | Inr s \<Rightarrow> (sdevs @ [s], if reg n \<noteq> 0 then reg n else 0))"

text \<open>The loop over the codecs; the devices are stored in order.\<close>

fun register_sdevs ::
  "disp_consts \<Rightarrow> (int \<Rightarrow> int + nat) \<Rightarrow> (int \<Rightarrow> int) \<Rightarrow> int list \<Rightarrow> nat list \<Rightarrow> nat list \<times> int" where
  "register_sdevs C alloc reg [] sdevs = (sdevs, 0)"
| "register_sdevs C alloc reg (n # ns) sdevs =
     (case msm_ext_disp_extcon_register C alloc reg sdevs n of (sdevs, ret) \<Rightarrow>
        if ret \<noteq> 0 then (sdevs, ret) else register_sdevs C alloc reg ns sdevs)"

text \<open>Unregistering: the result is the slot that is handed to the kernel, \<open>None\<close> where it holds no device (a NULL or an
  error pointer).\<close>

definition msm_ext_disp_extcon_unregister :: "disp_consts \<Rightarrow> nat list \<Rightarrow> int \<Rightarrow> nat option list" where
  "msm_ext_disp_extcon_unregister C sdevs n =
     (if MAX_CODECS C \<le> n then [] else if nat n < length sdevs then [Some (sdevs ! nat n)] else [None])"

definition unregister_sdevs :: "disp_consts \<Rightarrow> nat list \<Rightarrow> nat option list" where
  "unregister_sdevs C sdevs = concat (map (msm_ext_disp_extcon_unregister C sdevs) [0..MAX_CODECS C - 1])"

text \<open>\<open>zeroed\<close> is the allocated structure; \<open>populate\<close> is the result of adding the child devices. The result has the
  driver data of the device: none when probing fails, since the structure is freed and the kernel clears the
  pointer to it; and the slots that were unregistered.\<close>

definition msm_ext_disp_probe ::
  "disp_consts \<Rightarrow> bool \<Rightarrow> bool \<Rightarrow> bool \<Rightarrow> (int \<Rightarrow> int + nat) \<Rightarrow> (int \<Rightarrow> int) \<Rightarrow> int \<Rightarrow> 'e ext_disp
    \<Rightarrow> 'e ext_disp option \<times> nat option list \<times> int" where
  "msm_ext_disp_probe C pdev of_node kzalloc alloc reg populate zeroed =
     (if \<not> pdev then (None, [], - ENODEV)
      else if \<not> of_node then (None, [], - ENODEV)
      else if \<not> kzalloc then (None, [], - ENOMEM)
      else case register_sdevs C alloc reg [0..MAX_CODECS C - 1] [] of (sdevs, ret) \<Rightarrow>
        if ret \<noteq> 0 then (None, unregister_sdevs C sdevs, ret)
        else if populate \<noteq> 0 then (None, unregister_sdevs C sdevs, populate)
        else (Some (zeroed\<lparr>ed_audio_sdev := sdevs, ed_display_list := [],
          ed_current_codec := (ed_current_codec zeroed)\<lparr>ci_type := TYPE_MAX C\<rparr>, ed_update_audio := False\<rparr>), [], populate))"

definition msm_ext_disp_remove ::
  "disp_consts \<Rightarrow> bool \<Rightarrow> 'e ext_disp option \<Rightarrow> 'e ext_disp option \<times> nat option list \<times> int" where
  "msm_ext_disp_remove C pdev drvdata =
     (if \<not> pdev then (drvdata, [], - ENODEV)
      else case drvdata of
        None \<Rightarrow> (drvdata, [], - ENODEV)
      | Some d \<Rightarrow> (None, unregister_sdevs C (ed_audio_sdev d), 0))"

section \<open>The registry of interfaces\<close>

definition valid_intf :: "disp_consts \<Rightarrow> init_data \<Rightarrow> bool" where
  "valid_intf C i \<longleftrightarrow> msm_ext_disp_validate_intf C (Some i) = 0"

lemma valid_intf_fields:
  "valid_intf C i \<Longrightarrow> op_ready (in_codec_ops i) \<noteq> 0 \<and> ci_type (in_codec i) < TYPE_MAX C \<and> ci_stream_id (in_codec i) < MAX_CODECS C"
  by (auto simp: valid_intf_def msm_ext_disp_validate_intf_def not_le split: if_splits)

lemma valid_intf_ops [simp]: "valid_intf C (i\<lparr>in_audio_config := b, in_audio_notify := b'\<rparr>) = valid_intf C i"
  by (simp add: valid_intf_def msm_ext_disp_validate_intf_def)

text \<open>Every listed interface is valid and knows this driver, and no two have one codec id.\<close>

definition intfs_ok :: "disp_consts \<Rightarrow> 'e ext_disp \<Rightarrow> bool" where
  "intfs_ok C d \<longleftrightarrow> distinct (ed_display_list d) \<and>
     (\<forall>a\<in>set (ed_display_list d). \<exists>i. ed_intfs d a = Some i \<and> valid_intf C i \<and> in_audio_config i \<and> in_audio_notify i) \<and>
     (\<forall>a\<in>set (ed_display_list d). \<forall>b\<in>set (ed_display_list d).
        map_option in_codec (ed_intfs d a) = map_option in_codec (ed_intfs d b) \<longrightarrow> a = b)"

definition codec_map :: "'e ext_disp \<Rightarrow> codec_id \<Rightarrow> nat option" where
  "codec_map d k = find (\<lambda>a. map_option in_codec (ed_intfs d a) = Some k) (ed_display_list d)"

lemma find_intf_map:
  "\<forall>a\<in>set as. intfs a \<noteq> None \<Longrightarrow> find_intf intfs k as = Some (find (\<lambda>a. map_option in_codec (intfs a) = Some k) as)"
  by (induction as) auto

lemma get_intf_data:
  assumes "intfs_ok C d"
  shows "msm_ext_disp_get_intf_data d (Some k) = Some (if codec_map d k = None then - ENODEV else 0, codec_map d k)"
proof -
  have "\<forall>a\<in>set (ed_display_list d). ed_intfs d a \<noteq> None" using assms by (fastforce simp: intfs_ok_def)
  from find_intf_map [OF this] show ?thesis by (simp add: msm_ext_disp_get_intf_data_def codec_map_def)
qed

lemma codec_map_iff:
  assumes "intfs_ok C d"
  shows "codec_map d k = Some a \<longleftrightarrow> a \<in> set (ed_display_list d) \<and> map_option in_codec (ed_intfs d a) = Some k"
proof
  assume "codec_map d k = Some a"
  then show "a \<in> set (ed_display_list d) \<and> map_option in_codec (ed_intfs d a) = Some k"
    unfolding codec_map_def by (auto simp: find_Some_iff)
next
  assume a: "a \<in> set (ed_display_list d) \<and> map_option in_codec (ed_intfs d a) = Some k"
  show "codec_map d k = Some a"
  proof (cases "codec_map d k")
    case None
    then have "\<not> (\<exists>x. x \<in> set (ed_display_list d) \<and> map_option in_codec (ed_intfs d x) = Some k)"
      unfolding codec_map_def find_None_iff .
    with a show ?thesis by blast
  next
    case (Some b)
    then have "b \<in> set (ed_display_list d)" "map_option in_codec (ed_intfs d b) = Some k"
      unfolding codec_map_def by (auto simp: find_Some_iff)
    moreover have "map_option in_codec (ed_intfs d b) = map_option in_codec (ed_intfs d a)" using calculation(2) a by metis
    ultimately have "b = a" using a assms unfolding intfs_ok_def by blast
    with Some show ?thesis by simp
  qed
qed

lemma codec_map_data:
  assumes "intfs_ok C d" and "codec_map d k = Some a"
  obtains i where "ed_intfs d a = Some i" "valid_intf C i" "in_codec i = k" "a \<in> set (ed_display_list d)"
  using assms codec_map_iff [OF assms(1), of k a] by (fastforce simp: intfs_ok_def)

text \<open>What an interface that registers brings: its own data, valid, for a codec id.\<close>

definition intf_for :: "disp_consts \<Rightarrow> 'e ext_disp \<Rightarrow> codec_id \<Rightarrow> nat \<Rightarrow> bool" where
  "intf_for C d k a \<longleftrightarrow> (\<exists>i. ed_intfs d a = Some i \<and> valid_intf C i \<and> in_codec i = k)"

definition add_intf :: "disp_consts \<Rightarrow> codec_id \<Rightarrow> nat \<Rightarrow> 'e ext_disp \<Rightarrow> 'e ext_disp option" where
  "add_intf C k a d = Option.bind (msm_ext_disp_register_intf C True True (Some a) (Some d)) fst"

definition remove_intf :: "codec_id \<Rightarrow> nat \<Rightarrow> 'e ext_disp \<Rightarrow> 'e ext_disp option" where
  "remove_intf k a d = Option.bind (msm_ext_disp_deregister_intf True (Some a) (Some d)) fst"

lemma register_new_intf:
  assumes ok: "intfs_ok C d" and a: "intf_for C d k a" and new: "codec_map d k = None"
  shows "\<exists>d'. msm_ext_disp_register_intf C True True (Some a) (Some d) = Some (Some d', 0) \<and> intfs_ok C d' \<and>
    codec_map d' = (codec_map d)(k \<mapsto> a) \<and> (\<forall>k' b. intf_for C d k' b \<longrightarrow> intf_for C d' k' b) \<and>
    ed_audio_sdev d' = ed_audio_sdev d \<and> ed_update_audio d' = ed_update_audio d \<and> ed_current_codec d' = ed_current_codec d"
proof -
  obtain i where i: "ed_intfs d a = Some i" "valid_intf C i" "in_codec i = k" using a by (auto simp: intf_for_def)
  let ?i = "i\<lparr>in_audio_config := True, in_audio_notify := True\<rparr>"
  let ?d = "d\<lparr>ed_display_list := a # ed_display_list d, ed_intfs := (ed_intfs d)(a \<mapsto> ?i)\<rparr>"
  have notin: "a \<notin> set (ed_display_list d)" using new codec_map_iff [OF ok, of k a] i by auto
  have r: "msm_ext_disp_register_intf C True True (Some a) (Some d) = Some (Some ?d, 0)"
    using i new get_intf_data [OF ok, of k]
    by (simp add: msm_ext_disp_register_intf_def msm_ext_disp_add_intf_data_def valid_intf_def)
  have other: "map_option in_codec (ed_intfs d b) \<noteq> Some k" if "b \<in> set (ed_display_list d)" for b
    using new codec_map_iff [OF ok, of k b] that by auto
  have codecs: "map_option in_codec (ed_intfs ?d b) = map_option in_codec (ed_intfs d b)" for b
    using i by simp
  have list: "ed_display_list ?d = a # ed_display_list d" by simp
  have ok': "intfs_ok C ?d"
    unfolding intfs_ok_def codecs list
  proof (intro conjI ballI impI)
    show "distinct (a # ed_display_list d)" using ok notin by (simp add: intfs_ok_def)
    show "\<exists>i. ed_intfs ?d b = Some i \<and> valid_intf C i \<and> in_audio_config i \<and> in_audio_notify i"
      if "b \<in> set (a # ed_display_list d)" for b
      using that ok i by (cases "b = a") (auto simp: intfs_ok_def)
    show "b = c" if "b \<in> set (a # ed_display_list d)" "c \<in> set (a # ed_display_list d)"
      "map_option in_codec (ed_intfs d b) = map_option in_codec (ed_intfs d c)" for b c
      using that ok other i(1,3) unfolding intfs_ok_def by (metis set_ConsD option.map(2))
  qed
  have "codec_map ?d = (codec_map d)(k \<mapsto> a)"
    unfolding codec_map_def codecs list using i by (auto simp: fun_eq_iff)
  moreover have "intf_for C ?d k' b" if "intf_for C d k' b" for k' b
    using that i by (auto simp: intf_for_def)
  ultimately show ?thesis using r ok' by (intro exI [of _ ?d]) simp
qed

lemma deregister_known_intf:
  assumes ok: "intfs_ok C d" and a: "codec_map d k = Some a"
  shows "\<exists>d'. msm_ext_disp_deregister_intf True (Some a) (Some d) = Some (Some d', 0) \<and> intfs_ok C d' \<and>
    codec_map d' = (codec_map d)(k := None) \<and> (\<forall>k' b. intf_for C d k' b \<longrightarrow> intf_for C d' k' b) \<and>
    ed_audio_sdev d' = ed_audio_sdev d \<and> ed_update_audio d' = ed_update_audio d \<and> ed_current_codec d' = ed_current_codec d"
proof -
  obtain i where i: "ed_intfs d a = Some i" "valid_intf C i" "in_codec i = k" "a \<in> set (ed_display_list d)"
    using ok a by (rule codec_map_data)
  let ?i = "i\<lparr>in_audio_config := False, in_audio_notify := False\<rparr>"
  let ?d = "d\<lparr>ed_display_list := remove1 a (ed_display_list d), ed_intfs := (ed_intfs d)(a \<mapsto> ?i)\<rparr>"
  have dist: "distinct (ed_display_list d)" using ok by (simp add: intfs_ok_def)
  have r: "msm_ext_disp_deregister_intf True (Some a) (Some d) = Some (Some ?d, 0)"
    using i by (simp add: msm_ext_disp_deregister_intf_def msm_ext_disp_remove_intf_data_def)
  have codecs: "map_option in_codec (ed_intfs ?d b) = map_option in_codec (ed_intfs d b)" for b
    using i by simp
  have list: "set (ed_display_list ?d) = set (ed_display_list d) - {a}" using dist by (simp add: set_remove1_eq)
  have ok': "intfs_ok C ?d"
    unfolding intfs_ok_def codecs list using ok by (auto simp: intfs_ok_def)
  have at: "codec_map ?d k' = Some b \<longleftrightarrow> ((codec_map d)(k := None)) k' = Some b" for k' b
    using codec_map_iff [OF ok', of k' b] codec_map_iff [OF ok, of k' b] codec_map_iff [OF ok, of k a] a
    unfolding codecs list by auto
  have "codec_map ?d = (codec_map d)(k := None)"
  proof
    show "codec_map ?d k' = ((codec_map d)(k := None)) k'" for k' using at [of k'] by (metis option.exhaust)
  qed
  moreover have "intf_for C ?d k' b" if "intf_for C d k' b" for k' b
    using that i by (auto simp: intf_for_def)
  ultimately show ?thesis using r ok' by (intro exI [of _ ?d]) simp
qed

lemma register_taken:
  assumes ok: "intfs_ok C d" and a: "intf_for C d k a" and taken: "codec_map d k = Some b"
  shows "msm_ext_disp_register_intf C alloc True (Some a) (Some d) = Some (Some d, 0)"
  using a taken get_intf_data [OF ok, of k]
  by (auto simp: msm_ext_disp_register_intf_def intf_for_def valid_intf_def)

interpretation disp_registry: registry "intfs_ok C" codec_map "intf_for C" "add_intf C" remove_intf for C
proof
  fix d :: "'e ext_disp" and k a
  assume ok: "intfs_ok C d" and a: "intf_for C d k a"
  show "\<exists>d'. add_intf C k a d = Some d' \<and> intfs_ok C d' \<and> codec_map d' = (codec_map d)(k \<mapsto> a) \<and>
      (\<forall>k v. intf_for C d k v \<longrightarrow> intf_for C d' k v)" if "codec_map d k = None"
    using register_new_intf [OF ok a that] by (auto simp: add_intf_def)
  show "add_intf C k a d = Some d" if "codec_map d k = Some b" for b
    using register_taken [OF ok a that, of True] by (simp add: add_intf_def)
next
  fix d :: "'e ext_disp" and k a
  assume ok: "intfs_ok C d" and a: "codec_map d k = Some a"
  show "\<exists>d'. remove_intf k a d = Some d' \<and> intfs_ok C d' \<and> codec_map d' = (codec_map d)(k := None) \<and>
      (\<forall>k v. intf_for C d k v \<longrightarrow> intf_for C d' k v)"
    using deregister_known_intf [OF ok a] by (auto simp: remove_intf_def)
qed

section \<open>The driver as a state machine\<close>

definition codec_in_range :: "disp_consts \<Rightarrow> codec_id \<Rightarrow> bool" where
  "codec_in_range C k \<longleftrightarrow> 0 \<le> ci_stream_id k \<and> ci_stream_id k < MAX_CODECS C"

text \<open>
  The steps: the calls of the interfaces and of the codec, with stream ids that are not negative, and for
  \<open>msm_ext_disp_select_audio_codec\<close>, which checks nothing, a stream id in range; and an interface that
  allocates its data, or frees it when it is not in the list.
\<close>

inductive disp_step :: "disp_consts \<Rightarrow> 'e extcon \<Rightarrow> 'e ext_disp \<Rightarrow> 'e ext_disp \<Rightarrow> bool" for C X where
  register: "msm_ext_disp_register_intf C alloc pdev init_data (Some d) = Some (Some d', ret) \<Longrightarrow> disp_step C X d d'"
| deregister: "msm_ext_disp_deregister_intf pdev init_data (Some d) = Some (Some d', ret) \<Longrightarrow> disp_step C X d d'"
| codec: "msm_ext_disp_register_audio_codec C X pdev ops (Some d) = Some (Some d', ret) \<Longrightarrow> disp_step C X d d'"
| select: "codec_in_range C k \<Longrightarrow> msm_ext_disp_select_audio_codec pdev (Some k) (Some d) = Some (Some d', ret) \<Longrightarrow> disp_step C X d d'"
| config: "0 \<le> ci_stream_id k \<Longrightarrow> msm_ext_disp_audio_config C pdev (Some k) state (Some d) = Some (Some d', ret) \<Longrightarrow> disp_step C X d d'"
| notify: "0 \<le> ci_stream_id k \<Longrightarrow> msm_ext_disp_audio_notify C X pdev (Some k) state (Some d) = Some (Some d', ret) \<Longrightarrow> disp_step C X d d'"
| new_intf: "ed_intfs d a = None \<Longrightarrow> disp_step C X d (d\<lparr>ed_intfs := (ed_intfs d)(a \<mapsto> i)\<rparr>)"
| free_intf: "a \<notin> set (ed_display_list d) \<Longrightarrow> disp_step C X d (d\<lparr>ed_intfs := (ed_intfs d)(a := None)\<rparr>)"

text \<open>An error pointer of the kernel is a negative code.\<close>

definition errors_negative :: "(int \<Rightarrow> int + nat) \<Rightarrow> bool" where
  "errors_negative alloc \<longleftrightarrow> (\<forall>n e. alloc n = Inl e \<longrightarrow> e < 0)"

inductive disp_reachable :: "disp_consts \<Rightarrow> 'e extcon \<Rightarrow> 'e ext_disp \<Rightarrow> bool" for C X where
  probed: "errors_negative alloc \<Longrightarrow> msm_ext_disp_probe C pdev of_node kzalloc alloc reg populate zeroed = (Some d, un, ret) \<Longrightarrow>
      disp_reachable C X d"
| step: "disp_reachable C X d \<Longrightarrow> disp_step C X d d' \<Longrightarrow> disp_reachable C X d'"

definition disp_ok :: "disp_consts \<Rightarrow> 'e ext_disp \<Rightarrow> bool" where
  "disp_ok C d \<longleftrightarrow> intfs_ok C d \<and> length (ed_audio_sdev d) = nat (MAX_CODECS C) \<and>
     (ed_update_audio d \<longrightarrow> codec_in_range C (ed_current_codec d))"

text \<open>Changes that leave the registry alone.\<close>

lemma intfs_ok_cong:
  "ed_display_list d' = ed_display_list d \<Longrightarrow> ed_intfs d' = ed_intfs d \<Longrightarrow> intfs_ok C d' = intfs_ok C d"
  "ed_display_list d' = ed_display_list d \<Longrightarrow> ed_intfs d' = ed_intfs d \<Longrightarrow> codec_map d' = codec_map d"
  by (simp_all add: intfs_ok_def codec_map_def fun_eq_iff)

lemma update_ops_frame:
  assumes "msm_ext_disp_update_audio_ops d k = Some (d', ret)"
  shows "\<exists>ops c p i. d' = d\<lparr>ed_ops := ops, ed_current_codec := c, ed_intf_pdev := p, ed_intf_data := i\<rparr> \<and>
    (ops = None) = (ed_ops d = None) \<and> c \<in> {k, ed_current_codec d}"
proof -
  obtain r data where g: "msm_ext_disp_get_intf_data d (Some k) = Some (r, data)"
    using assms by (auto simp: msm_ext_disp_update_audio_ops_def Option.bind_eq_Some_conv)
  have same: "\<exists>ops c p i. d = d\<lparr>ed_ops := ops, ed_current_codec := c, ed_intf_pdev := p, ed_intf_data := i\<rparr> \<and>
    (ops = None) = (ed_ops d = None) \<and> c \<in> {k, ed_current_codec d}"
    by (intro exI [of _ "ed_ops d"] exI [of _ "ed_current_codec d"] exI [of _ "ed_intf_pdev d"] exI [of _ "ed_intf_data d"]) simp
  show ?thesis
  proof (cases "data = None \<or> r \<noteq> 0 \<or> ed_ops d = None")
    case True
    then have "d' = d" using assms g by (auto simp: msm_ext_disp_update_audio_ops_def split: if_splits option.splits)
    with same show ?thesis by simp
  next
    case False
    then obtain a where "data = Some a" by auto
    with False assms g obtain i where i: "ed_intfs d a = Some i"
      by (auto simp: msm_ext_disp_update_audio_ops_def Option.bind_eq_Some_conv)
    with False assms g \<open>data = Some a\<close> have "d' = d\<lparr>ed_ops := Some (in_codec_ops i), ed_current_codec := k,
        ed_intf_pdev := in_pdev i, ed_intf_data := in_intf_data i\<rparr>"
      by (simp add: msm_ext_disp_update_audio_ops_def)
    with False show ?thesis
      by (intro exI [of _ "Some (in_codec_ops i)"] exI [of _ k] exI [of _ "in_pdev i"] exI [of _ "in_intf_data i"]) simp
  qed
qed

lemma process_audio_frame:
  assumes "msm_ext_disp_process_audio X d k st = Some (d', ret)"
  shows "\<exists>e. d' = d\<lparr>ed_extcon := e\<rparr>"
proof -
  have "d' = d \<or> (\<exists>e. d' = d\<lparr>ed_extcon := e\<rparr>)"
    using assms by (auto simp: msm_ext_disp_process_audio_def Option.bind_eq_Some_conv Let_def split: if_splits prod.splits)
  moreover have "d = d\<lparr>ed_extcon := ed_extcon d\<rparr>" by simp
  ultimately show ?thesis by metis
qed

lemma ready_frame:
  assumes "msm_ext_disp_ready_for_display d = Some d'"
  shows "\<exists>ops log. d' = d\<lparr>ed_ops := ops, ed_ready_calls := log\<rparr>"
proof -
  have "d' = d \<or> (\<exists>ops log. d' = d\<lparr>ed_ops := ops, ed_ready_calls := log\<rparr>)"
    using assms by (auto simp: msm_ext_disp_ready_for_display_def Option.bind_eq_Some_conv split: if_splits)
  moreover have "d = d\<lparr>ed_ops := ed_ops d, ed_ready_calls := ed_ready_calls d\<rparr>" by simp
  ultimately show ?thesis by metis
qed

section \<open>What the driver promises\<close>

lemma register_sdevs_length:
  "errors_negative alloc \<Longrightarrow> register_sdevs C alloc reg ns sdevs = (sdevs', 0) \<Longrightarrow> length sdevs' = length sdevs + length ns"
proof (induction ns arbitrary: sdevs)
  case Nil
  then show ?case by simp
next
  case (Cons n ns)
  obtain s r where e: "msm_ext_disp_extcon_register C alloc reg sdevs n = (s, r)" by fastforce
  with Cons.prems have r: "r = 0" "register_sdevs C alloc reg ns s = (sdevs', 0)" by (auto split: if_splits)
  have "length s = Suc (length sdevs)"
    using e r(1) Cons.prems(1) by (auto simp: msm_ext_disp_extcon_register_def errors_negative_def split: if_splits sum.splits)
  with Cons.IH [OF Cons.prems(1) r(2)] show ?case by simp
qed

lemma probe_ok:
  assumes "msm_ext_disp_probe C pdev of_node kzalloc alloc reg populate zeroed = (Some d, un, ret)" and "errors_negative alloc"
  shows "disp_ok C d \<and> codec_map d = Map.empty"
proof -
  obtain sdevs r where s: "register_sdevs C alloc reg [0..MAX_CODECS C - 1] [] = (sdevs, r)" by fastforce
  with assms(1) have r: "r = 0" and d: "d = zeroed\<lparr>ed_audio_sdev := sdevs, ed_display_list := [],
      ed_current_codec := (ed_current_codec zeroed)\<lparr>ci_type := TYPE_MAX C\<rparr>, ed_update_audio := False\<rparr>"
    by (auto simp: msm_ext_disp_probe_def split: if_splits)
  have "length sdevs = nat (MAX_CODECS C)" using register_sdevs_length [OF assms(2)] s r by simp
  then show ?thesis by (simp add: d disp_ok_def intfs_ok_def codec_map_def fun_eq_iff)
qed

lemma process_audio_some:
  assumes "length (ed_audio_sdev d) = nat (MAX_CODECS C)" and "codec_in_range C k"
  shows "\<exists>d' ret. msm_ext_disp_process_audio X d k st = Some (d', ret)"
proof -
  have "nat (ci_stream_id k) < length (ed_audio_sdev d)" "\<not> ci_stream_id k < 0"
    using assms by (auto simp: codec_in_range_def)
  then show ?thesis
    by (auto simp: msm_ext_disp_process_audio_def fetch_def Let_def split: prod.splits)
qed

lemma update_ops_some:
  assumes "intfs_ok C d"
  shows "\<exists>d' ret. msm_ext_disp_update_audio_ops d k = Some (d', ret)"
proof (cases "codec_map d k")
  case None
  then show ?thesis by (simp add: msm_ext_disp_update_audio_ops_def get_intf_data [OF assms])
next
  case (Some a)
  then obtain i where "ed_intfs d a = Some i" using codec_map_data [OF assms] by blast
  with Some show ?thesis by (simp add: msm_ext_disp_update_audio_ops_def get_intf_data [OF assms])
qed

lemma ready_some:
  assumes "intfs_ok C d" and "ed_ops d \<noteq> None"
  shows "\<exists>d'. msm_ext_disp_ready_for_display d = Some d'"
proof (cases "codec_map d (ed_current_codec d)")
  case None
  then show ?thesis by (simp add: msm_ext_disp_ready_for_display_def get_intf_data [OF assms(1)])
next
  case (Some a)
  then obtain i where "ed_intfs d a = Some i" "valid_intf C i" using codec_map_data [OF assms(1)] by blast
  with Some assms(2) valid_intf_fields [of C i] show ?thesis
    by (simp add: msm_ext_disp_ready_for_display_def get_intf_data [OF assms(1)])
qed

text \<open>The codec's operation, in one step for a codec in whatever state.\<close>

lemma register_codec_some:
  assumes ok: "disp_ok C d"
  shows "\<exists>d' ret. msm_ext_disp_register_audio_codec C X pdev ops (Some d) = Some (Some d', ret) \<and> disp_ok C d'"
proof (cases "pdev \<and> ops \<noteq> None")
  case False
  with ok show ?thesis by (auto simp: msm_ext_disp_register_audio_codec_def split: option.splits)
next
  case True
  then obtain o1 where o1: "ops = Some o1" by auto
  have ready: "\<exists>d2. (if ci_type (ed_current_codec d1) \<noteq> TYPE_MAX C then msm_ext_disp_ready_for_display d1 else Some d1) = Some d2 \<and>
      disp_ok C d2" if d1: "disp_ok C d1" "ed_ops d1 \<noteq> None" for d1 :: "'a ext_disp"
  proof (cases "ci_type (ed_current_codec d1) \<noteq> TYPE_MAX C")
    case True
    obtain d2 where d2: "msm_ext_disp_ready_for_display d1 = Some d2" using ready_some d1 by (auto simp: disp_ok_def)
    then obtain ops log where "d2 = d1\<lparr>ed_ops := ops, ed_ready_calls := log\<rparr>" using ready_frame by blast
    then have "disp_ok C d2" using d1(1) by (simp add: disp_ok_def intfs_ok_def)
    with True d2 show ?thesis by simp
  qed (use d1 in simp)
  have "\<exists>d1 ret. (if ed_ops d \<noteq> None then Some (d, - EINVAL)
            else do {
              let d = d\<lparr>ed_ops := Some o1\<rparr>;
              if ed_update_audio d then do {
                let d = d\<lparr>ed_update_audio := False\<rparr>;
                (d, _) \<leftarrow> msm_ext_disp_update_audio_ops d (ed_current_codec d);
                (d, _) \<leftarrow> msm_ext_disp_process_audio X d (ed_current_codec d) (CABLE_CONNECT C);
                Some (d, 0)
              } else Some (d, 0)
            }) = Some (d1, ret) \<and> disp_ok C d1 \<and> ed_ops d1 \<noteq> None"
  proof (cases "ed_ops d \<noteq> None \<or> \<not> ed_update_audio d")
    case True
    have "disp_ok C (d\<lparr>ed_ops := Some o1\<rparr>)" using ok by (simp add: disp_ok_def intfs_ok_def)
    with True ok show ?thesis by (auto simp: Let_def)
  next
    case False
    let ?d = "d\<lparr>ed_ops := Some o1, ed_update_audio := False\<rparr>"
    have d: "intfs_ok C ?d" using ok by (simp add: disp_ok_def intfs_ok_def)
    obtain d1 r1 where u: "msm_ext_disp_update_audio_ops ?d (ed_current_codec d) = Some (d1, r1)"
      using update_ops_some [OF d] by blast
    then obtain ops1 c p i where d1: "d1 = ?d\<lparr>ed_ops := ops1, ed_current_codec := c, ed_intf_pdev := p, ed_intf_data := i\<rparr>"
      "ops1 \<noteq> None" "c = ed_current_codec d" using update_ops_frame [OF u] by auto
    then have k: "codec_in_range C (ed_current_codec d1)" "length (ed_audio_sdev d1) = nat (MAX_CODECS C)"
      using ok False by (auto simp: disp_ok_def)
    obtain d2 r2 where v: "msm_ext_disp_process_audio X d1 (ed_current_codec d1) (CABLE_CONNECT C) = Some (d2, r2)"
      using process_audio_some [OF k(2,1)] by blast
    then obtain e where "d2 = d1\<lparr>ed_extcon := e\<rparr>" using process_audio_frame by blast
    then have "disp_ok C d2 \<and> ed_ops d2 \<noteq> None" using d1 ok by (simp add: disp_ok_def intfs_ok_def)
    with False u v show ?thesis by (auto simp: Let_def)
  qed
  then obtain d1 ret where d1: "(if ed_ops d \<noteq> None then Some (d, - EINVAL)
            else do {
              let d = d\<lparr>ed_ops := Some o1\<rparr>;
              if ed_update_audio d then do {
                let d = d\<lparr>ed_update_audio := False\<rparr>;
                (d, _) \<leftarrow> msm_ext_disp_update_audio_ops d (ed_current_codec d);
                (d, _) \<leftarrow> msm_ext_disp_process_audio X d (ed_current_codec d) (CABLE_CONNECT C);
                Some (d, 0)
              } else Some (d, 0)
            }) = Some (d1, ret)" "disp_ok C d1" "ed_ops d1 \<noteq> None" by blast
  obtain d2 where "(if ci_type (ed_current_codec d1) \<noteq> TYPE_MAX C then msm_ext_disp_ready_for_display d1 else Some d1) = Some d2"
    "disp_ok C d2" using ready [OF d1(2,3)] by blast
  with True o1 d1(1) show ?thesis unfolding msm_ext_disp_register_audio_codec_def by simp
qed

text \<open>Every step keeps the invariant.\<close>

lemma disp_okD: "disp_ok C d \<Longrightarrow> intfs_ok C d" "disp_ok C d \<Longrightarrow> length (ed_audio_sdev d) = nat (MAX_CODECS C)"
  by (simp_all add: disp_ok_def)

lemma intfs_ok_outside:
  "a \<notin> set (ed_display_list d) \<Longrightarrow> intfs_ok C (d\<lparr>ed_intfs := (ed_intfs d)(a := x)\<rparr>) = intfs_ok C d"
  unfolding intfs_ok_def by (auto simp: fun_upd_def)

lemma register_intf_ok:
  assumes ok: "disp_ok C d" and r: "msm_ext_disp_register_intf C alloc pdev init_data (Some d) = Some (Some d', ret)"
  shows "disp_ok C d'"
proof (cases "\<exists>a i. init_data = Some a \<and> ed_intfs d a = Some i \<and> valid_intf C i \<and> codec_map d (in_codec i) = None \<and> alloc \<and> pdev")
  case True
  then obtain a i where a: "init_data = Some a" "ed_intfs d a = Some i" "valid_intf C i" "codec_map d (in_codec i) = None"
    "alloc" "pdev" by blast
  then have fits: "intf_for C d (in_codec i) a" by (auto simp: intf_for_def)
  have "intfs_ok C d" using ok by (simp add: disp_ok_def)
  from register_new_intf [OF this fits a(4)] r a(1,5,6) ok show ?thesis by (auto simp: disp_ok_def)
next
  case False
  have gi: "msm_ext_disp_get_intf_data d (Some k) = Some (if codec_map d k = None then - ENODEV else 0, codec_map d k)" for k
    by (rule get_intf_data [OF disp_okD(1) [OF ok]])
  have "d' = d"
  proof (cases "pdev \<and> init_data \<noteq> None")
    case True
    then obtain a where a: "init_data = Some a" by auto
    show ?thesis
    proof (cases "ed_intfs d a")
      case None
      with True a r show ?thesis by (simp add: msm_ext_disp_register_intf_def)
    next
      case (Some i)
      show ?thesis
      proof (cases "valid_intf C i")
        case False
        with True a Some r show ?thesis by (simp add: msm_ext_disp_register_intf_def valid_intf_def)
      next
        case valid: True
        show ?thesis
        proof (cases "codec_map d (in_codec i)")
          case None
          with False True a Some valid have "\<not> alloc" by auto
          with True a Some valid None r show ?thesis
            by (simp add: msm_ext_disp_register_intf_def valid_intf_def gi msm_ext_disp_add_intf_data_def)
        next
          case taken: (Some b)
          with True a Some valid r show ?thesis by (simp add: msm_ext_disp_register_intf_def valid_intf_def gi)
        qed
      qed
    qed
  next
    case False
    with r show ?thesis by (auto simp: msm_ext_disp_register_intf_def split: option.splits)
  qed
  with ok show ?thesis by simp
qed

lemma deregister_intf_ok:
  assumes ok: "disp_ok C d" and r: "msm_ext_disp_deregister_intf pdev init_data (Some d) = Some (Some d', ret)"
  shows "disp_ok C d'"
proof (cases "pdev \<and> init_data \<noteq> None")
  case False
  with r ok show ?thesis by (auto simp: msm_ext_disp_deregister_intf_def split: option.splits)
next
  case True
  then obtain a where a: "init_data = Some a" by auto
  have iok: "intfs_ok C d" using ok by (simp add: disp_ok_def)
  from True a r obtain i where i: "ed_intfs d a = Some i"
    by (auto simp: msm_ext_disp_deregister_intf_def msm_ext_disp_remove_intf_data_def Option.bind_eq_Some_conv)
  show ?thesis
  proof (cases "a \<in> set (ed_display_list d)")
    case listed: True
    then have "codec_map d (in_codec i) = Some a" using codec_map_iff [OF iok] i by simp
    from deregister_known_intf [OF iok this] r True a ok show ?thesis by (auto simp: disp_ok_def)
  next
    case False
    then have "remove1 a (ed_display_list d) = ed_display_list d" by (simp add: remove1_idem)
    with True a i r have "d' = d\<lparr>ed_intfs := (ed_intfs d)(a \<mapsto> i\<lparr>in_audio_config := False, in_audio_notify := False\<rparr>)\<rparr>"
      by (simp add: msm_ext_disp_deregister_intf_def msm_ext_disp_remove_intf_data_def)
    then show ?thesis using ok intfs_ok_outside [OF False, of C] by (simp add: disp_ok_def)
  qed
qed

lemma update_ops_ok:
  assumes "disp_ok C d" and "codec_in_range C k" and "msm_ext_disp_update_audio_ops d k = Some (d', ret)"
  shows "disp_ok C d'"
  using assms(1,2) update_ops_frame [OF assms(3)] by (auto simp: disp_ok_def intfs_ok_def)

lemma select_codec_ok:
  assumes ok: "disp_ok C d" and k: "codec_in_range C k"
  shows "\<exists>d' ret. msm_ext_disp_select_audio_codec pdev (Some k) (Some d) = Some (Some d', ret) \<and> disp_ok C d'"
proof (cases "pdev \<and> ed_ops d \<noteq> None")
  case True
  obtain d' ret where u: "msm_ext_disp_update_audio_ops d k = Some (d', ret)"
    using update_ops_some [OF disp_okD(1) [OF ok]] by blast
  with True update_ops_ok [OF ok k u] show ?thesis by (auto simp: msm_ext_disp_select_audio_codec_def)
next
  case False
  have "disp_ok C (d\<lparr>ed_update_audio := True, ed_current_codec := k\<rparr>)"
    using ok k by (simp add: disp_ok_def intfs_ok_def)
  with False ok show ?thesis by (auto simp: msm_ext_disp_select_audio_codec_def)
qed

lemma validated:
  assumes "msm_ext_disp_validate_and_get C pdev (Some k) st (Some d) = Inr d'"
  shows "d' = d \<and> pdev \<and> ci_stream_id k < MAX_CODECS C"
  using assms by (auto simp: msm_ext_disp_validate_and_get_def split: if_splits)

lemma validate_cases:
  "(\<exists>e. msm_ext_disp_validate_and_get C pdev codec st (Some d) = Inl e) \<or>
   msm_ext_disp_validate_and_get C pdev codec st (Some d) = Inr d"
  by (auto simp: msm_ext_disp_validate_and_get_def split: option.splits)

lemma audio_config_ok:
  assumes ok: "disp_ok C d" and k: "0 \<le> ci_stream_id k"
  shows "\<exists>d' ret. msm_ext_disp_audio_config C pdev (Some k) st (Some d) = Some (Some d', ret) \<and> disp_ok C d'"
proof (cases "msm_ext_disp_validate_and_get C pdev (Some k) st (Some d)")
  case (Inl e)
  with ok show ?thesis by (simp add: msm_ext_disp_audio_config_def)
next
  case (Inr d1)
  note v = validated [OF Inr]
  then have range: "codec_in_range C k" using k by (simp add: codec_in_range_def)
  let ?d = "d\<lparr>ed_ops := map_option (\<lambda>_. zero_ops) (ed_ops d), ed_current_codec := (ed_current_codec d)\<lparr>ci_type := TYPE_MAX C\<rparr>\<rparr>"
  have "disp_ok C ?d" using ok by (simp add: disp_ok_def intfs_ok_def codec_in_range_def)
  with Inr v select_codec_ok [OF ok range, of True] show ?thesis by (auto simp: msm_ext_disp_audio_config_def)
qed

lemma audio_notify_ok:
  assumes ok: "disp_ok C d" and k: "0 \<le> ci_stream_id k"
  shows "\<exists>d' ret. msm_ext_disp_audio_notify C X pdev (Some k) st (Some d) = Some (Some d', ret) \<and> disp_ok C d'"
proof (cases "msm_ext_disp_validate_and_get C pdev (Some k) st (Some d)")
  case (Inl e)
  with ok show ?thesis by (simp add: msm_ext_disp_audio_notify_def)
next
  case (Inr d1)
  note v = validated [OF Inr]
  then have range: "codec_in_range C k" using k by (simp add: codec_in_range_def)
  obtain d' ret where p: "msm_ext_disp_process_audio X d k st = Some (d', ret)"
    using process_audio_some [OF disp_okD(2) [OF ok] range] by blast
  obtain e where "d' = d\<lparr>ed_extcon := e\<rparr>" using process_audio_frame [OF p] by blast
  then have "disp_ok C d'" using ok by (simp add: disp_ok_def intfs_ok_def)
  with Inr v p show ?thesis by (simp add: msm_ext_disp_audio_notify_def)
qed

lemma disp_step_ok: "disp_step C X d d' \<Longrightarrow> disp_ok C d \<Longrightarrow> disp_ok C d'"
proof (induction rule: disp_step.induct)
  case (register alloc pdev init_data d d' ret)
  then show ?case using register_intf_ok by blast
next
  case (deregister pdev init_data d d' ret)
  then show ?case using deregister_intf_ok by blast
next
  case (codec pdev ops d d' ret)
  then show ?case using register_codec_some [OF codec(2), of X pdev ops] by auto
next
  case (select k pdev d d' ret)
  then show ?case using select_codec_ok [OF select(3,1), of pdev] by auto
next
  case (config k pdev state d d' ret)
  then show ?case using audio_config_ok [OF config(3,1), of pdev state] by auto
next
  case (notify k pdev state d d' ret)
  then show ?case using audio_notify_ok [OF notify(3,1), of X pdev state] by auto
next
  case (new_intf d a i)
  then have "a \<notin> set (ed_display_list d)" by (auto simp: disp_ok_def intfs_ok_def)
  then show ?case using new_intf(2) intfs_ok_outside [of a d C] by (simp add: disp_ok_def)
next
  case (free_intf a d)
  then show ?case using intfs_ok_outside [of a d C] by (simp add: disp_ok_def)
qed

lemma disp_reachable_ok: "disp_reachable C X d \<Longrightarrow> disp_ok C d"
proof (induction rule: disp_reachable.induct)
  case (probed alloc pdev of_node kzalloc reg populate zeroed d un ret)
  then show ?case using probe_ok by blast
next
  case (step d d')
  then show ?case using disp_step_ok by blast
qed

section \<open>Properties\<close>

text \<open>An instance: two codecs, three types, and an extcon that remembers the states it is given.\<close>

definition sample_consts :: disp_consts where
  "sample_consts = \<lparr>TYPE_MAX = 3, MAX_CODECS = 2, CABLE_DISCONNECT = 0, CABLE_CONNECT = 1, CABLE_STATE_MAX = 2\<rparr>"

definition sample_extcon :: "(nat \<Rightarrow> u32 \<Rightarrow> int) extcon" where
  "sample_extcon = \<lparr>xc_get = \<lambda>e s t. e s t, xc_set = \<lambda>e s t b. (e(s := (e s)(t := of_bool b)), 0)\<rparr>"

definition codec_no :: "int \<Rightarrow> codec_id" where
  "codec_no n = \<lparr>ci_type = 1, ci_ctrl_id = 0, ci_stream_id = n\<rparr>"

definition sample_ops :: "u64 \<Rightarrow> audio_codec_ops" where
  "sample_ops p = \<lparr>op_audio_info_setup = p, op_get_audio_edid_blk = p, op_cable_status = p, op_get_intf_id = p,
     op_teardown_done = p, op_acknowledge = p, op_ready = p\<rparr>"

definition sample_intf :: "int \<Rightarrow> init_data" where
  "sample_intf n = \<lparr>in_pdev = 5, in_codec = codec_no n, in_codec_ops = sample_ops 7, in_intf_data = 9,
     in_audio_config = False, in_audio_notify = False\<rparr>"

definition zeroed_disp :: "(nat \<Rightarrow> u32 \<Rightarrow> int) ext_disp" where
  "zeroed_disp = \<lparr>ed_intf_pdev = 0, ed_intf_data = 0, ed_current_codec = \<lparr>ci_type = 0, ci_ctrl_id = 0, ci_stream_id = 0\<rparr>,
     ed_ops = None, ed_audio_sdev = [], ed_display_list = [], ed_update_audio = False,
     ed_intfs = [1 \<mapsto> sample_intf 0, 2 \<mapsto> sample_intf 1, 3 \<mapsto> sample_intf 0], ed_extcon = (\<lambda>_ _. 0), ed_ready_calls = []\<rparr>"

text \<open>After probing, and after interface 1 has registered.\<close>

definition probed_disp :: "(nat \<Rightarrow> u32 \<Rightarrow> int) ext_disp" where
  "probed_disp = zeroed_disp\<lparr>ed_audio_sdev := [10, 11], ed_current_codec := \<lparr>ci_type = 3, ci_ctrl_id = 0, ci_stream_id = 0\<rparr>\<rparr>"

definition one_intf_disp :: "(nat \<Rightarrow> u32 \<Rightarrow> int) ext_disp" where
  "one_intf_disp = probed_disp\<lparr>ed_display_list := [1],
     ed_intfs := (ed_intfs probed_disp)(1 \<mapsto> (sample_intf 0)\<lparr>in_audio_config := True, in_audio_notify := True\<rparr>)\<rparr>"

lemmas disp_sample_defs = sample_consts_def sample_extcon_def codec_no_def sample_ops_def sample_intf_def zeroed_disp_def
  probed_disp_def one_intf_disp_def

lemma probed_reachable: "disp_reachable sample_consts X probed_disp"
proof (rule disp_reachable.probed)
  show "errors_negative (\<lambda>n. Inr (nat n + 10))" by (simp add: errors_negative_def)
  show "msm_ext_disp_probe sample_consts True True True (\<lambda>n. Inr (nat n + 10)) (\<lambda>_. 0) 0 zeroed_disp = (Some probed_disp, [], 0)"
    by (simp add: msm_ext_disp_probe_def msm_ext_disp_extcon_register_def disp_sample_defs upto.simps)
qed

lemma sample_intfs: "intf_for sample_consts probed_disp (codec_no 0) 1" "intf_for sample_consts probed_disp (codec_no 1) 2"
    "intf_for sample_consts probed_disp (codec_no 0) 3"
  by (simp_all add: intf_for_def valid_intf_def msm_ext_disp_validate_intf_def disp_sample_defs word_le_nat_alt)

lemma one_intf_reachable: "disp_reachable sample_consts X one_intf_disp"
proof (rule disp_reachable.step [OF probed_reachable disp_step.register])
  show "msm_ext_disp_register_intf sample_consts True True (Some 1) (Some probed_disp) = Some (Some one_intf_disp, 0)"
    by (simp add: msm_ext_disp_register_intf_def msm_ext_disp_validate_intf_def msm_ext_disp_get_intf_data_def
        msm_ext_disp_add_intf_data_def disp_sample_defs word_le_nat_alt)
qed

text \<open>C28. In every state that the calls of interfaces and codec reach from probing, the interfaces in the list are
  allocated, valid and have different codec ids; and every call for a codec whose stream id is in range comes back,
  without an access through a bad pointer or out of bounds.\<close>

theorem disp_safe:
  assumes "disp_reachable C X d" and "codec_in_range C k"
  shows "intfs_ok C d \<and>
    msm_ext_disp_register_audio_codec C X pdev ops (Some d) \<noteq> None \<and>
    msm_ext_disp_select_audio_codec pdev (Some k) (Some d) \<noteq> None \<and>
    msm_ext_disp_audio_config C pdev (Some k) st (Some d) \<noteq> None \<and>
    msm_ext_disp_audio_notify C X pdev (Some k) st (Some d) \<noteq> None"
proof -
  have ok: "disp_ok C d" using disp_reachable_ok [OF assms(1)] .
  have k: "0 \<le> ci_stream_id k" using assms(2) by (simp add: codec_in_range_def)
  show ?thesis
    using disp_okD(1) [OF ok] register_codec_some [OF ok, of X pdev ops] select_codec_ok [OF ok assms(2), of pdev]
      audio_config_ok [OF ok k, of pdev st] audio_notify_ok [OF ok k, of X pdev st] by auto
qed

theorem disp_safe_witness:
  "msm_ext_disp_register_audio_codec sample_consts sample_extcon True (Some zero_ops) (Some one_intf_disp) \<noteq> None \<and>
   msm_ext_disp_select_audio_codec True (Some (codec_no 1)) (Some one_intf_disp) \<noteq> None"
  using disp_safe [OF one_intf_reachable, of "codec_no 1" sample_extcon True "Some zero_ops"]
  by (simp add: codec_in_range_def codec_no_def sample_consts_def)

text \<open>C29. After any sequence of registrations of valid interfaces, a codec id belongs to the interface that had it before,
  or else to the first of the sequence with that id, and the lookup finds exactly this interface.\<close>

theorem intf_first_come:
  assumes "intfs_ok C d" and "\<forall>(k, a)\<in>set kas. intf_for C d k a"
  shows "\<exists>d'. chain (\<lambda>(k, a). add_intf C k a) kas d = Some d' \<and> intfs_ok C d' \<and>
    (\<forall>k. msm_ext_disp_get_intf_data d' (Some k) =
      Some (if (map_of kas ++ codec_map d) k = None then - ENODEV else 0, (map_of kas ++ codec_map d) k))"
proof -
  obtain d' where d': "chain (\<lambda>(k, a). add_intf C k a) kas d = Some d'" "intfs_ok C d'" "codec_map d' = map_of kas ++ codec_map d"
    using disp_registry.first_come [OF assms] by blast
  show ?thesis using d' get_intf_data [OF d'(2)] by (intro exI [of _ d']) simp
qed

theorem intf_first_come_witness:
  "\<exists>d'. chain (\<lambda>(k, a). add_intf sample_consts k a) [(codec_no 0, 1), (codec_no 1, 2), (codec_no 0, 3)] probed_disp = Some d' \<and>
     msm_ext_disp_get_intf_data d' (Some (codec_no 0)) = Some (0, Some 1)"
proof -
  have ok: "intfs_ok sample_consts probed_disp" by (simp add: intfs_ok_def disp_sample_defs)
  have cm: "codec_map probed_disp = Map.empty" by (simp add: codec_map_def disp_sample_defs fun_eq_iff)
  show ?thesis
    using intf_first_come [OF ok, of "[(codec_no 0, 1), (codec_no 1, 2), (codec_no 0, 3)]"] sample_intfs
    by (auto simp: cm codec_no_def)
qed

text \<open>The order of the two calls at a hot plug does not matter.\<close>

definition cable_enum_ok :: "disp_consts \<Rightarrow> bool" where
  "cable_enum_ok C \<longleftrightarrow> CABLE_DISCONNECT C \<le> CABLE_CONNECT C \<and> CABLE_CONNECT C < CABLE_STATE_MAX C \<and> CABLE_CONNECT C \<noteq> 0"

text \<open>What a connection with a codec leaves behind: the operations of the interface in the codec's structure, and
  the extcon device set.\<close>

lemma update_ops_registered:
  assumes "intfs_ok C d" and "codec_map d k = Some a" and "ed_intfs d a = Some i" and "ed_ops d \<noteq> None"
  shows "msm_ext_disp_update_audio_ops d k = Some (d\<lparr>ed_ops := Some (in_codec_ops i), ed_current_codec := k,
    ed_intf_pdev := in_pdev i, ed_intf_data := in_intf_data i\<rparr>, 0)"
  using assms(2-) by (simp add: msm_ext_disp_update_audio_ops_def get_intf_data [OF assms(1)])

lemma update_ops_unknown:
  "intfs_ok C d \<Longrightarrow> codec_map d k = None \<Longrightarrow> msm_ext_disp_update_audio_ops d k = Some (d, - ENODEV)"
  by (simp add: msm_ext_disp_update_audio_ops_def get_intf_data)

text \<open>C30. An interface that connects before the audio codec has registered loses nothing: its selection fails with
  \<open>-EINVAL\<close>, but the registration of the codec then leaves exactly the state that registering first, and selecting
  and notifying the connection afterwards, would leave; it adds one call of the interface's \<open>ready\<close>, for the codec
  missed the notification.\<close>

theorem connect_order:
  assumes ok: "disp_ok C d" and enum: "cable_enum_ok C"
    and fresh: "ed_ops d = None" "\<not> ed_update_audio d" "ci_type (ed_current_codec d) = TYPE_MAX C"
    and a: "codec_map d k = Some a" "ed_intfs d a = Some i" and k: "0 \<le> ci_stream_id k"
  shows "\<exists>d1 d2 d3 d4 ret.
    msm_ext_disp_audio_config C True (Some k) (CABLE_CONNECT C) (Some d) = Some (Some d1, - EINVAL) \<and>
    msm_ext_disp_register_audio_codec C X True (Some ops) (Some d1) =
      Some (Some (d4\<lparr>ed_ready_calls := ed_ready_calls d4 @ [op_ready (in_codec_ops i)]\<rparr>), 0) \<and>
    msm_ext_disp_register_audio_codec C X True (Some ops) (Some d) = Some (Some d2, 0) \<and>
    msm_ext_disp_audio_config C True (Some k) (CABLE_CONNECT C) (Some d2) = Some (Some d3, 0) \<and>
    msm_ext_disp_audio_notify C X True (Some k) (CABLE_CONNECT C) (Some d3) = Some (Some d4, ret)"
proof -
  have iok: "intfs_ok C d" using ok by (rule disp_okD)
  obtain i' where "ed_intfs d a = Some i'" "valid_intf C i'" "in_codec i' = k" using codec_map_data [OF iok a(1)] by blast
  then have i: "valid_intf C i" "in_codec i = k" using a(2) by auto
  have range: "codec_in_range C k" using k valid_intf_fields [OF i(1)] i(2) by (simp add: codec_in_range_def)
  have type: "ci_type k < TYPE_MAX C" "op_ready (in_codec_ops i) \<noteq> 0" using valid_intf_fields [OF i(1)] i(2) by auto
  have zero: "ci_ctrl_id k = 0" using i by (auto simp: valid_intf_def msm_ext_disp_validate_intf_def split: if_splits)
  have val: "msm_ext_disp_validate_and_get C True (Some k) (CABLE_CONNECT C) (Some e) = Inr e" for e :: "'a ext_disp"
    using enum range type zero by (simp add: msm_ext_disp_validate_and_get_def cable_enum_ok_def codec_in_range_def not_le)
  let ?d1 = "d\<lparr>ed_update_audio := True, ed_current_codec := k\<rparr>"
  let ?d2 = "d\<lparr>ed_ops := Some ops\<rparr>"
  let ?d3 = "d\<lparr>ed_ops := Some (in_codec_ops i), ed_current_codec := k, ed_intf_pdev := in_pdev i, ed_intf_data := in_intf_data i\<rparr>"
  have ok2: "intfs_ok C ?d2" "codec_map ?d2 = codec_map d" using iok intfs_ok_cong [of ?d2 d] by simp_all
  have s1: "msm_ext_disp_audio_config C True (Some k) (CABLE_CONNECT C) (Some d) = Some (Some ?d1, - EINVAL)"
    using fresh by (simp add: msm_ext_disp_audio_config_def val msm_ext_disp_select_audio_codec_def)
  have s2: "msm_ext_disp_register_audio_codec C X True (Some ops) (Some d) = Some (Some ?d2, 0)"
    using fresh by (simp add: msm_ext_disp_register_audio_codec_def Let_def)
  have s3: "msm_ext_disp_audio_config C True (Some k) (CABLE_CONNECT C) (Some ?d2) = Some (Some ?d3, 0)"
    using a update_ops_registered [OF ok2(1), of k a i] ok2(2)
    by (simp add: msm_ext_disp_audio_config_def val msm_ext_disp_select_audio_codec_def)
  obtain d4 ret where p: "msm_ext_disp_process_audio X ?d3 k (CABLE_CONNECT C) = Some (d4, ret)"
    using process_audio_some [of ?d3 C k X "CABLE_CONNECT C"] disp_okD(2) [OF ok] range by auto
  have s4: "msm_ext_disp_audio_notify C X True (Some k) (CABLE_CONNECT C) (Some ?d3) = Some (Some d4, ret)"
    by (simp add: msm_ext_disp_audio_notify_def val p)
  let ?e = "?d1\<lparr>ed_ops := Some ops, ed_update_audio := False\<rparr>"
  have oke: "intfs_ok C ?e" "codec_map ?e = codec_map d" using iok intfs_ok_cong [of ?e d] by simp_all
  have "d\<lparr>ed_update_audio := False\<rparr> = d" using fresh(2) by simp
  then have "?e\<lparr>ed_ops := Some (in_codec_ops i), ed_current_codec := k, ed_intf_pdev := in_pdev i, ed_intf_data := in_intf_data i\<rparr> = ?d3"
    by simp
  then have u: "msm_ext_disp_update_audio_ops ?e k = Some (?d3, 0)"
    using a update_ops_registered [OF oke(1), of k a i] oke(2) by simp
  obtain e where e: "d4 = ?d3\<lparr>ed_extcon := e\<rparr>" using process_audio_frame [OF p] by blast
  have ok4: "intfs_ok C d4" "codec_map d4 = codec_map d" using iok e intfs_ok_cong [of d4 d] by simp_all
  have d4: "ed_current_codec d4 = k" "ed_intfs d4 = ed_intfs d" "ed_ops d4 = Some (in_codec_ops i)" using e by simp_all
  have "msm_ext_disp_ready_for_display d4 =
      Some (d4\<lparr>ed_ops := Some (in_codec_ops i), ed_ready_calls := ed_ready_calls d4 @ [op_ready (in_codec_ops i)]\<rparr>)"
    using a type d4 ok4(2) by (simp add: msm_ext_disp_ready_for_display_def get_intf_data [OF ok4(1)])
  then have rd: "msm_ext_disp_ready_for_display d4 = Some (d4\<lparr>ed_ready_calls := ed_ready_calls d4 @ [op_ready (in_codec_ops i)]\<rparr>)"
    using e by simp
  have "msm_ext_disp_register_audio_codec C X True (Some ops) (Some ?d1) =
      Some (Some (d4\<lparr>ed_ready_calls := ed_ready_calls d4 @ [op_ready (in_codec_ops i)]\<rparr>), 0)"
    using fresh type u p rd d4(1) by (simp add: msm_ext_disp_register_audio_codec_def Let_def)
  with s1 s2 s3 s4 show ?thesis by blast
qed

theorem connect_order_witness:
  "\<exists>d1 d4.
    msm_ext_disp_audio_config sample_consts True (Some (codec_no 0)) 1 (Some one_intf_disp) = Some (Some d1, - EINVAL) \<and>
    msm_ext_disp_register_audio_codec sample_consts sample_extcon True (Some zero_ops) (Some d1) =
      Some (Some (d4\<lparr>ed_ready_calls := ed_ready_calls d4 @ [7]\<rparr>), 0)"
proof -
  have ok: "disp_ok sample_consts one_intf_disp" by (rule disp_reachable_ok [OF one_intf_reachable])
  have cm: "codec_map one_intf_disp (codec_no 0) = Some 1" by (simp add: codec_map_def disp_sample_defs)
  show ?thesis
    using connect_order [OF ok _ _ _ _ cm, of "(sample_intf 0)\<lparr>in_audio_config := True, in_audio_notify := True\<rparr>"
        sample_extcon zero_ops]
    by (force simp: cable_enum_ok_def disp_sample_defs)
qed

text \<open>C31. \<open>msm_ext_disp_select_audio_codec\<close> does not check the stream id as \<open>msm_ext_disp_audio_config\<close> does: a selection out of
  range before the codec has registered is remembered, and the registration of the codec then reads beyond the
  end of \<open>audio_sdev\<close>.\<close>

theorem select_codec_unchecked:
  assumes ok: "disp_ok C d" and "ed_ops d = None" and k: "MAX_CODECS C \<le> ci_stream_id k"
  shows "msm_ext_disp_audio_config C True (Some k) st (Some d) = Some (Some d, - EINVAL) \<and>
    (\<exists>d'. msm_ext_disp_select_audio_codec True (Some k) (Some d) = Some (Some d', - EINVAL) \<and>
      msm_ext_disp_register_audio_codec C X True (Some ops) (Some d') = None)"
proof -
  let ?d = "d\<lparr>ed_update_audio := True, ed_current_codec := k\<rparr>"
  let ?e = "?d\<lparr>ed_ops := Some ops, ed_update_audio := False\<rparr>"
  have oke: "intfs_ok C ?e" "codec_map ?e = codec_map d" using disp_okD(1) [OF ok] intfs_ok_cong [of ?e d] by simp_all
  have "codec_map d k = None"
  proof (rule ccontr)
    assume "codec_map d k \<noteq> None"
    then obtain a i where "valid_intf C i" "in_codec i = k" using codec_map_data [OF disp_okD(1) [OF ok]] by blast
    then show False using valid_intf_fields [of C i] k by simp
  qed
  then have "msm_ext_disp_update_audio_ops ?e k = Some (?e, - ENODEV)"
    using update_ops_unknown [OF oke(1)] oke(2) by metis
  moreover have "\<not> nat (ci_stream_id k) < length (ed_audio_sdev d)" using disp_okD(2) [OF ok] k by (simp add: nat_le_eq_zle)
  then have "msm_ext_disp_process_audio X ?e k (CABLE_CONNECT C) = None"
    by (simp add: msm_ext_disp_process_audio_def fetch_def)
  ultimately have "msm_ext_disp_register_audio_codec C X True (Some ops) (Some ?d) = None"
    using assms(2) by (simp add: msm_ext_disp_register_audio_codec_def Let_def)
  moreover have "msm_ext_disp_select_audio_codec True (Some k) (Some d) = Some (Some ?d, - EINVAL)"
    using assms(2) by (simp add: msm_ext_disp_select_audio_codec_def)
  moreover have "msm_ext_disp_audio_config C True (Some k) st (Some d) = Some (Some d, - EINVAL)"
    using k by (simp add: msm_ext_disp_audio_config_def msm_ext_disp_validate_and_get_def)
  ultimately show ?thesis by blast
qed

theorem select_codec_unchecked_witness:
  "\<exists>d'. msm_ext_disp_select_audio_codec True (Some (codec_no 2)) (Some one_intf_disp) = Some (Some d', - EINVAL) \<and>
    msm_ext_disp_register_audio_codec sample_consts sample_extcon True (Some zero_ops) (Some d') = None"
  using select_codec_unchecked [OF disp_reachable_ok [OF one_intf_reachable], of "codec_no 2"]
  by (simp add: disp_sample_defs)

end
