(* ===== verification/SpecSync.thy ===== *)
theory SpecSync
  imports KernelCalls HwfInterfaces
begin

text \<open>
  The speculative-fence driver \<open>qcom_sync_file.c\<close>: it makes fence arrays whose children are one dummy fence, and
  later binds them to the real fences. \<open>sync_device\<close> is the driver's structure with the memory its pointers lead
  to. A fence is an address, and a fence array has the address of its base fence, so that \<open>container_of\<close> is the
  identity. What the functions of the kernel answer is an argument; that they were called, in which order, is
  the log \<open>kcalls\<close>. A function that goes through a bad pointer is \<open>None\<close>. Mutexes and spinlocks are left out, and the
  build has \<open>CONFIG_DEBUG_FS\<close>.
\<close>

section \<open>Data\<close>

definition FENCE_MIN :: u32 where "FENCE_MIN = 1"
definition FENCE_MAX :: u32 where "FENCE_MAX = 32"
definition NAME_LEN :: nat where "NAME_LEN = 32"
definition DRV_VERSION :: u32 where "DRV_VERSION = 1"
definition MAX_DEVICE_SUPPORTED :: int where "MAX_DEVICE_SUPPORTED = 2"
definition DUMMY_CONTEXT :: u64 where "DUMMY_CONTEXT = 0xfafadadafafadada"
definition DUMMY_SEQNO :: u64 where "DUMMY_SEQNO = 0xefa9ce00efa9ce00"
definition SPEC_FENCE_SIGNAL_ALL :: u32 where "SPEC_FENCE_SIGNAL_ALL = 0x2"

record fence_bind_data =
  bd_out_bind_fd :: u32
  bd_fds :: u64

record fence_create_data =
  cd_num_fences :: u32
  cd_flags :: u32
  cd_out_bind_fd :: u32

text \<open>The fields of \<open>struct dma_fence_array\<close> that the driver touches; \<open>fa_fences\<close> is \<open>None\<close> for a NULL pointer.\<close>

record fence_array =
  fa_num_fences :: u32
  fa_fences :: "nat list option"
  fa_num_pending :: int
  fa_signal_any :: bool
  fa_enable_signal :: bool
  fa_spec :: bool
  fa_bound :: bool

text \<open>\<open>fence_array_list\<close> has the arrays of the list's nodes, \<open>sd_arrays\<close> the arrays that are allocated, \<open>fence_ids\<close> the
  context and sequence number of every fence.\<close>

record sync_device =
  device_available :: int
  sd_name :: string
  sd_version :: u32
  dummy_fence :: nat
  fence_array_list :: "nat list"
  sd_arrays :: "nat \<Rightarrow> fence_array option"
  fence_ids :: "nat \<Rightarrow> u64 \<times> u64"
  kcalls :: "kcall list"

definition call :: "kcall \<Rightarrow> sync_device \<Rightarrow> sync_device" where
  "call c d = d\<lparr>kcalls := kcalls d @ [c]\<rparr>"

definition set_array :: "nat \<Rightarrow> fence_array \<Rightarrow> sync_device \<Rightarrow> sync_device" where
  "set_array a arr d = d\<lparr>sd_arrays := (sd_arrays d)(a \<mapsto> arr)\<rparr>"

section \<open>The code\<close>

fun find_array :: "nat list \<Rightarrow> nat \<Rightarrow> bool" where
  "find_array [] a = False"
| "find_array (b # bs) a = (if b = a then True else find_array bs a)"

definition sanitize_fence_array :: "sync_device \<Rightarrow> nat \<Rightarrow> bool" where
  "sanitize_fence_array d a = find_array (fence_array_list d) a"

text \<open>One round of the loop; \<open>signaled\<close> is the kernel's answer for every fence.\<close>

definition clear_node :: "bool \<Rightarrow> (nat \<Rightarrow> bool) \<Rightarrow> nat \<Rightarrow> sync_device \<Rightarrow> sync_device option" where
  "clear_node force_clear signaled a d = do {
     arr \<leftarrow> sd_arrays d a;
     let is_signaled = signaled a;
     let arr = (if force_clear \<and> fa_fences arr = None then arr\<lparr>fa_num_fences := 0\<rparr> else arr);
     let dec = (force_clear \<and> \<not> is_signaled);
     let arr = (if dec then arr\<lparr>fa_num_pending := fa_num_pending arr - 1\<rparr> else arr);
     let d = set_array a arr d;
     let d = (if dec \<and> fa_num_pending arr = 0 then call (FenceSignal a) d else d);
     Some (if force_clear \<or> is_signaled
       then (call (FencePut a) d)\<lparr>fence_array_list := remove1 a (fence_array_list d)\<rparr> else d)
   }"

definition clear_fence_array_tracker :: "bool \<Rightarrow> (nat \<Rightarrow> bool) \<Rightarrow> sync_device \<Rightarrow> sync_device option" where
  "clear_fence_array_tracker force_clear signaled d = chain (clear_node force_clear signaled) (fence_array_list d) d"

definition spec_fence_init_locked :: "sync_device \<Rightarrow> string \<Rightarrow> sync_device option" where
  "spec_fence_init_locked d name =
     (if MAX_DEVICE_SUPPORTED \<le> device_available d then None
      else let d = (if device_available d = 0 then d\<lparr>sd_name := take (NAME_LEN - 1) name\<rparr> else d)
        in Some (d\<lparr>device_available := device_available d + 1\<rparr>))"

definition spec_sync_open :: "bool \<Rightarrow> bool \<Rightarrow> bool \<Rightarrow> string \<Rightarrow> sync_device \<Rightarrow> sync_device \<times> int" where
  "spec_sync_open inode i_cdev file task_comm d =
     (if \<not> inode \<or> \<not> i_cdev \<or> \<not> file then (d, - EINVAL)
      else case spec_fence_init_locked d task_comm of
        None \<Rightarrow> (d, - EEXIST)
      | Some d \<Rightarrow> (d, 0))"

definition spec_sync_release :: "(nat \<Rightarrow> bool) \<Rightarrow> sync_device \<Rightarrow> (sync_device \<times> int) option" where
  "spec_sync_release signaled d =
     (if device_available d = 0 then Some (d, - ENODEV)
      else do {
        let d = d\<lparr>device_available := device_available d - 1\<rparr>;
        d \<leftarrow> (if device_available d = 0 then clear_fence_array_tracker True signaled d else Some d);
        Some (d, 0)
      })"

text \<open>\<open>copy\<close> says whether the copy to the user's memory succeeds; the second result is what arrives there.\<close>

definition spec_sync_ioctl_get_ver :: "bool \<Rightarrow> sync_device \<Rightarrow> u32 option \<times> int" where
  "spec_sync_ioctl_get_ver copy d = (if \<not> copy then (None, - EFAULT) else (Some (sd_version d), 0))"

text \<open>What the kernel answers while an array is created: the file descriptor; whether the memory for the
  children is there; the new array, if any, and how many signals it waits for; the new file, if any; and
  whether the memory for the list node is there.\<close>

record create_answers =
  an_fd :: int
  an_fences :: bool
  an_array :: "nat option"
  an_pending :: int
  an_file :: "nat option"
  an_node :: bool

definition dummy_gets :: "nat \<Rightarrow> sync_device \<Rightarrow> sync_device" where
  "dummy_gets n d = d\<lparr>kcalls := kcalls d @ replicate n (FenceGet (dummy_fence d))\<rparr>"

definition dummy_puts :: "nat \<Rightarrow> sync_device \<Rightarrow> sync_device" where
  "dummy_puts n d = d\<lparr>kcalls := kcalls d @ replicate n (FencePut (dummy_fence d))\<rparr>"

definition spec_sync_create_array :: "create_answers \<Rightarrow> fence_create_data \<Rightarrow> sync_device \<Rightarrow> sync_device \<times> int" where
  "spec_sync_create_array K f d =
     (let fd = an_fd K; n = unat (cd_num_fences f) in
      if fd < 0 then (d, fd)
      else if cd_num_fences f < FENCE_MIN \<or> FENCE_MAX < cd_num_fences f then (call (PutUnusedFd fd) d, - ERANGE)
      else if \<not> an_fences K then (call (PutUnusedFd fd) d, - ENOMEM)
      else
        let fences = replicate n (dummy_fence d);
            d = dummy_gets n d;
            signal_any = (cd_flags f AND SPEC_FENCE_SIGNAL_ALL = 0)
        in (case an_array K of
          None \<Rightarrow> (call (PutUnusedFd fd) (dummy_puts n d), - EINVAL)
        | Some a \<Rightarrow>
            let d = set_array a \<lparr>fa_num_fences = cd_num_fences f, fa_fences = Some fences, fa_num_pending = an_pending K,
                  fa_signal_any = signal_any, fa_enable_signal = True, fa_spec = True, fa_bound = False\<rparr> d
            in (case an_file K of
              None \<Rightarrow> (call (PutUnusedFd fd) (call (FencePut a) d), - EINVAL)
            | Some file \<Rightarrow>
                if \<not> an_node K then (call (PutUnusedFd fd) (call (FencePut a) (call (Fput file) d)), - ENOMEM)
                else ((call (FdInstall fd file) d)\<lparr>fence_array_list := fence_array_list d @ [a]\<rparr>, fd))))"

text \<open>\<open>arg\<close> is the user's structure, if it can be read, and \<open>copy\<close> says whether it can be written.\<close>

definition spec_sync_ioctl_create_fence ::
  "create_answers \<Rightarrow> bool \<Rightarrow> fence_create_data option \<Rightarrow> sync_device \<Rightarrow> sync_device \<times> fence_create_data option \<times> int" where
  "spec_sync_ioctl_create_fence K copy arg d = (case arg of
       None \<Rightarrow> (d, None, - EFAULT)
     | Some f \<Rightarrow> (case spec_sync_create_array K f d of (d, fd) \<Rightarrow>
         if fd < 0 then (d, None, fd)
         else if \<not> copy then (d, None, - EFAULT)
         else (d, Some (f\<lparr>cd_out_bind_fd := word_of_int fd\<rparr>), 0)))"

text \<open>\<open>wait\<close> is the kernel's answer to \<open>wait_event_timeout\<close>, 0 when the time is over.\<close>

definition spec_sync_wait_bind_array :: "(u32 \<Rightarrow> int) \<Rightarrow> nat option \<Rightarrow> u32 \<Rightarrow> sync_device \<Rightarrow> int option" where
  "spec_sync_wait_bind_array wait fence_array timeout_ms d = (case fence_array of
       None \<Rightarrow> Some (- EINVAL)
     | Some a \<Rightarrow> do {
         arr \<leftarrow> sd_arrays d a;
         Some (if \<not> fa_spec arr then - EINVAL
           else if fa_bound arr then 0
           else if wait timeout_ms = 0 then - ETIMEDOUT else 0)
       })"

subsection \<open>Binding\<close>

text \<open>The check that all children are dummy fences still.\<close>

definition is_dummy :: "sync_device \<Rightarrow> nat \<Rightarrow> bool" where
  "is_dummy d fence \<longleftrightarrow> fst (fence_ids d fence) = DUMMY_CONTEXT \<and> snd (fence_ids d fence) = DUMMY_SEQNO"

fun all_dummies :: "sync_device \<Rightarrow> nat list \<Rightarrow> nat list \<Rightarrow> bool option" where
  "all_dummies d fences [] = Some True"
| "all_dummies d fences (i # is) = do {
     fence \<leftarrow> fetch fences i;
     if is_dummy d fence then all_dummies d fences is else Some False
   }"

text \<open>The loop over the user's descriptors; \<open>file\<close> says which fence a descriptor stands for, and looking one up takes
  a reference. The result has 0, or the error of the first descriptor without a fence.\<close>

fun bind_fences :: "(int \<Rightarrow> nat option) \<Rightarrow> nat \<Rightarrow> int list \<Rightarrow> nat list \<Rightarrow> sync_device \<Rightarrow> (sync_device \<times> int) option" where
  "bind_fences file a user_fds [] d = Some (d, 0)"
| "bind_fences file a user_fds (i # is) d = do {
     fd \<leftarrow> fetch user_fds i;
     (case file fd of
        None \<Rightarrow> Some (d, - EINVAL)
      | Some user_fence \<Rightarrow> do {
          arr \<leftarrow> sd_arrays d a;
          fences \<leftarrow> fa_fences arr;
          if length fences \<le> i then None
          else bind_fences file a user_fds is
            (call (FencePut (dummy_fence d)) (set_array a (arr\<lparr>fa_fences := Some (fences[i := user_fence])\<rparr>) (call (FenceGet user_fence) d)))
        })
   }"

text \<open>What the kernel answers while an array is bound: the fence of a descriptor; whether a fence is signaled, at
  the beginning and when the tracker is cleared; whether there is memory; and the descriptors that the user's
  pointer leads to, if they can be read.\<close>

record bind_answers =
  bn_file :: "int \<Rightarrow> nat option"
  bn_signaled :: "nat \<Rightarrow> bool"
  bn_signaled_after :: "nat \<Rightarrow> bool"
  bn_alloc :: bool
  bn_user_fds :: "int list option"

definition update_array :: "nat \<Rightarrow> (fence_array \<Rightarrow> fence_array) \<Rightarrow> sync_device \<Rightarrow> sync_device option" where
  "update_array a g d = map_option (\<lambda>arr. set_array a (g arr) d) (sd_arrays d a)"

text \<open>What comes after the loop.\<close>

definition finish_bind :: "bind_answers \<Rightarrow> nat \<Rightarrow> int \<Rightarrow> sync_device \<Rightarrow> (sync_device \<times> int) option" where
  "finish_bind K a ret d = do {
     d \<leftarrow> (if ret = 0 then do {
         d \<leftarrow> update_array a (\<lambda>arr. arr\<lparr>fa_enable_signal := False\<rparr>) d;
         clear_fence_array_tracker False (bn_signaled_after K) (call (EnableSwSignaling a) d)
       } else Some d);
     d \<leftarrow> update_array a (\<lambda>arr. arr\<lparr>fa_bound := True\<rparr>) d;
     let d = call WakeUpAll d;
     d \<leftarrow> (if ret \<noteq> 0
       then clear_fence_array_tracker False (bn_signaled_after K) (call (FenceSignal a) (call (FenceSetError a (- EINVAL)) d))
       else Some d);
     Some (call (FencePut a) d, ret)
   }"

definition spec_sync_bind_array :: "bind_answers \<Rightarrow> fence_bind_data \<Rightarrow> sync_device \<Rightarrow> (sync_device \<times> int) option" where
  "spec_sync_bind_array K info d = (case bn_file K (sint (bd_out_bind_fd info)) of
       None \<Rightarrow> Some (d, - EINVAL)
     | Some a \<Rightarrow>
         let d = call (FenceGet a) d in
         if bn_signaled K a then Some (call (FencePut a) d, - EINVAL)
         else if \<not> sanitize_fence_array d a then Some (call (FencePut a) d, - EINVAL)
         else do {
           arr \<leftarrow> sd_arrays d a;
           let num_fences = unat (fa_num_fences arr);
           dummies \<leftarrow> (if num_fences = 0 then Some True else do {
             fences \<leftarrow> fa_fences arr;
             all_dummies d fences [0..<num_fences]
           });
           if \<not> dummies then Some (call (FencePut a) d, - EINVAL)
           else if \<not> bn_alloc K then Some (call (FencePut a) d, - ENOMEM)
           else (case bn_user_fds K of
             None \<Rightarrow> Some (call (FencePut a) d, - EFAULT)
           | Some user_fds \<Rightarrow> do {
               (d, ret) \<leftarrow> bind_fences (bn_file K) a user_fds [0..<num_fences] d;
               finish_bind K a ret d
             })
         })"

text \<open>The test for a negative descriptor compares an unsigned number with 0.\<close>

definition spec_sync_ioctl_bind :: "bind_answers \<Rightarrow> fence_bind_data option \<Rightarrow> sync_device \<Rightarrow> (sync_device \<times> int) option" where
  "spec_sync_ioctl_bind K arg d = (case arg of
       None \<Rightarrow> Some (d, - EFAULT)
     | Some info \<Rightarrow>
         if bd_out_bind_fd info < 0 then Some (d, - EINVAL)
         else spec_sync_bind_array K info d)"

text \<open>The numbers of the three commands are computed by macros of the kernel.\<close>

record sync_commands =
  SPEC_SYNC_IOC_BIND :: u32
  SPEC_SYNC_IOC_CREATE_FENCE :: u32
  SPEC_SYNC_IOC_GET_VER :: u32

datatype user_out = NoOut | CreateOut fence_create_data | VersionOut u32

definition spec_sync_ioctl ::
  "sync_commands \<Rightarrow> create_answers \<Rightarrow> bind_answers \<Rightarrow> bool \<Rightarrow> u32 \<Rightarrow> fence_create_data option \<Rightarrow> fence_bind_data option
    \<Rightarrow> sync_device \<Rightarrow> (sync_device \<times> user_out \<times> int) option" where
  "spec_sync_ioctl N Kc Kb copy cmd create_arg bind_arg d =
     (if cmd = SPEC_SYNC_IOC_CREATE_FENCE N then
        (case spec_sync_ioctl_create_fence Kc copy create_arg d of (d, out, ret) \<Rightarrow>
          Some (d, (case out of None \<Rightarrow> NoOut | Some f \<Rightarrow> CreateOut f), ret))
      else if cmd = SPEC_SYNC_IOC_BIND N then
        map_option (\<lambda>(d, ret). (d, NoOut, ret)) (spec_sync_ioctl_bind Kb bind_arg d)
      else if cmd = SPEC_SYNC_IOC_GET_VER N then
        (case spec_sync_ioctl_get_ver copy d of (out, ret) \<Rightarrow>
          Some (d, (case out of None \<Rightarrow> NoOut | Some v \<Rightarrow> VersionOut v), ret))
      else Some (d, NoOut, - ENOTTY))"

subsection \<open>Loading and unloading\<close>

text \<open>What the kernel answers at the six steps of the registration: success of each.\<close>

record register_answers =
  rn_class :: bool
  rn_chrdev :: int
  rn_device :: bool
  rn_cdev :: bool
  rn_cdev_add :: int
  rn_dummy :: "nat option"

text \<open>The labels at the end, from a label on.\<close>

definition undo :: "kcall list \<Rightarrow> sync_device \<Rightarrow> sync_device" where
  "undo cs d = d\<lparr>kcalls := kcalls d @ cs\<rparr>"

definition spec_sync_register_device :: "register_answers \<Rightarrow> sync_device \<Rightarrow> sync_device \<times> int" where
  "spec_sync_register_device K d =
     (if \<not> rn_class K then (d, - ENODEV)
      else if rn_chrdev K \<noteq> 0 then (undo [ClassDestroy] d, - ENODEV)
      else if \<not> rn_device K then (undo [UnregisterChrdev, ClassDestroy] d, - ENODEV)
      else if \<not> rn_cdev K then (undo [DeviceDestroy, UnregisterChrdev, ClassDestroy] d, - ENODEV)
      else if rn_cdev_add K \<noteq> 0 then (undo [CdevDel, DeviceDestroy, UnregisterChrdev, ClassDestroy] d, - ENODEV)
      else
        let d = d\<lparr>sd_version := DRV_VERSION, fence_array_list := []\<rparr> in
        (case rn_dummy K of
          None \<Rightarrow> (undo [CdevDel, DeviceDestroy, UnregisterChrdev, ClassDestroy] d, - ENODEV)
        | Some p \<Rightarrow> (d\<lparr>dummy_fence := p, fence_ids := (fence_ids d)(p := (DUMMY_CONTEXT, DUMMY_SEQNO))\<rparr>, 0)))"

definition spec_sync_init :: "register_answers \<Rightarrow> sync_device \<Rightarrow> sync_device \<times> int" where
  "spec_sync_init K d = spec_sync_register_device K d"

definition spec_sync_deinit :: "sync_device \<Rightarrow> sync_device" where
  "spec_sync_deinit d = call (FencePut (dummy_fence d)) (undo [CdevDel, DeviceDestroy, UnregisterChrdev, ClassDestroy] d)"


section \<open>The references of the dummy fence\<close>

text \<open>The children of an array, and how many of them are the dummy fence.\<close>

definition shape :: "sync_device \<Rightarrow> nat \<Rightarrow> (nat list option \<times> u32) option" where
  "shape d a = map_option (\<lambda>arr. (fa_fences arr, fa_num_fences arr)) (sd_arrays d a)"

definition held :: "sync_device \<Rightarrow> nat \<Rightarrow> nat" where
  "held d a = (case shape d a of Some (Some fs, _) \<Rightarrow> count_list fs (dummy_fence d) | _ \<Rightarrow> 0)"

definition dummy_got :: "sync_device \<Rightarrow> nat" where
  "dummy_got d = count_list (kcalls d) (FenceGet (dummy_fence d))"

definition dummy_put :: "sync_device \<Rightarrow> nat" where
  "dummy_put d = count_list (kcalls d) (FencePut (dummy_fence d))"

definition dummies :: "sync_device \<Rightarrow> nat" where
  "dummies d = (\<Sum>a\<in>dom (shape d). held d a)"

text \<open>
  The invariant: every allocated array has as many children as it says, the tracker lists allocated arrays and
  none twice, at most two devices are open, and of the references of the dummy fence, those taken and not given
  back are exactly those that its places in arrays stand for.
\<close>

definition sync_ok :: "sync_device \<Rightarrow> bool" where
  "sync_ok d \<longleftrightarrow> finite (dom (shape d)) \<and>
     (\<forall>a x n. shape d a = Some (x, n) \<longrightarrow> (\<exists>fs. x = Some fs \<and> length fs = unat n)) \<and>
     distinct (fence_array_list d) \<and> set (fence_array_list d) \<subseteq> dom (shape d) \<and>
     0 \<le> device_available d \<and> device_available d \<le> MAX_DEVICE_SUPPORTED \<and>
     shape d (dummy_fence d) = None \<and> (\<forall>f. is_dummy d f \<longleftrightarrow> f = dummy_fence d) \<and>
     dummy_put d + dummies d = dummy_got d"

lemma call_fields [simp]:
  "sd_arrays (call c d) = sd_arrays d" "fence_array_list (call c d) = fence_array_list d" "kcalls (call c d) = kcalls d @ [c]"
  "dummy_fence (call c d) = dummy_fence d" "device_available (call c d) = device_available d" "fence_ids (call c d) = fence_ids d"
  "shape (call c d) = shape d"
  by (simp_all add: call_def shape_def fun_eq_iff)

lemma shape_dom: "dom (shape d) = dom (sd_arrays d)"
  by (auto simp: shape_def dom_def)

text \<open>A change that keeps the children of all arrays, and neither takes nor gives references of the dummy fence.\<close>

lemma sync_ok_frame:
  assumes "sync_ok d" and "shape d' = shape d" and "dummy_fence d' = dummy_fence d" and "fence_ids d' = fence_ids d"
    and "distinct (fence_array_list d')" and "set (fence_array_list d') \<subseteq> dom (shape d)"
    and "0 \<le> device_available d'" and "device_available d' \<le> MAX_DEVICE_SUPPORTED"
    and refs: "dummy_put d' + dummy_got d = dummy_got d' + dummy_put d"
  shows "sync_ok d'"
proof -
  have "dummies d' = dummies d" unfolding dummies_def held_def assms(2,3) ..
  with refs assms(1) have "dummy_put d' + dummies d' = dummy_got d'" by (simp add: sync_ok_def)
  with assms(1-8) show ?thesis unfolding sync_ok_def is_dummy_def by (simp only:) blast
qed

lemma sync_ok_call:
  assumes "sync_ok d" and "c \<noteq> FenceGet (dummy_fence d)" and "c \<noteq> FencePut (dummy_fence d)"
  shows "sync_ok (call c d)"
  using assms by (intro sync_ok_frame [OF assms(1)]) (simp_all add: dummy_got_def dummy_put_def sync_ok_def)

lemma sync_okD:
  assumes "sync_ok d"
  shows "distinct (fence_array_list d)" "set (fence_array_list d) \<subseteq> dom (sd_arrays d)" "sd_arrays d (dummy_fence d) = None"
    "is_dummy d f \<longleftrightarrow> f = dummy_fence d" "0 \<le> device_available d" "device_available d \<le> MAX_DEVICE_SUPPORTED"
  using assms by (auto simp: sync_ok_def shape_dom) (simp add: shape_def)

lemma sync_ok_array:
  assumes "sync_ok d" and "sd_arrays d a = Some arr"
  obtains fs where "fa_fences arr = Some fs" "length fs = unat (fa_num_fences arr)" "a \<noteq> dummy_fence d"
  using assms by (force simp: sync_ok_def shape_def)

subsection \<open>Clearing the tracker\<close>

lemma sanitize_iff: "sanitize_fence_array d a \<longleftrightarrow> a \<in> set (fence_array_list d)"
proof -
  have "find_array bs a \<longleftrightarrow> a \<in> set bs" for bs by (induction bs) auto
  then show ?thesis by (simp add: sanitize_fence_array_def)
qed

lemma clear_node_soft:
  "sd_arrays d a = Some arr \<Longrightarrow> clear_node False signaled a d =
     Some (if signaled a then (call (FencePut a) d)\<lparr>fence_array_list := remove1 a (fence_array_list d)\<rparr> else d)"
  by (simp add: clear_node_def set_array_def Let_def fun_upd_idem)

lemma clear_soft_chain:
  "set as \<subseteq> dom (sd_arrays d) \<Longrightarrow> chain (clear_node False signaled) as d =
     Some (d\<lparr>kcalls := kcalls d @ map FencePut (filter signaled as),
       fence_array_list := fold remove1 (filter signaled as) (fence_array_list d)\<rparr>)"
proof (induction as arbitrary: d)
  case Nil
  then show ?case by simp
next
  case (Cons a as)
  then obtain arr where a: "sd_arrays d a = Some arr" by auto
  let ?d = "if signaled a then (call (FencePut a) d)\<lparr>fence_array_list := remove1 a (fence_array_list d)\<rparr> else d"
  have "set as \<subseteq> dom (sd_arrays ?d)" using Cons.prems by (auto simp: call_def)
  from Cons.IH [OF this] show ?case by (simp add: clear_node_soft [OF a] call_def)
qed

lemma fold_remove1: "distinct xs \<Longrightarrow> fold remove1 ys xs = filter (\<lambda>x. x \<notin> set ys) xs"
proof (induction ys arbitrary: xs)
  case Nil
  then show ?case by simp
next
  case (Cons y ys)
  have "remove1 y xs = filter (\<lambda>x. x \<noteq> y) xs" using Cons.prems by (simp add: distinct_remove1_removeAll removeAll_filter_not_eq eq_commute [of y])
  with Cons show ?case by (auto intro!: filter_cong)
qed

text \<open>Without force, the signaled arrays leave the tracker, and their references are given back.\<close>

lemma clear_soft:
  assumes "distinct (fence_array_list d)" and "set (fence_array_list d) \<subseteq> dom (sd_arrays d)"
  shows "clear_fence_array_tracker False signaled d =
    Some (d\<lparr>kcalls := kcalls d @ map FencePut (filter signaled (fence_array_list d)),
      fence_array_list := filter (\<lambda>a. \<not> signaled a) (fence_array_list d)\<rparr>)"
proof -
  have "filter (\<lambda>x. x \<notin> set (filter signaled (fence_array_list d))) (fence_array_list d) =
    filter (\<lambda>a. \<not> signaled a) (fence_array_list d)" by (rule filter_cong) auto
  then show ?thesis
    unfolding clear_fence_array_tracker_def clear_soft_chain [OF assms(2)] fold_remove1 [OF assms(1)] by simp
qed

lemma clear_node_ok:
  assumes ok: "sync_ok d" and a: "sd_arrays d a \<noteq> None"
  shows "\<exists>d'. clear_node force signaled a d = Some d' \<and> sync_ok d' \<and> shape d' = shape d"
proof -
  obtain arr where arr: "sd_arrays d a = Some arr" using a by auto
  obtain fs where fs: "fa_fences arr = Some fs" "a \<noteq> dummy_fence d" using sync_ok_array [OF ok arr] by metis
  define dec arr1 where "dec = (force \<and> \<not> signaled a)"
    and "arr1 = (if dec then arr\<lparr>fa_num_pending := fa_num_pending arr - 1\<rparr> else arr)"
  define d1 d2 where "d1 = set_array a arr1 d" and "d2 = (if dec \<and> fa_num_pending arr1 = 0 then call (FenceSignal a) d1 else d1)"
  define d3 where "d3 = (call (FencePut a) d2)\<lparr>fence_array_list := remove1 a (fence_array_list d2)\<rparr>"
  have r: "clear_node force signaled a d = Some (if force \<or> signaled a then d3 else d2)"
    using arr fs by (simp add: clear_node_def Let_def dec_def arr1_def d1_def d2_def d3_def)
  have "fa_fences arr1 = fa_fences arr" "fa_num_fences arr1 = fa_num_fences arr" by (simp_all add: arr1_def)
  then have s1: "shape d1 = shape d" using arr by (auto simp: d1_def shape_def set_array_def fun_eq_iff)
  have f1: "dummy_fence d1 = dummy_fence d" "fence_array_list d1 = fence_array_list d" "kcalls d1 = kcalls d"
    "device_available d1 = device_available d" "fence_ids d1 = fence_ids d" by (simp_all add: d1_def set_array_def)
  have ok1: "sync_ok d1"
    by (rule sync_ok_frame [OF ok s1]) (use ok f1 in \<open>simp_all add: sync_ok_def dummy_got_def dummy_put_def\<close>)
  have ok2: "sync_ok d2" "shape d2 = shape d" "dummy_fence d2 = dummy_fence d"
    using ok1 s1 f1 sync_ok_call [OF ok1, of "FenceSignal a"] by (simp_all add: d2_def)
  have ok3: "sync_ok (call (FencePut a) d2)" using sync_ok_call [OF ok2(1), of "FencePut a"] ok2(3) fs(2) by simp
  have s3: "shape d3 = shape d" using ok2(2) by (simp add: d3_def shape_def fun_eq_iff)
  have "sync_ok d3"
  proof (rule sync_ok_frame [OF ok3])
    show "set (fence_array_list d3) \<subseteq> dom (shape (call (FencePut a) d2))"
      using ok2(1) set_remove1_subset [of a "fence_array_list d2"] unfolding sync_ok_def by (auto simp: d3_def)
  qed (use ok2(1) s3 ok2(2) in \<open>simp_all add: d3_def sync_ok_def dummy_got_def dummy_put_def\<close>)
  with r s3 ok2 show ?thesis by simp
qed

lemma clear_ok:
  assumes "sync_ok d"
  shows "\<exists>d'. clear_fence_array_tracker force signaled d = Some d' \<and> sync_ok d' \<and> shape d' = shape d"
proof -
  have "\<exists>d'. chain (clear_node force signaled) as d = Some d' \<and> sync_ok d' \<and> shape d' = shape d"
    if "sync_ok d" "set as \<subseteq> dom (shape d)" for as and d :: sync_device
    using that
  proof (induction as arbitrary: d)
    case Nil
    then show ?case by simp
  next
    case (Cons a as)
    then have "sd_arrays d a \<noteq> None" by (auto simp: shape_dom)
    from clear_node_ok [OF Cons.prems(1) this] obtain d1 where "clear_node force signaled a d = Some d1" "sync_ok d1" "shape d1 = shape d"
      by blast
    with Cons.IH [of d1] Cons.prems(2) show ?case by simp
  qed
  from this [OF assms, of "fence_array_list d"] assms show ?thesis
    unfolding clear_fence_array_tracker_def by (simp add: sync_ok_def)
qed

subsection \<open>Creating\<close>

lemma dummies_superset: "finite S \<Longrightarrow> dom (shape d) \<subseteq> S \<Longrightarrow> dummies d = (\<Sum>a\<in>S. held d a)"
  unfolding dummies_def by (rule sum.mono_neutral_left) (auto simp: held_def domIff split: option.splits)

text \<open>A change of one array, with the references of the dummy fence that go with it.\<close>

lemma sync_ok_update:
  assumes ok: "sync_ok d" and s: "shape d' = (shape d)(a := v)" and v: "\<And>x n. v = Some (x, n) \<Longrightarrow> \<exists>fs. x = Some fs \<and> length fs = unat n"
    and a: "a \<noteq> dummy_fence d" and same: "dummy_fence d' = dummy_fence d" "fence_ids d' = fence_ids d"
      "device_available d' = device_available d"
    and l: "distinct (fence_array_list d')" "set (fence_array_list d') \<subseteq> dom (shape d')"
    and refs: "dummy_put d' + held d' a + dummy_got d = dummy_got d' + held d a + dummy_put d"
  shows "sync_ok d'"
proof -
  have fin: "finite (dom (shape d))" "dummy_put d + dummies d = dummy_got d" using ok by (simp_all add: sync_ok_def)
  let ?S = "insert a (dom (shape d))"
  have sub: "dom (shape d') \<subseteq> ?S" using s by auto
  have S: "finite ?S" using fin(1) by simp
  have other: "held d' b = held d b" if "b \<in> dom (shape d) - {a}" for b
    unfolding held_def s same(1) using that by simp
  have "dummies d' = held d' a + (\<Sum>b\<in>dom (shape d) - {a}. held d' b)"
    unfolding dummies_superset [OF S sub] using fin(1) by (simp add: sum.insert_remove)
  also have "\<dots> = held d' a + (\<Sum>b\<in>dom (shape d) - {a}. held d b)" using other by simp
  finally have d': "dummies d' = held d' a + (\<Sum>b\<in>dom (shape d) - {a}. held d b)" .
  have d: "dummies d = held d a + (\<Sum>b\<in>dom (shape d) - {a}. held d b)"
    unfolding dummies_superset [OF S subset_insertI] using fin(1) by (simp add: sum.insert_remove)
  have bal: "dummy_put d' + dummies d' = dummy_got d'" using refs fin(2) d d' by simp
  have f: "finite (dom (shape d'))" using S sub by (rule finite_subset [rotated])
  have w: "\<exists>fs. x = Some fs \<and> length fs = unat n" if "shape d' b = Some (x, n)" for b x n
    using that s v ok by (cases "b = a") (auto simp: sync_ok_def)
  show ?thesis
    using f w l bal ok a s same unfolding sync_ok_def is_dummy_def by auto
qed

lemma create_array_ok:
  assumes ok: "sync_ok d" and fresh: "\<And>a. an_array K = Some a \<Longrightarrow> sd_arrays d a = None \<and> a \<noteq> dummy_fence d"
  shows "sync_ok (fst (spec_sync_create_array K f d))"
proof -
  let ?n = "unat (cd_num_fences f)"
  let ?p = "call (PutUnusedFd (an_fd K))"
  have put_fd: "sync_ok (?p e)" if "sync_ok e" for e using sync_ok_call [OF that] by simp
  have failed: "sync_ok (dummy_puts ?n (dummy_gets ?n d))"
    by (rule sync_ok_frame [OF ok])
      (use ok in \<open>simp_all add: sync_ok_def dummy_puts_def dummy_gets_def shape_def fun_eq_iff dummy_got_def dummy_put_def count_replicate\<close>)
  show ?thesis
  proof (cases "an_fd K < 0 \<or> cd_num_fences f < FENCE_MIN \<or> FENCE_MAX < cd_num_fences f \<or> \<not> an_fences K \<or> an_array K = None")
    case True
    then show ?thesis using ok put_fd [OF ok] put_fd [OF failed] by (auto simp: spec_sync_create_array_def Let_def)
  next
    case False
    then obtain a where a: "an_array K = Some a" by auto
    define arr where "arr = \<lparr>fa_num_fences = cd_num_fences f, fa_fences = Some (replicate ?n (dummy_fence d)), fa_num_pending = an_pending K,
                  fa_signal_any = (cd_flags f AND SPEC_FENCE_SIGNAL_ALL = 0), fa_enable_signal = True, fa_spec = True, fa_bound = False\<rparr>"
    define d1 where "d1 = set_array a arr (dummy_gets ?n d)"
    have run: "spec_sync_create_array K f d = (case an_file K of
              None \<Rightarrow> (?p (call (FencePut a) d1), - EINVAL)
            | Some file \<Rightarrow>
                if \<not> an_node K then (?p (call (FencePut a) (call (Fput file) d1)), - ENOMEM)
                else ((call (FdInstall (an_fd K) file) d1)\<lparr>fence_array_list := fence_array_list d1 @ [a]\<rparr>, an_fd K))"
      using False a by (simp add: spec_sync_create_array_def Let_def d1_def arr_def dummy_gets_def set_array_def call_def split: option.split)
    have s: "shape d1 = (shape d)(a := Some (Some (replicate ?n (dummy_fence d)), cd_num_fences f))"
      by (auto simp: d1_def arr_def shape_def set_array_def dummy_gets_def fun_eq_iff)
    have old: "shape d a = None" "a \<noteq> dummy_fence d" "a \<notin> set (fence_array_list d)"
      using fresh [OF a] ok by (auto simp: shape_def sync_ok_def)
    have f1: "dummy_fence d1 = dummy_fence d" "fence_ids d1 = fence_ids d" "device_available d1 = device_available d"
      "fence_array_list d1 = fence_array_list d" by (simp_all add: d1_def set_array_def dummy_gets_def)
    have ok1: "sync_ok d1"
    proof (rule sync_ok_update [OF ok s])
      show "dummy_put d1 + held d1 a + dummy_got d = dummy_got d1 + held d a + dummy_put d"
        using s old(1) f1(1) by (simp add: held_def dummy_put_def dummy_got_def d1_def set_array_def dummy_gets_def count_replicate)
      show "set (fence_array_list d1) \<subseteq> dom (shape d1)" using ok s f1(4) by (auto simp: sync_ok_def)
    qed (use f1 old ok in \<open>simp_all add: sync_ok_def\<close>)
    have putA: "sync_ok (call (FencePut a) e)" if "sync_ok e" "dummy_fence e = dummy_fence d" for e
      using sync_ok_call [OF that(1)] that(2) old(2) by simp
    have fput: "sync_ok (call (Fput fl) d1)" "sync_ok (call (FdInstall fd fl) d1)" for fl fd using sync_ok_call [OF ok1] by simp_all
    have last: "sync_ok ((call (FdInstall fd fl) d1)\<lparr>fence_array_list := fence_array_list d1 @ [a]\<rparr>)" for fl fd
    proof (rule sync_ok_frame [OF fput(2)])
      show "set (fence_array_list (call (FdInstall fd fl) d1\<lparr>fence_array_list := fence_array_list d1 @ [a]\<rparr>)) \<subseteq> dom (shape (call (FdInstall fd fl) d1))"
        using ok1 s by (auto simp: sync_ok_def)
    qed (use ok1 old f1 in \<open>simp_all add: sync_ok_def shape_def call_def fun_eq_iff dummy_got_def dummy_put_def\<close>)
    show ?thesis
      unfolding run using put_fd [OF putA [OF ok1 f1(1)]] put_fd [OF putA [OF fput(1)]] last f1(1) by (auto split: option.splits)
  qed
qed

subsection \<open>Binding\<close>

lemma all_dummies_iff:
  "set is \<subseteq> {..<length fences} \<Longrightarrow> all_dummies d fences is = Some (\<forall>i\<in>set is. is_dummy d (fences ! i))"
  by (induction "is") auto

lemma all_dummies_all: "all_dummies d fences [0..<length fences] = Some (\<forall>f\<in>set fences. is_dummy d f)"
  by (subst all_dummies_iff) (auto simp: all_set_conv_all_nth)

text \<open>The descriptors that get bound: those before the first without a fence.\<close>

definition bound_fds :: "(int \<Rightarrow> nat option) \<Rightarrow> int list \<Rightarrow> int list" where
  "bound_fds file fds = takeWhile (\<lambda>fd. file fd \<noteq> None) fds"

definition bind_calls :: "(int \<Rightarrow> nat option) \<Rightarrow> nat \<Rightarrow> int list \<Rightarrow> kcall list" where
  "bind_calls file dummy fds = concat (map (\<lambda>fd. [FenceGet (the (file fd)), FencePut dummy]) fds)"

definition bound_children :: "(int \<Rightarrow> nat option) \<Rightarrow> int list \<Rightarrow> nat list \<Rightarrow> nat list" where
  "bound_children file fds fences = map (\<lambda>fd. the (file fd)) (bound_fds file fds) @ drop (length (bound_fds file fds)) fences"

lemma bind_fences_from:
  assumes "sd_arrays d a = Some arr" and "fa_fences arr = Some fences" and "length fences = length fds" and "i \<le> length fds"
  shows "bind_fences file a fds [i..<length fds] d =
    Some (d\<lparr>sd_arrays := (sd_arrays d)(a \<mapsto> arr\<lparr>fa_fences := Some (take i fences @ bound_children file (drop i fds) (drop i fences))\<rparr>),
      kcalls := kcalls d @ bind_calls file (dummy_fence d) (bound_fds file (drop i fds))\<rparr>,
      if bound_fds file (drop i fds) = drop i fds then 0 else - EINVAL)"
  using assms
proof (induction "length fds - i" arbitrary: i d arr fences)
  case 0
  then show ?case by (simp add: bound_fds_def bind_calls_def bound_children_def fun_upd_idem)
next
  case (Suc k)
  then have i: "i < length fds" "[i..<length fds] = i # [Suc i..<length fds]" by (simp_all add: upt_conv_Cons)
  have step: "drop i fds = fds ! i # drop (Suc i) fds" "drop i fences = fences ! i # drop (Suc i) fences"
    using i(1) Suc.prems(3) by (simp_all add: Cons_nth_drop_Suc)
  show ?case
  proof (cases "file (fds ! i)")
    case None
    have same: "(sd_arrays d)(a \<mapsto> arr\<lparr>fa_fences := Some (take i fences @ drop i fences)\<rparr>) = sd_arrays d"
      using Suc.prems(1,2) by (simp add: fun_upd_idem)
    show ?thesis using None i step(1) same by (simp add: bound_fds_def bind_calls_def bound_children_def)
  next
    case (Some f)
    let ?fences = "fences[i := f]"
    define arr1 where "arr1 = arr\<lparr>fa_fences := Some ?fences\<rparr>"
    define d1 where "d1 = call (FencePut (dummy_fence d)) (set_array a arr1 (call (FenceGet f) d))"
    have run: "bind_fences file a fds [i..<length fds] d = bind_fences file a fds [Suc i..<length fds] d1"
      using Some i Suc.prems(1-3) unfolding i(2) by (simp add: d1_def arr1_def call_def)
    have d1: "sd_arrays d1 = (sd_arrays d)(a \<mapsto> arr1)" "dummy_fence d1 = dummy_fence d"
      "kcalls d1 = kcalls d @ [FenceGet f, FencePut (dummy_fence d)]" "fa_fences arr1 = Some ?fences"
      by (simp_all add: d1_def set_array_def arr1_def)
    have ih: "bind_fences file a fds [Suc i..<length fds] d1 =
    Some (d1\<lparr>sd_arrays := (sd_arrays d1)(a \<mapsto> arr1\<lparr>fa_fences := Some (take (Suc i) ?fences @ bound_children file (drop (Suc i) fds) (drop (Suc i) ?fences))\<rparr>),
      kcalls := kcalls d1 @ bind_calls file (dummy_fence d1) (bound_fds file (drop (Suc i) fds))\<rparr>,
      if bound_fds file (drop (Suc i) fds) = drop (Suc i) fds then 0 else - EINVAL)"
      using Suc.hyps(2) i(1) Suc.prems(3) d1 by (intro Suc.hyps(1)) simp_all
    have children: "take (Suc i) ?fences @ bound_children file (drop (Suc i) fds) (drop (Suc i) ?fences) =
      take i fences @ bound_children file (drop i fds) (drop i fences)"
      using i(1) Suc.prems(3) Some unfolding step by (simp add: bound_children_def bound_fds_def take_Suc_conv_app_nth)
    have "d1\<lparr>sd_arrays := x, kcalls := y\<rparr> = d\<lparr>sd_arrays := x, kcalls := y\<rparr>" for x y
      by (simp add: d1_def call_def set_array_def)
    then show ?thesis
      unfolding run ih children using Some by (simp add: d1 arr1_def step(1) bound_fds_def bind_calls_def)
  qed
qed

lemmas bind_fences_result = bind_fences_from [of d a arr fences fds 0 for d a arr fences fds, simplified]

text \<open>The whole effect of binding the array at \<open>a\<close>.\<close>

definition bind_error :: "bind_answers \<Rightarrow> int list \<Rightarrow> bool" where
  "bind_error K fds \<longleftrightarrow> bound_fds (bn_file K) fds \<noteq> fds"

definition bound_array :: "bind_answers \<Rightarrow> int list \<Rightarrow> fence_array \<Rightarrow> nat list \<Rightarrow> fence_array" where
  "bound_array K fds arr fences = arr\<lparr>fa_fences := Some (bound_children (bn_file K) fds fences),
     fa_enable_signal := (bind_error K fds \<and> fa_enable_signal arr), fa_bound := True\<rparr>"

definition bound_calls :: "bind_answers \<Rightarrow> int list \<Rightarrow> nat \<Rightarrow> sync_device \<Rightarrow> kcall list" where
  "bound_calls K fds a d = FenceGet a # bind_calls (bn_file K) (dummy_fence d) (bound_fds (bn_file K) fds) @
     (let puts = map FencePut (filter (bn_signaled_after K) (fence_array_list d)) in
      if bind_error K fds then WakeUpAll # FenceSetError a (- EINVAL) # FenceSignal a # puts
      else EnableSwSignaling a # puts @ [WakeUpAll]) @ [FencePut a]"

definition bindable :: "bind_answers \<Rightarrow> fence_bind_data \<Rightarrow> sync_device \<Rightarrow> nat \<Rightarrow> fence_array \<Rightarrow> nat list \<Rightarrow> int list \<Rightarrow> bool" where
  "bindable K info d a arr fences fds \<longleftrightarrow> bn_file K (sint (bd_out_bind_fd info)) = Some a \<and> \<not> bn_signaled K a \<and>
     a \<in> set (fence_array_list d) \<and> sd_arrays d a = Some arr \<and> fa_fences arr = Some fences \<and>
     (\<forall>f\<in>set fences. f = dummy_fence d) \<and> bn_alloc K \<and> bn_user_fds K = Some fds \<and> length fds = length fences"

text \<open>The two ends of \<open>spec_sync_bind_array\<close>.\<close>

lemma finish_bind_failed:
  assumes "sd_arrays d a = Some arr" and "ret \<noteq> 0" and "distinct (fence_array_list d)"
    and "set (fence_array_list d) \<subseteq> dom (sd_arrays d)"
  shows "finish_bind K a ret d = Some (d\<lparr>
      sd_arrays := (sd_arrays d)(a \<mapsto> arr\<lparr>fa_bound := True\<rparr>),
      fence_array_list := filter (\<lambda>b. \<not> bn_signaled_after K b) (fence_array_list d),
      kcalls := kcalls d @ WakeUpAll # FenceSetError a (- EINVAL) # FenceSignal a #
        map FencePut (filter (bn_signaled_after K) (fence_array_list d)) @ [FencePut a]\<rparr>, ret)"
proof -
  define d2 where "d2 = call (FenceSignal a) (call (FenceSetError a (- EINVAL)) (call WakeUpAll (set_array a (arr\<lparr>fa_bound := True\<rparr>) d)))"
  have l: "fence_array_list d2 = fence_array_list d" "kcalls d2 = kcalls d @ [WakeUpAll, FenceSetError a (- EINVAL), FenceSignal a]"
    by (simp_all add: d2_def set_array_def)
  have "set (fence_array_list d2) \<subseteq> dom (sd_arrays d2)" using assms(4) by (auto simp: d2_def set_array_def)
  with assms(3) have c: "clear_fence_array_tracker False (bn_signaled_after K) d2 =
    Some (d2\<lparr>kcalls := kcalls d2 @ map FencePut (filter (bn_signaled_after K) (fence_array_list d)),
      fence_array_list := filter (\<lambda>a. \<not> bn_signaled_after K a) (fence_array_list d)\<rparr>)"
    using clear_soft [of d2] l(1) by metis
  have "finish_bind K a ret d = map_option (\<lambda>d. (call (FencePut a) d, ret)) (clear_fence_array_tracker False (bn_signaled_after K) d2)"
    using assms(1,2) by (simp add: finish_bind_def update_array_def d2_def map_conv_bind_option comp_def)
  also have "\<dots> = Some (d\<lparr>
      sd_arrays := (sd_arrays d)(a \<mapsto> arr\<lparr>fa_bound := True\<rparr>),
      fence_array_list := filter (\<lambda>b. \<not> bn_signaled_after K b) (fence_array_list d),
      kcalls := kcalls d @ WakeUpAll # FenceSetError a (- EINVAL) # FenceSignal a #
        map FencePut (filter (bn_signaled_after K) (fence_array_list d)) @ [FencePut a]\<rparr>, ret)"
    unfolding c l(2) by (simp add: d2_def call_def set_array_def)
  finally show ?thesis .
qed

lemma finish_bind_done:
  assumes "sd_arrays d a = Some arr" and "distinct (fence_array_list d)" and "set (fence_array_list d) \<subseteq> dom (sd_arrays d)"
  shows "finish_bind K a 0 d = Some (d\<lparr>
      sd_arrays := (sd_arrays d)(a \<mapsto> arr\<lparr>fa_enable_signal := False, fa_bound := True\<rparr>),
      fence_array_list := filter (\<lambda>b. \<not> bn_signaled_after K b) (fence_array_list d),
      kcalls := kcalls d @ EnableSwSignaling a # map FencePut (filter (bn_signaled_after K) (fence_array_list d)) @ [WakeUpAll, FencePut a]\<rparr>, 0)"
proof -
  define d2 where "d2 = call (EnableSwSignaling a) (set_array a (arr\<lparr>fa_enable_signal := False\<rparr>) d)"
  have l: "fence_array_list d2 = fence_array_list d" "kcalls d2 = kcalls d @ [EnableSwSignaling a]"
    by (simp_all add: d2_def set_array_def)
  define d3 where "d3 = d2\<lparr>kcalls := kcalls d2 @ map FencePut (filter (bn_signaled_after K) (fence_array_list d)),
      fence_array_list := filter (\<lambda>a. \<not> bn_signaled_after K a) (fence_array_list d)\<rparr>"
  have "set (fence_array_list d2) \<subseteq> dom (sd_arrays d2)" using assms(3) by (auto simp: d2_def set_array_def)
  with assms(2) have c: "clear_fence_array_tracker False (bn_signaled_after K) d2 = Some d3"
    using clear_soft [of d2] l(1) unfolding d3_def by metis
  have a3: "sd_arrays d3 a = Some (arr\<lparr>fa_enable_signal := False\<rparr>)" by (simp add: d3_def d2_def set_array_def)
  have "finish_bind K a 0 d = Some (call (FencePut a) (call WakeUpAll (set_array a (arr\<lparr>fa_enable_signal := False, fa_bound := True\<rparr>) d3)), 0)"
    using assms(1) c a3 by (simp add: finish_bind_def update_array_def d2_def)
  also have "\<dots> = Some (d\<lparr>
      sd_arrays := (sd_arrays d)(a \<mapsto> arr\<lparr>fa_enable_signal := False, fa_bound := True\<rparr>),
      fence_array_list := filter (\<lambda>b. \<not> bn_signaled_after K b) (fence_array_list d),
      kcalls := kcalls d @ EnableSwSignaling a # map FencePut (filter (bn_signaled_after K) (fence_array_list d)) @ [WakeUpAll, FencePut a]\<rparr>, 0)"
    by (simp add: d3_def d2_def call_def set_array_def)
  finally show ?thesis .
qed

lemma bind_run:
  assumes ok: "sync_ok d" and b: "bindable K info d a arr fences fds"
  shows "spec_sync_bind_array K info d = Some (d\<lparr>
      sd_arrays := (sd_arrays d)(a \<mapsto> bound_array K fds arr fences),
      fence_array_list := filter (\<lambda>b. \<not> bn_signaled_after K b) (fence_array_list d),
      kcalls := kcalls d @ bound_calls K fds a d\<rparr>, if bind_error K fds then - EINVAL else 0)"
proof -
  note l = sync_okD(1,2) [OF ok]
  have arr: "sd_arrays d a = Some arr" "fa_fences arr = Some fences" "length fences = length fds" using b by (auto simp: bindable_def)
  have n: "unat (fa_num_fences arr) = length fds" using sync_ok_array [OF ok arr(1)] arr(2,3) by (metis option.inject)
  let ?file = "bn_file K"
  define d0 where "d0 = call (FenceGet a) d"
  define arr1 where "arr1 = arr\<lparr>fa_fences := Some (bound_children ?file fds fences)\<rparr>"
  define d1 where "d1 = d0\<lparr>sd_arrays := (sd_arrays d)(a \<mapsto> arr1), kcalls := kcalls d0 @ bind_calls ?file (dummy_fence d) (bound_fds ?file fds)\<rparr>"
  have d0: "sd_arrays d0 = sd_arrays d" "dummy_fence d0 = dummy_fence d" "fence_array_list d0 = fence_array_list d"
    by (simp_all add: d0_def)
  have d1: "sd_arrays d1 a = Some arr1" "fence_array_list d1 = fence_array_list d" "set (fence_array_list d) \<subseteq> dom (sd_arrays d1)"
    using l(2) by (auto simp: d1_def d0_def)
  have dum: "is_dummy d0 f \<longleftrightarrow> f = dummy_fence d" for f using sync_okD(4) [OF ok, of f] by (simp add: d0_def is_dummy_def)
  have loop: "bind_fences ?file a fds [0..<length fds] d0 = Some (d1, if bind_error K fds then - EINVAL else 0)"
    using bind_fences_result [of d0 a arr fences fds ?file] arr d0 by (simp add: d1_def arr1_def bind_error_def)
  have check: "all_dummies d0 fences [0..<length fds] = Some True"
    using b arr(3) all_dummies_all [of d0 fences] dum by (simp add: bindable_def)
  have at: "bn_file K (sint (bd_out_bind_fd info)) = Some a" "\<not> bn_signaled K a" "sanitize_fence_array d0 a"
    "bn_alloc K" "bn_user_fds K = Some fds" "sd_arrays d0 a = Some arr" using b d0 by (simp_all add: bindable_def sanitize_iff)
  have run: "spec_sync_bind_array K info d = finish_bind K a (if bind_error K fds then - EINVAL else 0) d1"
    unfolding spec_sync_bind_array_def Let_def d0_def [symmetric] at(1) option.case n
    using at(2-) arr(2) check loop by (cases "fds = []") (simp_all add: n bind_error_def bound_fds_def)
  show ?thesis
  proof (cases "bind_error K fds")
    case True
    from finish_bind_failed [OF d1(1), of "- EINVAL" K] l(1) d1(2,3) show ?thesis unfolding run using True
      by (simp add: d1_def d0_def call_def bound_array_def arr1_def bound_calls_def Let_def)
  next
    case False
    from finish_bind_done [OF d1(1), of K] l(1) d1(2,3) show ?thesis unfolding run using False
      by (simp add: d1_def d0_def call_def bound_array_def arr1_def bound_calls_def Let_def)
  qed
qed

definition fds_fit :: "bind_answers \<Rightarrow> fence_bind_data \<Rightarrow> sync_device \<Rightarrow> bool" where
  "fds_fit K info d \<longleftrightarrow> (\<forall>a arr fences fds. bn_file K (sint (bd_out_bind_fd info)) = Some a \<longrightarrow> sd_arrays d a = Some arr \<longrightarrow>
     fa_fences arr = Some fences \<longrightarrow> bn_user_fds K = Some fds \<longrightarrow> length fds = length fences)"

text \<open>A descriptor that cannot be bound changes nothing: the reference of its fence is given back.\<close>

lemma bind_refused:
  assumes ok: "sync_ok d" and fit: "fds_fit K info d" and no: "\<And>a arr fences fds. \<not> bindable K info d a arr fences fds"
  shows "\<exists>ret<0. spec_sync_bind_array K info d = Some (case bn_file K (sint (bd_out_bind_fd info)) of
    None \<Rightarrow> d | Some a \<Rightarrow> d\<lparr>kcalls := kcalls d @ [FenceGet a, FencePut a]\<rparr>, ret)"
proof (cases "bn_file K (sint (bd_out_bind_fd info))")
  case None
  then show ?thesis by (simp add: spec_sync_bind_array_def)
next
  case (Some a)
  define d0 where "d0 = call (FenceGet a) d"
  have put: "call (FencePut a) d0 = d\<lparr>kcalls := kcalls d @ [FenceGet a, FencePut a]\<rparr>" by (simp add: d0_def call_def)
  show ?thesis
  proof (cases "bn_signaled K a \<or> a \<notin> set (fence_array_list d)")
    case True
    then show ?thesis using Some put
      by (auto simp: spec_sync_bind_array_def Let_def sanitize_iff d0_def)
  next
    case False
    then obtain arr where arr: "sd_arrays d a = Some arr" using sync_okD(2) [OF ok] by auto
    obtain fences where fences: "fa_fences arr = Some fences" "length fences = unat (fa_num_fences arr)"
      using sync_ok_array [OF ok arr] by metis
    have dum: "is_dummy d0 f \<longleftrightarrow> f = dummy_fence d" for f using sync_okD(4) [OF ok, of f] by (simp add: d0_def is_dummy_def)
    have check: "all_dummies d0 fences [0..<unat (fa_num_fences arr)] = Some (\<forall>f\<in>set fences. f = dummy_fence d)"
      using all_dummies_all [of d0 fences] fences(2) dum by simp
    have bad: "\<not> (\<forall>f\<in>set fences. f = dummy_fence d) \<or> \<not> bn_alloc K \<or> bn_user_fds K = None"
      using no [of a arr fences "the (bn_user_fds K)"] fit Some False arr fences
      by (fastforce simp: bindable_def fds_fit_def)
    have at: "sd_arrays d0 a = Some arr" "sanitize_fence_array d0 a" using arr False by (simp_all add: d0_def sanitize_iff)
    have empty: "fences = []" if "unat (fa_num_fences arr) = 0" using that fences(2) by simp
    show ?thesis
      using bad at False fences(1) check empty put unfolding spec_sync_bind_array_def Let_def d0_def [symmetric] Some option.case
      by (cases "fences = []") (auto simp: fences(2) [symmetric] split: option.splits)
  qed
qed

lemma count_bind_calls:
  assumes "\<And>fd. file fd \<noteq> Some p" and "\<forall>fd\<in>set fds. file fd \<noteq> None"
  shows "count_list (bind_calls file p fds) (FencePut p) = length fds" "count_list (bind_calls file p fds) (FenceGet p) = 0"
  using assms(2) by (induction fds) (auto simp: bind_calls_def assms(1))

lemma bound_fds_all: "fd \<in> set (bound_fds file fds) \<Longrightarrow> file fd \<noteq> None"
  unfolding bound_fds_def by (metis set_takeWhileD)

lemma bound_fds_length: "length (bound_fds file fds) \<le> length fds"
  unfolding bound_fds_def by (rule length_takeWhile_le)

lemma bind_bound_ok:
  assumes ok: "sync_ok d" and b: "bindable K info d a arr fences fds" and files: "\<And>fd. bn_file K fd \<noteq> Some (dummy_fence d)"
  shows "sync_ok (d\<lparr>
      sd_arrays := (sd_arrays d)(a \<mapsto> bound_array K fds arr fences),
      fence_array_list := filter (\<lambda>b. \<not> bn_signaled_after K b) (fence_array_list d),
      kcalls := kcalls d @ bound_calls K fds a d\<rparr>)" (is "sync_ok ?d")
proof -
  let ?p = "dummy_fence d"
  let ?g = "bound_fds (bn_file K) fds"
  have arr: "sd_arrays d a = Some arr" "fa_fences arr = Some fences" "length fences = length fds" using b by (auto simp: bindable_def)
  have all: "fences = replicate (length fences) ?p" using b by (simp add: bindable_def replicate_eqI)
  have wf: "length fences = unat (fa_num_fences arr)" "a \<noteq> ?p" using sync_ok_array [OF ok arr(1)] arr(2) by (metis option.inject)+
  have list: "distinct (fence_array_list d)" "set (fence_array_list d) \<subseteq> dom (shape d)" "shape d ?p = None" using ok by (simp_all add: sync_ok_def)
  then have notp: "?p \<notin> set (fence_array_list d)" by auto
  have len: "length ?g \<le> length fences" using bound_fds_length arr(3) by metis
  have drop: "count_list (drop (length ?g) fences) ?p = length fences - length ?g"
    by (subst all) (simp add: count_replicate)
  have gfile: "\<exists>f. bn_file K fd = Some f \<and> f \<noteq> ?p" if "fd \<in> set ?g" for fd
    using bound_fds_all [OF that] files [of fd] by auto
  then have "\<forall>fd\<in>set ?g. the (bn_file K fd) \<noteq> ?p" by fastforce
  then have "count_list (map (\<lambda>fd. the (bn_file K fd)) ?g) ?p = 0" by (simp add: count_map_get filter_empty_conv)
  then have children: "count_list (bound_children (bn_file K) fds fences) ?p = length fences - length ?g"
    "length (bound_children (bn_file K) fds fences) = length fences"
    using len drop by (simp_all add: bound_children_def)
  have s: "shape ?d = (shape d)(a := Some (Some (bound_children (bn_file K) fds fences), fa_num_fences arr))"
    by (auto simp: shape_def bound_array_def fun_eq_iff)
  have puts: "count_list (map FencePut (filter P (fence_array_list d))) (FencePut ?p) = 0"
    "count_list (map FencePut (filter P (fence_array_list d))) (FenceGet ?p) = 0" for P
    using notp by (simp_all add: count_map_get filter_empty_conv) auto
  have calls: "count_list (bind_calls (bn_file K) ?p ?g) (FencePut ?p) = length ?g" "count_list (bind_calls (bn_file K) ?p ?g) (FenceGet ?p) = 0"
    using bound_fds_all [of _ "bn_file K" fds] by (auto intro!: count_bind_calls files)
  have "count_list (bound_calls K fds a d) (FencePut ?p) = length ?g" "count_list (bound_calls K fds a d) (FenceGet ?p) = 0"
    using calls puts wf(2) by (simp_all add: bound_calls_def Let_def)
  then have "dummy_put ?d = dummy_put d + length ?g" "dummy_got ?d = dummy_got d"
    by (simp_all add: dummy_put_def dummy_got_def)
  moreover have "held d a = length fences" using arr by (subst (asm) all) (simp add: held_def shape_def count_replicate)
  moreover have "held ?d a = length fences - length ?g" using s children(1) by (simp add: held_def)
  ultimately show ?thesis
    using s wf list len children(2) by (intro sync_ok_update [OF ok s]) auto
qed

subsection \<open>The driver as a state machine\<close>

text \<open>
  The steps: opening, closing, and the ioctl with arrays that the kernel places in free memory and files that are
  never the dummy fence, which has no file. When the last reference of an array is gone, which is not before it
  leaves the tracker, the kernel frees it and gives back the references of its children.
\<close>

inductive sync_step :: "sync_commands \<Rightarrow> sync_device \<Rightarrow> sync_device \<Rightarrow> bool" for N where
  opened: "spec_sync_open inode i_cdev fl task_comm d = (d', ret) \<Longrightarrow> sync_step N d d'"
| closed: "spec_sync_release signaled d = Some (d', ret) \<Longrightarrow> sync_step N d d'"
| ioctl: "(\<And>a. an_array Kc = Some a \<Longrightarrow> sd_arrays d a = None \<and> a \<noteq> dummy_fence d) \<Longrightarrow>
    (\<And>fd. bn_file Kb fd \<noteq> Some (dummy_fence d)) \<Longrightarrow> (\<And>info. bind_arg = Some info \<Longrightarrow> fds_fit Kb info d) \<Longrightarrow>
    spec_sync_ioctl N Kc Kb copy cmd create_arg bind_arg d = Some (d', out, ret) \<Longrightarrow> sync_step N d d'"
| freed: "a \<notin> set (fence_array_list d) \<Longrightarrow> sd_arrays d a = Some arr \<Longrightarrow> fa_fences arr = Some fences \<Longrightarrow>
    sync_step N d (d\<lparr>sd_arrays := (sd_arrays d)(a := None), kcalls := kcalls d @ map FencePut fences\<rparr>)"

definition sync_boot :: "sync_device \<Rightarrow> bool" where
  "sync_boot d \<longleftrightarrow> device_available d = 0 \<and> sd_arrays d = Map.empty \<and> kcalls d = [] \<and>
     (\<forall>f. fence_ids d f \<noteq> (DUMMY_CONTEXT, DUMMY_SEQNO))"

inductive sync_reachable :: "sync_commands \<Rightarrow> sync_device \<Rightarrow> bool" for N where
  loaded: "sync_boot d0 \<Longrightarrow> spec_sync_init K d0 = (d, 0) \<Longrightarrow> sync_reachable N d"
| step: "sync_reachable N d \<Longrightarrow> sync_step N d d' \<Longrightarrow> sync_reachable N d'"

lemma load_ok:
  assumes "sync_boot d0" and "spec_sync_init K d0 = (d, 0)"
  shows "sync_ok d"
proof -
  have "\<exists>p. d = d0\<lparr>sd_version := DRV_VERSION, fence_array_list := [], dummy_fence := p,
      fence_ids := (fence_ids d0)(p := (DUMMY_CONTEXT, DUMMY_SEQNO))\<rparr>"
    using assms(2) by (auto simp: spec_sync_init_def spec_sync_register_device_def Let_def split: if_splits option.splits)
  then obtain p where p: "d = d0\<lparr>sd_version := DRV_VERSION, fence_array_list := [], dummy_fence := p,
      fence_ids := (fence_ids d0)(p := (DUMMY_CONTEXT, DUMMY_SEQNO))\<rparr>" ..
  have s: "shape d = Map.empty" using assms(1) p by (simp add: sync_boot_def shape_def fun_eq_iff)
  have "is_dummy d f \<longleftrightarrow> f = dummy_fence d" for f using assms(1) p by (auto simp: sync_boot_def is_dummy_def prod_eq_iff)
  then show ?thesis using assms(1) s p by (simp add: sync_ok_def dummies_def sync_boot_def dummy_got_def dummy_put_def MAX_DEVICE_SUPPORTED_def)
qed

lemma open_ok:
  assumes ok: "sync_ok d"
  shows "sync_ok (fst (spec_sync_open inode i_cdev file name d))"
proof (cases "\<not> inode \<or> \<not> i_cdev \<or> \<not> file \<or> MAX_DEVICE_SUPPORTED \<le> device_available d")
  case True
  then show ?thesis using ok by (auto simp: spec_sync_open_def spec_fence_init_locked_def)
next
  case False
  define d1 where "d1 = (if device_available d = 0 then d\<lparr>sd_name := take (NAME_LEN - 1) name\<rparr> else d)\<lparr>device_available := device_available d + 1\<rparr>"
  have "fst (spec_sync_open inode i_cdev file name d) = d1"
    using False by (simp add: spec_sync_open_def spec_fence_init_locked_def Let_def d1_def)
  moreover have "sync_ok d1"
    by (rule sync_ok_frame [OF ok])
      (use ok False in \<open>simp_all add: d1_def sync_ok_def shape_def fun_eq_iff dummy_got_def dummy_put_def\<close>)
  ultimately show ?thesis by simp
qed

lemma release_ok:
  assumes ok: "sync_ok d"
  shows "\<exists>d' ret. spec_sync_release signaled d = Some (d', ret) \<and> sync_ok d'"
proof (cases "device_available d = 0")
  case True
  then show ?thesis using ok by (simp add: spec_sync_release_def)
next
  case False
  define d1 where "d1 = d\<lparr>device_available := device_available d - 1\<rparr>"
  have "sync_ok d1"
    by (rule sync_ok_frame [OF ok])
      (use ok False in \<open>simp_all add: d1_def sync_ok_def shape_def fun_eq_iff dummy_got_def dummy_put_def\<close>)
  with False clear_ok [OF this, of True signaled] show ?thesis
    by (auto simp: spec_sync_release_def Let_def d1_def [symmetric])
qed

lemma bind_array_ok:
  assumes ok: "sync_ok d" and fit: "fds_fit K info d" and files: "\<And>fd. bn_file K fd \<noteq> Some (dummy_fence d)"
  shows "\<exists>d' ret. spec_sync_bind_array K info d = Some (d', ret) \<and> sync_ok d'"
proof (cases "\<exists>a arr fences fds. bindable K info d a arr fences fds")
  case True
  then obtain a arr fences fds where b: "bindable K info d a arr fences fds" by blast
  from bind_run [OF ok b] bind_bound_ok [OF ok b files] show ?thesis by blast
next
  case False
  then obtain ret where ret: "spec_sync_bind_array K info d = Some (case bn_file K (sint (bd_out_bind_fd info)) of
    None \<Rightarrow> d | Some a \<Rightarrow> d\<lparr>kcalls := kcalls d @ [FenceGet a, FencePut a]\<rparr>, ret)" using bind_refused [OF ok fit] by blast
  have "sync_ok (d\<lparr>kcalls := kcalls d @ [FenceGet a, FencePut a]\<rparr>)" if "a \<noteq> dummy_fence d" for a
    using sync_ok_call [OF sync_ok_call [OF ok, of "FenceGet a"], of "FencePut a"] that by (simp add: call_def)
  moreover have "a \<noteq> dummy_fence d" if "bn_file K (sint (bd_out_bind_fd info)) = Some a" for a using files that by metis
  ultimately show ?thesis using ret ok by (cases "bn_file K (sint (bd_out_bind_fd info))") auto
qed

lemma ioctl_ok:
  assumes ok: "sync_ok d" and fresh: "\<And>a. an_array Kc = Some a \<Longrightarrow> sd_arrays d a = None \<and> a \<noteq> dummy_fence d"
    and files: "\<And>fd. bn_file Kb fd \<noteq> Some (dummy_fence d)" and fit: "\<And>info. bind_arg = Some info \<Longrightarrow> fds_fit Kb info d"
  shows "\<exists>d' out ret. spec_sync_ioctl N Kc Kb copy cmd create_arg bind_arg d = Some (d', out, ret) \<and> sync_ok d'"
proof -
  have create: "sync_ok (fst (spec_sync_ioctl_create_fence Kc copy create_arg d))"
  proof (cases create_arg)
    case None
    then show ?thesis using ok by (simp add: spec_sync_ioctl_create_fence_def)
  next
    case (Some f)
    have "sync_ok (fst (spec_sync_create_array Kc f d))" using ok fresh by (rule create_array_ok)
    with Some show ?thesis by (auto simp: spec_sync_ioctl_create_fence_def split: prod.split)
  qed
  have bind: "\<exists>d' ret. spec_sync_ioctl_bind Kb bind_arg d = Some (d', ret) \<and> sync_ok d'"
    using bind_array_ok [OF ok fit files] ok by (auto simp: spec_sync_ioctl_bind_def split: option.splits)
  show ?thesis using create bind ok unfolding spec_sync_ioctl_def by (auto split: prod.splits)
qed

lemma freed_ok:
  assumes ok: "sync_ok d" and a: "a \<notin> set (fence_array_list d)" "sd_arrays d a = Some arr" "fa_fences arr = Some fences"
  shows "sync_ok (d\<lparr>sd_arrays := (sd_arrays d)(a := None), kcalls := kcalls d @ map FencePut fences\<rparr>)" (is "sync_ok ?d")
proof -
  have s: "shape ?d = (shape d)(a := None)" by (auto simp: shape_def fun_eq_iff)
  have ne: "a \<noteq> dummy_fence d" using sync_ok_array [OF ok a(2)] by metis
  have "count_list (map FencePut xs) (FencePut p) = count_list xs p" "count_list (map FencePut xs) (FenceGet p) = 0" for xs p
    by (induction xs) auto
  then have "dummy_put ?d = dummy_put d + held d a" "dummy_got ?d = dummy_got d" "held ?d a = 0"
    using a s by (simp_all add: dummy_put_def dummy_got_def held_def shape_def)
  then show ?thesis
    using ok a(1) ne s by (intro sync_ok_update [OF ok s]) (auto simp: sync_ok_def)
qed

lemma sync_step_ok: "sync_step N d d' \<Longrightarrow> sync_ok d \<Longrightarrow> sync_ok d'"
proof (induction rule: sync_step.induct)
  case (opened inode i_cdev fl task_comm d d' ret)
  then show ?case using open_ok [of d inode i_cdev fl task_comm] by simp
next
  case (closed signaled d d' ret)
  then show ?case using release_ok [of d signaled] by auto
next
  case (ioctl Kc d Kb bind_arg copy cmd create_arg d' out ret)
  then show ?case using ioctl_ok [of d Kc Kb bind_arg N copy cmd create_arg] by auto
next
  case (freed a d arr fences)
  then show ?case using freed_ok by blast
qed

lemma sync_reachable_ok: "sync_reachable N d \<Longrightarrow> sync_ok d"
proof (induction rule: sync_reachable.induct)
  case (loaded d0 K d)
  then show ?case by (rule load_ok)
next
  case (step d d')
  then show ?case using sync_step_ok by blast
qed

section \<open>Properties\<close>

text \<open>An instance: a driver that was loaded, opened and has created an array of two fences, at address 100.\<close>

definition sample_commands :: sync_commands where
  "sample_commands = \<lparr>SPEC_SYNC_IOC_BIND = 3, SPEC_SYNC_IOC_CREATE_FENCE = 4, SPEC_SYNC_IOC_GET_VER = 5\<rparr>"

definition sample_loading :: register_answers where
  "sample_loading = \<lparr>rn_class = True, rn_chrdev = 0, rn_device = True, rn_cdev = True, rn_cdev_add = 0, rn_dummy = Some 7\<rparr>"

definition boot_sync :: sync_device where
  "boot_sync = \<lparr>device_available = 0, sd_name = [], sd_version = 0, dummy_fence = 0, fence_array_list = [],
     sd_arrays = Map.empty, fence_ids = (\<lambda>_. (0, 0)), kcalls = []\<rparr>"

definition loaded_sync :: sync_device where
  "loaded_sync = boot_sync\<lparr>sd_version := 1, dummy_fence := 7, fence_ids := (\<lambda>_. (0, 0))(7 := (DUMMY_CONTEXT, DUMMY_SEQNO))\<rparr>"

definition opened_sync :: sync_device where
  "opened_sync = loaded_sync\<lparr>sd_name := ''app'', device_available := 1\<rparr>"

definition sample_creation :: create_answers where
  "sample_creation = \<lparr>an_fd = 5, an_fences = True, an_array = Some 100, an_pending = 2, an_file = Some 200, an_node = True\<rparr>"

definition sample_array :: fence_array where
  "sample_array = \<lparr>fa_num_fences = 2, fa_fences = Some [7, 7], fa_num_pending = 2, fa_signal_any = False,
     fa_enable_signal = True, fa_spec = True, fa_bound = False\<rparr>"

definition created_sync :: sync_device where
  "created_sync = opened_sync\<lparr>sd_arrays := [100 \<mapsto> sample_array], fence_array_list := [100],
     kcalls := [FenceGet 7, FenceGet 7, FdInstall 5 200]\<rparr>"

definition sample_binding :: bind_answers where
  "sample_binding = \<lparr>bn_file = [5 \<mapsto> 100, 3 \<mapsto> 300, 4 \<mapsto> 400], bn_signaled = (\<lambda>_. False), bn_signaled_after = (\<lambda>_. False),
     bn_alloc = True, bn_user_fds = Some [3, 4]\<rparr>"

definition sample_bind_data :: fence_bind_data where
  "sample_bind_data = \<lparr>bd_out_bind_fd = 5, bd_fds = 0x1000\<rparr>"

lemmas sync_sample_defs = sample_commands_def sample_loading_def boot_sync_def loaded_sync_def opened_sync_def
  sample_creation_def sample_array_def created_sync_def sample_binding_def sample_bind_data_def

lemma replicate_two: "replicate 2 x = [x, x]"
  by (simp add: numeral_2_eq_2)

lemma created_reachable: "sync_reachable sample_commands created_sync"
proof -
  have "sync_reachable sample_commands loaded_sync"
  proof (rule sync_reachable.loaded)
    show "sync_boot boot_sync" by (simp add: sync_boot_def boot_sync_def DUMMY_CONTEXT_def)
    show "spec_sync_init sample_loading boot_sync = (loaded_sync, 0)"
      by (simp add: spec_sync_init_def spec_sync_register_device_def sync_sample_defs DRV_VERSION_def Let_def)
  qed
  moreover have "spec_sync_open True True True ''app'' loaded_sync = (opened_sync, 0)"
    by (simp add: spec_sync_open_def spec_fence_init_locked_def sync_sample_defs NAME_LEN_def MAX_DEVICE_SUPPORTED_def Let_def)
  ultimately have opened: "sync_reachable sample_commands opened_sync"
    using sync_reachable.step sync_step.opened by blast
  have "spec_sync_ioctl sample_commands sample_creation sample_binding True 4
      (Some \<lparr>cd_num_fences = 2, cd_flags = 2, cd_out_bind_fd = 0\<rparr>) None opened_sync =
      Some (created_sync, CreateOut \<lparr>cd_num_fences = 2, cd_flags = 2, cd_out_bind_fd = 5\<rparr>, 0)"
    by (simp add: spec_sync_ioctl_def spec_sync_ioctl_create_fence_def spec_sync_create_array_def sync_sample_defs Let_def
        FENCE_MIN_def FENCE_MAX_def SPEC_FENCE_SIGNAL_ALL_def dummy_gets_def set_array_def call_def replicate_two word_less_nat_alt)
  then have "sync_step sample_commands opened_sync created_sync"
    by (rule sync_step.ioctl [rotated 3]) (auto simp: sync_sample_defs split: if_splits)
  with opened show ?thesis by (rule sync_reachable.step)
qed

text \<open>C32. In every state that the driver reaches, whatever the users bind and whatever fails, the references of the dummy
  fence that were taken and not given back are exactly those that its places in fence arrays stand for: it is
  neither freed early nor leaked. And the tracker lists arrays that exist, none twice, at most two devices are open, and
  the last close, which signals and drops what is left, comes back.\<close>

theorem sync_refs:
  assumes "sync_reachable N d"
  shows "dummy_put d + (\<Sum>a\<in>dom (sd_arrays d). held d a) = dummy_got d \<and>
    distinct (fence_array_list d) \<and> set (fence_array_list d) \<subseteq> dom (sd_arrays d) \<and>
    device_available d \<in> {0..MAX_DEVICE_SUPPORTED} \<and> spec_sync_release signaled d \<noteq> None"
proof -
  have ok: "sync_ok d" using assms by (rule sync_reachable_ok)
  then have "dummy_put d + (\<Sum>a\<in>dom (sd_arrays d). held d a) = dummy_got d"
    by (simp add: sync_ok_def dummies_def shape_dom)
  with sync_okD [OF ok] release_ok [OF ok, of signaled] show ?thesis by auto
qed

theorem sync_refs_witness: "dummy_put created_sync + held created_sync 100 = 2"
  using sync_refs [OF created_reachable] by (simp add: sync_sample_defs dummy_got_def)

text \<open>C33. Binding an array that still waits: the children become the fences of the descriptors, in order, up to the first
  descriptor that has no fence. If all have one, the array is armed (its signaling enabled), otherwise it is
  signaled with an error; either way those who wait for the binding are woken, all other arrays keep their contents,
  arrays that are signaled leave the tracker, and the kernel is called in exactly this order.\<close>

theorem bind_result:
  assumes "sync_reachable N d" and "bindable K info d a arr fences fds"
  shows "\<exists>d' arr'. spec_sync_bind_array K info d = Some (d', if \<forall>fd\<in>set fds. bn_file K fd \<noteq> None then 0 else - EINVAL) \<and>
    sd_arrays d' = (sd_arrays d)(a \<mapsto> arr') \<and> fa_bound arr' \<and>
    fa_fences arr' = Some (bound_children (bn_file K) fds fences) \<and>
    fa_enable_signal arr' = ((\<exists>fd\<in>set fds. bn_file K fd = None) \<and> fa_enable_signal arr) \<and>
    fence_array_list d' = filter (\<lambda>b. \<not> bn_signaled_after K b) (fence_array_list d) \<and>
    kcalls d' = kcalls d @ bound_calls K fds a d"
proof -
  have "bind_error K fds \<longleftrightarrow> (\<exists>fd\<in>set fds. bn_file K fd = None)"
    unfolding bind_error_def bound_fds_def by (auto simp: takeWhile_eq_all_conv)
  then show ?thesis
    using bind_run [OF sync_reachable_ok [OF assms(1)] assms(2)]
    by (intro exI [of _ "d\<lparr>sd_arrays := (sd_arrays d)(a \<mapsto> bound_array K fds arr fences),
      fence_array_list := filter (\<lambda>b. \<not> bn_signaled_after K b) (fence_array_list d), kcalls := kcalls d @ bound_calls K fds a d\<rparr>"]
        exI [of _ "bound_array K fds arr fences"]) (auto simp: bound_array_def)
qed

lemma sample_bindable: "bindable sample_binding sample_bind_data created_sync 100 sample_array [7, 7] [3, 4]"
  by (simp add: bindable_def sync_sample_defs)

theorem bind_result_witness:
  "\<exists>d' arr'. spec_sync_bind_array sample_binding sample_bind_data created_sync = Some (d', 0) \<and>
     sd_arrays d' 100 = Some arr' \<and> fa_fences arr' = Some [300, 400] \<and>
     kcalls d' = [FenceGet 7, FenceGet 7, FdInstall 5 200, FenceGet 100, FenceGet 300, FencePut 7, FenceGet 400, FencePut 7,
       EnableSwSignaling 100, WakeUpAll, FencePut 100]"
  using bind_result [OF created_reachable sample_bindable]
  by (auto simp: sync_sample_defs bound_children_def bound_fds_def bound_calls_def bind_calls_def bind_error_def)

text \<open>An array can be bound once: after a binding that replaced at least one child, complete or not, every other
  attempt is refused and changes nothing; the reference to the array that it took is given back.\<close>

lemma bind_twice:
  assumes d: "sync_reachable N d" and b: "bindable K info d a arr fences fds" and some: "bound_fds (bn_file K) fds \<noteq> []"
    and files: "\<And>fd. bn_file K fd \<noteq> Some (dummy_fence d)" and r: "spec_sync_bind_array K info d = Some (d', ret)"
    and again: "bn_file K' (sint (bd_out_bind_fd info')) = Some a" "fds_fit K' info' d'"
  shows "\<exists>ret<0. spec_sync_bind_array K' info' d' = Some (d'\<lparr>kcalls := kcalls d' @ [FenceGet a, FencePut a]\<rparr>, ret)"
proof -
  have ok: "sync_ok d" using d by (rule sync_reachable_ok)
  have d': "d' = d\<lparr>sd_arrays := (sd_arrays d)(a \<mapsto> bound_array K fds arr fences),
      fence_array_list := filter (\<lambda>b. \<not> bn_signaled_after K b) (fence_array_list d), kcalls := kcalls d @ bound_calls K fds a d\<rparr>"
    using bind_run [OF ok b] r by simp
  have ok': "sync_ok d'" unfolding d' using ok b files by (rule bind_bound_ok)
  obtain fd where fd: "fd \<in> set (bound_fds (bn_file K) fds)" using some by (meson list.set_sel(1))
  then obtain f where "bn_file K fd = Some f" using bound_fds_all by blast
  then have "f \<in> set (bound_children (bn_file K) fds fences)" "f \<noteq> dummy_fence d'"
    using fd files [of fd] by (force simp: bound_children_def, simp add: d')
  then have "\<not> bindable K' info' d' b arr' fences' fds'" for b arr' fences' fds'
    using again(1) by (auto simp: bindable_def d' bound_array_def)
  from bind_refused [OF ok' again(2) this] again(1) show ?thesis by simp
qed

lemma bind_twice_example:
  "\<exists>d' ret. spec_sync_bind_array sample_binding sample_bind_data created_sync = Some (d', 0) \<and> ret < 0 \<and>
     spec_sync_bind_array sample_binding sample_bind_data d' = Some (d'\<lparr>kcalls := kcalls d' @ [FenceGet 100, FencePut 100]\<rparr>, ret)"
proof -
  obtain d' where d': "spec_sync_bind_array sample_binding sample_bind_data created_sync = Some (d', 0)"
      "d' = created_sync\<lparr>sd_arrays := (sd_arrays created_sync)(100 \<mapsto> bound_array sample_binding [3, 4] sample_array [7, 7]),
      fence_array_list := filter (\<lambda>b. \<not> bn_signaled_after sample_binding b) (fence_array_list created_sync),
      kcalls := kcalls created_sync @ bound_calls sample_binding [3, 4] 100 created_sync\<rparr>"
    using bind_run [OF sync_reachable_ok [OF created_reachable] sample_bindable]
    by (simp add: bind_error_def bound_fds_def sample_binding_def)
  have "fds_fit sample_binding sample_bind_data d'"
    by (simp add: d'(2) fds_fit_def bound_array_def bound_children_def bound_fds_def sync_sample_defs)
  moreover have "bound_fds (bn_file sample_binding) [3, 4] \<noteq> []" by (simp add: bound_fds_def sample_binding_def)
  moreover have "bn_file sample_binding fd \<noteq> Some (dummy_fence created_sync)" for fd by (simp add: sync_sample_defs)
  moreover have "bn_file sample_binding (sint (bd_out_bind_fd sample_bind_data)) = Some 100" by (simp add: sync_sample_defs)
  ultimately have "\<exists>ret<0. spec_sync_bind_array sample_binding sample_bind_data d' = Some (d'\<lparr>kcalls := kcalls d' @ [FenceGet 100, FencePut 100]\<rparr>, ret)"
    using bind_twice [OF created_reachable sample_bindable _ _ d'(1)] by blast
  with d'(1) show ?thesis by blast
qed

end
