(* ===== verification/Spec2Isabelle.thy ===== *)
theory Spec2Isabelle
  imports HwfRuns HwfSpin HwfDebug HwfIoctl ExtDisplay SpecSync
begin

text \<open>
  Verification development of the multimedia kernel drivers of this repository: the hardware-fence driver
  (\<open>hw_fence/\<close>), the external-display driver (\<open>msm_ext_display/\<close>) and the speculative-fence driver (\<open>sync_fence/\<close>).

  \<^bold>\<open>The programs.\<close> The hardware-fence driver keeps a table of fences in memory that it shares with a fence controller
  in another virtual machine. Clients (display, graphics, camera, video, validation) register, get queues in this
  memory, create fences, wait for fences and arrays of fences, and signal them through their queues; the other
  side rings a doorbell, and inter-processor registers carry the interrupts. The external-display driver connects
  display interfaces with the audio codec. The speculative-fence driver creates fence arrays before their fences
  exist and binds them later. The three drivers do not call each other.

  \<^bold>\<open>Theories of the hardware-fence driver.\<close>
  \<^item> \<open>HwfPrelude\<close>: words, error numbers, bounded array access, and lemmas that the rest shares.
  \<^item> \<open>HwfInterfaces\<close>: the contracts between components as locales: a keyed store with limited room, a registry of names
    and a bounded queue. The fence table interprets the first, the registry of display interfaces the second, the
    client queues the third; properties of these components rest on facts of the interpretations.
  \<^item> \<open>HwfTypes\<close>: the structures of \<open>hw_fence_drv_priv.h\<close> and \<open>hw_fence_drv_utils.h\<close> as records, and the state \<open>hwf\<close> of the
    driver: \<open>struct hw_fence_driver_data\<close> with the memory that its pointers lead to.
  \<^item> \<open>HwfIpc\<close> (\<open>hw_fence_drv_ipc.c\<close>): the tables of signals and the register writes.
  \<^item> \<open>HwfLock\<close>, \<open>HwfSpin\<close> (\<open>global_atomic_store\<close>, \<open>_lock\<close>, \<open>_unlock\<close> of \<open>hw_fence_drv_utils.c\<close>): the lock shared with the other
    machine, as one operation and as interleaved instructions. The step relation refines the operation, with
    mutual exclusion and no lost bit of the other machine; and in every run in which the processor is fair to the
    threads, a service machine that waits for a taken lock is woken.
  \<^item> \<open>HwfTable\<close> (\<open>hw_fence_drv_priv.c\<close>): the open-addressing fence table, refined to a finite map.
  \<^item> \<open>HwfQueue\<close> (\<open>hw_fence_drv_priv.c\<close>): the rings of payloads, refined to a bounded queue, and the complete effect
    of a write on the shared memory.
  \<^item> \<open>HwfLayout\<close>, \<open>HwfMemory\<close> (\<open>hw_fence_drv_utils.c\<close>, \<open>hw_fence_drv_priv.c\<close>): sizes from the device tree, placement of headers, queues,
    locks and fences (page-aligned, apart and large enough), the internal client ids, a bijection from the ids in use;
    \<open>memory_inv\<close> says what it means that all of them are in order.
  \<^item> \<open>HwfSignal\<close> (\<open>hw_fence_drv_priv.c\<close>): waiting for fences and arrays of fences, signaling, cleanup.
  \<^item> \<open>HwfDoorbell\<close> (\<open>hw_fence_drv_utils.c\<close>): the doorbell and the loop-back clients it serves.
  \<^item> \<open>HwfSetup\<close> (\<open>hw_fence_drv_utils.c\<close>, \<open>hw_fence_init\<close>, \<open>msm_hw_fence_probe\<close>): bringing the driver up, and sharing the memory.
    What the hypervisor does with the memory is not modelled: the calls to it are a log.
  \<^item> \<open>HwfClient\<close>, \<open>HwfApi\<close> (\<open>msm_hw_fence.c\<close>): the exported functions, and the properties that span components:
    registration keeps the invariants that probing established, creating and destroying keep flag
    and table in step, and the complete effect of a client reset.
  \<^item> \<open>HwfKeeps\<close>, \<open>HwfRuns\<close>: the driver over its life. \<open>driver_inv\<close> says what a state in good order is; every call of a client
    returns and keeps it, on every path, waits for arrays and their roll-backs included; a client that leaves frees its id for
    the next, which finds the unread messages; the relation \<open>driver_step\<close>
    interleaves the calls of all clients, registrations, deregistrations, resets, notifications, doorbells, the kernel's changes of
    its fences and the writes of the fence controller, and every state that is reachable from a successful probe is in
    order. The controller is assumed to leave indices inside their queues and to give locks back, and the device tree
    to give the GPU the two queues that it has by default.
  \<^item> \<open>KernelCalls\<close>: the calls on objects of the kernel, which the next two theories and \<open>SpecSync\<close> keep as a log.
  \<^item> \<open>HwfDebug\<close> (\<open>hw_fence_drv_debug.c\<close>, \<open>hw_fence_drv_debug.h\<close>): the files of the debug file system: test fences and their
    release, registration and reset of debug clients, the simulation loops (one run leaves the fence table as it
    was), and the dumps (that of the table is off by one).
  \<^item> \<open>HwfIoctl\<close> (\<open>hw_fence_ioctl.c\<close>): the ioctls of validation clients: which commands a file without a client accepts, what a
    wait returns, the references to the fences that it makes, and their life from the ioctl to the release.

  \<^bold>\<open>Theories of the other drivers.\<close>
  \<^item> \<open>ExtDisplay\<close> (\<open>msm_ext_display.c\<close>): the registry of interfaces, the codec, and the driver as a state machine.
  \<^item> \<open>SpecSync\<close> (\<open>qcom_sync_file.c\<close> and its header): creation, binding and tracking of arrays, and the driver as a state
    machine with the references of its dummy fence.

  \<^bold>\<open>How the code is modelled.\<close> A C function that changes the state returns the new state with its return code, inside
  \<open>option\<close>: \<open>None\<close> is a run that C does not complete, through a NULL or freed pointer, out of bounds, or spinning on
  a lock that nobody clears. So a theorem that a result is \<open>Some\<close> states that the code returns and is safe. Error codes are
  the negative numbers of the code. Machine integers are words of their width. Objects with identity (clients,
  interfaces, arrays, fences) are addresses into maps; queue memory is addressed by word. Register writes, hypervisor
  calls and calls on kernel fences are logs. Constants of kernel headers are fields of records (\<open>platform\<close>,
  \<open>disp_consts\<close>, \<open>sync_commands\<close>) that every theorem quantifies over, and answers of the kernel (allocations, the device tree,
  devices, descriptors) are arguments. Concrete instances evaluate the definitions in the witnesses.

  \<^bold>\<open>Bounds.\<close> Loops of C are structural recursions, or have a measure (the probe loop of the table, whose step count is
  below the table size), or are partial functions where the memory of a queue decides whether they end (the drain of
  the graphics client, the read loop of an ioctl), with a proof that they return on queues in order. There is no
  fuel, and the only relation that may run forever is that of \<open>HwfSpin\<close>, whose property of liveness is about infinite
  runs, under the fairness that \<open>threads_fair\<close> states. The sum of all sizes in the layout is 32 bits wide and the driver does
  not check it for overflow: \<open>fits\<close> and \<open>layout_bytes\<close> state where the layout needs this.
  Loops over client masks go over the 64 bits of the mask; the doorbell loop over the bits that its shift of a 32-bit
  constant can reach, and beyond them C is undefined, which is \<open>None\<close>. Client ids are assumed to be below 64 where a
  property needs it (\<open>driver_inv\<close>): nothing in the code ensures it, and a reset of a client beyond it shifts too far.

  \<^bold>\<open>Not modelled.\<close> Printing everywhere, except for how much of the table a dump shows; mutexes, spinlocks of the kernel,
  preemption and memory barriers, for each exported function runs as one step; the build for the simulator and the
  x86 build; registration with the kernel's driver core, except where its failure is handled. The build
  configuration is aarch64 with \<open>CONFIG_DEBUG_FS\<close> and \<open>HW_DPU_IPCC\<close>, without \<open>HWFENCE_USE_SLEEP_TIMER\<close> and \<open>CTL_START_SIM\<close>.
\<close>

end
